(* ===== verification/Prelude.thy ===== *)
theory Prelude
  imports Main "HOL-Library.Word"
begin

unbundle bit_operations_syntax

text \<open>
  Shared ground of the development.

  \<^item> Types: bytes and the unsigned machine integers of the sources.
  \<^item> Failures: a C or C++ program that dereferences a null pointer, leaves a buffer or
    frees a block twice has no defined behaviour. The models return such an event as a
    value of \<open>c_err\<close> in the left summand of a sum, so that "no undefined behaviour"
    is a statement about values. \<open>bind_err\<close> sequences such computations.
  \<^item> Buffers: \<open>mem_read\<close> and \<open>mem_write\<close> are \<open>memcpy\<close> from and to an array of
    fixed size, failing outside of it; \<open>c_strlen\<close> is \<open>strlen\<close> on such an array.
  \<^item> Byte order: \<open>htons\<close>/\<open>ntohs\<close> and the representation of a 16-bit value in
    memory, for both kinds of host.
  \<^item> Library facts on lists, words and these operations, collected in
    \<open>err_simps\<close> and \<open>mem_simps\<close>.
\<close>

named_theorems err_simps \<open>unfolding of the error monad\<close>
named_theorems mem_simps \<open>reads and writes of fixed-size buffers\<close>

section \<open>Types and failures\<close>

type_synonym byte = "8 word"
type_synonym u16 = "16 word"
type_synonym u32 = "32 word"
type_synonym bytes = "byte list"

datatype c_err =
    NullDeref            \<comment> \<open>null pointer dereference\<close>
  | OutOfBounds nat      \<comment> \<open>read or write outside an object, at this offset\<close>
  | BadFree nat          \<comment> \<open>free or delete of a block that is not live\<close>
  | Uninit nat           \<comment> \<open>use of an indeterminate value\<close>

type_synonym 'a c_res = "c_err + 'a"

definition bind_err :: "'a c_res \<Rightarrow> ('a \<Rightarrow> 'b c_res) \<Rightarrow> 'b c_res" where
  "bind_err m f = (case m of Inl e \<Rightarrow> Inl e | Inr a \<Rightarrow> f a)"

lemma bind_err_Inl [simp, err_simps]: "bind_err (Inl e) f = Inl e"
  by (simp add: bind_err_def)

lemma bind_err_Inr [simp, err_simps]: "bind_err (Inr a) f = f a"
  by (simp add: bind_err_def)

lemma bind_err_eq_Inr: "bind_err m f = Inr b \<longleftrightarrow> (\<exists>a. m = Inr a \<and> f a = Inr b)"
  by (cases m) auto

lemma bind_err_eq_Inl:
  "bind_err m f = Inl e \<longleftrightarrow> m = Inl e \<or> (\<exists>a. m = Inr a \<and> f a = Inl e)"
  by (cases m) auto

lemma bind_err_cong [fundef_cong]:
  "m = m' \<Longrightarrow> (\<And>a. m' = Inr a \<Longrightarrow> f a = g a) \<Longrightarrow> bind_err m f = bind_err m' g"
  by (cases m') auto

text \<open>
  A computation that may also not return: \<open>None\<close>. \<open>bind_run\<close> sequences it.
\<close>

type_synonym 'a c_run = "'a c_res option"

definition bind_run :: "'a c_run \<Rightarrow> ('a \<Rightarrow> 'b c_run) \<Rightarrow> 'b c_run" where
  "bind_run m f = (case m of None \<Rightarrow> None | Some (Inl e) \<Rightarrow> Some (Inl e) | Some (Inr a) \<Rightarrow> f a)"

lemma bind_run_simps [simp, err_simps]:
  "bind_run None f = None"
  "bind_run (Some (Inl e)) f = Some (Inl e)"
  "bind_run (Some (Inr a)) f = f a"
  by (simp_all add: bind_run_def)

section \<open>Buffers of fixed size\<close>

definition mem_get :: "'a list \<Rightarrow> nat \<Rightarrow> 'a c_res" where
  "mem_get buf i = (if i < length buf then Inr (buf ! i) else Inl (OutOfBounds i))"

definition mem_read :: "'a list \<Rightarrow> nat \<Rightarrow> nat \<Rightarrow> 'a list c_res" where
  "mem_read buf off n =
     (if off + n \<le> length buf then Inr (take n (drop off buf)) else Inl (OutOfBounds (off + n)))"

definition mem_write :: "'a list \<Rightarrow> nat \<Rightarrow> 'a list \<Rightarrow> 'a list c_res" where
  "mem_write buf off bs =
     (if off + length bs \<le> length buf
      then Inr (take off buf @ bs @ drop (off + length bs) buf)
      else Inl (OutOfBounds (off + length bs)))"

lemma mem_get_append1 [mem_simps]: "i < length xs \<Longrightarrow> mem_get (xs @ ys) i = Inr (xs ! i)"
  by (simp add: mem_get_def nth_append)

lemma mem_get_append2 [mem_simps]:
  "i < length ys \<Longrightarrow> mem_get (xs @ ys) (length xs + i) = Inr (ys ! i)"
  by (simp add: mem_get_def nth_append)

lemma mem_get_mid [mem_simps]: "mem_get (xs @ y # ys) (length xs) = Inr y"
  by (simp add: mem_get_def)

lemma mem_read_mid [mem_simps]: "n = length ys \<Longrightarrow> mem_read (xs @ ys @ zs) (length xs) n = Inr ys"
  by (simp add: mem_read_def)

lemma mem_read_length: "mem_read buf off n = Inr bs \<Longrightarrow> length bs = n"
  by (auto simp: mem_read_def split: if_splits)

lemma mem_write_length: "mem_write buf off bs = Inr buf' \<Longrightarrow> length buf' = length buf"
  by (auto simp: mem_write_def split: if_splits)

lemma mem_write_mid [mem_simps]:
  "length ys = length bs \<Longrightarrow> mem_write (xs @ ys @ zs) (length xs) bs = Inr (xs @ bs @ zs)"
  by (simp add: mem_write_def)

lemma mem_write_read: "mem_write buf off bs = Inr buf' \<Longrightarrow> mem_read buf' off (length bs) = Inr bs"
  by (auto simp: mem_write_def mem_read_def split: if_splits)

lemma mem_write_defined: "off + length bs \<le> length buf \<Longrightarrow> \<exists>buf'. mem_write buf off bs = Inr buf'"
  by (simp add: mem_write_def)

text \<open>\<open>strlen\<close>: the distance to the first zero byte; without one it leaves the array.\<close>

definition c_strlen :: "bytes \<Rightarrow> nat c_res" where
  "c_strlen buf = (let n = length (takeWhile (\<lambda>b. b \<noteq> 0) buf)
                   in if n < length buf then Inr n else Inl (OutOfBounds n))"

lemma length_takeWhile_less_iff: "length (takeWhile P xs) < length xs \<longleftrightarrow> (\<exists>x\<in>set xs. \<not> P x)"
  by (induction xs) auto

lemma c_strlen_if:
  "c_strlen x = (if 0 \<in> set x then Inr (length (takeWhile (\<lambda>b. b \<noteq> 0) x)) else Inl (OutOfBounds (length x)))"
proof (cases "0 \<in> set x")
  case True
  then show ?thesis using length_takeWhile_less_iff [of "\<lambda>b. b \<noteq> 0" x] by (auto simp: c_strlen_def Let_def)
next
  case False
  then have "length (takeWhile (\<lambda>b. b \<noteq> 0) x) = length x"
    by (metis (mono_tags, lifting) takeWhile_eq_all_conv)
  then show ?thesis using False by (simp add: c_strlen_def Let_def)
qed

lemma c_strlen_mid [mem_simps]: "0 \<notin> set xs \<Longrightarrow> c_strlen (xs @ 0 # ys) = Inr (length xs)"
proof -
  assume "0 \<notin> set xs"
  then have "takeWhile (\<lambda>b. b \<noteq> 0) (xs @ 0 # ys) = xs"
    by (subst takeWhile_append2) auto
  then show ?thesis by (simp add: c_strlen_def Let_def)
qed

section \<open>Lists of rows of one length\<close>

lemma length_concat_uniform:
  "(\<And>xs. xs \<in> set xss \<Longrightarrow> length xs = k) \<Longrightarrow> length (concat xss) = length xss * k"
  by (induction xss) auto

lemma nth_concat_uniform:
  assumes "\<And>xs. xs \<in> set xss \<Longrightarrow> length xs = k" "i < length xss" "j < k"
  shows "concat xss ! (i * k + j) = xss ! i ! j"
  using assms
proof (induction xss arbitrary: i)
  case Nil then show ?case by simp
next
  case (Cons xs xss) then show ?case by (cases i) (auto simp: nth_append)
qed

lemma concat_update_uniform:
  assumes "\<And>xs. xs \<in> set xss \<Longrightarrow> length xs = k" "i < length xss" "j < k"
  shows "(concat xss)[i * k + j := x] = concat (xss[i := (xss ! i)[j := x]])"
  using assms
proof (induction xss arbitrary: i)
  case Nil then show ?case by simp
next
  case (Cons xs xss) then show ?case by (cases i) (auto simp: list_update_append)
qed

section \<open>Decimal output\<close>

text \<open>\<open>%d\<close> and \<open>atoi\<close> on digits.\<close>

definition digit_char :: "nat \<Rightarrow> char" where
  "digit_char d = char_of (48 + d)"

fun show_nat :: "nat \<Rightarrow> string" where
  "show_nat n = (if n < 10 then [digit_char n] else show_nat (n div 10) @ [digit_char (n mod 10)])"

declare show_nat.simps [simp del]

definition show_int :: "int \<Rightarrow> string" where
  "show_int i = (if i < 0 then CHR ''-'' # show_nat (nat (- i)) else show_nat (nat i))"

definition digits_val :: "string \<Rightarrow> nat" where
  "digits_val cs = foldl (\<lambda>v c. 10 * v + (of_char c - 48)) 0 cs"

lemma digit_char_val: "d < 10 \<Longrightarrow> (of_char (digit_char d) :: nat) - 48 = d"
  by (simp add: digit_char_def)

lemma digits_val_show_nat: "digits_val (show_nat n) = n"
proof (induction n rule: show_nat.induct)
  case (1 n)
  show ?case
  proof (cases "n < 10")
    case True
    then show ?thesis by (subst show_nat.simps) (simp add: digits_val_def digit_char_val)
  next
    case False
    then have "digits_val (show_nat n) = 10 * digits_val (show_nat (n div 10)) + n mod 10"
      by (subst show_nat.simps) (simp add: digits_val_def digit_char_val)
    then show ?thesis using 1 False by simp
  qed
qed

lemma length_show_nat_le: "n < 10 ^ k \<Longrightarrow> 0 < k \<Longrightarrow> length (show_nat n) \<le> k"
proof (induction n arbitrary: k rule: show_nat.induct)
  case (1 n)
  show ?case
  proof (cases "n < 10")
    case True then show ?thesis using 1(3) by (subst show_nat.simps) simp
  next
    case False
    have "k \<noteq> 1" using False 1(2) by auto
    then obtain j where j: "k = Suc j" "0 < j" using 1(3) by (cases k) auto
    then have "n div 10 < 10 ^ j" using 1(2) by (simp add: less_mult_imp_div_less mult.commute)
    then show ?thesis using 1(1) [OF False _ j(2)] j False by (subst show_nat.simps) simp
  qed
qed

section \<open>Answers of the kernel\<close>

text \<open>
  What \<open>read\<close>/\<open>recv\<close> answers: the bytes it stored, none of them at the end of the stream, or
  -1 and \<open>errno\<close>. The interest flags are those of Linux's \<open>epoll\<close>.
\<close>

datatype recv_res = RecvBytes bytes | RecvError int

text \<open>The result of code that may end the process: the exit code, or what it returns.\<close>

datatype 'a exitable = Exited int | Returned 'a

definition EPOLLIN :: u32 where "EPOLLIN = 1"
definition EPOLLOUT :: u32 where "EPOLLOUT = 4"

lemma epoll_flags [simp]:
  "EPOLLIN \<noteq> 0" "EPOLLOUT \<noteq> 0" "EPOLLOUT AND EPOLLIN = 0" "EPOLLIN AND EPOLLOUT = 0"
  by (simp_all add: EPOLLIN_def EPOLLOUT_def)

section \<open>Byte order\<close>

datatype endian = LittleEndian | BigEndian

definition hi8 :: "u16 \<Rightarrow> byte" where
  "hi8 w = ucast (drop_bit 8 w)"

definition lo8 :: "u16 \<Rightarrow> byte" where
  "lo8 w = ucast w"

definition u16_of :: "byte \<Rightarrow> byte \<Rightarrow> u16" where
  "u16_of h l = push_bit 8 (ucast h) OR ucast l"

definition bswap16 :: "u16 \<Rightarrow> u16" where
  "bswap16 w = u16_of (lo8 w) (hi8 w)"

definition htons :: "endian \<Rightarrow> u16 \<Rightarrow> u16" where
  "htons e w = (case e of LittleEndian \<Rightarrow> bswap16 w | BigEndian \<Rightarrow> w)"

definition ntohs :: "endian \<Rightarrow> u16 \<Rightarrow> u16" where
  "ntohs e w = htons e w"

text \<open>The two bytes of an \<open>unsigned short\<close> in memory, and back.\<close>

definition store16 :: "endian \<Rightarrow> u16 \<Rightarrow> bytes" where
  "store16 e w = (case e of LittleEndian \<Rightarrow> [lo8 w, hi8 w] | BigEndian \<Rightarrow> [hi8 w, lo8 w])"

definition load16 :: "endian \<Rightarrow> byte \<Rightarrow> byte \<Rightarrow> u16" where
  "load16 e a b = (case e of LittleEndian \<Rightarrow> u16_of b a | BigEndian \<Rightarrow> u16_of a b)"

lemma bit_u16_of: "bit (u16_of h l) n = (if n < 8 then bit l n else n < 16 \<and> bit h (n - 8))"
  by (auto simp: u16_of_def bit_simps not_less dest: bit_imp_le_length)

lemma u16_of_hi_lo [simp]: "u16_of (hi8 w) (lo8 w) = w"
  by (rule bit_word_eqI) (auto simp: bit_u16_of hi8_def lo8_def bit_simps)

lemma hi8_u16_of [simp]: "hi8 (u16_of h l) = h"
  by (rule bit_word_eqI) (auto simp: bit_u16_of hi8_def bit_simps)

lemma lo8_u16_of [simp]: "lo8 (u16_of h l) = l"
  by (rule bit_word_eqI) (auto simp: bit_u16_of lo8_def bit_simps)

lemma bswap16_bswap16 [simp]: "bswap16 (bswap16 w) = w"
  by (simp add: bswap16_def)

lemma ntohs_htons [simp]: "ntohs e (htons e w) = w"
  by (cases e) (simp_all add: ntohs_def htons_def)

lemma store16_htons [simp]: "store16 e (htons e w) = [hi8 w, lo8 w]"
  by (cases e) (simp_all add: store16_def htons_def bswap16_def)

lemma ntohs_load16 [simp]: "ntohs e (load16 e a b) = u16_of a b"
  by (cases e) (simp_all add: ntohs_def htons_def load16_def bswap16_def)

lemma htons_load16 [simp]: "htons e (load16 e a b) = u16_of a b"
  using ntohs_load16 [of e a b] by (simp add: ntohs_def)

lemma length_store16 [simp]: "length (store16 e w) = 2"
  by (cases e) (simp_all add: store16_def)

lemma store16_0 [simp]: "store16 e 0 = [0, 0]"
  by (cases e) (simp_all add: store16_def hi8_def lo8_def)

lemma inj_of_char_byte: "inj (of_char :: char \<Rightarrow> byte)"
proof (rule injI)
  fix c d :: char
  assume "(of_char c :: byte) = of_char d"
  then have "(of_nat (of_char c) :: byte) = of_nat (of_char d)" by (simp only: of_nat_of_char)
  then have "unat (of_nat (of_char c) :: byte) = unat (of_nat (of_char d) :: byte)" by (rule arg_cong)
  then have "(of_char c :: nat) mod 256 = of_char d mod 256" by (simp only: unat_of_nat) simp
  then show "c = d" by simp
qed

lemma of_char_byte_zero: "(of_char c :: byte) = 0 \<longleftrightarrow> c = CHR 0x00"
  using inj_eq [OF inj_of_char_byte, of c "CHR 0x00"] by simp

end
