(* ===== verification/Dns.thy ===== *)
theory Dns
  imports Prelude
begin

text \<open>
  The DNS client of \<open>src/network/dns/sync_dns_client.cpp\<close> (the asynchronous client
  repeats these functions word for word): building a query from a host name and parsing
  the response.

  \<^item> \<open>dns_create_header\<close>, \<open>dns_create_question\<close> and \<open>dns_build_request\<close> write the
    query; the memory \<open>malloc\<close> returns is a parameter, so its stale contents are visible.
  \<^item> \<open>dns_parse_name\<close> is the loop that follows labels and compression pointers; it may
    run forever, so it is a partial function. \<open>dns_parse_response\<close> walks the questions
    and the answers. Every access to a buffer is checked, so a run that leaves a buffer is
    the value \<open>Inl (OutOfBounds _)\<close>.
\<close>

unbundle bit_operations_syntax

section \<open>Data\<close>

record dns_header =
  h_id :: u16
  h_flags :: u16
  h_qdcount :: u16
  h_ancount :: u16
  h_nscount :: u16
  h_arcount :: u16

record dns_question =
  q_length :: int
  q_qtype :: u16
  q_qclass :: u16
  q_qname :: "bytes option"   \<comment> \<open>\<open>None\<close>: the null pointer\<close>

record dns_item =
  d_domain :: bytes
  d_ip :: bytes

definition DNS_HOST :: u16 where
  "DNS_HOST = 0x01"

definition DNS_CNAME :: u16 where
  "DNS_CNAME = 0x05"

section \<open>Building a query\<close>

text \<open>
  \<open>rnd\<close> is the value of \<open>random()\<close>. The statement \<open>header->flags != htons(0x0100);\<close>
  is a comparison whose value is dropped: the flags stay as \<open>memset\<close> left them.
\<close>

definition dns_create_header :: "endian \<Rightarrow> int \<Rightarrow> dns_header option \<Rightarrow> int \<times> dns_header option" where
  "dns_create_header e rnd header =
     (case header of
        None \<Rightarrow> (-1, None)
      | Some _ \<Rightarrow>
          (0, Some \<lparr>h_id = word_of_int rnd, h_flags = 0, h_qdcount = htons e 1,
                    h_ancount = 0, h_nscount = 0, h_arcount = 0\<rparr>))"

text \<open>The tokens \<open>strtok\<close> yields one after another, for one delimiter byte.\<close>

function strtok_tokens :: "'a \<Rightarrow> 'a list \<Rightarrow> 'a list list" where
  "strtok_tokens d s =
     (let s' = dropWhile (\<lambda>b. b = d) s
      in if s' = [] then []
         else takeWhile (\<lambda>b. b \<noteq> d) s' # strtok_tokens d (dropWhile (\<lambda>b. b \<noteq> d) s'))"
  by pat_completeness auto

lemma dropWhile_dropWhile_shorter:
  "dropWhile (\<lambda>b. b = d) s \<noteq> [] \<Longrightarrow>
   length (dropWhile (\<lambda>b. b \<noteq> d) (dropWhile (\<lambda>b. b = d) s)) < length s"
proof -
  assume ne: "dropWhile (\<lambda>b. b = d) s \<noteq> []"
  then obtain x xs where s': "dropWhile (\<lambda>b. b = d) s = x # xs" by (cases "dropWhile (\<lambda>b. b = d) s") auto
  have "x \<noteq> d" using hd_dropWhile [OF ne] s' by simp
  then have "dropWhile (\<lambda>b. b \<noteq> d) (x # xs) = dropWhile (\<lambda>b. b \<noteq> d) xs" by simp
  moreover have "length (dropWhile (\<lambda>b. b \<noteq> d) xs) \<le> length xs" by (rule length_dropWhile_le)
  moreover have "length (x # xs) \<le> length s" using length_dropWhile_le [of "\<lambda>b. b = d" s] s' by simp
  ultimately show ?thesis using s' by simp
qed

termination strtok_tokens
  by (relation "measure (\<lambda>(d, s). length s)") (auto intro: dropWhile_dropWhile_shorter)

declare strtok_tokens.simps [simp del]

definition dot :: byte where
  "dot = 0x2E"

text \<open>
  The loop of \<open>dns_create_question\<close>: a length byte, then the token with its terminating
  zero (\<open>strncpy(qname_p, token, len + 1)\<close>), which the next length byte overwrites.
\<close>

fun write_labels :: "bytes \<Rightarrow> nat \<Rightarrow> bytes list \<Rightarrow> bytes c_res" where
  "write_labels buf p [] = Inr buf"
| "write_labels buf p (token # tokens) =
     bind_err (mem_write buf p [of_nat (length token)]) (\<lambda>buf1.
     bind_err (mem_write buf1 (p + 1) (token @ [0])) (\<lambda>buf2.
     write_labels buf2 (p + 1 + length token) tokens))"

text \<open>
  \<open>mal n\<close> is what \<open>malloc(n)\<close> returns, with the block's stale contents; \<open>dup\<close> says
  whether \<open>strdup\<close> succeeds, whose result is passed on unchecked.
\<close>

definition dns_create_question ::
    "endian \<Rightarrow> (nat \<Rightarrow> bytes option) \<Rightarrow> bool \<Rightarrow> dns_question option \<Rightarrow> bytes
      \<Rightarrow> (int \<times> dns_question option) c_res" where
  "dns_create_question e mal dup question hostname =
     (case question of
        None \<Rightarrow> Inr (-1, None)
      | Some _ \<Rightarrow>
          (case mal (length hostname + 2) of
             None \<Rightarrow> Inr (-2, Some \<lparr>q_length = 0, q_qtype = 0, q_qclass = 0, q_qname = None\<rparr>)
           | Some buf \<Rightarrow>
               if \<not> dup then Inl NullDeref
               else bind_err (write_labels buf 0 (strtok_tokens dot hostname)) (\<lambda>qname.
                    Inr (0, Some \<lparr>q_length = int (length hostname) + 2, q_qtype = htons e 1,
                                  q_qclass = htons e 1, q_qname = Some qname\<rparr>))))"

text \<open>The six 16-bit fields of the header as they lie in memory (there is no padding).\<close>

definition header_bytes :: "endian \<Rightarrow> dns_header \<Rightarrow> bytes" where
  "header_bytes e h =
     store16 e (h_id h) @ store16 e (h_flags h) @ store16 e (h_qdcount h) @
     store16 e (h_ancount h) @ store16 e (h_nscount h) @ store16 e (h_arcount h)"

definition dns_build_request ::
    "endian \<Rightarrow> dns_header \<Rightarrow> dns_question \<Rightarrow> bytes \<Rightarrow> (int \<times> bytes) c_res" where
  "dns_build_request e header question request =
     (let header_s = 12; question_s = q_length question + 2 + 2; len = question_s + header_s in
      bind_err (mem_write request 0 (header_bytes e header)) (\<lambda>r1.
      case q_qname question of
        None \<Rightarrow> Inl NullDeref
      | Some qname \<Rightarrow>
          bind_err (mem_read qname 0 (nat (q_length question))) (\<lambda>qn.
          bind_err (mem_write r1 12 qn) (\<lambda>r2.
          bind_err (mem_write r2 (12 + nat (q_length question)) (store16 e (q_qtype question))) (\<lambda>r3.
          bind_err (mem_write r3 (12 + nat (q_length question) + 2) (store16 e (q_qclass question))) (\<lambda>r4.
          Inr (len, r4)))))))"

section \<open>Parsing a response\<close>

definition is_pointer :: "int \<Rightarrow> bool" where
  "is_pointer i \<longleftrightarrow> i AND 0xC0 = 0xC0"

text \<open>
  One label of \<open>dns_parse_name\<close>, with \<open>f\<close> the length byte at \<open>ptr\<close>: copy the label
  behind what is in \<open>out\<close> already, then a dot unless the name ends here.
\<close>

definition parse_label :: "bytes \<Rightarrow> nat \<Rightarrow> nat \<Rightarrow> bytes \<Rightarrow> nat \<Rightarrow> (nat \<times> bytes \<times> nat) c_res" where
  "parse_label chunk ptr f out len =
     bind_err (mem_read chunk (ptr + 1) f) (\<lambda>label.
     bind_err (mem_write out len label) (\<lambda>out1.
     bind_err (mem_get chunk (ptr + 1 + f)) (\<lambda>nxt.
     if nxt \<noteq> 0
     then bind_err (mem_write out1 (len + f) [dot]) (\<lambda>out2. Inr (ptr + 1 + f, out2, len + f + 1))
     else Inr (ptr + 1 + f, out1, len + f))))"

partial_function (option) dns_parse_name :: "bytes \<Rightarrow> nat \<Rightarrow> bytes \<Rightarrow> nat \<Rightarrow> (bytes \<times> nat) c_run" where
  "dns_parse_name chunk ptr out len =
     (case mem_get chunk ptr of
        Inl e \<Rightarrow> Some (Inl e)
      | Inr flag \<Rightarrow>
          if flag = 0 then Some (Inr (out, len))
          else if is_pointer (uint flag) then
            (case mem_get chunk (ptr + 1) of
               Inl e \<Rightarrow> Some (Inl e)
             | Inr n \<Rightarrow> dns_parse_name chunk (unat n) out len)
          else
            (case parse_label chunk ptr (unat flag) out len of
               Inl e \<Rightarrow> Some (Inl e)
             | Inr r \<Rightarrow> dns_parse_name chunk (fst r) (fst (snd r)) (snd (snd r))))"

definition read16 :: "endian \<Rightarrow> bytes \<Rightarrow> nat \<Rightarrow> u16 c_res" where
  "read16 e buf p =
     bind_err (mem_get buf p) (\<lambda>a. bind_err (mem_get buf (p + 1)) (\<lambda>b. Inr (ntohs e (load16 e a b))))"

text \<open>Skipping the name of a question: every step advances by at least one byte.\<close>

function skip_name :: "bytes \<Rightarrow> nat \<Rightarrow> nat c_res" where
  "skip_name buf ptr =
     (if ptr < length buf
      then (if buf ! ptr = 0 then Inr (ptr + 1)
            else skip_name buf (ptr + (unat (buf ! ptr) + 1)))
      else Inl (OutOfBounds ptr))"
  by pat_completeness auto
termination
  by (relation "measure (\<lambda>(buf, ptr). length buf - ptr)") auto

declare skip_name.simps [simp del]

fun skip_queries :: "bytes \<Rightarrow> nat \<Rightarrow> nat \<Rightarrow> nat c_res" where
  "skip_queries buf 0 ptr = Inr ptr"
| "skip_queries buf (Suc n) ptr = bind_err (skip_name buf ptr) (\<lambda>p. skip_queries buf n (p + 4))"

text \<open>\<open>inet_ntop(AF_INET, ...)\<close>: dotted decimal.\<close>

fun dec_digits :: "nat \<Rightarrow> bytes" where
  "dec_digits n = (if n < 10 then [of_nat (48 + n)] else dec_digits (n div 10) @ [of_nat (48 + n mod 10)])"

declare dec_digits.simps [simp del]

definition ntop4 :: "bytes \<Rightarrow> bytes" where
  "ntop4 a = dec_digits (unat (a ! 0)) @ [dot] @ dec_digits (unat (a ! 1)) @ [dot] @
             dec_digits (unat (a ! 2)) @ [dot] @ dec_digits (unat (a ! 3))"

text \<open>What the loop prints for an address: the name, the address, minutes and seconds.\<close>

record dns_print =
  p_name :: bytes
  p_ip :: bytes
  p_minutes :: nat
  p_seconds :: nat

text \<open>
  The branch for an address record. \<open>al k\<close> says whether the \<open>k\<close>-th \<open>calloc\<close>
  succeeds; the two of an item are unchecked. \<open>aname\<close> is the 128-byte array.
\<close>

definition store_address ::
    "(nat \<Rightarrow> bool) \<Rightarrow> bytes \<Rightarrow> bytes \<Rightarrow> nat \<Rightarrow> dns_item list \<times> dns_print list
      \<Rightarrow> (dns_item list \<times> dns_print list) c_res" where
  "store_address al aname ip ttl acc =
     (let cnt = length (fst acc) in
      bind_err (c_strlen aname) (\<lambda>n.
      if al (2 * cnt + 1) \<and> al (2 * cnt + 2)
      then Inr (fst acc @ [\<lparr>d_domain = take n aname, d_ip = ip\<rparr>],
                snd acc @ [\<lparr>p_name = take n aname, p_ip = ip, p_minutes = ttl div 60, p_seconds = ttl mod 60\<rparr>])
      else Inl NullDeref))"

text \<open>One answer: its name (always skipped as two bytes), type, class, ttl, length, data.\<close>

definition parse_answer ::
    "endian \<Rightarrow> (nat \<Rightarrow> bool) \<Rightarrow> bytes \<Rightarrow> nat \<Rightarrow> dns_item list \<times> dns_print list
      \<Rightarrow> (nat \<times> (dns_item list \<times> dns_print list)) c_run" where
  "parse_answer e al buf ptr acc =
     bind_run (dns_parse_name buf ptr (replicate 128 0) 0) (\<lambda>(aname, len).
     bind_run (Some (read16 e buf (ptr + 2))) (\<lambda>type.
     bind_run (Some (read16 e buf (ptr + 4))) (\<lambda>qclass.
     bind_run (Some (read16 e buf (ptr + 6))) (\<lambda>ttl.
     bind_run (Some (read16 e buf (ptr + 10))) (\<lambda>datalen.
     if type = DNS_CNAME then
       bind_run (dns_parse_name buf (ptr + 12) (replicate 128 0) 0) (\<lambda>(cname, len).
       Some (Inr (ptr + 12 + unat datalen, acc)))
     else if type = DNS_HOST then
       (if datalen = 4 then
          bind_run (Some (mem_read buf (ptr + 12) 4)) (\<lambda>netip.
          bind_run (Some (store_address al aname (ntop4 netip) (unat ttl) acc)) (\<lambda>acc'.
          Some (Inr (ptr + 12 + unat datalen, acc'))))
        else Some (Inr (ptr + 12 + unat datalen, acc)))
     else Some (Inr (ptr + 12, acc)))))))"

fun parse_answers ::
    "endian \<Rightarrow> (nat \<Rightarrow> bool) \<Rightarrow> bytes \<Rightarrow> nat \<Rightarrow> nat \<Rightarrow> dns_item list \<times> dns_print list
      \<Rightarrow> (dns_item list \<times> dns_print list) c_run" where
  "parse_answers e al buf 0 ptr acc = Some (Inr acc)"
| "parse_answers e al buf (Suc n) ptr acc =
     bind_run (parse_answer e al buf ptr acc) (\<lambda>(ptr', acc'). parse_answers e al buf n ptr' acc')"

text \<open>The result: the return value, the list stored through \<open>domains\<close>, and what was printed.\<close>

definition dns_parse_response ::
    "endian \<Rightarrow> (nat \<Rightarrow> bool) \<Rightarrow> bytes \<Rightarrow> (int \<times> dns_item list \<times> dns_print list) c_run" where
  "dns_parse_response e al buffer =
     bind_run (Some (read16 e buffer 4)) (\<lambda>querys.
     bind_run (Some (read16 e buffer 6)) (\<lambda>answers.
     bind_run (Some (skip_queries buffer (unat querys) 12)) (\<lambda>ptr.
     if \<not> al 0 then Some (Inr (-1, [], []))
     else bind_run (parse_answers e al buffer (unat answers) ptr ([], [])) (\<lambda>(items, prints).
          Some (Inr (int (length items), items, prints))))))"

section \<open>One resolution\<close>

text \<open>
  What the environment answers in one call of \<open>dns_client_commit\<close>: the results of the
  system calls and of the allocator. \<open>e_recv\<close> is the datagram received, \<open>None\<close> when
  \<open>recvfrom\<close> fails.
\<close>

record dns_env =
  e_socket :: int
  e_connect :: int
  e_random :: int
  e_malloc :: "nat \<Rightarrow> bytes option"
  e_strdup :: bool
  e_calloc :: "nat \<Rightarrow> bool"
  e_recv :: "bytes option"

datatype dns_event =
    EvSocket int
  | EvConnect int
  | EvSendto bytes
  | EvRecvfrom
  | EvReport "dns_print list"
  | EvClose int

text \<open>
  \<open>recvfrom\<close> fills the zeroed 1024-byte buffer from its start; its result is not checked,
  nor are those of the other calls but \<open>socket\<close>.
\<close>

definition recv_buffer :: "nat \<Rightarrow> bytes option \<Rightarrow> bytes" where
  "recv_buffer n r = (case r of None \<Rightarrow> replicate n 0
                             | Some d \<Rightarrow> take n d @ replicate (n - length (take n d)) 0)"

definition zero_header :: dns_header where
  "zero_header = \<lparr>h_id = 0, h_flags = 0, h_qdcount = 0, h_ancount = 0, h_nscount = 0, h_arcount = 0\<rparr>"

definition zero_question :: dns_question where
  "zero_question = \<lparr>q_length = 0, q_qtype = 0, q_qclass = 0, q_qname = None\<rparr>"

text \<open>The query of one resolution: header, question and request as both clients build them.\<close>

definition make_query ::
    "endian \<Rightarrow> int \<Rightarrow> (nat \<Rightarrow> bytes option) \<Rightarrow> bool \<Rightarrow> bytes \<Rightarrow> (int \<times> bytes) c_res" where
  "make_query e rnd mal dup domain =
     bind_err (dns_create_question e mal dup (Some zero_question) domain) (\<lambda>(ret, q).
     case (snd (dns_create_header e rnd (Some zero_header)), q) of
       (Some header, Some question) \<Rightarrow> dns_build_request e header question (replicate 1024 0)
     | _ \<Rightarrow> Inl NullDeref)"

definition dns_client_commit ::
    "endian \<Rightarrow> dns_env \<Rightarrow> bytes \<Rightarrow> (int exitable \<times> dns_event list) c_run" where
  "dns_client_commit e env domain =
     (let sockfd = e_socket env in
      if sockfd < 0 then Some (Inr (Exited (-1), [EvSocket sockfd]))
      else
        bind_run (Some (make_query e (e_random env) (e_malloc env) (e_strdup env) domain)) (\<lambda>(req_len, request).
        bind_run (Some (mem_read request 0 (nat req_len))) (\<lambda>datagram.
        bind_run (dns_parse_response e (e_calloc env) (recv_buffer 1024 (e_recv env))) (\<lambda>(cnt, items, prints).
        Some (Inr (Returned 0,
          [EvSocket sockfd, EvConnect (e_connect env), EvSendto datagram, EvRecvfrom,
           EvReport prints, EvClose sockfd]))))))"

text \<open>The names the programs resolve.\<close>

definition bytes_of :: "string \<Rightarrow> bytes" where
  "bytes_of s = map of_char s"

definition domain_table :: "string list" where
  "domain_table =
     [''www.baidu.com'', ''tieba.baidu.com'', ''news.baidu.com'', ''zhidao.baidu.com'',
      ''music.baidu.com'', ''image.baidu.com'', ''v.baidu.com'', ''map.baidu.com'',
      ''baijiahao.baidu.com'', ''xueshu.baidu.com'', ''cloud.baidu.com'', ''www.163.com'',
      ''open.163.com'', ''auto.163.com'', ''gov.163.com'', ''money.163.com'', ''sports.163.com'',
      ''tech.163.com'', ''edu.163.com'', ''www.taobao.com'', ''q.taobao.com'', ''sf.taobao.com'',
      ''yun.taobao.com'', ''baoxian.taobao.com'', ''www.tmall.com'', ''suning.tmall.com'',
      ''www.tencent.com'', ''www.qq.com'', ''www.aliyun.com'', ''www.ctrip.com'',
      ''hotels.ctrip.com'', ''hotels.ctrip.com'', ''vacations.ctrip.com'', ''flights.ctrip.com'',
      ''trains.ctrip.com'', ''bus.ctrip.com'', ''car.ctrip.com'', ''piao.ctrip.com'',
      ''tuan.ctrip.com'', ''you.ctrip.com'', ''g.ctrip.com'', ''lipin.ctrip.com'', ''ct.ctrip.com'']"

section \<open>Host names and their wire format\<close>

text \<open>
  The specification side: a host name is a non-empty list of labels joined by dots, its
  wire format (RFC 1035, 3.1) is each label behind its length, then a zero byte.
\<close>

fun join_dots :: "bytes list \<Rightarrow> bytes" where
  "join_dots [] = []"
| "join_dots [l] = l"
| "join_dots (l # ls) = l @ dot # join_dots ls"

fun wire_name :: "bytes list \<Rightarrow> bytes" where
  "wire_name [] = [0]"
| "wire_name (l # ls) = of_nat (length l) # l @ wire_name ls"

definition wf_label :: "bytes \<Rightarrow> bool" where
  "wf_label l \<longleftrightarrow> l \<noteq> [] \<and> length l \<le> 63 \<and> dot \<notin> set l \<and> 0 \<notin> set l"

definition wf_labels :: "bytes list \<Rightarrow> bool" where
  "wf_labels ls \<longleftrightarrow> ls \<noteq> [] \<and> list_all wf_label ls"

lemma length_wire_name_pos: "0 < length (wire_name ls)"
  by (cases ls) auto

lemma length_wire_name: "ls \<noteq> [] \<Longrightarrow> length (wire_name ls) = length (join_dots ls) + 2"
  by (induction ls rule: join_dots.induct) auto

lemma dot_neq_0 [simp]: "dot \<noteq> 0" "0 \<noteq> dot"
  by (simp_all add: dot_def)

lemma join_dots_no_zero: "list_all wf_label ls \<Longrightarrow> 0 \<notin> set (join_dots ls)"
  by (induction ls rule: join_dots.induct) (auto simp: wf_label_def)

lemma join_dots_hd:
  "wf_labels (l # ls) \<Longrightarrow> \<exists>x xs. join_dots (l # ls) = x # xs \<and> x \<noteq> dot"
  by (cases ls; cases l) (auto simp: wf_labels_def wf_label_def)

lemma takeWhile_join_dots:
  "wf_labels (l # ls) \<Longrightarrow> takeWhile (\<lambda>b. b \<noteq> dot) (join_dots (l # ls)) = l"
  by (cases ls) (auto simp: wf_labels_def wf_label_def takeWhile_append takeWhile_eq_all_conv)

lemma dropWhile_join_dots:
  "wf_labels (l # ls) \<Longrightarrow>
   dropWhile (\<lambda>b. b \<noteq> dot) (join_dots (l # ls)) = (if ls = [] then [] else dot # join_dots ls)"
  by (cases ls) (auto simp: wf_labels_def wf_label_def dropWhile_append dropWhile_eq_Nil_conv)

lemma strtok_tokens_delims: "strtok_tokens d (d # s) = strtok_tokens d s"
  by (subst (1 2) strtok_tokens.simps) simp

lemma strtok_tokens_Nil [simp]: "strtok_tokens d [] = []"
  by (subst strtok_tokens.simps) simp

lemma strtok_tokens_join: "wf_labels ls \<Longrightarrow> strtok_tokens dot (join_dots ls) = ls"
proof (induction ls)
  case Nil
  then show ?case by (simp add: wf_labels_def)
next
  case (Cons l ls)
  obtain x xs where x: "join_dots (l # ls) = x # xs" "x \<noteq> dot"
    using join_dots_hd [OF Cons.prems] by blast
  then have dw: "dropWhile (\<lambda>b. b = dot) (join_dots (l # ls)) = join_dots (l # ls)" by simp
  have "strtok_tokens dot (join_dots (l # ls)) =
      l # strtok_tokens dot (if ls = [] then [] else dot # join_dots ls)"
    using x dw takeWhile_join_dots [OF Cons.prems] dropWhile_join_dots [OF Cons.prems]
    by (subst strtok_tokens.simps) (simp add: Let_def)
  moreover have "ls \<noteq> [] \<Longrightarrow> wf_labels ls" using Cons.prems by (simp add: wf_labels_def)
  ultimately show ?case using Cons.IH by (cases "ls = []") (simp_all add: strtok_tokens_delims)
qed

text \<open>
  The first token and what \<open>strtok\<close> goes on with: the rest begins behind one delimiter,
  or there is no rest. So the tokens of any string fit into the block allocated for them.
\<close>

lemma strtok_tokens_step:
  assumes "strtok_tokens d s \<noteq> []"
  obtains t r where "strtok_tokens d s = t # strtok_tokens d r"
    and "length t + length r < length s \<or> r = [] \<and> length t \<le> length s"
    and "length r < length s"
proof -
  define s' where "s' = dropWhile (\<lambda>b. b = d) s"
  define t where "t = takeWhile (\<lambda>b. b \<noteq> d) s'"
  define r where "r = dropWhile (\<lambda>b. b \<noteq> d) s'"
  have ne: "s' \<noteq> []" using assms by (subst (asm) strtok_tokens.simps) (auto simp: s'_def Let_def split: if_splits)
  then have eq: "strtok_tokens d s = t # strtok_tokens d r"
    by (subst strtok_tokens.simps) (simp add: Let_def s'_def t_def r_def)
  have len: "length t + length r = length s'"
    unfolding t_def r_def by (metis length_append takeWhile_dropWhile_id)
  have le: "length s' \<le> length s" unfolding s'_def by (rule length_dropWhile_le)
  have lt: "length r < length s"
    using dropWhile_dropWhile_shorter [of d s] ne by (simp add: s'_def r_def)
  show ?thesis
  proof (cases r)
    case Nil
    then show ?thesis using that [OF eq] len le lt by simp
  next
    case (Cons c cs)
    then have "c = d" using hd_dropWhile [of "\<lambda>b. b \<noteq> d" s'] by (auto simp: r_def)
    then have "strtok_tokens d s = t # strtok_tokens d cs" using eq Cons by (simp add: strtok_tokens_delims)
    then show ?thesis using that [of t cs] len le lt Cons by simp
  qed
qed

lemma length_wire_tokens: "length (wire_name (strtok_tokens d s)) \<le> length s + 2"
proof (induction s rule: length_induct)
  case (1 s)
  show ?case
  proof (cases "strtok_tokens d s = []")
    case False
    then obtain t r where tr: "strtok_tokens d s = t # strtok_tokens d r"
        "length t + length r < length s \<or> r = [] \<and> length t \<le> length s" "length r < length s"
      by (rule strtok_tokens_step)
    with 1 have "length (wire_name (strtok_tokens d r)) \<le> length r + 2" by blast
    with tr show ?thesis by auto
  qed simp
qed

section \<open>The query is the wire format of the name\<close>

lemma write_labels_wire:
  "length (wire_name ts) \<le> length mid \<Longrightarrow> ts \<noteq> [] \<Longrightarrow>
   write_labels (pre @ mid) (length pre) ts =
     Inr (pre @ wire_name ts @ drop (length (wire_name ts)) mid)"
proof (induction ts arbitrary: pre mid)
  case Nil
  then show ?case by simp
next
  case (Cons t ts)
  have "length (wire_name (t # ts)) = length t + 1 + length (wire_name ts)" by simp
  then have n1: "length t + 2 \<le> length mid"
    using Cons.prems(1) length_wire_name_pos [of ts] by linarith
  then obtain m ms where mid: "mid = m # ms" by (cases mid) auto
  let ?n = "of_nat (length t) :: byte"
  have w1: "mem_write (pre @ mid) (length pre) [?n] = Inr (pre @ ?n # ms)"
    using mem_write_mid [of "[m]" "[?n]" pre ms] by (simp add: mid)
  have ms: "ms = take (length t + 1) ms @ drop (length t + 1) ms" by simp
  have "mem_write ((pre @ [?n]) @ take (length t + 1) ms @ drop (length t + 1) ms)
      (length (pre @ [?n])) (t @ [0]) = Inr ((pre @ [?n]) @ (t @ [0]) @ drop (length t + 1) ms)"
    using n1 mid by (intro mem_write_mid) simp
  then have w2: "mem_write (pre @ ?n # ms) (length pre + 1) (t @ [0]) =
      Inr ((pre @ ?n # t) @ 0 # drop (length t + 1) ms)"
    by simp
  show ?case
  proof (cases "ts = []")
    case True
    then show ?thesis using w1 w2 mid by simp
  next
    case False
    have "write_labels ((pre @ ?n # t) @ 0 # drop (length t + 1) ms) (length (pre @ ?n # t)) ts =
        Inr ((pre @ ?n # t) @ wire_name ts @ drop (length (wire_name ts)) (0 # drop (length t + 1) ms))"
      using Cons.prems(1) mid False by (intro Cons.IH) auto
    moreover obtain k where "length (wire_name ts) = Suc k"
      using length_wire_name_pos [of ts] by (cases "length (wire_name ts)") auto
    ultimately show ?thesis using w1 w2 mid by (simp add: add.commute)
  qed
qed

lemma write_labels_safe:
  assumes "length (wire_name ts) \<le> length buf"
  shows "\<exists>buf'. write_labels buf 0 ts = Inr buf' \<and> length buf' = length buf"
proof (cases "ts = []")
  case False
  with assms show ?thesis using write_labels_wire [of ts buf "[]"] by simp
qed simp

lemma dns_create_question_wire:
  assumes "wf_labels ls" and "mal (length (join_dots ls) + 2) = Some blk"
    and "length blk = length (join_dots ls) + 2"
  shows "dns_create_question e mal True (Some q) (join_dots ls) =
     Inr (0, Some \<lparr>q_length = int (length (wire_name ls)), q_qtype = htons e 1,
                   q_qclass = htons e 1, q_qname = Some (wire_name ls)\<rparr>)"
proof -
  from assms(1) have ne: "ls \<noteq> []" by (simp add: wf_labels_def)
  have "write_labels blk 0 ls = Inr (wire_name ls)"
    using write_labels_wire [of ls blk "[]"] ne length_wire_name [OF ne] assms(3) by simp
  then show ?thesis
    using assms length_wire_name [OF ne] by (simp add: dns_create_question_def strtok_tokens_join)
qed

lemma dns_build_request_layout:
  assumes "q_qname q = Some qn" and "q_length q = int (length qn)"
    and "length qn + 16 \<le> n"
  shows "dns_build_request e h q (replicate n 0) =
     Inr (int (length qn) + 16,
          header_bytes e h @ qn @ store16 e (q_qtype q) @ store16 e (q_qclass q)
            @ replicate (n - (length qn + 16)) 0)"
proof -
  let ?H = "header_bytes e h" and ?T = "store16 e (q_qtype q)" and ?C = "store16 e (q_qclass q)"
  let ?r = "n - (length qn + 16)"
  have H: "length ?H = 12" by (simp add: header_bytes_def)
  have n: "replicate n (0::byte) = replicate 12 0 @ replicate (length qn) 0 @ replicate 2 0 @ replicate 2 0 @ replicate ?r 0"
  proof -
    have "n = 12 + (length qn + (2 + (2 + ?r)))" using assms(3) by simp
    then show ?thesis by (metis replicate_add)
  qed
  let ?Z = "\<lambda>k. replicate k (0::byte)"
  have 1: "mem_write (?Z n) 0 ?H = Inr (?H @ ?Z (length qn) @ ?Z 2 @ ?Z 2 @ ?Z ?r)"
    unfolding n using H mem_write_mid [of "?Z 12" ?H "[]"] by simp
  have 2: "mem_write (?H @ ?Z (length qn) @ ?Z 2 @ ?Z 2 @ ?Z ?r) 12 qn = Inr (?H @ qn @ ?Z 2 @ ?Z 2 @ ?Z ?r)"
    using mem_write_mid [of "?Z (length qn)" qn ?H] H by simp
  have 3: "mem_write (?H @ qn @ ?Z 2 @ ?Z 2 @ ?Z ?r) (12 + length qn) ?T = Inr (?H @ qn @ ?T @ ?Z 2 @ ?Z ?r)"
    using mem_write_mid [of "?Z 2" ?T "?H @ qn"] H by simp
  have 4: "mem_write (?H @ qn @ ?T @ ?Z 2 @ ?Z ?r) (14 + length qn) ?C = Inr (?H @ qn @ ?T @ ?C @ ?Z ?r)"
    using mem_write_mid [of "?Z 2" ?C "?H @ qn @ ?T"] H by simp
  have 5: "mem_read qn 0 (length qn) = Inr qn" by (simp add: mem_read_def)
  show ?thesis
    using assms(1,2) 1 2 3 4 5
    by (simp add: dns_build_request_def Let_def add.assoc add.commute [of 2] add.commute [of 14])
qed

section \<open>Parsing names\<close>

lemma is_pointer_iff_all: "list_all (\<lambda>i. is_pointer i = (192 \<le> i)) [0..255]"
  by code_simp

lemma is_pointer_iff: "is_pointer (uint (w :: byte)) \<longleftrightarrow> 192 \<le> unat w"
proof -
  have "0 \<le> uint w \<and> uint w \<le> 255" using unsigned_less [of w, where 'a = int] by simp
  then have "uint w \<in> set [0..255]" unfolding set_upto atLeastAtMost_iff .
  from bspec [OF is_pointer_iff_all [unfolded list_all_iff] this]
  have "is_pointer (uint w) = (192 \<le> uint w)" .
  moreover have "uint w = int (unat w)" by simp
  ultimately show ?thesis by linarith
qed

lemma wf_label_length_byte:
  assumes "wf_label l"
  shows "of_nat (length l) \<noteq> (0 :: byte)" and "unat (of_nat (length l) :: byte) = length l"
    and "\<not> is_pointer (uint (of_nat (length l) :: byte))"
proof -
  show u: "unat (of_nat (length l) :: byte) = length l"
    using assms by (simp add: wf_label_def unat_of_nat)
  show "of_nat (length l) \<noteq> (0 :: byte)" using u assms by (auto simp: wf_label_def)
  show "\<not> is_pointer (uint (of_nat (length l) :: byte))"
    using u assms by (simp add: is_pointer_iff wf_label_def)
qed

lemma parse_label_last:
  assumes "length l \<le> k"
  shows "parse_label (pre @ n # l @ 0 # post) (length pre) (length l) (o1 @ replicate k 0) (length o1) =
     Inr (length pre + 1 + length l, o1 @ l @ replicate (k - length l) 0, length o1 + length l)"
proof -
  have "mem_read ((pre @ [n]) @ l @ 0 # post) (length (pre @ [n])) (length l) = Inr l"
    by (rule mem_read_mid) simp
  moreover have "mem_write (o1 @ replicate (length l) 0 @ replicate (k - length l) 0) (length o1) l =
      Inr (o1 @ l @ replicate (k - length l) 0)"
    by (rule mem_write_mid) simp
  moreover have "mem_get ((pre @ n # l) @ 0 # post) (length (pre @ n # l)) = Inr 0"
    by (rule mem_get_mid)
  moreover have "replicate k (0::byte) = replicate (length l) 0 @ replicate (k - length l) 0"
    using assms by (simp add: replicate_add [symmetric])
  ultimately show ?thesis by (simp add: parse_label_def)
qed

lemma parse_label_more:
  assumes "length l < k" and "x \<noteq> 0"
  shows "parse_label (pre @ n # l @ x # post) (length pre) (length l) (o1 @ replicate k 0) (length o1) =
     Inr (length pre + 1 + length l, (o1 @ l @ [dot]) @ replicate (k - length l - 1) 0,
          length o1 + length l + 1)"
proof -
  have "mem_read ((pre @ [n]) @ l @ x # post) (length (pre @ [n])) (length l) = Inr l"
    by (rule mem_read_mid) simp
  moreover have "mem_write (o1 @ replicate (length l) 0 @ replicate (k - length l) 0) (length o1) l =
      Inr (o1 @ l @ replicate (k - length l) 0)"
    by (rule mem_write_mid) simp
  moreover have "mem_write ((o1 @ l) @ [0] @ replicate (k - length l - 1) 0) (length (o1 @ l)) [dot] =
      Inr ((o1 @ l) @ [dot] @ replicate (k - length l - 1) 0)"
    by (rule mem_write_mid) simp
  moreover have "mem_get ((pre @ n # l) @ x # post) (length (pre @ n # l)) = Inr x"
    by (rule mem_get_mid)
  moreover have "replicate k (0::byte) = replicate (length l) 0 @ replicate (k - length l) 0"
    using assms by (simp add: replicate_add [symmetric])
  moreover have "replicate (k - length l) (0::byte) = [0] @ replicate (k - length l - 1) 0"
    using assms by (cases "k - length l") auto
  ultimately show ?thesis using assms(2) by (simp add: parse_label_def)
qed

text \<open>A name of labels is copied into the output with dots between the labels.\<close>

lemma wire_name_hd: "list_all wf_label ls \<Longrightarrow> hd (wire_name ls @ post) = 0 \<longleftrightarrow> ls = []"
  by (cases ls) (auto simp: wf_label_length_byte)

lemma dns_parse_name_end: "dns_parse_name (pre @ 0 # post) (length pre) out len = Some (Inr (out, len))"
  by (subst dns_parse_name.simps) (simp add: mem_get_mid)

lemma dns_parse_name_label:
  assumes "wf_label l"
  shows "dns_parse_name (pre @ of_nat (length l) # l @ x # xs) (length pre) out len =
      (case parse_label (pre @ of_nat (length l) # l @ x # xs) (length pre) (length l) out len of
         Inl e \<Rightarrow> Some (Inl e)
       | Inr r \<Rightarrow> dns_parse_name (pre @ of_nat (length l) # l @ x # xs) (fst r) (fst (snd r)) (snd (snd r)))"
  using assms by (subst dns_parse_name.simps) (simp add: mem_get_mid wf_label_length_byte)

lemma dns_parse_name_wire:
  "list_all wf_label ls \<Longrightarrow> length (join_dots ls) \<le> k \<Longrightarrow>
   dns_parse_name (pre @ wire_name ls @ post) (length pre) (o1 @ replicate k 0) (length o1) =
     Some (Inr (o1 @ join_dots ls @ replicate (k - length (join_dots ls)) 0,
                length o1 + length (join_dots ls)))"
proof (induction ls arbitrary: pre o1 k)
  case Nil
  then show ?case by (simp add: dns_parse_name_end)
next
  case (Cons l ls)
  let ?n = "of_nat (length l) :: byte"
  from Cons.prems have l: "wf_label l" and ls: "list_all wf_label ls" by simp_all
  obtain x xs where x: "wire_name ls @ post = x # xs"
    using length_wire_name_pos [of ls] by (cases "wire_name ls @ post") auto
  then have x0: "x = 0 \<longleftrightarrow> ls = []" using wire_name_hd [OF ls, of post] by simp
  have chunk: "pre @ wire_name (l # ls) @ post = pre @ ?n # l @ x # xs" using x by simp
  note step = dns_parse_name_label [OF l, of pre x xs]
  have chunk': "pre @ ?n # l @ x # xs = (pre @ ?n # l) @ wire_name ls @ post" using x by simp
  show ?case
  proof (cases "ls = []")
    case True
    then have "x = 0" and "join_dots (l # ls) = l" using x0 by simp_all
    then show ?thesis
      unfolding chunk using Cons.prems(2) step parse_label_last [of l k pre ?n xs o1]
        dns_parse_name_end [of "pre @ ?n # l" xs] by simp
  next
    case False
    then have j: "join_dots (l # ls) = l @ dot # join_dots ls" by (cases ls) auto
    with Cons.prems(2) have k: "length l < k" "length (join_dots ls) \<le> k - length l - 1" by auto
    have "dns_parse_name ((pre @ ?n # l) @ wire_name ls @ post) (length (pre @ ?n # l))
        ((o1 @ l @ [dot]) @ replicate (k - length l - 1) 0) (length (o1 @ l @ [dot])) =
      Some (Inr ((o1 @ l @ [dot]) @ join_dots ls @ replicate (k - length l - 1 - length (join_dots ls)) 0,
                 length (o1 @ l @ [dot]) + length (join_dots ls)))"
      using ls k(2) by (rule Cons.IH)
    then show ?thesis
      unfolding chunk using step parse_label_more [OF k(1), of x pre ?n xs o1] x0 False
      by (simp add: j chunk' [symmetric] x)
  qed
qed

lemma dns_parse_name_pointer:
  assumes "mem_get chunk p = Inr f" and "192 \<le> unat f" and "mem_get chunk (p + 1) = Inr n"
  shows "dns_parse_name chunk p out len = dns_parse_name chunk (unat n) out len"
proof -
  have "f \<noteq> 0" "is_pointer (uint f)" using assms(2) by (auto simp: is_pointer_iff)
  then show ?thesis using assms(1,3) by (subst dns_parse_name.simps) simp
qed

section \<open>Names the parser does not survive\<close>

lemma parse_label_full:
  assumes "k < length l + (if x = 0 then 0 else 1)"
  shows "\<exists>i. parse_label (pre @ n # l @ x # post) (length pre) (length l) (o1 @ replicate k 0) (length o1) =
     Inl (OutOfBounds i)"
proof -
  have r: "mem_read ((pre @ [n]) @ l @ x # post) (length (pre @ [n])) (length l) = Inr l"
    by (rule mem_read_mid) simp
  have g: "mem_get ((pre @ n # l) @ x # post) (length (pre @ n # l)) = Inr x"
    by (rule mem_get_mid)
  show ?thesis
  proof (cases "k < length l")
    case True
    then have "mem_write (o1 @ replicate k 0) (length o1) l = Inl (OutOfBounds (length o1 + length l))"
      by (simp add: mem_write_def)
    then show ?thesis using r by (simp add: parse_label_def)
  next
    case False
    then have k: "length l = k" "x \<noteq> 0" using assms by (auto split: if_splits)
    then have "mem_write (o1 @ replicate k 0) (length o1) l = Inr (o1 @ l)"
      using mem_write_mid [of "replicate k 0" l o1 "[]"] by simp
    then show ?thesis using r g k by (simp add: parse_label_def mem_write_def)
  qed
qed

lemma dns_parse_name_overflow:
  "list_all wf_label ls \<Longrightarrow> k < length (join_dots ls) \<Longrightarrow>
   \<exists>i. dns_parse_name (pre @ wire_name ls @ post) (length pre) (o1 @ replicate k 0) (length o1) =
     Some (Inl (OutOfBounds i))"
proof (induction ls arbitrary: pre o1 k)
  case Nil
  then show ?case by simp
next
  case (Cons l ls)
  let ?n = "of_nat (length l) :: byte"
  from Cons.prems have l: "wf_label l" and ls: "list_all wf_label ls" by simp_all
  obtain x xs where x: "wire_name ls @ post = x # xs"
    using length_wire_name_pos [of ls] by (cases "wire_name ls @ post") auto
  then have x0: "x = 0 \<longleftrightarrow> ls = []" using wire_name_hd [OF ls, of post] by simp
  have chunk: "pre @ wire_name (l # ls) @ post = pre @ ?n # l @ x # xs" using x by simp
  note step = dns_parse_name_label [OF l, of pre x xs]
  show ?case
  proof (cases "k < length l + (if x = 0 then 0 else 1)")
    case True
    then show ?thesis unfolding chunk using step parse_label_full [OF True, of pre ?n xs o1] by auto
  next
    case False
    then have ne: "ls \<noteq> []" using Cons.prems(2) x0 by auto
    then have j: "join_dots (l # ls) = l @ dot # join_dots ls" by (cases ls) auto
    have k: "length l < k" "x \<noteq> 0" using False ne x0 by auto
    have "\<exists>i. dns_parse_name ((pre @ ?n # l) @ wire_name ls @ post) (length (pre @ ?n # l))
        ((o1 @ l @ [dot]) @ replicate (k - length l - 1) 0) (length (o1 @ l @ [dot])) = Some (Inl (OutOfBounds i))"
      using ls Cons.prems(2) j k by (intro Cons.IH) auto
    then show ?thesis
      unfolding chunk using step parse_label_more [OF k, of pre ?n xs o1] by (simp add: x)
  qed
qed

lemma dns_parse_name_self_pointer:
  assumes "mem_get chunk p = Inr f" and "192 \<le> unat f"
    and "mem_get chunk (p + 1) = Inr n" and "unat n = p"
  shows "dns_parse_name chunk p out len = None"
proof (rule ccontr)
  assume "dns_parse_name chunk p out len \<noteq> None"
  then obtain r where ret: "dns_parse_name chunk p out len = Some r" by auto
  have f: "f \<noteq> 0" "is_pointer (uint f)" using assms(2) by (auto simp: is_pointer_iff)
  have "\<not> (chunk = chunk \<and> p = p)"
  proof (rule dns_parse_name.raw_induct [where P = "\<lambda>c q _ _ _. \<not> (c = chunk \<and> q = p)", OF _ ret])
    fix g c q and out :: bytes and len r
    assume IH: "\<And>c q out len r. g c q out len = Some r \<Longrightarrow> \<not> (c = chunk \<and> q = p)"
      and eq: "(case mem_get c q of Inl e \<Rightarrow> Some (Inl e)
        | Inr flag \<Rightarrow> if flag = 0 then Some (Inr (out, len))
            else if is_pointer (uint flag)
            then case mem_get c (q + 1) of Inl e \<Rightarrow> Some (Inl e) | Inr n \<Rightarrow> g c (unat n) out len
            else case parse_label c q (unat flag) out len of Inl e \<Rightarrow> Some (Inl e)
               | Inr r \<Rightarrow> g c (fst r) (fst (snd r)) (snd (snd r))) = Some r"
    show "\<not> (c = chunk \<and> q = p)"
    proof
      assume "c = chunk \<and> q = p"
      with eq f assms have "g chunk p out len = Some r" by simp
      then show False using IH by blast
    qed
  qed
  then show False by simp
qed

section \<open>Parsing responses\<close>

text \<open>
  The simplest responses, as a function of their contents: one question, and answers whose names are the
  compression pointer \<open>0xC00C\<close> to the question's name. \<open>encode_rr\<close> is the wire format
  of such an answer, an address record or an alias (RFC 1035, 4.1.3) whose target is not compressed
  and fits the 128 bytes of \<open>cname\<close>. The responses in general are described further below.
\<close>

datatype rr = RrA (rr_ttl: bytes) (rr_addr: bytes) | RrCname (rr_ttl: bytes) (rr_target: "bytes list")

fun encode_rr :: "rr \<Rightarrow> bytes" where
  "encode_rr (RrA ttl ip) = [0xC0, 12, 0, 1, 0, 1] @ ttl @ [0, 4] @ ip"
| "encode_rr (RrCname ttl target) =
     [0xC0, 12, 0, 5, 0, 1] @ ttl @
     [hi8 (of_nat (length (wire_name target))), lo8 (of_nat (length (wire_name target)))] @ wire_name target"

fun wf_rr :: "rr \<Rightarrow> bool" where
  "wf_rr (RrA ttl ip) \<longleftrightarrow> length ttl = 4 \<and> length ip = 4"
| "wf_rr (RrCname ttl target) \<longleftrightarrow> length ttl = 4 \<and> wf_labels target \<and> length (join_dots target) \<le> 128"

definition encode_response :: "bytes \<Rightarrow> bytes \<Rightarrow> bytes list \<Rightarrow> bytes \<Rightarrow> rr list \<Rightarrow> bytes" where
  "encode_response h1 h2 ls qt rrs =
     h1 @ [0, 1, hi8 (of_nat (length rrs)), lo8 (of_nat (length rrs))] @ h2 @ wire_name ls @ qt @
     concat (map encode_rr rrs)"

text \<open>
  What the client reports of such a response: the addresses, in order, under the name asked for. The time
  printed is the upper half of the time to live, since line 190 reads 16 of its 32 bits.
\<close>

fun rr_results :: "bytes \<Rightarrow> rr list \<Rightarrow> dns_item list \<times> dns_print list" where
  "rr_results host [] = ([], [])"
| "rr_results host (RrA ttl ip # rs) =
     (let t = unat (u16_of (ttl ! 0) (ttl ! 1)); r = rr_results host rs in
      (\<lparr>d_domain = host, d_ip = ntop4 ip\<rparr> # fst r,
       \<lparr>p_name = host, p_ip = ntop4 ip, p_minutes = t div 60, p_seconds = t mod 60\<rparr> # snd r))"
| "rr_results host (RrCname ttl target # rs) = rr_results host rs"

lemma read16_at:
  "k + 1 < length r \<Longrightarrow> read16 e (pre @ r) (length pre + k) = Inr (u16_of (r ! k) (r ! (k + 1)))"
  by (simp add: read16_def mem_get_def nth_append)

lemma list4: "length xs = 4 \<Longrightarrow> xs = [xs ! 0, xs ! 1, xs ! 2, xs ! 3]"
  by (rule nth_equalityI) (auto simp: less_Suc_eq numeral_eq_Suc)

lemma u16_of_small: "u16_of 0 1 = 1" "u16_of 0 4 = 4" "u16_of 0 5 = 5"
  by (simp_all add: u16_of_def)

lemma unat_u16_of_nat: "n < 65536 \<Longrightarrow> unat (of_nat n :: u16) = n"
  by (simp add: unat_of_nat)

lemma c_strlen_padded: "0 \<notin> set xs \<Longrightarrow> length xs < k \<Longrightarrow> c_strlen (xs @ replicate (k - length xs) 0) = Inr (length xs)"
  using c_strlen_mid [of xs "replicate (k - length xs - 1) 0"] by (cases "k - length xs") auto

lemma dns_parse_name_question:
  assumes "buf = pre @ r @ post" and "r ! 0 = 0xC0" and "r ! 1 = 12" and "2 \<le> length r"
  shows "dns_parse_name buf (length pre) out len = dns_parse_name buf 12 out len"
proof -
  obtain r' where "r = 0xC0 # 12 # r'" using assms(2-4) by (cases r; cases "tl r") auto
  then have "dns_parse_name buf (length pre) out len = dns_parse_name buf (unat (12::byte)) out len"
    using assms(1) mem_get_mid [of pre] mem_get_mid [of "pre @ [0xC0]"]
    by (intro dns_parse_name_pointer [of _ _ "0xC0"]) simp_all
  then show ?thesis by simp
qed

lemma parse_answer_A:
  assumes buf: "buf = pre @ encode_rr (RrA ttl ip) @ post" and wf: "length ttl = 4" "length ip = 4"
    and name: "dns_parse_name buf 12 (replicate 128 0) 0 = Some (Inr (host @ replicate (128 - length host) 0, n))"
    and host: "0 \<notin> set host" "length host < 128"
  shows "parse_answer e (\<lambda>_. True) buf (length pre) acc =
     Some (Inr (length pre + length (encode_rr (RrA ttl ip)),
       (fst acc @ fst (rr_results host [RrA ttl ip]), snd acc @ snd (rr_results host [RrA ttl ip]))))"
proof -
  obtain t0 t1 t2 t3 where ttl: "ttl = [t0, t1, t2, t3]" using list4 [OF wf(1)] by blast
  obtain a b c d where ip: "ip = [a, b, c, d]" using list4 [OF wf(2)] by blast
  let ?r = "[0xC0, 12, 0, 1, 0, 1, t0, t1, t2, t3, 0, 4, a, b, c, d] @ post"
  have b: "buf = pre @ ?r" using buf ttl ip by simp
  have nm: "dns_parse_name buf (length pre) (replicate 128 0) 0 =
      Some (Inr (host @ replicate (128 - length host) 0, n))"
    using dns_parse_name_question [of buf pre ?r "[]"] b name by simp
  have rd: "read16 e buf (length pre + 2) = Inr 1" "\<exists>c. read16 e buf (length pre + 4) = Inr c"
    "read16 e buf (length pre + 6) = Inr (u16_of t0 t1)" "read16 e buf (length pre + 10) = Inr 4"
    unfolding b using read16_at [of 2 ?r e pre] read16_at [of 4 ?r e pre] read16_at [of 6 ?r e pre]
      read16_at [of 10 ?r e pre] by (simp_all add: u16_of_small)
  have L: "length pre + 12 = length (pre @ [0xC0, 12, 0, 1, 0, 1, t0, t1, t2, t3, 0, 4::byte])" by simp
  have b': "buf = (pre @ [0xC0, 12, 0, 1, 0, 1, t0, t1, t2, t3, 0, 4]) @ [a, b, c, d] @ post"
    by (simp add: b)
  have mr: "mem_read buf (length pre + 12) 4 = Inr [a, b, c, d]"
    unfolding b' L by (rule mem_read_mid) simp
  show ?thesis
    using nm rd mr host c_strlen_padded [OF host]
    by (auto simp: parse_answer_def DNS_CNAME_def DNS_HOST_def store_address_def Let_def ttl ip)
qed

lemma parse_answer_A_long:
  assumes buf: "buf = pre @ encode_rr (RrA ttl ip) @ post" and wf: "length ttl = 4" "length ip = 4"
    and p: "\<exists>p0 p1. length p0 = 12 \<and> buf = p0 @ wire_name ls @ p1"
    and ls: "list_all wf_label ls" "128 \<le> length (join_dots ls)"
  shows "\<exists>i. parse_answer e (\<lambda>_. True) buf (length pre) acc = Some (Inl (OutOfBounds i))"
proof -
  obtain t0 t1 t2 t3 where ttl: "ttl = [t0, t1, t2, t3]" using list4 [OF wf(1)] by blast
  obtain a b c d where ip: "ip = [a, b, c, d]" using list4 [OF wf(2)] by blast
  let ?h = "[0xC0, 12, 0, 1, 0, 1, t0, t1, t2, t3, 0, 4]"
  let ?r = "?h @ [a, b, c, d] @ post"
  have b: "buf = pre @ ?r" using buf ttl ip by simp
  have ptr: "dns_parse_name buf (length pre) (replicate 128 0) 0 = dns_parse_name buf 12 (replicate 128 0) 0"
    using dns_parse_name_question [of buf pre ?r "[]"] b by simp
  obtain p0 p1 where p0: "length p0 = 12" "buf = p0 @ wire_name ls @ p1" using p by blast
  show ?thesis
  proof (cases "length (join_dots ls) = 128")
    case False
    then have "\<exists>i. dns_parse_name buf 12 (replicate 128 0) 0 = Some (Inl (OutOfBounds i))"
      using dns_parse_name_overflow [OF ls(1), of 128 p0 p1 "[]"] ls(2) p0 by simp
    then show ?thesis using ptr by (auto simp: parse_answer_def)
  next
    case True
    then have nm: "dns_parse_name buf (length pre) (replicate 128 0) 0 = Some (Inr (join_dots ls, 128))"
      using dns_parse_name_wire [OF ls(1), of 128 p0 p1 "[]"] p0 ptr by simp
    have tw: "takeWhile (\<lambda>b. b \<noteq> 0) (join_dots ls) = join_dots ls"
      using join_dots_no_zero [OF ls(1)] by (auto simp: takeWhile_eq_all_conv)
    have sl: "c_strlen (join_dots ls) = Inl (OutOfBounds 128)"
      unfolding c_strlen_def Let_def tw using True by simp
    have L: "length pre + 12 = length (pre @ ?h)" and b': "buf = (pre @ ?h) @ [a, b, c, d] @ post"
      by (simp_all add: b)
    have mr: "mem_read buf (length pre + 12) 4 = Inr [a, b, c, d]" unfolding b' L by (rule mem_read_mid) simp
    have rd: "read16 e buf (length pre + 2) = Inr 1" "\<exists>c. read16 e buf (length pre + 4) = Inr c"
      "\<exists>t. read16 e buf (length pre + 6) = Inr t" "read16 e buf (length pre + 10) = Inr 4"
      unfolding b using read16_at [of 2 ?r e pre] read16_at [of 4 ?r e pre] read16_at [of 6 ?r e pre]
        read16_at [of 10 ?r e pre] by (simp_all add: u16_of_small)
    show ?thesis using nm rd mr sl
      by (auto simp: parse_answer_def DNS_CNAME_def DNS_HOST_def store_address_def Let_def)
  qed
qed

lemma parse_answer_CNAME:
  assumes buf: "buf = pre @ encode_rr (RrCname ttl target) @ post" and wf: "wf_rr (RrCname ttl target)"
    and name: "dns_parse_name buf 12 (replicate 128 0) 0 = Some (Inr (aname, n))"
  shows "parse_answer e al buf (length pre) acc =
     Some (Inr (length pre + length (encode_rr (RrCname ttl target)), acc))"
proof -
  from wf have w: "length ttl = 4" "wf_labels target" "length (join_dots target) \<le> 128" by simp_all
  obtain t0 t1 t2 t3 where ttl: "ttl = [t0, t1, t2, t3]" using list4 [OF w(1)] by blast
  let ?w = "wire_name target"
  let ?m = "of_nat (length ?w) :: u16"
  let ?h = "[0xC0, 12, 0, 5, 0, 1, t0, t1, t2, t3, hi8 ?m, lo8 ?m]"
  let ?r = "?h @ ?w @ post"
  have b: "buf = pre @ ?r" using buf ttl by simp
  have nm: "dns_parse_name buf (length pre) (replicate 128 0) 0 = Some (Inr (aname, n))"
    using dns_parse_name_question [of buf pre ?r "[]"] b name by simp
  have m: "unat ?m = length ?w"
    using w length_wire_name [of target] by (intro unat_u16_of_nat) (simp add: wf_labels_def)
  have rd: "read16 e buf (length pre + 2) = Inr 5" "\<exists>c. read16 e buf (length pre + 4) = Inr c"
    "\<exists>t. read16 e buf (length pre + 6) = Inr t" "read16 e buf (length pre + 10) = Inr ?m"
    unfolding b using read16_at [of 2 ?r e pre] read16_at [of 4 ?r e pre] read16_at [of 6 ?r e pre]
      read16_at [of 10 ?r e pre] by (simp_all add: u16_of_small)
  have "dns_parse_name ((pre @ ?h) @ ?w @ post) (length (pre @ ?h)) ([] @ replicate 128 0) (length ([]::bytes)) =
      Some (Inr ([] @ join_dots target @ replicate (128 - length (join_dots target)) 0,
                 length ([]::bytes) + length (join_dots target)))"
    using w(2,3) by (intro dns_parse_name_wire) (simp_all add: wf_labels_def)
  moreover have "length pre + 12 = length (pre @ ?h)" and "buf = (pre @ ?h) @ ?w @ post" by (simp_all add: b)
  ultimately have cn: "\<exists>x. dns_parse_name buf (length pre + 12) (replicate 128 0) 0 = Some (Inr x)"
    by (metis append_Nil list.size(3))
  show ?thesis
    using nm rd cn m by (auto simp: parse_answer_def DNS_CNAME_def ttl add.assoc)
qed

lemma rr_results_Cons:
  "rr_results host (r # rs) =
     (fst (rr_results host [r]) @ fst (rr_results host rs), snd (rr_results host [r]) @ snd (rr_results host rs))"
  by (cases r) (simp_all add: Let_def)

lemma parse_answers_ok:
  assumes "list_all wf_rr rrs" and "buf = pre @ concat (map encode_rr rrs) @ post"
    and name: "dns_parse_name buf 12 (replicate 128 0) 0 = Some (Inr (host @ replicate (128 - length host) 0, n))"
    and host: "0 \<notin> set host" "length host < 128"
  shows "parse_answers e (\<lambda>_. True) buf (length rrs) (length pre) acc =
     Some (Inr (fst acc @ fst (rr_results host rrs), snd acc @ snd (rr_results host rrs)))"
  using assms(1,2)
proof (induction rrs arbitrary: pre acc)
  case Nil
  then show ?case by simp
next
  case (Cons r rrs)
  let ?acc = "(fst acc @ fst (rr_results host [r]), snd acc @ snd (rr_results host [r]))"
  have "parse_answer e (\<lambda>_. True) buf (length pre) acc = Some (Inr (length pre + length (encode_rr r), ?acc))"
  proof (cases r)
    case (RrA ttl ip)
    then show ?thesis using parse_answer_A [OF _ _ _ name host, of pre ttl ip "concat (map encode_rr rrs) @ post"]
      Cons.prems by simp
  next
    case (RrCname ttl target)
    then show ?thesis using parse_answer_CNAME [OF _ _ name, of pre ttl target "concat (map encode_rr rrs) @ post"]
      Cons.prems by simp
  qed
  moreover have "parse_answers e (\<lambda>_. True) buf (length rrs) (length (pre @ encode_rr r)) ?acc =
      Some (Inr (fst ?acc @ fst (rr_results host rrs), snd ?acc @ snd (rr_results host rrs)))"
    using Cons.prems by (intro Cons.IH) simp_all
  ultimately show ?case by (simp add: rr_results_Cons [of host r rrs])
qed

lemma skip_name_wire:
  "list_all wf_label ls \<Longrightarrow>
   skip_name (pre @ wire_name ls @ post) (length pre) = Inr (length pre + length (wire_name ls))"
proof (induction ls arbitrary: pre)
  case Nil
  then show ?case by (subst skip_name.simps) simp
next
  case (Cons l ls)
  let ?n = "of_nat (length l) :: byte"
  have "skip_name ((pre @ ?n # l) @ wire_name ls @ post) (length (pre @ ?n # l)) =
      Inr (length (pre @ ?n # l) + length (wire_name ls))"
    using Cons by (intro Cons.IH) simp
  moreover have "?n \<noteq> 0" "unat ?n = length l" using Cons.prems by (simp_all add: wf_label_length_byte)
  ultimately show ?case by (subst skip_name.simps) simp
qed

section \<open>The whole query\<close>

text \<open>
  The datagram a query should be: identifier, flags, counts, the name and type and class.
  The flags word is zero, since the code never sets it.
\<close>

definition query_wire :: "endian \<Rightarrow> int \<Rightarrow> bytes list \<Rightarrow> bytes" where
  "query_wire e rnd ls =
     store16 e (word_of_int rnd) @ [0, 0, 0, 1, 0, 0, 0, 0, 0, 0] @ wire_name ls @ [0, 1, 0, 1]"

lemma hi_lo_1: "hi8 1 = 0" "lo8 1 = 1"
  by (simp_all add: hi8_def lo8_def)

lemma make_query_wire:
  assumes "wf_labels ls" and "mal (length (join_dots ls) + 2) = Some blk"
    and "length blk = length (join_dots ls) + 2" and "length (wire_name ls) \<le> 1008"
  shows "make_query e rnd mal True (join_dots ls) =
     Inr (int (length (query_wire e rnd ls)),
          query_wire e rnd ls @ replicate (1024 - length (query_wire e rnd ls)) 0)"
  using dns_create_question_wire [of ls mal blk e zero_question, OF assms(1-3)] assms(4)
    dns_build_request_layout [of _ "wire_name ls" 1024 e]
  by (simp add: make_query_def dns_create_header_def header_bytes_def query_wire_def hi_lo_1)

lemma make_query_safe:
  assumes "mal (length host + 2) = Some blk" and "length blk = length host + 2"
    and "length host \<le> 1006"
  shows "\<exists>req. make_query e rnd mal True host = Inr (int (length host) + 18, req) \<and> length req = 1024"
proof -
  obtain qn where qn: "write_labels blk 0 (strtok_tokens dot host) = Inr qn" "length qn = length blk"
    using write_labels_safe [of "strtok_tokens dot host" blk] length_wire_tokens [of dot host] assms(2) by auto
  let ?q = "\<lparr>q_length = int (length host) + 2, q_qtype = htons e 1, q_qclass = htons e 1, q_qname = Some qn\<rparr>"
  have "dns_create_question e mal True (Some zero_question) host = Inr (0, Some ?q)"
    using assms qn by (simp add: dns_create_question_def)
  then show ?thesis
    using dns_build_request_layout [of ?q qn 1024 e] qn(2) assms(2,3)
    by (simp add: make_query_def dns_create_header_def header_bytes_def)
qed

section \<open>Names given as strings\<close>

text \<open>The table holds C strings; these lemmas decide well-formedness on the characters.\<close>

definition labels_of :: "string \<Rightarrow> bytes list" where
  "labels_of s = strtok_tokens dot (bytes_of s)"

fun string_join :: "string list \<Rightarrow> string" where
  "string_join [] = []"
| "string_join [l] = l"
| "string_join (l # ls) = l @ CHR ''.'' # string_join ls"

definition wf_string_label :: "string \<Rightarrow> bool" where
  "wf_string_label l \<longleftrightarrow> l \<noteq> [] \<and> length l \<le> 63 \<and> CHR ''.'' \<notin> set l \<and> CHR 0x00 \<notin> set l"

lemma strtok_tokens_map:
  assumes "inj f"
  shows "strtok_tokens (f d) (map f s) = map (map f) (strtok_tokens d s)"
proof (induction d s rule: strtok_tokens.induct)
  case (1 d s)
  have f: "f b = f d \<longleftrightarrow> b = d" for b using assms by (simp add: inj_eq)
  show ?case
    by (subst (1 2) strtok_tokens.simps) (use 1 in \<open>simp add: Let_def dropWhile_map takeWhile_map o_def f\<close>)
qed

lemma of_char_dot: "dot = of_char (CHR ''.'')"
  by (simp add: dot_def)

lemma labels_of_eq: "labels_of s = map bytes_of (strtok_tokens (CHR ''.'') s)"
  unfolding labels_of_def bytes_of_def [abs_def] of_char_dot
  by (rule strtok_tokens_map [OF inj_of_char_byte])

lemma join_dots_bytes_of: "join_dots (map bytes_of ls) = bytes_of (string_join ls)"
  by (induction ls rule: string_join.induct) (auto simp: bytes_of_def of_char_dot)

lemma bytes_of_inject: "bytes_of s = bytes_of t \<longleftrightarrow> s = t"
  by (simp add: bytes_of_def inj_map_eq_map [OF inj_of_char_byte])

lemma wf_label_bytes_of: "wf_label (bytes_of l) = wf_string_label l"
proof -
  have z: "(0 :: byte) = of_char (CHR 0x00)" by simp
  show ?thesis
    unfolding wf_label_def wf_string_label_def bytes_of_def of_char_dot z
    by (simp add: inj_image_mem_iff [OF inj_of_char_byte] del: of_char_Char)
qed

lemma wf_labels_bytes_of: "wf_labels (map bytes_of ls) \<longleftrightarrow> ls \<noteq> [] \<and> list_all wf_string_label ls"
  by (simp add: wf_labels_def list_all_iff wf_label_bytes_of)

section \<open>Properties of the client\<close>

lemma dns_parse_response_answers:
  assumes lw: "list_all wf_label ls" and n: "length rrs < 65536"
    and hdr: "length h1 = 4" "length h2 = 4" "length qt = 4"
    and buf: "buf = encode_response h1 h2 ls qt rrs @ pad"
  obtains pre where "buf = pre @ concat (map encode_rr rrs) @ pad"
    and "dns_parse_response e (\<lambda>_. True) buf =
      bind_run (parse_answers e (\<lambda>_. True) buf (length rrs) (length pre) ([], []))
        (\<lambda>(items, prints). Some (Inr (int (length items), items, prints)))"
    and "\<exists>p0 p1. length p0 = 12 \<and> buf = p0 @ wire_name ls @ p1"
proof -
  let ?m = "of_nat (length rrs) :: u16"
  let ?R = "concat (map encode_rr rrs) @ pad"
  let ?c = "[0, 1, hi8 ?m, lo8 ?m]"
  let ?p0 = "h1 @ ?c @ h2"
  let ?pre = "?p0 @ wire_name ls @ qt"
  have b: "buf = h1 @ (?c @ h2 @ wire_name ls @ qt @ ?R)" by (simp add: buf encode_response_def)
  have q: "read16 e buf 4 = Inr 1" and a: "read16 e buf 6 = Inr ?m"
    using read16_at [of 0 "?c @ h2 @ wire_name ls @ qt @ ?R" e h1]
      read16_at [of 2 "?c @ h2 @ wire_name ls @ qt @ ?R" e h1] hdr
    by (simp_all add: b u16_of_small)
  have p0: "length ?p0 = 12" using hdr by simp
  have b2: "buf = ?p0 @ wire_name ls @ (qt @ ?R)" by (simp add: b)
  have skip: "skip_name buf 12 = Inr (12 + length (wire_name ls))"
    using skip_name_wire [OF lw, of ?p0 "qt @ ?R"] unfolding p0 b2 .
  show ?thesis
  proof (rule that [of ?pre])
    show "buf = ?pre @ concat (map encode_rr rrs) @ pad" by (simp add: b)
    have "length ?pre = 12 + length (wire_name ls) + 4" using hdr by simp
    then show "dns_parse_response e (\<lambda>_. True) buf =
      bind_run (parse_answers e (\<lambda>_. True) buf (length rrs) (length ?pre) ([], []))
        (\<lambda>(items, prints). Some (Inr (int (length items), items, prints)))"
      using q a skip unat_u16_of_nat [OF n]
      by (simp only: dns_parse_response_def) (simp add: numeral_eq_Suc [of num.One])
    show "\<exists>p0 p1. length p0 = 12 \<and> buf = p0 @ wire_name ls @ p1" using p0 b2 by blast
  qed
qed

lemma dns_parse_name_at_12:
  assumes "list_all wf_label ls" and "length (join_dots ls) \<le> 128"
    and "length p0 = 12" and "buf = p0 @ wire_name ls @ p1"
  shows "dns_parse_name buf 12 (replicate 128 0) 0 =
     Some (Inr (join_dots ls @ replicate (128 - length (join_dots ls)) 0, length (join_dots ls)))"
  using dns_parse_name_wire [OF assms(1,2), of p0 p1 "[]"] assms(3,4) by simp

lemma dns_parse_response_ok:
  assumes wf: "wf_labels ls" "length (join_dots ls) < 128" "list_all wf_rr rrs" "length rrs < 65536"
    and hdr: "length h1 = 4" "length h2 = 4" "length qt = 4"
  shows "dns_parse_response e (\<lambda>_. True) (encode_response h1 h2 ls qt rrs @ pad) =
     Some (Inr (int (length (fst (rr_results (join_dots ls) rrs))), rr_results (join_dots ls) rrs))"
proof -
  have lw: "list_all wf_label ls" using wf(1) by (simp add: wf_labels_def)
  define buf where "buf = encode_response h1 h2 ls qt rrs @ pad"
  obtain pre where b: "buf = pre @ concat (map encode_rr rrs) @ pad"
    and r: "dns_parse_response e (\<lambda>_. True) buf =
      bind_run (parse_answers e (\<lambda>_. True) buf (length rrs) (length pre) ([], []))
        (\<lambda>(items, prints). Some (Inr (int (length items), items, prints)))"
    and p: "\<exists>p0 p1. length p0 = 12 \<and> buf = p0 @ wire_name ls @ p1"
    by (rule dns_parse_response_answers [OF lw wf(4) hdr buf_def])
  from p dns_parse_name_at_12 [OF lw less_imp_le [OF wf(2)]]
  have "dns_parse_name buf 12 (replicate 128 0) 0 =
      Some (Inr (join_dots ls @ replicate (128 - length (join_dots ls)) 0, length (join_dots ls)))"
    by blast
  from parse_answers_ok [OF wf(3) b this join_dots_no_zero [OF lw] wf(2), of e "([], [])"]
  show ?thesis unfolding buf_def [symmetric] r by (simp add: case_prod_beta)
qed

section \<open>Responses with compressed names\<close>

text \<open>
  The wire format of names and answers in a message (RFC 1035, 4.1.3 and 4.1.4), as a
  relation on the bytes of the message: a name is a sequence of labels that ends in a zero byte or in
  a pointer, two bytes that give the offset of the rest of the name. The client keeps only the low byte
  of the offset, so pointers are required to be below 256.
\<close>

definition pointer_offset :: "byte \<Rightarrow> byte \<Rightarrow> nat" where
  "pointer_offset c d = (unat c - 192) * 256 + unat d"

inductive name_at :: "bytes \<Rightarrow> nat \<Rightarrow> bytes list \<Rightarrow> bool" for buf :: bytes where
  name_end: "p < length buf \<Longrightarrow> buf ! p = 0 \<Longrightarrow> name_at buf p []"
| name_label: "p < length buf \<Longrightarrow> buf ! p = of_nat (length l) \<Longrightarrow> wf_label l \<Longrightarrow> take (length l) (drop (p + 1) buf) = l \<Longrightarrow>
    name_at buf (p + 1 + length l) ls \<Longrightarrow> name_at buf p (l # ls)"
| name_pointer: "p + 1 < length buf \<Longrightarrow> 192 \<le> unat (buf ! p) \<Longrightarrow> q = pointer_offset (buf ! p) (buf ! (p + 1)) \<Longrightarrow> q < 256 \<Longrightarrow>
    name_at buf q ls \<Longrightarrow> ls \<noteq> [] \<Longrightarrow> name_at buf p ls"

text \<open>
  An answer starts with a pointer to the name it belongs to, which may be the name asked for or the
  target of an alias further up; an alias holds its target as a name that may be compressed too.
\<close>

datatype answer = Address "bytes list" bytes bytes | Alias "bytes list" bytes "bytes list"

inductive answers_at :: "bytes \<Rightarrow> nat \<Rightarrow> answer list \<Rightarrow> bool" for buf :: bytes where
  answers_end: "answers_at buf p []"
| answers_address: "take 16 (drop p buf) = [c, d, 0, 1, 0, 1] @ ttl @ [0, 4] @ ip \<Longrightarrow> length ttl = 4 \<Longrightarrow> length ip = 4 \<Longrightarrow>
    192 \<le> unat c \<Longrightarrow> name_at buf p owner \<Longrightarrow> answers_at buf (p + 16) rs \<Longrightarrow> answers_at buf p (Address owner ttl ip # rs)"
| answers_alias: "take 12 (drop p buf) = [c, d, 0, 5, 0, 1] @ ttl @ [h, l] \<Longrightarrow> length ttl = 4 \<Longrightarrow> 192 \<le> unat c \<Longrightarrow> name_at buf p owner \<Longrightarrow>
    name_at buf (p + 12) target \<Longrightarrow> answers_at buf (p + 12 + unat (u16_of h l)) rs \<Longrightarrow> answers_at buf p (Alias owner ttl target # rs)"

definition response :: "bytes \<Rightarrow> bytes list \<Rightarrow> answer list \<Rightarrow> bool" where
  "response buf ls rs \<longleftrightarrow> wf_labels ls \<and> length rs < 65536 \<and>
     (\<exists>h1 h2 rest. length h1 = 4 \<and> length h2 = 4 \<and>
       buf = h1 @ [0, 1, hi8 (of_nat (length rs)), lo8 (of_nat (length rs))] @ h2 @ wire_name ls @ rest) \<and>
     answers_at buf (12 + length (wire_name ls) + 4) rs"

text \<open>The names fit the arrays \<open>aname\<close> and \<open>cname\<close> of 128 bytes; the first is printed as a string.\<close>

fun names_fit :: "answer \<Rightarrow> bool" where
  "names_fit (Address owner ttl ip) \<longleftrightarrow> length (join_dots owner) < 128"
| "names_fit (Alias owner ttl target) \<longleftrightarrow> length (join_dots owner) \<le> 128 \<and> length (join_dots target) \<le> 128"

text \<open>The addresses of a response, each with the name it belongs to and its time to live, four bytes.\<close>

fun addresses :: "answer list \<Rightarrow> (bytes \<times> bytes \<times> bytes) list" where
  "addresses [] = []"
| "addresses (Address owner ttl ip # rs) = (join_dots owner, ttl, ip) # addresses rs"
| "addresses (Alias owner ttl target # rs) = addresses rs"

definition seconds_of :: "bytes \<Rightarrow> nat" where
  "seconds_of ttl = ((unat (ttl ! 0) * 256 + unat (ttl ! 1)) * 256 + unat (ttl ! 2)) * 256 + unat (ttl ! 3)"

definition item_of :: "bytes \<times> bytes \<times> bytes \<Rightarrow> dns_item" where
  "item_of = (\<lambda>(name, ttl, ip). \<lparr>d_domain = name, d_ip = ntop4 ip\<rparr>)"

text \<open>The time printed is the upper half of the time to live, which is all the code reads of it.\<close>

definition print_of :: "bytes \<times> bytes \<times> bytes \<Rightarrow> dns_print" where
  "print_of = (\<lambda>(name, ttl, ip). let t = seconds_of ttl div 65536 in
     \<lparr>p_name = name, p_ip = ntop4 ip, p_minutes = t div 60, p_seconds = t mod 60\<rparr>)"

lemma name_at_hd: "name_at buf p ls \<Longrightarrow> p < length buf \<and> (buf ! p = 0 \<longleftrightarrow> ls = [])"
  by (cases rule: name_at.cases) (auto simp: wf_label_length_byte)

lemma name_at_wf: "name_at buf p ls \<Longrightarrow> list_all wf_label ls"
  by (induction rule: name_at.induct) auto

lemma drop_split: "p + n \<le> length buf \<Longrightarrow> take n (drop p buf) = r \<Longrightarrow> buf = take p buf @ r @ drop (p + n) buf"
  by (metis add.commute append_take_drop_id drop_drop)

lemma dns_parse_name_at:
  "name_at buf p ls \<Longrightarrow> length (join_dots ls) \<le> k \<Longrightarrow>
   dns_parse_name buf p (o1 @ replicate k 0) (length o1) =
     Some (Inr (o1 @ join_dots ls @ replicate (k - length (join_dots ls)) 0, length o1 + length (join_dots ls)))"
proof (induction arbitrary: o1 k rule: name_at.induct)
  case (name_end p)
  then show ?case by (subst dns_parse_name.simps) (simp add: mem_get_def)
next
  case (name_label p l ls)
  let ?n = "of_nat (length l) :: byte" and ?q = "p + 1 + length l"
  have q: "?q < length buf" "buf ! ?q = 0 \<longleftrightarrow> ls = []" using name_at_hd [OF name_label(5)] by auto
  have "take (1 + length l) (drop p buf) = ?n # l"
    using name_label(1,2,4) by (simp add: Cons_nth_drop_Suc [symmetric])
  then have b: "buf = take p buf @ ?n # l @ buf ! ?q # drop (Suc ?q) buf"
    using drop_split [of p "1 + length l" buf "?n # l"] q(1) by (simp add: Cons_nth_drop_Suc)
  have lp: "length (take p buf) = p" using name_label(1) by simp
  note step = dns_parse_name_label [OF name_label(3), of "take p buf" "buf ! ?q" "drop (Suc ?q) buf", folded b, unfolded lp]
  show ?case
  proof (cases "ls = []")
    case True
    then have "dns_parse_name buf ?q out len = Some (Inr (out, len))" for out len
      using q by (subst dns_parse_name.simps) (simp add: mem_get_def)
    moreover have "length l \<le> k" and j: "join_dots (l # ls) = l" using name_label(7) True by simp_all
    moreover have "buf = take p buf @ ?n # l @ 0 # drop (Suc ?q) buf" using b q(2) True by simp
    ultimately show ?thesis
      unfolding step using parse_label_last [of l k "take p buf" ?n "drop (Suc ?q) buf" o1] lp by simp
  next
    case False
    then have j: "join_dots (l # ls) = l @ dot # join_dots ls" by (cases ls) auto
    with name_label(7) have k: "length l < k" "length (join_dots ls) \<le> k - length l - 1" by auto
    have pl: "parse_label buf p (length l) (o1 @ replicate k 0) (length o1) =
        Inr (?q, (o1 @ l @ [dot]) @ replicate (k - length l - 1) 0, length (o1 @ l @ [dot]))"
      using parse_label_more [OF k(1), of "buf ! ?q" "take p buf" ?n "drop (Suc ?q) buf" o1, folded b, unfolded lp] False q(2) by simp
    show ?thesis unfolding step pl using name_label(6) [OF k(2), of "o1 @ l @ [dot]"] by (simp add: j)
  qed
next
  case (name_pointer p q ls)
  have "q = unat (buf ! (p + 1))" using name_pointer(2-4) by (auto simp: pointer_offset_def)
  then show ?case
    using dns_parse_name_pointer [of buf p "buf ! p" "buf ! (p + 1)"] name_pointer by (simp add: mem_get_def)
qed

lemma unat_u16_of: "unat (u16_of h l) = unat h * 256 + unat l"
proof -
  have "\<not> (bit (push_bit 8 (ucast h :: u16)) n \<and> bit (ucast l :: u16) n)" for n
    by (auto simp: bit_simps dest: bit_imp_le_length)
  then have "u16_of h l = push_bit 8 (ucast h) + ucast l" unfolding u16_of_def by (metis disjunctive_add)
  also have "\<dots> = of_nat (unat h * 256 + unat l)" by (simp add: push_bit_eq_mult)
  finally show ?thesis
    using unsigned_less [of h, where 'a = nat] unsigned_less [of l, where 'a = nat] by (simp only: unat_of_nat) simp
qed

lemma read16_take:
  assumes "take m (drop p buf) = r" "k + 1 < length r"
  shows "read16 e buf (p + k) = Inr (u16_of (r ! k) (r ! (k + 1)))"
proof -
  have "p + k + 1 < length buf" "r ! k = buf ! (p + k)" "r ! (k + 1) = buf ! (p + (k + 1))"
    using assms by (auto simp: nth_append)
  then show ?thesis by (simp add: read16_def mem_get_def)
qed

lemma parse_answer_Address:
  assumes t: "take 16 (drop p buf) = [c, d, 0, 1, 0, 1] @ ttl @ [0, 4] @ ip" "length ttl = 4" "length ip = 4"
    and name: "name_at buf p owner" "length (join_dots owner) < 128"
  shows "parse_answer e (\<lambda>_. True) buf p acc =
     Some (Inr (p + 16, fst acc @ [item_of (join_dots owner, ttl, ip)], snd acc @ [print_of (join_dots owner, ttl, ip)]))"
proof -
  obtain t0 t1 t2 t3 where ttl: "ttl = [t0, t1, t2, t3]" using list4 [OF t(2)] by blast
  have rd: "read16 e buf (p + 2) = Inr 1" "read16 e buf (p + 4) = Inr 1" "read16 e buf (p + 6) = Inr (u16_of t0 t1)"
    "read16 e buf (p + 10) = Inr 4"
    using t(3) read16_take [OF t(1), of 2 e] read16_take [OF t(1), of 4 e] read16_take [OF t(1), of 6 e] read16_take [OF t(1), of 10 e]
    by (simp_all add: ttl u16_of_small)
  have len: "p + 16 \<le> length buf" using arg_cong [OF t(1), of length] t(2,3) by simp
  have "take 4 (drop (p + 12) buf) = drop 12 (take 16 (drop p buf))" by (simp add: drop_take add.commute)
  then have ip: "mem_read buf (p + 12) 4 = Inr ip" using t len by (simp add: mem_read_def)
  have "seconds_of ttl div 65536 = unat (u16_of t0 t1)"
    using unsigned_less [of t2, where 'a = nat] unsigned_less [of t3, where 'a = nat] by (simp add: seconds_of_def ttl unat_u16_of)
  then show ?thesis
    using dns_parse_name_at [OF name(1), of 128 "[]"] name rd ip c_strlen_padded [of "join_dots owner" 128] join_dots_no_zero [OF name_at_wf [OF name(1)]]
    by (simp add: parse_answer_def DNS_CNAME_def DNS_HOST_def store_address_def Let_def item_of_def print_of_def)
qed

lemma parse_answer_Alias:
  assumes t: "take 12 (drop p buf) = [c, d, 0, 5, 0, 1] @ ttl @ [h, l]" "length ttl = 4"
    and name: "name_at buf p owner" "length (join_dots owner) \<le> 128" "name_at buf (p + 12) target" "length (join_dots target) \<le> 128"
  shows "parse_answer e (\<lambda>_. True) buf p acc = Some (Inr (p + 12 + unat (u16_of h l), acc))"
proof -
  obtain t0 t1 t2 t3 where ttl: "ttl = [t0, t1, t2, t3]" using list4 [OF t(2)] by blast
  have rd: "read16 e buf (p + 2) = Inr 5" "read16 e buf (p + 4) = Inr 1" "read16 e buf (p + 6) = Inr (u16_of t0 t1)"
    "read16 e buf (p + 10) = Inr (u16_of h l)"
    using read16_take [OF t(1), of 2 e] read16_take [OF t(1), of 4 e] read16_take [OF t(1), of 6 e] read16_take [OF t(1), of 10 e]
    by (simp_all add: ttl u16_of_small)
  then show ?thesis
    using dns_parse_name_at [OF name(1,2), of "[]"] dns_parse_name_at [OF name(3,4), of "[]"]
    by (simp add: parse_answer_def DNS_CNAME_def)
qed

lemma parse_answers_at:
  "answers_at buf p rs \<Longrightarrow> list_all names_fit rs \<Longrightarrow>
   parse_answers e (\<lambda>_. True) buf (length rs) p acc =
     Some (Inr (fst acc @ map item_of (addresses rs), snd acc @ map print_of (addresses rs)))"
  by (induction arbitrary: acc rule: answers_at.induct) (simp_all add: parse_answer_Address parse_answer_Alias)

text \<open>
  C1. The response parser reads back what a server sends: for a message with one question and any number
  of answers, addresses and aliases, each behind a pointer to the name it belongs to, with names
  compressed in any way whose pointers are below 256, it returns the number of addresses and stores
  and prints them in order in dotted decimal, each under the name it belongs to (the name asked for or the target of an
  alias); of the time to live it prints the upper half. It neither runs for ever nor leaves a buffer, provided
  that every name an address belongs to is shorter than 128 bytes, and every owner and target of an alias at most 128 bytes long,
  which is what the arrays \<open>aname\<close> and \<open>cname\<close> hold, and that no allocation fails.
\<close>

theorem dns_parse_response_roundtrip:
  assumes "response buf ls rs" and "list_all names_fit rs"
  shows "dns_parse_response e (\<lambda>_. True) buf =
     Some (Inr (int (length (addresses rs)), map item_of (addresses rs), map print_of (addresses rs)))"
proof -
  let ?m = "of_nat (length rs) :: u16"
  obtain h1 h2 rest where h: "length h1 = 4" "length h2 = 4" "buf = h1 @ ([0, 1, hi8 ?m, lo8 ?m] @ h2 @ wire_name ls @ rest)"
    and r: "wf_labels ls" "length rs < 65536" "answers_at buf (12 + length (wire_name ls) + 4) rs"
    using assms(1) by (auto simp: response_def)
  have q: "read16 e buf 4 = Inr 1" "read16 e buf 6 = Inr ?m"
    using read16_at [of 0 "[0, 1, hi8 ?m, lo8 ?m] @ h2 @ wire_name ls @ rest" e h1]
      read16_at [of 2 "[0, 1, hi8 ?m, lo8 ?m] @ h2 @ wire_name ls @ rest" e h1] h(1)
    by (simp_all add: h(3) u16_of_small)
  have "buf = (h1 @ [0, 1, hi8 ?m, lo8 ?m] @ h2) @ wire_name ls @ rest" by (simp add: h(3))
  then have "skip_name buf 12 = Inr (12 + length (wire_name ls))"
    using skip_name_wire [of ls "h1 @ [0, 1, hi8 ?m, lo8 ?m] @ h2" rest] r(1) h(1,2) by (simp add: wf_labels_def)
  then show ?thesis
    using q parse_answers_at [OF r(3) assms(2), of e "([], [])"] unat_u16_of_nat [OF r(2)]
    by (simp add: dns_parse_response_def numeral_eq_Suc [of num.One])
qed

text \<open>
  A response that holds an alias with a compressed target and an address that belongs to this target.
\<close>

definition sample_response :: bytes where
  "sample_response =
     [0x12, 0x34, 0x81, 0x80, 0, 1, 0, 2, 0, 0, 0, 0,
      1, 0x77, 2, 0x63, 0x6E, 0, 0, 1, 0, 1,
      0xC0, 12, 0, 5, 0, 1, 0, 0, 1, 0, 0, 4, 1, 0x61, 0xC0, 14,
      0xC0, 34, 0, 1, 0, 1, 0, 61, 0, 60, 0, 4, 10, 0, 0, 255, 0, 0]"

lemma sample_names:
  "name_at sample_response 14 [[0x63, 0x6E]]" "name_at sample_response 12 [[0x77], [0x63, 0x6E]]"
  "name_at sample_response 34 [[0x61], [0x63, 0x6E]]"
proof -
  let ?b = sample_response
  have "name_at ?b 17 []" by (rule name_end) (simp_all add: sample_response_def)
  then show cn: "name_at ?b 14 [[0x63, 0x6E]]"
    by (intro name_label) (simp_all add: sample_response_def wf_label_def dot_def)
  then show "name_at ?b 12 [[0x77], [0x63, 0x6E]]"
    by (intro name_label [of 12 _ "[0x77]"]) (simp_all add: sample_response_def wf_label_def dot_def)
  have "name_at ?b 36 [[0x63, 0x6E]]"
    by (rule name_pointer [OF _ _ refl]) (use cn in \<open>simp_all add: sample_response_def pointer_offset_def\<close>)
  then show "name_at ?b 34 [[0x61], [0x63, 0x6E]]"
    by (intro name_label [of 34 _ "[0x61]"]) (simp_all add: sample_response_def wf_label_def dot_def)
qed

lemma sample_is_response:
  "response sample_response [[0x77], [0x63, 0x6E]]
     [Alias [[0x77], [0x63, 0x6E]] [0, 0, 1, 0] [[0x61], [0x63, 0x6E]], Address [[0x61], [0x63, 0x6E]] [0, 61, 0, 60] [10, 0, 0, 255]]"
proof -
  let ?b = sample_response and ?w = "[[0x77], [0x63, 0x6E]] :: bytes list" and ?a = "[[0x61], [0x63, 0x6E]] :: bytes list"
  have o: "name_at ?b 22 ?w" "name_at ?b 38 ?a"
    by (rule name_pointer [OF _ _ refl]; use sample_names in \<open>simp add: sample_response_def pointer_offset_def\<close>)+
  have "answers_at ?b 38 [Address ?a [0, 61, 0, 60] [10, 0, 0, 255]]"
    by (rule answers_address [where c = "0xC0" and d = 34]) (use o in \<open>simp_all add: sample_response_def answers_end\<close>)
  then have "answers_at ?b 22 [Alias ?w [0, 0, 1, 0] ?a, Address ?a [0, 61, 0, 60] [10, 0, 0, 255]]"
    by (intro answers_alias [where c = "0xC0" and d = 12 and h = 0 and l = 4])
      (use o sample_names in \<open>simp_all add: sample_response_def u16_of_small\<close>)
  moreover have "?b = [0x12, 0x34, 0x81, 0x80] @ [0, 1, hi8 2, lo8 2] @ [0, 0, 0, 0] @ wire_name ?w @ drop 18 ?b"
    by (simp add: sample_response_def hi8_def lo8_def)
  then have "\<exists>h1 h2 rest. length h1 = 4 \<and> length h2 = 4 \<and> ?b = h1 @ [0, 1, hi8 2, lo8 2] @ h2 @ wire_name ?w @ rest"
    by (intro exI [of _ "[0x12, 0x34, 0x81, 0x80]"] exI [of _ "[0, 0, 0, 0]"] exI [of _ "drop 18 ?b"] conjI) simp_all
  ultimately show ?thesis by (simp add: response_def wf_labels_def wf_label_def dot_def)
qed

theorem dns_parse_response_roundtrip_witness:
  "dns_parse_response LittleEndian (\<lambda>_. True) sample_response =
   Some (Inr (1, [\<lparr>d_domain = bytes_of ''a.cn'', d_ip = bytes_of ''10.0.0.255''\<rparr>],
                 [\<lparr>p_name = bytes_of ''a.cn'', p_ip = bytes_of ''10.0.0.255'', p_minutes = 1, p_seconds = 1\<rparr>]))"
  using dns_parse_response_roundtrip [OF sample_is_response, of LittleEndian]
  by (simp add: item_of_def print_of_def seconds_of_def ntop4_def dec_digits.simps bytes_of_def dot_def)



lemma dns_client_commit_ok:
  assumes wf: "wf_labels ls" "length (join_dots ls) < 128" "list_all wf_rr rrs" "length rrs < 65536"
    and hdr: "length h1 = 4" "length h2 = 4" "length qt = 4"
    and mem: "e_malloc env (length (join_dots ls) + 2) = Some blk" "length blk = length (join_dots ls) + 2"
      "e_strdup env" "e_calloc env = (\<lambda>_. True)"
    and net: "0 \<le> e_socket env" "e_recv env = Some (encode_response h1 h2 ls qt rrs)"
      "length (encode_response h1 h2 ls qt rrs) \<le> 1024"
  shows "dns_client_commit e env (join_dots ls) =
     Some (Inr (Returned 0,
       [EvSocket (e_socket env), EvConnect (e_connect env),
        EvSendto (query_wire e (e_random env) ls), EvRecvfrom,
        EvReport (snd (rr_results (join_dots ls) rrs)), EvClose (e_socket env)]))"
proof -
  obtain request where q: "make_query e (e_random env) (e_malloc env) True (join_dots ls) =
        Inr (int (length (query_wire e (e_random env) ls)), request)"
      "mem_read request 0 (length (query_wire e (e_random env) ls)) = Inr (query_wire e (e_random env) ls)"
  proof -
    have ne: "ls \<noteq> []" using wf(1) by (simp add: wf_labels_def)
    have "length (wire_name ls) \<le> 1008" using length_wire_name [OF ne] wf(2) by simp
    from make_query_wire [of ls "e_malloc env" blk e "e_random env", OF wf(1) mem(1,2) this]
    show ?thesis by (rule that) (simp add: mem_read_def)
  qed
  define pad where "pad = replicate (1024 - length (encode_response h1 h2 ls qt rrs)) (0::byte)"
  have "recv_buffer 1024 (e_recv env) = encode_response h1 h2 ls qt rrs @ pad"
    using net(2,3) by (simp add: recv_buffer_def pad_def)
  moreover note dns_parse_response_ok [OF wf hdr, of e pad]
  ultimately show ?thesis
    using q mem(3,4) net(1) by (simp add: dns_client_commit_def Let_def case_prod_beta)
qed



text \<open>
  C4. Building a query never leaves a buffer: for every host name of at most 1006 bytes,
  well-formed or not (empty labels, leading or repeated dots), the loop over the tokens
  stays inside the block of \<open>strlen(hostname) + 2\<close> bytes and the request inside its array.
\<close>

theorem make_query_no_overflow:
  assumes "mal (length host + 2) = Some blk" and "length blk = length host + 2"
    and "length host \<le> 1006"
  shows "\<exists>req. make_query e rnd mal True host = Inr (int (length host) + 18, req) \<and> length req = 1024"
  using assms by (rule make_query_safe)

theorem make_query_no_overflow_witness:
  "\<exists>req. make_query LittleEndian 0 (\<lambda>n. Some (replicate n 0)) True (bytes_of ''..a..'') = Inr (23, req) \<and> length req = 1024"
  using make_query_no_overflow [of "\<lambda>n. Some (replicate n 0)" "bytes_of ''..a..''"
      "replicate (length (bytes_of ''..a..'') + 2) 0" LittleEndian 0]
  by (simp add: bytes_of_def)

text \<open>
  The names of the built-in table are resolvable: each is a list of well-formed labels
  joined by dots, short enough for every buffer of the client.
\<close>

theorem domain_table_resolvable:
  "list_all (\<lambda>s. wf_labels (labels_of s) \<and> join_dots (labels_of s) = bytes_of s \<and> length s < 128) domain_table"
  by (simp only: labels_of_eq wf_labels_bytes_of join_dots_bytes_of bytes_of_inject) code_simp

text \<open>
  A name of 128 bytes or more, which DNS allows up to 253, makes the parser write or read
  past the array \<open>aname[128]\<close> on the first address record.
\<close>

theorem dns_parse_response_long_name:
  assumes wf: "wf_labels ls" "128 \<le> length (join_dots ls)" "length rrs < 65535"
    and hdr: "length h1 = 4" "length h2 = 4" "length qt = 4" "length ttl = 4" "length ip = 4"
  shows "\<exists>i. dns_parse_response e (\<lambda>_. True) (encode_response h1 h2 ls qt (RrA ttl ip # rrs) @ pad) =
     Some (Inl (OutOfBounds i))"
proof -
  have lw: "list_all wf_label ls" using wf(1) by (simp add: wf_labels_def)
  define buf where "buf = encode_response h1 h2 ls qt (RrA ttl ip # rrs) @ pad"
  have n: "length (RrA ttl ip # rrs) < 65536" using wf(3) by simp
  obtain pre where b: "buf = pre @ concat (map encode_rr (RrA ttl ip # rrs)) @ pad"
    and r: "dns_parse_response e (\<lambda>_. True) buf =
      bind_run (parse_answers e (\<lambda>_. True) buf (length (RrA ttl ip # rrs)) (length pre) ([], []))
        (\<lambda>(items, prints). Some (Inr (int (length items), items, prints)))"
    and p: "\<exists>p0 p1. length p0 = 12 \<and> buf = p0 @ wire_name ls @ p1"
    by (rule dns_parse_response_answers [OF lw n hdr(1-3) buf_def])
  have "\<exists>i. parse_answer e (\<lambda>_. True) buf (length pre) ([], []) = Some (Inl (OutOfBounds i))"
  proof (rule parse_answer_A_long [OF _ hdr(4,5) p lw wf(2)])
    show "buf = pre @ encode_rr (RrA ttl ip) @ concat (map encode_rr rrs) @ pad" by (simp add: b)
  qed
  then show ?thesis unfolding buf_def [symmetric] r by auto
qed

theorem dns_parse_response_long_name_witness:
  "\<exists>i. dns_parse_response LittleEndian (\<lambda>_. True)
     (encode_response [0, 7, 0x81, 0x80] [0, 0, 0, 0] [replicate 50 0x61, replicate 50 0x61, replicate 50 0x61] [0, 1, 0, 1]
       (RrA [0, 0, 0, 9] [1, 2, 3, 4] # []) @ []) = Some (Inl (OutOfBounds i))"
  by (rule dns_parse_response_long_name) (simp_all add: wf_labels_def wf_label_def dot_def)

text \<open>
  A compression pointer that points at itself makes the parser loop forever: a response
  without questions whose only answer starts with the bytes \<open>0xC0 0x0C\<close> never returns.
\<close>

theorem dns_parse_response_self_pointer:
  assumes "length h1 = 4" and "length h2 = 4"
  shows "dns_parse_response e (\<lambda>_. True) (h1 @ [0, 0, 0, 1] @ h2 @ [0xC0, 12] @ rest) = None"
proof -
  let ?b = "h1 @ [0, 0, 0, 1] @ h2 @ [0xC0, 12] @ rest"
  have "read16 e ?b 4 = Inr 0" and "read16 e ?b 6 = Inr 1"
    using read16_at [of 0 "[0, 0, 0, 1] @ h2 @ [0xC0, 12] @ rest" e h1]
      read16_at [of 2 "[0, 0, 0, 1] @ h2 @ [0xC0, 12] @ rest" e h1] assms
    by (simp_all add: u16_of_def)
  moreover have "dns_parse_name ?b 12 (replicate 128 0) 0 = None"
    using assms by (intro dns_parse_name_self_pointer [of _ _ "0xC0" 12]) (simp_all add: mem_get_def nth_append)
  ultimately show ?thesis
    by (simp add: dns_parse_response_def parse_answer_def numeral_eq_Suc [of num.One])
qed

theorem dns_parse_response_self_pointer_witness:
  "dns_parse_response LittleEndian (\<lambda>_. True) ([0, 7, 0x81, 0x80] @ [0, 0, 0, 1] @ [0, 0, 0, 0] @ [0xC0, 12] @ []) = None"
  using dns_parse_response_self_pointer [of "[0, 7, 0x81, 0x80]" "[0, 0, 0, 0]" LittleEndian "[]"] by simp

end
