(* ===== verification/Reactor.thy ===== *)
theory Reactor
  imports Prelude
begin

text \<open>
  The one-million-connections server \<open>src/network/demo4_c1000k_server.cpp\<close>: a reactor that
  keeps one \<open>sock_item\<close> per connection in a growing list of blocks of 1024 items, and the
  epoll loop that accepts, receives and echoes.

  The linked list of blocks, the item arrays and the I/O buffers are kept in an explicit
  heap, one partial map per kind of object, so that a dangling pointer, a double free and a
  leak are visible. \<open>malloc\<close> is the parameter \<open>mok\<close>: its \<open>n\<close>-th call returns a fresh
  block iff \<open>mok n\<close>. The answers of the kernel (accepted descriptor, received bytes) are
  part of the event handled.
\<close>

section \<open>Data\<close>

definition BUFFER_LENGTH :: nat where "BUFFER_LENGTH = 128"
definition ITEM_LENGTH :: nat where "ITEM_LENGTH = 1024"
definition PORT_COUNT :: nat where "PORT_COUNT = 100"

record sock_item =
  it_fd :: int
  it_rbuf :: "nat option"
  it_rlen :: int
  it_wbuf :: "nat option"
  it_wlen :: int
  it_event :: int
  it_recv_cb :: "nat option"
  it_send_cb :: "nat option"
  it_accept_cb :: "nat option"

record eventblock =
  blk_items :: nat
  blk_next :: "nat option"

record reactor =
  epoll_fd :: int
  block_count :: int
  eventblocks :: "nat option"

text \<open>The heap of the process; \<open>h_reactor\<close> is the reactor object, if it was allocated.\<close>

record rheap =
  h_reactor :: "reactor option"
  h_blocks :: "nat \<Rightarrow> eventblock option"
  h_arrays :: "nat \<Rightarrow> sock_item list option"
  h_bufs :: "nat \<Rightarrow> bytes option"
  h_calls :: nat

type_synonym slot = "nat \<times> nat"

definition zero_item :: sock_item where
  "zero_item = \<lparr>it_fd = 0, it_rbuf = None, it_rlen = 0, it_wbuf = None, it_wlen = 0, it_event = 0,
     it_recv_cb = None, it_send_cb = None, it_accept_cb = None\<rparr>"

section \<open>The block list\<close>

text \<open>The first loop of \<open>reactor_resize\<close>: the last block of the list.\<close>

partial_function (option) last_block :: "rheap \<Rightarrow> nat \<Rightarrow> nat c_run" where
  "last_block h cur =
     (case h_blocks h cur of
        None \<Rightarrow> Some (Inl (OutOfBounds cur))
      | Some b \<Rightarrow> (case blk_next b of None \<Rightarrow> Some (Inr cur) | Some q \<Rightarrow> last_block h q))"

definition find_last :: "rheap \<Rightarrow> nat option \<Rightarrow> nat option c_run" where
  "find_last h p =
     (case p of None \<Rightarrow> Some (Inr None)
      | Some cur \<Rightarrow> bind_run (last_block h cur) (\<lambda>a. Some (Inr (Some a))))"

text \<open>\<open>reactor_resize\<close>: the return code and the heap. The second allocation is only tried when
  the first one succeeds; the item array is given back when the second one fails.\<close>

definition reactor_resize :: "(nat \<Rightarrow> bool) \<Rightarrow> rheap \<Rightarrow> (int \<times> rheap) c_run" where
  "reactor_resize mok h =
     (case h_reactor h of
        None \<Rightarrow> Some (Inr (-1, h))
      | Some r \<Rightarrow>
          bind_run (find_last h (eventblocks r)) (\<lambda>cur.
            let item = h_calls h in
            if \<not> mok item then Some (Inr (-4, h\<lparr>h_calls := item + 1\<rparr>))
            else
              let h1 = h\<lparr>h_calls := item + 1,
                         h_arrays := (h_arrays h)(item \<mapsto> replicate ITEM_LENGTH zero_item)\<rparr>;
                  block = h_calls h1 in
              if \<not> mok block then
                Some (Inr (-5, h1\<lparr>h_calls := block + 1, h_arrays := (h_arrays h1)(item := None)\<rparr>))
              else
                let h2 = h1\<lparr>h_calls := block + 1,
                            h_blocks := (h_blocks h1)(block \<mapsto> \<lparr>blk_items = item, blk_next = None\<rparr>)\<rparr>
                in (case cur of
                      None \<Rightarrow> Some (Inr (0, h2\<lparr>h_reactor :=
                                Some (r\<lparr>eventblocks := Some block, block_count := block_count r + 1\<rparr>)\<rparr>))
                    | Some c \<Rightarrow>
                        (case h_blocks h2 c of
                           None \<Rightarrow> Some (Inl (OutOfBounds c))
                         | Some b \<Rightarrow>
                             Some (Inr (0, h2\<lparr>h_blocks := (h_blocks h2)(c \<mapsto> b\<lparr>blk_next := Some block\<rparr>),
                                             h_reactor := Some (r\<lparr>block_count := block_count r + 1\<rparr>)\<rparr>))))))"

text \<open>The growing loop of \<open>reactor_lookup\<close>; it ignores the return code of \<open>reactor_resize\<close>.\<close>

partial_function (option) grow :: "(nat \<Rightarrow> bool) \<Rightarrow> int \<Rightarrow> rheap \<Rightarrow> rheap c_run" where
  "grow mok block_idx h =
     (case h_reactor h of
        None \<Rightarrow> Some (Inl NullDeref)
      | Some r \<Rightarrow>
          if block_idx \<ge> block_count r then
            (case reactor_resize mok h of
               None \<Rightarrow> None
             | Some res \<Rightarrow> (case res of Inl e \<Rightarrow> Some (Inl e) | Inr p \<Rightarrow> grow mok block_idx (snd p)))
          else Some (Inr h))"

text \<open>The walk \<open>while (i++ < block_idx && cur != nullptr) cur = cur->next\<close>.\<close>

fun walk_blocks :: "rheap \<Rightarrow> nat \<Rightarrow> nat option \<Rightarrow> nat option c_res" where
  "walk_blocks h 0 cur = Inr cur"
| "walk_blocks h (Suc n) None = Inr None"
| "walk_blocks h (Suc n) (Some a) =
     (case h_blocks h a of None \<Rightarrow> Inl (OutOfBounds a) | Some b \<Rightarrow> walk_blocks h n (blk_next b))"

definition reactor_lookup :: "(nat \<Rightarrow> bool) \<Rightarrow> rheap \<Rightarrow> int \<Rightarrow> (slot option \<times> rheap) c_run" where
  "reactor_lookup mok h clientfd =
     (case h_reactor h of
        None \<Rightarrow> Some (Inr (None, h))
      | Some _ \<Rightarrow>
          if clientfd \<le> 0 then Some (Inr (None, h))
          else
            let block_idx = clientfd div int ITEM_LENGTH in
            bind_run (grow mok block_idx h) (\<lambda>h1.
              case h_reactor h1 of
                None \<Rightarrow> Some (Inl NullDeref)
              | Some r1 \<Rightarrow>
                  bind_run (Some (walk_blocks h1 (nat block_idx) (eventblocks r1))) (\<lambda>cur.
                    case cur of
                      None \<Rightarrow> Some (Inl NullDeref)
                    | Some a \<Rightarrow>
                        (case h_blocks h1 a of
                           None \<Rightarrow> Some (Inl (OutOfBounds a))
                         | Some b \<Rightarrow>
                             Some (Inr (Some (blk_items b, nat (clientfd mod int ITEM_LENGTH)), h1))))))"

text \<open>Access to an item through the pointer that \<open>reactor_lookup\<close> returns.\<close>

definition get_item :: "rheap \<Rightarrow> slot \<Rightarrow> sock_item c_res" where
  "get_item h s = (case h_arrays h (fst s) of None \<Rightarrow> Inl (OutOfBounds (fst s)) | Some xs \<Rightarrow> mem_get xs (snd s))"

definition set_item :: "rheap \<Rightarrow> slot \<Rightarrow> sock_item \<Rightarrow> rheap" where
  "set_item h s it =
     (case h_arrays h (fst s) of
        None \<Rightarrow> h
      | Some xs \<Rightarrow> h\<lparr>h_arrays := (h_arrays h)(fst s \<mapsto> xs[snd s := it])\<rparr>)"

section \<open>Shape of the list and its invariant\<close>

fun chain :: "rheap \<Rightarrow> nat option \<Rightarrow> nat list \<Rightarrow> bool" where
  "chain h p [] = (p = None)"
| "chain h p (a # as) = (p = Some a \<and> (case h_blocks h a of None \<Rightarrow> False | Some b \<Rightarrow> chain h (blk_next b) as))"

lemma chain_det: "chain h p as \<Longrightarrow> chain h p bs \<Longrightarrow> as = bs"
proof (induction as arbitrary: p bs)
  case Nil then show ?case by (cases bs) auto
next
  case (Cons a as) then show ?case by (cases bs) (auto split: option.splits)
qed

lemma chain_suffix: "chain h p (as @ bs) \<Longrightarrow> \<exists>q. chain h q bs"
  by (induction as arbitrary: p) (auto split: option.splits)

lemma chain_distinct: "chain h p as \<Longrightarrow> distinct as"
proof (induction as arbitrary: p)
  case Nil then show ?case by simp
next
  case (Cons a as)
  then obtain b where b: "h_blocks h a = Some b" "chain h (blk_next b) as"
    by (auto split: option.splits)
  have "a \<notin> set as"
  proof
    assume "a \<in> set as"
    then obtain us vs where as: "as = us @ a # vs" by (auto dest: split_list)
    then obtain q where "chain h q (a # vs)" using b(2) chain_suffix by blast
    then have "chain h (blk_next b) vs" using b(1) by simp
    then show False using chain_det [OF b(2), of vs] as by simp
  qed
  then show ?case using Cons.IH [OF b(2)] by simp
qed

lemma chain_cong:
  "(\<And>a. a \<in> set as \<Longrightarrow> h_blocks h' a = h_blocks h a) \<Longrightarrow> chain h' p as = chain h p as"
  by (induction as arbitrary: p) (auto split: option.splits)

lemma chain_live: "chain h p as \<Longrightarrow> a \<in> set as \<Longrightarrow> \<exists>b. h_blocks h a = Some b"
  by (induction as arbitrary: p) (auto split: option.splits)

lemma last_block_chain: "chain h (Some a) (a # as) \<Longrightarrow> last_block h a = Some (Inr (last (a # as)))"
proof (induction as arbitrary: a)
  case Nil
  then show ?case by (subst last_block.simps) (auto split: option.splits)
next
  case (Cons b as)
  then obtain x where x: "h_blocks h a = Some x" "blk_next x = Some b" "chain h (Some b) (b # as)"
    by (auto split: option.splits)
  show ?case using Cons.IH [OF x(3)] x by (subst last_block.simps) simp
qed

lemma find_last_chain:
  "chain h p as \<Longrightarrow> find_last h p = Some (Inr (if as = [] then None else Some (last as)))"
proof (cases as)
  case (Cons a bs)
  moreover assume c: "chain h p as"
  ultimately have "p = Some a" by simp
  then show ?thesis using last_block_chain [of h a bs] c Cons by (simp add: find_last_def)
qed (simp add: find_last_def)

lemma walk_blocks_chain: "chain h p as \<Longrightarrow> n < length as \<Longrightarrow> walk_blocks h n p = Inr (Some (as ! n))"
proof (induction as arbitrary: n p)
  case Nil then show ?case by simp
next
  case (Cons a as) then show ?case by (cases n) (auto split: option.splits)
qed

lemma chain_append_block:
  assumes "chain h p as" "as \<noteq> []" "n \<notin> set as" "c = last as"
    and "h_blocks h c = Some b"
    and "h_blocks h' = (h_blocks h)(n \<mapsto> \<lparr>blk_items = i, blk_next = None\<rparr>, c \<mapsto> b\<lparr>blk_next := Some n\<rparr>)"
  shows "chain h' p (as @ [n])"
  using assms(1-4)
proof (induction as arbitrary: p)
  case Nil then show ?case by simp
next
  case (Cons a as)
  have d: "distinct (a # as)" using Cons.prems(1) by (rule chain_distinct)
  obtain x where x: "p = Some a" "h_blocks h a = Some x" "chain h (blk_next x) as"
    using Cons.prems(1) by (auto split: option.splits)
  show ?case
  proof (cases "as = []")
    case True
    then show ?thesis using Cons.prems x assms(5,6) by auto
  next
    case False
    then have "a \<noteq> c" using d Cons.prems(4) by auto
    then have "h_blocks h' a = Some x" using assms(6) x(2) Cons.prems(3) by auto
    moreover have "chain h' (blk_next x) (as @ [n])"
      using Cons.IH [OF x(3) False] Cons.prems(3,4) False by simp
    ultimately show ?thesis using x(1) by simp
  qed
qed

text \<open>
  The abstract view of the reactor: the item arrays of the blocks, one after another, as one
  flat table indexed by descriptor.
\<close>

fun collect :: "rheap \<Rightarrow> nat \<Rightarrow> nat option \<Rightarrow> nat list" where
  "collect h 0 p = []"
| "collect h (Suc n) None = []"
| "collect h (Suc n) (Some a) = a # (case h_blocks h a of None \<Rightarrow> [] | Some b \<Rightarrow> collect h n (blk_next b))"

definition blocks_of :: "rheap \<Rightarrow> nat list" where
  "blocks_of h = (case h_reactor h of None \<Rightarrow> [] | Some r \<Rightarrow> collect h (nat (block_count r)) (eventblocks r))"

definition array_of :: "rheap \<Rightarrow> nat \<Rightarrow> nat" where
  "array_of h a = (case h_blocks h a of None \<Rightarrow> 0 | Some b \<Rightarrow> blk_items b)"

definition items_at :: "rheap \<Rightarrow> nat \<Rightarrow> sock_item list" where
  "items_at h i = (case h_arrays h i of None \<Rightarrow> [] | Some xs \<Rightarrow> xs)"

definition table :: "rheap \<Rightarrow> sock_item list" where
  "table h = concat (map (\<lambda>a. items_at h (array_of h a)) (blocks_of h))"

definition fresh_above :: "rheap \<Rightarrow> bool" where
  "fresh_above h \<longleftrightarrow> (\<forall>n\<ge>h_calls h. h_blocks h n = None \<and> h_arrays h n = None \<and> h_bufs h n = None)"

definition block_list :: "rheap \<Rightarrow> reactor \<Rightarrow> nat list \<Rightarrow> bool" where
  "block_list h r as \<longleftrightarrow>
     h_reactor h = Some r \<and> chain h (eventblocks r) as \<and> block_count r = int (length as) \<and>
     distinct (map (array_of h) as) \<and>
     (\<forall>a\<in>set as. h_arrays h (array_of h a) \<noteq> None \<and> length (items_at h (array_of h a)) = ITEM_LENGTH)"

definition reactor_inv :: "rheap \<Rightarrow> bool" where
  "reactor_inv h \<longleftrightarrow> fresh_above h \<and> (\<exists>r. block_list h r (blocks_of h))"

lemma collect_chain: "chain h p as \<Longrightarrow> collect h (length as) p = as"
  by (induction as arbitrary: p) (auto split: option.splits)

lemma blocks_of_eq: "block_list h r as \<Longrightarrow> blocks_of h = as"
  by (simp add: block_list_def blocks_of_def collect_chain)

lemma reactor_invE:
  assumes "reactor_inv h"
  obtains r where "fresh_above h" "block_list h r (blocks_of h)"
  using assms by (auto simp: reactor_inv_def)

lemma length_table: "block_list h r as \<Longrightarrow> length (table h) = length as * ITEM_LENGTH"
proof -
  assume b: "block_list h r as"
  then have "length (concat (map (\<lambda>a. items_at h (array_of h a)) as)) = length as * ITEM_LENGTH"
    using length_concat_uniform [of "map (\<lambda>a. items_at h (array_of h a)) as" ITEM_LENGTH]
    by (auto simp: block_list_def)
  then show ?thesis using blocks_of_eq [OF b] by (simp add: table_def)
qed

text \<open>The abstract effect of a lookup: the table is extended by whole blocks of zeroed items.\<close>

definition grow_table :: "sock_item list \<Rightarrow> nat \<Rightarrow> sock_item list" where
  "grow_table t fd =
     t @ replicate ((fd div ITEM_LENGTH + 1 - length t div ITEM_LENGTH) * ITEM_LENGTH) zero_item"

section \<open>Growing\<close>

lemma block_list_below:
  assumes "block_list h r as" "fresh_above h" "a \<in> set as"
  shows "a < h_calls h" "array_of h a < h_calls h"
proof -
  have "h_blocks h a \<noteq> None" using assms(1,3) chain_live by (fastforce simp: block_list_def)
  then show "a < h_calls h" using assms(2) by (meson fresh_above_def linorder_not_le)
  show "array_of h a < h_calls h"
    using assms unfolding block_list_def fresh_above_def by (meson linorder_not_le)
qed

text \<open>With memory available, \<open>reactor_resize\<close> appends one block at the end of the list.\<close>

lemma resize_run:
  assumes b: "block_list h r as" and f: "fresh_above h" and m: "\<forall>n. mok n"
  obtains h' r' where "reactor_resize mok h = Some (Inr (0, h'))" "h_reactor h' = Some r'"
    "epoll_fd r' = epoll_fd r" "block_count r' = block_count r + 1"
    "chain h' (eventblocks r') (as @ [Suc (h_calls h)])"
    "h_arrays h' = (h_arrays h)(h_calls h \<mapsto> replicate ITEM_LENGTH zero_item)"
    "h_bufs h' = h_bufs h" "h_calls h' = h_calls h + 2"
    "\<forall>a. a \<noteq> Suc (h_calls h) \<longrightarrow> array_of h' a = array_of h a" "array_of h' (Suc (h_calls h)) = h_calls h"
    "\<forall>a>Suc (h_calls h). h_blocks h' a = h_blocks h a"
proof (cases "as = []")
  let ?n = "h_calls h"
  define h2 where "h2 = h\<lparr>h_calls := ?n + 2,
      h_arrays := (h_arrays h)(?n \<mapsto> replicate ITEM_LENGTH zero_item),
      h_blocks := (h_blocks h)(Suc ?n \<mapsto> \<lparr>blk_items = ?n, blk_next = None\<rparr>)\<rparr>"
  have c: "chain h (eventblocks r) as" and r: "h_reactor h = Some r" using b by (auto simp: block_list_def)
  {
    case True
    define h' where "h' = h2\<lparr>h_reactor := Some (r\<lparr>eventblocks := Some (Suc ?n), block_count := block_count r + 1\<rparr>)\<rparr>"
    show thesis
    proof (rule that [of h' "r\<lparr>eventblocks := Some (Suc ?n), block_count := block_count r + 1\<rparr>"])
      show "reactor_resize mok h = Some (Inr (0, h'))"
        using r find_last_chain [OF c] True m by (simp add: reactor_resize_def Let_def h2_def h'_def)
    qed (use True in \<open>auto simp: h'_def h2_def array_of_def\<close>)
  next
    case False
    then have l: "last as \<in> set as" by simp
    obtain x where x: "h_blocks h (last as) = Some x" using chain_live [OF c l] by auto
    have ll: "last as \<noteq> Suc ?n" using block_list_below(1) [OF b f l] by simp
    define h' where "h' = h2\<lparr>h_blocks := (h_blocks h2)(last as \<mapsto> x\<lparr>blk_next := Some (Suc ?n)\<rparr>),
        h_reactor := Some (r\<lparr>block_count := block_count r + 1\<rparr>)\<rparr>"
    show thesis
    proof (rule that [of h' "r\<lparr>block_count := block_count r + 1\<rparr>"])
      show "reactor_resize mok h = Some (Inr (0, h'))"
        using r find_last_chain [OF c] False m x ll
        by (simp add: reactor_resize_def Let_def h2_def h'_def)
      have "Suc ?n \<notin> set as" using block_list_below(1) [OF b f, of "Suc ?n"] by auto
      then show "chain h' (eventblocks (r\<lparr>block_count := block_count r + 1\<rparr>)) (as @ [Suc ?n])"
        using chain_append_block [OF c False _ refl x, of "Suc ?n" h' ?n] by (simp add: h'_def h2_def)
      show "\<forall>a>Suc ?n. h_blocks h' a = h_blocks h a"
        using block_list_below(1) [OF b f l] by (simp add: h'_def h2_def)
    qed (use ll x in \<open>auto simp: h'_def h2_def array_of_def\<close>)
  }
qed

lemma resize_ok:
  assumes b: "block_list h r as" and f: "fresh_above h" and m: "\<forall>n. mok n"
  obtains h' r' where "reactor_resize mok h = Some (Inr (0, h'))"
    "block_list h' r' (as @ [Suc (h_calls h)])" "fresh_above h'" "epoll_fd r' = epoll_fd r"
    "h_bufs h' = h_bufs h" "table h' = table h @ replicate ITEM_LENGTH zero_item"
proof -
  let ?n = "h_calls h"
  obtain h' r' where R: "reactor_resize mok h = Some (Inr (0, h'))" and r': "h_reactor h' = Some r'"
    and rr: "epoll_fd r' = epoll_fd r" "block_count r' = block_count r + 1"
    and ch: "chain h' (eventblocks r') (as @ [Suc ?n])"
    and same: "h_arrays h' = (h_arrays h)(?n \<mapsto> replicate ITEM_LENGTH zero_item)"
      "h_bufs h' = h_bufs h" "h_calls h' = ?n + 2"
    and nn: "\<forall>a. a \<noteq> Suc ?n \<longrightarrow> array_of h' a = array_of h a" "array_of h' (Suc ?n) = ?n"
    and dom: "\<forall>a>Suc ?n. h_blocks h' a = h_blocks h a"
    by (rule resize_run [OF b f m])
  note below = block_list_below [OF b f]
  have arr': "array_of h' a = array_of h a" if "a \<in> set as" for a
    using nn(1) below(1) [OF that] by simp
  have items': "items_at h' (array_of h a) = items_at h (array_of h a)" if "a \<in> set as" for a
    using below(2) [OF that] by (simp add: items_at_def same)
  have new: "items_at h' ?n = replicate ITEM_LENGTH zero_item"
    by (simp add: items_at_def same)
  have "?n \<notin> array_of h ` set as" using below(2) by fastforce
  then have bl: "block_list h' r' (as @ [Suc ?n])"
    using b r' rr ch arr' items' new nn(2)
    by (auto simp: block_list_def same cong: map_cong)
  have fr: "fresh_above h'"
    using f dom by (auto simp: fresh_above_def same)
  have "table h' = table h @ replicate ITEM_LENGTH zero_item"
    using blocks_of_eq [OF bl] blocks_of_eq [OF b] arr' items' new nn(2)
    by (simp add: table_def cong: map_cong)
  then show thesis using that [OF R bl fr rr(1) same(2)] by blast
qed

lemma grow_ok:
  assumes "block_list h r as" "fresh_above h" "\<forall>n. mok n" "0 \<le> idx"
  shows "\<exists>h' r' as'. grow mok idx h = Some (Inr h') \<and> block_list h' r' (as @ as') \<and> fresh_above h' \<and>
           epoll_fd r' = epoll_fd r \<and> h_bufs h' = h_bufs h \<and> length as' = nat (idx + 1) - length as \<and>
           table h' = table h @ replicate (length as' * ITEM_LENGTH) zero_item"
  using assms(1,2)
proof (induction "nat (idx + 1) - length as" arbitrary: h r as)
  case 0
  then have "idx < block_count r" "h_reactor h = Some r" using assms(4) by (auto simp: block_list_def)
  then show ?case using 0 by (intro exI [of _ h] exI [of _ r] exI [of _ "[]"]) (subst grow.simps, simp)
next
  case (Suc k)
  then have i: "idx \<ge> block_count r" "h_reactor h = Some r" by (auto simp: block_list_def)
  obtain h1 r1 where h1: "reactor_resize mok h = Some (Inr (0, h1))"
    "block_list h1 r1 (as @ [Suc (h_calls h)])" "fresh_above h1" "epoll_fd r1 = epoll_fd r"
    "h_bufs h1 = h_bufs h" "table h1 = table h @ replicate ITEM_LENGTH zero_item"
    by (rule resize_ok [OF Suc.prems assms(3)])
  have "k = nat (idx + 1) - length (as @ [Suc (h_calls h)])" using Suc.hyps(2) by simp
  from Suc.hyps(1) [OF this h1(2,3)] obtain h' r' as' where g: "grow mok idx h1 = Some (Inr h')"
    "block_list h' r' (as @ [Suc (h_calls h)] @ as')" "fresh_above h'" "epoll_fd r' = epoll_fd r1"
    "h_bufs h' = h_bufs h1" "length as' = nat (idx + 1) - length (as @ [Suc (h_calls h)])"
    "table h' = table h1 @ replicate (length as' * ITEM_LENGTH) zero_item"
    by auto
  have "grow mok idx h = Some (Inr h')" using i h1(1) g(1) by (subst grow.simps) simp
  then show ?case using g h1 Suc.hyps(2)
    by (intro exI [of _ h'] exI [of _ r'] exI [of _ "Suc (h_calls h) # as'"])
      (simp add: replicate_add)
qed

section \<open>Lookup\<close>

lemma items_at_set_item:
  "h_arrays h a \<noteq> None \<Longrightarrow>
   items_at (set_item h (a, j) it) i = (if i = a then (items_at h a)[j := it] else items_at h i)"
  by (auto simp: set_item_def items_at_def)

lemma set_item_frame [simp]:
  "h_reactor (set_item h s it) = h_reactor h" "h_blocks (set_item h s it) = h_blocks h"
  "h_bufs (set_item h s it) = h_bufs h" "h_calls (set_item h s it) = h_calls h"
  "array_of (set_item h s it) a = array_of h a"
  "(h_arrays (set_item h s it) a = None) = (h_arrays h a = None)"
  by (auto simp: set_item_def array_of_def split: option.splits)

lemma fresh_above_set_item [simp]: "fresh_above (set_item h s it) = fresh_above h"
  by (simp add: fresh_above_def)

lemma block_list_set_item:
  assumes "block_list h r as" "h_arrays h a \<noteq> None"
  shows "block_list (set_item h (a, j) it) r as"
  using assms chain_cong [of as "set_item h (a, j) it" h]
  by (auto simp: block_list_def items_at_set_item cong: map_cong)

text \<open>Reading and writing through a slot is reading and writing one cell of the table.\<close>

lemma table_slot:
  assumes b: "block_list h r as" and i: "i < length as" and j: "j < ITEM_LENGTH"
  defines "s \<equiv> (array_of h (as ! i), j)"
  shows "get_item h s = Inr (table h ! (i * ITEM_LENGTH + j))"
    and "table (set_item h s it) = (table h)[i * ITEM_LENGTH + j := it]"
proof -
  let ?f = "\<lambda>a. items_at h (array_of h a)"
  have t: "table h = concat (map ?f as)" using blocks_of_eq [OF b] by (simp add: table_def)
  have l: "length xs = ITEM_LENGTH" if "xs \<in> set (map ?f as)" for xs
    using that b by (auto simp: block_list_def)
  have mem: "as ! i \<in> set as" using i by simp
  then have live: "h_arrays h (array_of h (as ! i)) \<noteq> None" "length (?f (as ! i)) = ITEM_LENGTH"
    using b by (auto simp: block_list_def)
  show "get_item h s = Inr (table h ! (i * ITEM_LENGTH + j))"
  proof -
    obtain ys where ys: "h_arrays h (array_of h (as ! i)) = Some ys" using live(1) by auto
    then have "?f (as ! i) = ys" by (simp add: items_at_def)
    then show ?thesis
      using nth_concat_uniform [of "map ?f as" ITEM_LENGTH i j] l i j live(2) t ys
      by (simp add: get_item_def s_def mem_get_def)
  qed
  have d: "distinct (map (array_of h) as)" using b by (simp add: block_list_def)
  have "map (\<lambda>a. items_at (set_item h s it) (array_of h a)) as = (map ?f as)[i := (?f (as ! i))[j := it]]"
  proof (rule nth_equalityI)
    fix k assume "k < length (map (\<lambda>a. items_at (set_item h s it) (array_of h a)) as)"
    then have k: "k < length as" by simp
    then have "array_of h (as ! k) = array_of h (as ! i) \<longleftrightarrow> k = i"
      using d i by (metis (no_types, lifting) length_map nth_eq_iff_index_eq nth_map)
    then show "map (\<lambda>a. items_at (set_item h s it) (array_of h a)) as ! k =
      (map ?f as)[i := (?f (as ! i))[j := it]] ! k"
      using k i live by (simp add: items_at_set_item s_def nth_list_update)
  qed simp
  then show "table (set_item h s it) = (table h)[i * ITEM_LENGTH + j := it]"
    using concat_update_uniform [of "map ?f as" ITEM_LENGTH i j it] l i j t
      blocks_of_eq [OF block_list_set_item [OF b live(1)]]
    by (simp add: table_def s_def)
qed

definition slot_of :: "rheap \<Rightarrow> nat \<Rightarrow> slot" where
  "slot_of h fd = (array_of h (blocks_of h ! (fd div ITEM_LENGTH)), fd mod ITEM_LENGTH)"

lemma ITEM_LENGTH_pos [simp]: "0 < ITEM_LENGTH"
  by (simp add: ITEM_LENGTH_def)

lemma slot_index: "block_list h r as \<Longrightarrow> fd < length (table h) \<Longrightarrow> fd div ITEM_LENGTH < length as"
  by (simp add: length_table less_mult_imp_div_less)

lemma slot_table:
  assumes inv: "reactor_inv h" and fd: "fd < length (table h)"
  shows "get_item h (slot_of h fd) = Inr (table h ! fd)"
    and "table (set_item h (slot_of h fd) it) = (table h)[fd := it]"
    and "reactor_inv (set_item h (slot_of h fd) it)"
    and "slot_of (set_item h (slot_of h fd) it) fd' = slot_of h fd'"
proof -
  obtain r where f: "fresh_above h" and b: "block_list h r (blocks_of h)"
    using inv by (rule reactor_invE)
  let ?i = "fd div ITEM_LENGTH" and ?j = "fd mod ITEM_LENGTH"
  have i: "?i < length (blocks_of h)" and j: "?j < ITEM_LENGTH" using slot_index [OF b fd] by simp_all
  have ij: "?i * ITEM_LENGTH + ?j = fd" by simp
  show "get_item h (slot_of h fd) = Inr (table h ! fd)"
    using table_slot(1) [OF b i j] by (simp add: slot_of_def ij)
  show "table (set_item h (slot_of h fd) it) = (table h)[fd := it]"
    using table_slot(2) [OF b i j] by (simp add: slot_of_def ij)
  have "h_arrays h (array_of h (blocks_of h ! ?i)) \<noteq> None"
    using b i by (simp add: block_list_def)
  then have b': "block_list (set_item h (slot_of h fd) it) r (blocks_of h)"
    using block_list_set_item [OF b] by (simp add: slot_of_def)
  then show "reactor_inv (set_item h (slot_of h fd) it)"
    using f blocks_of_eq [OF b'] by (auto simp: reactor_inv_def)
  show "slot_of (set_item h (slot_of h fd) it) fd' = slot_of h fd'"
    using blocks_of_eq [OF b'] by (simp add: slot_of_def)
qed

lemma slot_of_inj:
  assumes inv: "reactor_inv h" and fds: "fd < length (table h)" "fd' < length (table h)"
    and eq: "slot_of h fd = slot_of h fd'"
  shows "fd = fd'"
proof -
  obtain r where b: "block_list h r (blocks_of h)" using inv by (rule reactor_invE)
  let ?is = "map (array_of h) (blocks_of h)"
  have "distinct ?is" using b by (simp add: block_list_def)
  moreover have "?is ! (fd div ITEM_LENGTH) = ?is ! (fd' div ITEM_LENGTH)"
    using eq slot_index [OF b fds(1)] slot_index [OF b fds(2)] by (simp add: slot_of_def)
  ultimately have "fd div ITEM_LENGTH = fd' div ITEM_LENGTH"
    using slot_index [OF b fds(1)] slot_index [OF b fds(2)]
    by (simp add: nth_eq_iff_index_eq del: nth_map)
  moreover have "fd mod ITEM_LENGTH = fd' mod ITEM_LENGTH" using eq by (simp add: slot_of_def)
  ultimately show ?thesis by (metis div_mult_mod_eq)
qed

lemma reactor_lookup_ok:
  assumes inv: "reactor_inv h" and m: "\<forall>n. mok n" and fd: "0 < fd"
  obtains h' where "reactor_lookup mok h fd = Some (Inr (Some (slot_of h' (nat fd)), h'))"
    "reactor_inv h'" "table h' = grow_table (table h) (nat fd)" "nat fd < length (table h')"
    "h_bufs h' = h_bufs h"
proof -
  obtain r where f: "fresh_above h" and b: "block_list h r (blocks_of h)"
    using inv by (rule reactor_invE)
  let ?i = "fd div int ITEM_LENGTH"
  have i0: "0 \<le> ?i" using fd by (simp add: pos_imp_zdiv_nonneg_iff)
  obtain h' r' as' where g: "grow mok ?i h = Some (Inr h')" "block_list h' r' (blocks_of h @ as')"
    "fresh_above h'" "h_bufs h' = h_bufs h" "length as' = nat (?i + 1) - length (blocks_of h)"
    "table h' = table h @ replicate (length as' * ITEM_LENGTH) zero_item"
    using grow_ok [OF b f m i0] by blast
  have bs: "blocks_of h' = blocks_of h @ as'" using blocks_of_eq [OF g(2)] .
  have ni: "nat ?i = nat fd div ITEM_LENGTH" "nat (fd mod int ITEM_LENGTH) = nat fd mod ITEM_LENGTH"
    using fd by (simp_all add: nat_div_distrib nat_mod_distrib)
  have lt: "nat ?i < length (blocks_of h')" using g(5) i0 bs by simp
  have ch: "chain h' (eventblocks r') (blocks_of h')" "h_reactor h' = Some r'"
    using g(2) bs by (simp_all add: block_list_def)
  obtain x where x: "h_blocks h' (blocks_of h' ! nat ?i) = Some x"
    using chain_live [OF ch(1), of "blocks_of h' ! nat ?i"] lt by auto
  have "reactor_lookup mok h fd = Some (Inr (Some (slot_of h' (nat fd)), h'))"
    using b fd g(1) ch walk_blocks_chain [OF ch(1) lt] x ni
    by (simp add: reactor_lookup_def block_list_def slot_of_def array_of_def Let_def)
  moreover have inv': "reactor_inv h'" using g(2,3) bs by (auto simp: reactor_inv_def)
  moreover have "length (table h) div ITEM_LENGTH = length (blocks_of h)" using length_table [OF b] by simp
  then have "length as' = nat fd div ITEM_LENGTH + 1 - length (table h) div ITEM_LENGTH"
    using g(5) ni(1) i0 by (simp add: nat_add_distrib)
  then have "table h' = grow_table (table h) (nat fd)" using g(6) by (simp add: grow_table_def)
  moreover have "nat fd < length (table h')"
    using lt ni(1) length_table [OF g(2)] bs div_less_iff_less_mult by auto
  ultimately show thesis using g(4) by (rule that)
qed

text \<open>
  C8. \<open>reactor_lookup\<close> with memory available: for every positive descriptor it returns a
  pointer to the cell of that descriptor in the flat table, after extending the table by zeroed
  blocks as far as needed; existing items are kept, the invariant is kept, and reading and
  writing through the pointer reads and writes exactly that cell.
\<close>

theorem reactor_lookup_refines:
  assumes "reactor_inv h" "\<forall>n. mok n" "0 < fd"
  shows "\<exists>sl h'. reactor_lookup mok h fd = Some (Inr (Some sl, h')) \<and> reactor_inv h' \<and>
    table h' = grow_table (table h) (nat fd) \<and>
    get_item h' sl = Inr (table h' ! nat fd) \<and>
    (\<forall>it. reactor_inv (set_item h' sl it) \<and> table (set_item h' sl it) = (table h')[nat fd := it])"
proof -
  obtain h' where "reactor_lookup mok h fd = Some (Inr (Some (slot_of h' (nat fd)), h'))"
    "reactor_inv h'" "table h' = grow_table (table h) (nat fd)" "nat fd < length (table h')"
    by (rule reactor_lookup_ok [OF assms])
  then show ?thesis using slot_table by blast
qed

definition reactor_new :: "int \<Rightarrow> rheap" where
  "reactor_new epfd = \<lparr>h_reactor = Some \<lparr>epoll_fd = epfd, block_count = 0, eventblocks = None\<rparr>,
     h_blocks = (\<lambda>_. None), h_arrays = (\<lambda>_. None), h_bufs = (\<lambda>_. None), h_calls = 1\<rparr>"

lemma reactor_inv_new: "reactor_inv (reactor_new epfd)" "table (reactor_new epfd) = []"
  by (simp_all add: reactor_inv_def reactor_new_def fresh_above_def block_list_def blocks_of_def table_def)

theorem reactor_lookup_refines_witness:
  "\<exists>sl h'. reactor_lookup (\<lambda>_. True) (reactor_new 3) 5 = Some (Inr (Some sl, h')) \<and> reactor_inv h' \<and>
    table h' = grow_table (table (reactor_new 3)) (nat 5) \<and>
    get_item h' sl = Inr (table h' ! nat 5) \<and>
    (\<forall>it. reactor_inv (set_item h' sl it) \<and> table (set_item h' sl it) = (table h')[nat 5 := it])"
  by (rule reactor_lookup_refines) (simp_all add: reactor_inv_new)

text \<open>The growing loop ignores the return code of \<open>reactor_resize\<close>.\<close>

lemma resize_fails:
  assumes "block_list h r as" "\<not> mok (h_calls h)"
  shows "reactor_resize mok h = Some (Inr (-4, h\<lparr>h_calls := h_calls h + 1\<rparr>))"
  using assms find_last_chain [of h "eventblocks r" as]
  by (simp add: reactor_resize_def block_list_def Let_def)

lemma block_list_calls: "block_list (h\<lparr>h_calls := n\<rparr>) r as = block_list h r as"
  using chain_cong [of as "h\<lparr>h_calls := n\<rparr>" h]
  by (simp add: block_list_def array_of_def [abs_def] items_at_def)

lemma grow_starved:
  assumes "grow mok idx h = Some res"
  shows "\<not> (block_list h r as \<and> int (length as) \<le> idx \<and> (\<forall>n\<ge>h_calls h. \<not> mok n))"
proof (rule grow.raw_induct [where P =
    "\<lambda>mok idx h res. \<not> (block_list h r as \<and> int (length as) \<le> idx \<and> (\<forall>n\<ge>h_calls h. \<not> mok n))", OF _ assms])
  fix grow :: "(nat \<Rightarrow> bool) \<Rightarrow> int \<Rightarrow> rheap \<Rightarrow> rheap c_run" and mok idx h res
  assume ih: "\<And>mok idx h res. grow mok idx h = Some res \<Longrightarrow>
      \<not> (block_list h r as \<and> int (length as) \<le> idx \<and> (\<forall>n\<ge>h_calls h. \<not> mok n))"
    and run: "(case h_reactor h of None \<Rightarrow> Some (Inl NullDeref)
       | Some r \<Rightarrow> if block_count r \<le> idx then
            (case reactor_resize mok h of None \<Rightarrow> None
             | Some res \<Rightarrow> (case res of Inl e \<Rightarrow> Some (Inl e) | Inr p \<Rightarrow> grow mok idx (snd p)))
           else Some (Inr h)) = Some res"
  show "\<not> (block_list h r as \<and> int (length as) \<le> idx \<and> (\<forall>n\<ge>h_calls h. \<not> mok n))"
  proof
    assume a: "block_list h r as \<and> int (length as) \<le> idx \<and> (\<forall>n\<ge>h_calls h. \<not> mok n)"
    then have "reactor_resize mok h = Some (Inr (-4, h\<lparr>h_calls := h_calls h + 1\<rparr>))"
      using resize_fails by blast
    moreover have "h_reactor h = Some r" "idx \<ge> block_count r" using a by (simp_all add: block_list_def)
    ultimately have "grow mok idx (h\<lparr>h_calls := h_calls h + 1\<rparr>) = Some res" using run by simp
    from ih [OF this] show False using a by (simp add: block_list_calls)
  qed
qed

text \<open>
  When memory runs out for good, looking up a descriptor whose block does not exist yet
  never returns: the loop around \<open>reactor_resize\<close> does not look at its error code.
\<close>

theorem reactor_lookup_starves:
  assumes "reactor_inv h" "\<forall>n\<ge>h_calls h. \<not> mok n" "length (table h) \<le> nat fd" "0 < fd"
  shows "reactor_lookup mok h fd = None"
proof -
  obtain r where b: "block_list h r (blocks_of h)" using assms(1) by (rule reactor_invE)
  have "length (blocks_of h) * ITEM_LENGTH \<le> nat fd" using assms(3) length_table [OF b] by simp
  then have "length (blocks_of h) \<le> nat fd div ITEM_LENGTH" by (simp add: less_eq_div_iff_mult_less_eq)
  moreover have "fd div int ITEM_LENGTH = int (nat fd div ITEM_LENGTH)" using assms(4) by (simp add: zdiv_int)
  ultimately have "int (length (blocks_of h)) \<le> fd div int ITEM_LENGTH" by simp
  then have "grow mok (fd div int ITEM_LENGTH) h = None"
    using grow_starved [of mok _ h _ r "blocks_of h"] b assms(2) by (metis not_None_eq)
  then show ?thesis using b assms(4) by (simp add: reactor_lookup_def block_list_def Let_def)
qed

theorem reactor_lookup_starves_witness: "reactor_lookup (\<lambda>n. n < 1) (reactor_new 3) 5 = None"
proof (rule reactor_lookup_starves)
  show "reactor_inv (reactor_new 3)" by (rule reactor_inv_new)
  show "\<forall>n\<ge>h_calls (reactor_new 3). \<not> n < 1" by (simp add: reactor_new_def)
  show "length (table (reactor_new 3)) \<le> nat 5" by (simp add: reactor_inv_new)
qed simp

section \<open>The interface of the table\<close>

text \<open>
  What the event loop relies on: a table of cells, each with a stable place, so that a write
  changes its own cell and no other.
\<close>

locale slot_table =
  fixes inv :: "'s \<Rightarrow> bool" and cells :: "'s \<Rightarrow> nat"
    and load :: "'s \<Rightarrow> nat \<Rightarrow> 'v" and store :: "'s \<Rightarrow> nat \<Rightarrow> 'v \<Rightarrow> 's"
  assumes inv_store: "inv s \<Longrightarrow> k < cells s \<Longrightarrow> inv (store s k v)"
    and cells_store: "inv s \<Longrightarrow> k < cells s \<Longrightarrow> cells (store s k v) = cells s"
    and load_store: "inv s \<Longrightarrow> k < cells s \<Longrightarrow> j < cells s \<Longrightarrow>
      load (store s k v) j = (if j = k then v else load s j)"
begin

definition store_all :: "(nat \<times> 'v) list \<Rightarrow> 's \<Rightarrow> 's" where
  "store_all kvs s = fold (\<lambda>(k, v) s. store s k v) kvs s"

lemma store_all_inv:
  "inv s \<Longrightarrow> \<forall>k\<in>fst ` set kvs. k < cells s \<Longrightarrow> inv (store_all kvs s) \<and> cells (store_all kvs s) = cells s"
  by (induction kvs arbitrary: s) (auto simp: store_all_def inv_store cells_store)

lemma load_store_all:
  assumes "inv s" "\<forall>k\<in>fst ` set kvs. k < cells s" "j < cells s"
  shows "load (store_all kvs s) j = (case map_of (rev kvs) j of None \<Rightarrow> load s j | Some v \<Rightarrow> v)"
  using assms
proof (induction kvs rule: rev_induct)
  case Nil then show ?case by (simp add: store_all_def)
next
  case (snoc kv kvs)
  obtain k v where kv: "kv = (k, v)" by (cases kv)
  have "store_all (kvs @ [kv]) s = store (store_all kvs s) k v" by (simp add: store_all_def kv)
  moreover have "inv (store_all kvs s)" "cells (store_all kvs s) = cells s"
    using store_all_inv [OF snoc.prems(1)] snoc.prems(2) by auto
  ultimately show ?case using snoc by (auto simp: load_store kv)
qed

end

definition load_item :: "rheap \<Rightarrow> nat \<Rightarrow> sock_item" where
  "load_item h fd = (case get_item h (slot_of h fd) of Inl _ \<Rightarrow> zero_item | Inr it \<Rightarrow> it)"

definition store_item :: "rheap \<Rightarrow> nat \<Rightarrow> sock_item \<Rightarrow> rheap" where
  "store_item h fd it = set_item h (slot_of h fd) it"

lemma load_item_table: "reactor_inv h \<Longrightarrow> fd < length (table h) \<Longrightarrow> load_item h fd = table h ! fd"
  by (simp add: load_item_def slot_table)

interpretation rt: slot_table reactor_inv "\<lambda>h. length (table h)" load_item store_item
proof unfold_locales
  fix h k j v
  assume a: "reactor_inv h" "k < length (table h)"
  show "reactor_inv (store_item h k v)" using slot_table(3) [OF a] by (simp add: store_item_def)
  show l: "length (table (store_item h k v)) = length (table h)"
    using slot_table(2) [OF a] by (simp add: store_item_def)
  assume j: "j < length (table h)"
  then show "load_item (store_item h k v) j = (if j = k then v else load_item h j)"
    using slot_table(2,3) [OF a] a l by (simp add: load_item_table store_item_def nth_list_update)
qed

end
