(* ===== verification/C1000k.thy ===== *)
theory C1000k
  imports Reactor
begin

text \<open>
  The event loop of \<open>src/network/demo4_c1000k_server.cpp\<close> over the reactor of \<open>Reactor\<close>:
  accepting, receiving into the read buffer of the connection, copying it to the write buffer,
  sending it, and releasing the buffers at the end of the connection.

  One event is one element of the array that \<open>epoll_wait\<close> fills, together with the answers of
  the kernel to the calls its handler makes. The invariant ties the interest list of the epoll
  instance to the items and to the live buffers: every connection owns two buffers of 128
  bytes, no two connections share one, and no buffer is live without a connection.
\<close>

section \<open>The event loop\<close>

record ready_event =
  ev_fd :: int
  ev_mask :: u32
  ev_accept :: int        \<comment> \<open>what \<open>accept\<close> answers\<close>
  ev_recv :: recv_res     \<comment> \<open>what \<open>recv\<close> answers\<close>
  ev_sent :: int          \<comment> \<open>what \<open>send\<close> answers\<close>

datatype server_out =
    OutAccept int         \<comment> \<open>\<open>printf("accept: %d")\<close>\<close>
  | OutRecv bytes int     \<comment> \<open>\<open>printf("recv: %s, n: %d")\<close>\<close>
  | OutSend int bytes     \<comment> \<open>\<open>send\<close> with this buffer\<close>
  | OutSent int           \<comment> \<open>\<open>printf("sent: %d")\<close>\<close>
  | OutClose int          \<comment> \<open>\<open>close\<close>\<close>

record server =
  sv_heap :: rheap
  sv_listen :: "int set"
  sv_interest :: "int \<Rightarrow> u32 option"
  sv_out :: "server_out list"

definition is_listenfd :: "int set \<Rightarrow> int \<Rightarrow> bool" where
  "is_listenfd sockfds connfd \<longleftrightarrow> connfd \<in> sockfds"

definition calloc_buf :: "(nat \<Rightarrow> bool) \<Rightarrow> rheap \<Rightarrow> nat option \<times> rheap" where
  "calloc_buf mok h =
     (if mok (h_calls h)
      then (Some (h_calls h), h\<lparr>h_calls := h_calls h + 1,
              h_bufs := (h_bufs h)(h_calls h \<mapsto> replicate BUFFER_LENGTH 0)\<rparr>)
      else (None, h\<lparr>h_calls := h_calls h + 1\<rparr>))"

definition free_buf :: "rheap \<Rightarrow> nat option \<Rightarrow> rheap c_res" where
  "free_buf h p =
     (case p of
        None \<Rightarrow> Inr h
      | Some a \<Rightarrow> if h_bufs h a = None then Inl (BadFree a) else Inr (h\<lparr>h_bufs := (h_bufs h)(a := None)\<rparr>))"

definition get_buf :: "rheap \<Rightarrow> nat option \<Rightarrow> bytes c_res" where
  "get_buf h p =
     (case p of
        None \<Rightarrow> Inl NullDeref
      | Some a \<Rightarrow> (case h_bufs h a of None \<Rightarrow> Inl (OutOfBounds a) | Some x \<Rightarrow> Inr x))"

definition put_buf :: "rheap \<Rightarrow> nat option \<Rightarrow> bytes \<Rightarrow> rheap c_res" where
  "put_buf h p x = (case p of None \<Rightarrow> Inl NullDeref | Some a \<Rightarrow> Inr (h\<lparr>h_bufs := (h_bufs h)(a \<mapsto> x)\<rparr>))"

text \<open>\<open>recv(eventfd, rbuf, BUFFER_LENGTH, 0)\<close>: a null buffer makes the call fail (\<open>EFAULT\<close>).\<close>

definition recv_into :: "rheap \<Rightarrow> nat option \<Rightarrow> recv_res \<Rightarrow> (int \<times> rheap) c_res" where
  "recv_into h p res =
     (case res of
        RecvError _ \<Rightarrow> Inr (-1, h)
      | RecvBytes bs \<Rightarrow>
          if bs = [] then Inr (0, h)
          else if p = None then Inr (-1, h)
          else bind_err (get_buf h p) (\<lambda>x.
                 bind_err (mem_write x 0 bs) (\<lambda>x'.
                 bind_err (put_buf h p x') (\<lambda>h'. Inr (int (length bs), h')))))"

text \<open>The text that \<open>printf("%s", rbuf)\<close> prints: up to the first zero byte of the buffer.\<close>

definition print_str :: "rheap \<Rightarrow> nat option \<Rightarrow> bytes c_res" where
  "print_str h p = bind_err (get_buf h p) (\<lambda>x. bind_err (c_strlen x) (\<lambda>n. Inr (take n x)))"

text \<open>\<open>memcpy(wbuf, rbuf, BUFFER_LENGTH)\<close>.\<close>

definition copy_buf :: "rheap \<Rightarrow> nat option \<Rightarrow> nat option \<Rightarrow> rheap c_res" where
  "copy_buf h dst src =
     bind_err (get_buf h src) (\<lambda>x. bind_err (mem_read x 0 BUFFER_LENGTH) (\<lambda>bs.
     bind_err (get_buf h dst) (\<lambda>y. bind_err (mem_write y 0 bs) (\<lambda>y'. put_buf h dst y'))))"

text \<open>\<open>reactor_lookup\<close> followed by the accesses through the pointer it returns.\<close>

definition with_item ::
  "(nat \<Rightarrow> bool) \<Rightarrow> rheap \<Rightarrow> int \<Rightarrow> (rheap \<Rightarrow> slot \<Rightarrow> sock_item \<Rightarrow> 'a c_res) \<Rightarrow> 'a c_run" where
  "with_item mok h fd k =
     bind_run (reactor_lookup mok h fd) (\<lambda>(p, h1).
       case p of
         None \<Rightarrow> Some (Inl NullDeref)
       | Some sl \<Rightarrow> Some (bind_err (get_item h1 sl) (k h1 sl)))"

definition handle_accept :: "(nat \<Rightarrow> bool) \<Rightarrow> int \<Rightarrow> server \<Rightarrow> server c_run" where
  "handle_accept mok clientfd s =
     with_item mok (sv_heap s) clientfd (\<lambda>h1 sl item.
       let (rb, h2) = calloc_buf mok h1;
           (wb, h3) = calloc_buf mok h2 in
       Inr (s\<lparr>sv_heap := set_item h3 sl
                 (item\<lparr>it_fd := clientfd, it_rbuf := rb, it_rlen := 0, it_wbuf := wb, it_wlen := 0\<rparr>),
              sv_interest := (sv_interest s)(clientfd \<mapsto> EPOLLIN),
              sv_out := sv_out s @ (if clientfd mod 1000 = 999 then [OutAccept clientfd] else [])\<rparr>))"

definition handle_read :: "(nat \<Rightarrow> bool) \<Rightarrow> int \<Rightarrow> recv_res \<Rightarrow> server \<Rightarrow> server c_run" where
  "handle_read mok fd res s =
     with_item mok (sv_heap s) fd (\<lambda>h1 sl item.
       bind_err (recv_into h1 (it_rbuf item) res) (\<lambda>(n, h2).
         if n > 0 then
           bind_err (print_str h2 (it_rbuf item)) (\<lambda>msg.
           bind_err (copy_buf h2 (it_wbuf item) (it_rbuf item)) (\<lambda>h3.
             Inr (s\<lparr>sv_heap := h3, sv_interest := (sv_interest s)(fd \<mapsto> EPOLLOUT),
                    sv_out := sv_out s @ [OutRecv msg n]\<rparr>)))
         else if n = 0 then
           bind_err (free_buf h2 (it_rbuf item)) (\<lambda>h3.
           bind_err (free_buf h3 (it_wbuf item)) (\<lambda>h4.
             Inr (s\<lparr>sv_heap := set_item h4 sl (item\<lparr>it_fd := 0\<rparr>),
                    sv_interest := (sv_interest s)(fd := None),
                    sv_out := sv_out s @ [OutClose fd]\<rparr>)))
         else Inr (s\<lparr>sv_heap := h2\<rparr>)))"

definition handle_write :: "(nat \<Rightarrow> bool) \<Rightarrow> int \<Rightarrow> int \<Rightarrow> server \<Rightarrow> server c_run" where
  "handle_write mok fd sent s =
     with_item mok (sv_heap s) fd (\<lambda>h1 sl item.
       bind_err (get_buf h1 (it_wbuf item)) (\<lambda>x.
       bind_err (mem_read x 0 BUFFER_LENGTH) (\<lambda>bs.
         Inr (s\<lparr>sv_heap := h1, sv_interest := (sv_interest s)(fd \<mapsto> EPOLLIN),
                sv_out := sv_out s @ [OutSend fd bs, OutSent sent]\<rparr>))))"

text \<open>One iteration of the inner loop; the flag says that the loop is left by \<open>break\<close>.\<close>

definition handle_event :: "(nat \<Rightarrow> bool) \<Rightarrow> ready_event \<Rightarrow> server \<Rightarrow> (bool \<times> server) c_run" where
  "handle_event mok e s =
     (if is_listenfd (sv_listen s) (ev_fd e) then
        if ev_accept e = -1 then Some (Inr (True, s))
        else bind_run (handle_accept mok (ev_accept e) s) (\<lambda>s'. Some (Inr (False, s')))
      else if ev_mask e AND EPOLLIN \<noteq> 0 then
        bind_run (handle_read mok (ev_fd e) (ev_recv e) s) (\<lambda>s'. Some (Inr (False, s')))
      else if ev_mask e AND EPOLLOUT \<noteq> 0 then
        bind_run (handle_write mok (ev_fd e) (ev_sent e) s) (\<lambda>s'. Some (Inr (False, s')))
      else Some (Inr (False, s)))"

fun handle_events :: "(nat \<Rightarrow> bool) \<Rightarrow> ready_event list \<Rightarrow> server \<Rightarrow> server c_run" where
  "handle_events mok [] s = Some (Inr s)"
| "handle_events mok (e # es) s =
     bind_run (handle_event mok e s) (\<lambda>(brk, s'). if brk then Some (Inr s') else handle_events mok es s')"

text \<open>\<open>init_server\<close>, from the answers of \<open>socket\<close> and \<open>bind\<close>, and the initialisation of \<open>main\<close>.\<close>

definition init_server :: "int \<Rightarrow> int \<Rightarrow> int" where
  "init_server sock bound = (if sock = -1 then -1 else if bound = -1 then -2 else sock)"

fun add_listeners :: "(int \<times> int) list \<Rightarrow> server \<Rightarrow> server" where
  "add_listeners [] s = s"
| "add_listeners ((sock, bound) # xs) s =
     (let listenfd = init_server sock bound in
      add_listeners xs (s\<lparr>sv_listen := insert listenfd (sv_listen s),
        sv_interest := (if listenfd < 0 then sv_interest s else (sv_interest s)(listenfd \<mapsto> EPOLLIN))\<rparr>))"

definition server_init :: "(nat \<Rightarrow> bool) \<Rightarrow> int \<Rightarrow> (int \<times> int) list \<Rightarrow> server option" where
  "server_init mok epfd socks =
     (if \<not> mok 0 then None
      else Some (add_listeners (take PORT_COUNT socks)
             \<lparr>sv_heap = reactor_new epfd, sv_listen = {}, sv_interest = (\<lambda>_. None), sv_out = []\<rparr>))"

fun server_rounds :: "(nat \<Rightarrow> bool) \<Rightarrow> ready_event list list \<Rightarrow> server \<Rightarrow> server c_run" where
  "server_rounds mok [] s = Some (Inr s)"
| "server_rounds mok (es # ess) s = bind_run (handle_events mok es s) (server_rounds mok ess)"

text \<open>\<open>main\<close> up to a number of rounds of the loop; \<open>Inl\<close> carries its early exit code.\<close>

definition c1000k_main :: "(nat \<Rightarrow> bool) \<Rightarrow> int \<Rightarrow> (int \<times> int) list \<Rightarrow> ready_event list list \<Rightarrow> int + server c_run" where
  "c1000k_main mok epfd socks rounds =
     (case server_init mok epfd socks of None \<Rightarrow> Inl (-3) | Some s \<Rightarrow> Inr (server_rounds mok rounds s))"

section \<open>Invariant\<close>

definition same_shape :: "rheap \<Rightarrow> rheap \<Rightarrow> bool" where
  "same_shape h h' \<longleftrightarrow> h_reactor h' = h_reactor h \<and> h_blocks h' = h_blocks h \<and> h_arrays h' = h_arrays h"

lemma collect_shape: "h_blocks h' = h_blocks h \<Longrightarrow> collect h' n p = collect h n p"
  by (induction h n p rule: collect.induct) (auto split: option.splits)

lemma same_shapeD:
  assumes "same_shape h h'"
  shows "table h' = table h" "slot_of h' fd = slot_of h fd" "get_item h' sl = get_item h sl"
    "block_list h' r as = block_list h r as" "blocks_of h' = blocks_of h"
proof -
  have a: "array_of h' = array_of h" "items_at h' = items_at h" "get_item h' = get_item h"
    using assms by (auto simp: same_shape_def array_of_def items_at_def get_item_def)
  show b: "blocks_of h' = blocks_of h"
    using assms collect_shape [of h' h] by (simp add: same_shape_def blocks_of_def split: option.splits)
  show "table h' = table h" "slot_of h' fd = slot_of h fd" "get_item h' sl = get_item h sl"
    using a b by (simp_all add: table_def slot_of_def)
  show "block_list h' r as = block_list h r as"
    using a assms chain_cong [of as h' h "eventblocks r"]
    by (auto simp: block_list_def same_shape_def)
qed

lemma reactor_inv_shape: "reactor_inv h \<Longrightarrow> same_shape h h' \<Longrightarrow> fresh_above h' \<Longrightarrow> reactor_inv h'"
  by (simp add: reactor_inv_def same_shapeD)

abbreviation item :: "server \<Rightarrow> int \<Rightarrow> sock_item" where
  "item s fd \<equiv> table (sv_heap s) ! nat fd"

definition item_bufs :: "sock_item \<Rightarrow> nat set" where
  "item_bufs it = set_option (it_rbuf it) \<union> set_option (it_wbuf it)"

definition client :: "server \<Rightarrow> int \<Rightarrow> bool" where
  "client s fd \<longleftrightarrow> sv_interest s fd \<noteq> None \<and> fd \<notin> sv_listen s"

text \<open>A connection: its item carries its descriptor and two buffers of its own.\<close>

definition conn_ok :: "rheap \<Rightarrow> sock_item \<Rightarrow> int \<Rightarrow> bool" where
  "conn_ok h it fd \<longleftrightarrow> 0 < fd \<and> nat fd < length (table h) \<and> it_fd it = fd \<and>
     (case (it_rbuf it, it_wbuf it) of
        (Some a, Some b) \<Rightarrow> a \<noteq> b \<and>
          map_option length (h_bufs h a) = Some BUFFER_LENGTH \<and>
          map_option length (h_bufs h b) = Some BUFFER_LENGTH
      | _ \<Rightarrow> False)"

definition server_inv :: "server \<Rightarrow> bool" where
  "server_inv s \<longleftrightarrow>
     reactor_inv (sv_heap s) \<and>
     (\<forall>fd. client s fd \<longrightarrow> conn_ok (sv_heap s) (item s fd) fd) \<and>
     (\<forall>fd fd'. client s fd \<and> client s fd' \<and> fd \<noteq> fd' \<longrightarrow> item_bufs (item s fd) \<inter> item_bufs (item s fd') = {}) \<and>
     dom (h_bufs (sv_heap s)) = (\<Union>fd\<in>{fd. client s fd}. item_bufs (item s fd))"

lemma reactor_lookup_hit:
  assumes inv: "reactor_inv h" and fd: "0 < fd" "nat fd < length (table h)"
  shows "reactor_lookup mok h fd = Some (Inr (Some (slot_of h (nat fd)), h))"
proof -
  obtain r where b: "block_list h r (blocks_of h)" using inv by (rule reactor_invE)
  let ?i = "fd div int ITEM_LENGTH"
  have ni: "nat ?i = nat fd div ITEM_LENGTH" "nat (fd mod int ITEM_LENGTH) = nat fd mod ITEM_LENGTH"
    using fd by (simp_all add: nat_div_distrib nat_mod_distrib)
  have lt: "nat ?i < length (blocks_of h)" using slot_index [OF b fd(2)] ni by simp
  have ch: "chain h (eventblocks r) (blocks_of h)" "h_reactor h = Some r"
    and cnt: "\<not> ?i \<ge> block_count r"
    using b lt by (auto simp: block_list_def)
  obtain x where x: "h_blocks h (blocks_of h ! nat ?i) = Some x"
    using chain_live [OF ch(1), of "blocks_of h ! nat ?i"] lt by auto
  have g: "grow mok ?i h = Some (Inr h)" using ch(2) cnt by (subst grow.simps) simp
  show ?thesis
    using fd ch(2) g walk_blocks_chain [OF ch(1) lt] x ni
    by (simp add: reactor_lookup_def slot_of_def array_of_def Let_def)
qed

lemma with_item_hit:
  assumes "reactor_inv h" "0 < fd" "nat fd < length (table h)"
  shows "with_item mok h fd k = Some (k h (slot_of h (nat fd)) (table h ! nat fd))"
  using assms by (simp add: with_item_def reactor_lookup_hit slot_table)

lemma conn_okE:
  assumes "conn_ok h it fd"
  obtains a b x y where "0 < fd" "nat fd < length (table h)" "it_fd it = fd"
    "it_rbuf it = Some a" "it_wbuf it = Some b" "a \<noteq> b"
    "h_bufs h a = Some x" "length x = BUFFER_LENGTH" "h_bufs h b = Some y" "length y = BUFFER_LENGTH"
  using assms by (auto simp: conn_ok_def split: option.splits)

lemma server_invD:
  assumes "server_inv s"
  shows "reactor_inv (sv_heap s)" "client s fd \<Longrightarrow> conn_ok (sv_heap s) (item s fd) fd"
    "client s fd \<Longrightarrow> client s fd' \<Longrightarrow> fd \<noteq> fd' \<Longrightarrow> item_bufs (item s fd) \<inter> item_bufs (item s fd') = {}"
    "dom (h_bufs (sv_heap s)) = (\<Union>fd\<in>{fd. client s fd}. item_bufs (item s fd))"
  using assms by (simp_all add: server_inv_def)

lemma client_range:
  "server_inv s \<Longrightarrow> client s fd \<Longrightarrow> 0 < fd \<and> nat fd < length (table (sv_heap s))"
  using server_invD(2) by (auto simp: conn_ok_def)

lemma with_item_client:
  assumes "server_inv s" "client s fd"
  shows "with_item mok (sv_heap s) fd k = Some (k (sv_heap s) (slot_of (sv_heap s) (nat fd)) (item s fd))"
  using client_range [OF assms] server_invD(1) [OF assms(1)] by (simp add: with_item_hit)

lemma client_bufs:
  assumes "server_inv s" "client s fd"
  obtains a b x y where "it_rbuf (item s fd) = Some a" "it_wbuf (item s fd) = Some b" "a \<noteq> b"
    "h_bufs (sv_heap s) a = Some x" "length x = BUFFER_LENGTH"
    "h_bufs (sv_heap s) b = Some y" "length y = BUFFER_LENGTH"
  using server_invD(2) [OF assms] by (rule conn_okE)

text \<open>Changing the contents of live buffers, without changing their sizes, keeps the invariant.\<close>

lemma server_inv_contents:
  assumes inv: "server_inv s" and sh: "same_shape (sv_heap s) (sv_heap s')"
    and len: "\<And>a. map_option length (h_bufs (sv_heap s') a) = map_option length (h_bufs (sv_heap s) a)"
    and calls: "h_calls (sv_heap s') = h_calls (sv_heap s)"
    and cl: "\<And>fd. client s' fd = client s fd"
  shows "server_inv s'"
proof -
  have none: "h_bufs (sv_heap s') a = None \<longleftrightarrow> h_bufs (sv_heap s) a = None" for a
    using len [of a] by (metis map_option_is_None)
  have "fresh_above (sv_heap s')"
    using server_invD(1) [OF inv] sh none calls
    by (auto simp: reactor_inv_def fresh_above_def same_shape_def)
  then have "reactor_inv (sv_heap s')" using reactor_inv_shape [OF server_invD(1) [OF inv] sh] by blast
  moreover have "conn_ok (sv_heap s') it fd = conn_ok (sv_heap s) it fd" for it fd
    using len by (simp add: conn_ok_def same_shapeD [OF sh] split: option.splits)
  moreover have "dom (h_bufs (sv_heap s')) = dom (h_bufs (sv_heap s))" using none by (simp add: dom_def)
  ultimately show ?thesis
    using inv by (simp add: server_inv_def cl same_shapeD [OF sh])
qed

section \<open>Reading and writing\<close>

text \<open>
  A read of bytes: the bytes go to the front of the read buffer, the whole read buffer goes to
  the write buffer, and the connection waits for writability. It needs a zero byte in the read
  buffer, because the buffer is printed as a string.
\<close>

lemma handle_read_data:
  assumes inv: "server_inv s" and cl: "client s fd"
    and bs: "bs \<noteq> []" "length bs \<le> BUFFER_LENGTH"
    and a: "it_rbuf (item s fd) = Some a" "h_bufs (sv_heap s) a = Some x"
    and b: "it_wbuf (item s fd) = Some b"
  defines "x' \<equiv> bs @ drop (length bs) x"
  shows "handle_read mok fd (RecvBytes bs) s =
     Some (if 0 \<in> set x'
           then Inr (s\<lparr>sv_heap := (sv_heap s)\<lparr>h_bufs := (h_bufs (sv_heap s))(a \<mapsto> x', b \<mapsto> x')\<rparr>,
                       sv_interest := (sv_interest s)(fd \<mapsto> EPOLLOUT),
                       sv_out := sv_out s @ [OutRecv (takeWhile (\<lambda>c. c \<noteq> 0) x') (int (length bs))]\<rparr>)
           else Inl (OutOfBounds BUFFER_LENGTH))"
proof -
  let ?h = "sv_heap s"
  obtain y where c: "0 < fd" "nat fd < length (table ?h)" "a \<noteq> b" "length x = BUFFER_LENGTH"
      "h_bufs ?h b = Some y" "length y = BUFFER_LENGTH"
    using client_range [OF inv cl] client_bufs [OF inv cl] a b
    by (metis option.inject)
  have len: "length x' = BUFFER_LENGTH" using bs c(4) by (simp add: x'_def)
  define h2 where "h2 = ?h\<lparr>h_bufs := (h_bufs ?h)(a \<mapsto> x')\<rparr>"
  have r: "recv_into ?h (Some a) (RecvBytes bs) = Inr (int (length bs), h2)"
    using bs a c(4) by (simp add: recv_into_def get_buf_def put_buf_def mem_write_def x'_def h2_def)
  have p: "print_str h2 (Some a) =
      (if 0 \<in> set x' then Inr (takeWhile (\<lambda>c. c \<noteq> 0) x') else Inl (OutOfBounds BUFFER_LENGTH))"
    using len by (simp add: print_str_def get_buf_def h2_def c_strlen_if takeWhile_eq_take [symmetric])
  have k: "copy_buf h2 (Some b) (Some a) = Inr (?h\<lparr>h_bufs := (h_bufs ?h)(a \<mapsto> x', b \<mapsto> x')\<rparr>)"
    using len c by (simp add: copy_buf_def get_buf_def put_buf_def mem_read_def mem_write_def h2_def)
  show ?thesis
    using a b r p k bs by (simp add: handle_read_def with_item_client [OF inv cl])
qed

lemma handle_read_data_inv:
  assumes inv: "server_inv s" and cl: "client s fd" and bs: "bs \<noteq> []" "length bs \<le> BUFFER_LENGTH"
    and run: "handle_read mok fd (RecvBytes bs) s = Some (Inr s')"
  shows "server_inv s'"
proof -
  obtain a b x y where c: "it_rbuf (item s fd) = Some a" "it_wbuf (item s fd) = Some b" "a \<noteq> b"
    "h_bufs (sv_heap s) a = Some x" "length x = BUFFER_LENGTH"
    "h_bufs (sv_heap s) b = Some y" "length y = BUFFER_LENGTH"
    by (rule client_bufs [OF inv cl])
  define x' where "x' = bs @ drop (length bs) x"
  have len: "length x' = BUFFER_LENGTH" using bs c(5) by (simp add: x'_def)
  have s': "s' = s\<lparr>sv_heap := (sv_heap s)\<lparr>h_bufs := (h_bufs (sv_heap s))(a \<mapsto> x', b \<mapsto> x')\<rparr>,
                       sv_interest := (sv_interest s)(fd \<mapsto> EPOLLOUT),
                       sv_out := sv_out s @ [OutRecv (takeWhile (\<lambda>c. c \<noteq> 0) x') (int (length bs))]\<rparr>"
    using run handle_read_data [OF inv cl bs c(1,4,2), of mok, folded x'_def]
    by (simp split: if_splits)
  show ?thesis
    by (rule server_inv_contents [OF inv]) (use s' c len cl in \<open>auto simp: same_shape_def client_def\<close>)
qed

lemma handle_read_error:
  assumes inv: "server_inv s" and cl: "client s fd"
  shows "handle_read mok fd (RecvError en) s = Some (Inr s)"
  by (simp add: handle_read_def recv_into_def with_item_client [OF assms])

lemma handle_write_run:
  assumes inv: "server_inv s" and cl: "client s fd"
    and b: "it_wbuf (item s fd) = Some b" "h_bufs (sv_heap s) b = Some y"
  shows "handle_write mok fd n s =
    Some (Inr (s\<lparr>sv_interest := (sv_interest s)(fd \<mapsto> EPOLLIN), sv_out := sv_out s @ [OutSend fd y, OutSent n]\<rparr>))"
proof -
  have l: "length y = BUFFER_LENGTH" using client_bufs [OF inv cl] b by (metis option.inject)
  show ?thesis
    using b l by (simp add: handle_write_def get_buf_def mem_read_def with_item_client [OF inv cl])
qed

lemma handle_write_inv:
  assumes inv: "server_inv s" and cl: "client s fd"
  shows "\<exists>s'. handle_write mok fd n s = Some (Inr s') \<and> server_inv s'"
proof -
  obtain b y where b: "it_wbuf (item s fd) = Some b" "h_bufs (sv_heap s) b = Some y"
    by (rule client_bufs [OF inv cl])
  show ?thesis
    unfolding handle_write_run [OF inv cl b]
    using server_inv_contents [OF inv] cl by (simp add: same_shape_def client_def)
qed

section \<open>Closing and accepting\<close>

lemma item_bufs_live: "server_inv s \<Longrightarrow> client s fd \<Longrightarrow> item_bufs (item s fd) \<subseteq> dom (h_bufs (sv_heap s))"
  using server_invD(4) by blast

text \<open>Releasing a connection: its two buffers go, everything of the others stays.\<close>

lemma server_inv_release:
  assumes inv: "server_inv s" and cl: "client s fd"
    and t: "table (sv_heap s') = (table (sv_heap s))[nat fd := it]" and r: "reactor_inv (sv_heap s')"
    and bufs: "h_bufs (sv_heap s') = (h_bufs (sv_heap s)) |` (- item_bufs (item s fd))"
    and cl': "\<And>f. client s' f \<longleftrightarrow> client s f \<and> f \<noteq> fd"
  shows "server_inv s'"
proof -
  have other: "item s' f = item s f" if "client s' f" for f
    using that cl' t client_range [OF inv cl] client_range [OF inv, of f]
    by (simp add: nth_list_update_neq nat_eq_iff)
  have disj: "item_bufs (item s f) \<inter> item_bufs (item s fd) = {}" if "client s' f" for f
    using server_invD(3) [OF inv, of f fd] cl cl' that by simp
  have "conn_ok (sv_heap s') (item s' f) f" if f: "client s' f" for f
  proof -
    have "conn_ok (sv_heap s) (item s f) f" using server_invD(2) [OF inv] f cl' by blast
    then show ?thesis using disj [OF f] other [OF f] t
      by (auto simp: conn_ok_def bufs item_bufs_def split: option.splits)
  qed
  moreover have "item_bufs (item s' f) \<inter> item_bufs (item s' f') = {}"
    if "client s' f" "client s' f'" "f \<noteq> f'" for f f'
    using server_invD(3) [OF inv, of f f'] that other cl' by simp
  moreover have "dom (h_bufs (sv_heap s')) = (\<Union>f\<in>{f. client s' f}. item_bufs (item s' f))"
  proof -
    have "dom (h_bufs (sv_heap s')) = (\<Union>f\<in>{f. client s f}. item_bufs (item s f)) - item_bufs (item s fd)"
      using server_invD(4) [OF inv] by (auto simp: bufs)
    also have "\<dots> = (\<Union>f\<in>{f. client s' f}. item_bufs (item s f))"
      using disj cl' by blast
    finally show ?thesis using other by simp
  qed
  ultimately show ?thesis using r by (auto simp: server_inv_def)
qed

lemma fresh_above_free:
  "fresh_above h \<Longrightarrow> fresh_above (h\<lparr>h_bufs := (h_bufs h)(a := None)\<rparr>)"
  by (simp add: fresh_above_def)

lemma handle_read_eof:
  assumes inv: "server_inv s" and cl: "client s fd"
  obtains s' where "handle_read mok fd (RecvBytes []) s = Some (Inr s')" "server_inv s'"
    "\<And>f. client s' f \<longleftrightarrow> client s f \<and> f \<noteq> fd"
    "h_bufs (sv_heap s') = (h_bufs (sv_heap s)) |` (- item_bufs (item s fd))"
    "sv_out s' = sv_out s @ [OutClose fd]"
proof -
  let ?h = "sv_heap s" and ?sl = "slot_of (sv_heap s) (nat fd)"
  let ?it = "(item s fd)\<lparr>it_fd := 0\<rparr>"
  obtain a b x y where c: "it_rbuf (item s fd) = Some a" "it_wbuf (item s fd) = Some b" "a \<noteq> b"
    "h_bufs ?h a = Some x" "h_bufs ?h b = Some y"
    by (rule client_bufs [OF inv cl])
  define h4 where "h4 = ?h\<lparr>h_bufs := (h_bufs ?h)(a := None, b := None)\<rparr>"
  define s' where "s' = s\<lparr>sv_heap := set_item h4 ?sl ?it, sv_interest := (sv_interest s)(fd := None),
      sv_out := sv_out s @ [OutClose fd]\<rparr>"
  have sh: "same_shape ?h h4" by (simp add: same_shape_def h4_def)
  have "fresh_above ?h" using server_invD(1) [OF inv] by (simp add: reactor_inv_def)
  then have "fresh_above h4" by (simp add: fresh_above_def h4_def)
  then have r4: "reactor_inv h4" by (rule reactor_inv_shape [OF server_invD(1) [OF inv] sh])
  note st = slot_table [OF r4, of "nat fd", unfolded same_shapeD [OF sh]]
  have rng: "nat fd < length (table ?h)" using client_range [OF inv cl] by simp
  have bufs: "h_bufs (sv_heap s') = (h_bufs ?h) |` (- item_bufs (item s fd))"
    using c by (auto simp: s'_def h4_def item_bufs_def restrict_map_def)
  have cl': "client s' f \<longleftrightarrow> client s f \<and> f \<noteq> fd" for f by (auto simp: s'_def client_def)
  have run: "handle_read mok fd (RecvBytes []) s = Some (Inr s')"
    using c by (simp add: handle_read_def with_item_client [OF inv cl] recv_into_def free_buf_def s'_def h4_def)
  have inv': "server_inv s'"
    by (rule server_inv_release [OF inv cl _ _ bufs cl', of ?it])
      (use st [OF rng] in \<open>simp_all add: s'_def\<close>)
  show thesis by (rule that [OF run inv' cl' bufs]) (simp add: s'_def)
qed

text \<open>Accepting: two fresh zeroed buffers for the new connection.\<close>

lemma server_inv_add:
  assumes inv: "server_inv s" and new: "\<not> client s c" "0 < c" "nat c < length (table (sv_heap s'))"
    and r: "reactor_inv (sv_heap s')"
    and t: "\<And>f. f < length (table (sv_heap s)) \<Longrightarrow> f \<noteq> nat c \<Longrightarrow> table (sv_heap s') ! f = table (sv_heap s) ! f"
    and len: "length (table (sv_heap s)) \<le> length (table (sv_heap s'))"
    and it: "it_fd (item s' c) = c" "it_rbuf (item s' c) = Some a" "it_wbuf (item s' c) = Some b" "a \<noteq> b"
    and fresh: "h_bufs (sv_heap s) a = None" "h_bufs (sv_heap s) b = None"
    and bufs: "h_bufs (sv_heap s') = (h_bufs (sv_heap s))(a \<mapsto> x, b \<mapsto> y)"
      "length x = BUFFER_LENGTH" "length y = BUFFER_LENGTH"
    and cl': "\<And>f. client s' f \<longleftrightarrow> client s f \<or> f = c"
  shows "server_inv s'"
proof -
  have other: "item s' f = item s f" if "client s f" for f
    using that new(1,2) client_range [OF inv that] by (intro t) (auto simp: nat_eq_iff)
  have ab: "item_bufs (item s' c) = {a, b}" using it by (auto simp: item_bufs_def)
  have old: "item_bufs (item s f) \<inter> {a, b} = {}" if "client s f" for f
    using item_bufs_live [OF inv that] fresh by auto
  have conn: "conn_ok (sv_heap s') (item s' f) f" if f: "client s' f" for f
  proof (cases "f = c")
    case True
    then show ?thesis using it bufs new by (simp add: conn_ok_def)
  next
    case False
    then have "client s f" using f cl' by simp
    then have "conn_ok (sv_heap s) (item s f) f" "item_bufs (item s f) \<inter> {a, b} = {}" "item s' f = item s f"
      using server_invD(2) [OF inv] old other by auto
    then show ?thesis using len
      by (auto simp: conn_ok_def bufs item_bufs_def split: option.splits)
  qed
  moreover have "item_bufs (item s' f) \<inter> item_bufs (item s' f') = {}"
    if "client s' f" "client s' f'" "f \<noteq> f'" for f f'
    using that server_invD(3) [OF inv, of f f'] old [of f] old [of f'] other [of f] other [of f'] ab cl' new(1)
    by (cases "f = c"; cases "f' = c") auto
  moreover have "dom (h_bufs (sv_heap s')) = (\<Union>f\<in>{f. client s' f}. item_bufs (item s' f))"
  proof -
    have "{f. client s' f} = insert c {f. client s f}" using cl' by auto
    then have "(\<Union>f\<in>{f. client s' f}. item_bufs (item s' f)) = {a, b} \<union> (\<Union>f\<in>{f. client s f}. item_bufs (item s f))"
      using ab other by simp
    also have "\<dots> = {a, b} \<union> dom (h_bufs (sv_heap s))" using server_invD(4) [OF inv] by simp
    finally show ?thesis by (auto simp: bufs(1))
  qed
  ultimately show ?thesis using r by (auto simp: server_inv_def)
qed

lemma handle_accept_ok:
  assumes inv: "server_inv s" and m: "\<forall>n. mok n"
    and c: "0 < c" "sv_interest s c = None" "c \<notin> sv_listen s"
  obtains s' a b where "handle_accept mok c s = Some (Inr s')" "server_inv s'"
    "\<And>f. client s' f \<longleftrightarrow> client s f \<or> f = c"
    "\<And>f. client s f \<Longrightarrow> item s' f = item s f"
    "it_rbuf (item s' c) = Some a" "it_wbuf (item s' c) = Some b"
    "h_bufs (sv_heap s') = (h_bufs (sv_heap s))(a \<mapsto> replicate BUFFER_LENGTH 0, b \<mapsto> replicate BUFFER_LENGTH 0)"
    "sv_interest s' = (sv_interest s)(c \<mapsto> EPOLLIN)" "sv_listen s' = sv_listen s"
    "sv_out s' = sv_out s @ (if c mod 1000 = 999 then [OutAccept c] else [])"
proof -
  let ?h = "sv_heap s"
  obtain h1 where h1: "reactor_lookup mok ?h c = Some (Inr (Some (slot_of h1 (nat c)), h1))"
    "reactor_inv h1" "table h1 = grow_table (table ?h) (nat c)" "nat c < length (table h1)"
    "h_bufs h1 = h_bufs ?h"
    by (rule reactor_lookup_ok [OF server_invD(1) [OF inv] m c(1)])
  let ?n = "h_calls h1" and ?z = "replicate BUFFER_LENGTH (0 :: byte)"
  have nf: "fresh_above h1" using h1(2) by (simp add: reactor_inv_def)
  define h3 where "h3 = h1\<lparr>h_calls := ?n + 2, h_bufs := (h_bufs h1)(?n \<mapsto> ?z, Suc ?n \<mapsto> ?z)\<rparr>"
  define it where "it = (table h1 ! nat c)\<lparr>it_fd := c, it_rbuf := Some ?n, it_rlen := 0, it_wbuf := Some (Suc ?n), it_wlen := 0\<rparr>"
  define s' where "s' = s\<lparr>sv_heap := set_item h3 (slot_of h1 (nat c)) it,
     sv_interest := (sv_interest s)(c \<mapsto> EPOLLIN),
     sv_out := sv_out s @ (if c mod 1000 = 999 then [OutAccept c] else [])\<rparr>"
  have sh: "same_shape h1 h3" by (simp add: same_shape_def h3_def)
  have "fresh_above h3" using nf by (simp add: fresh_above_def h3_def)
  then have r3: "reactor_inv h3" by (rule reactor_inv_shape [OF h1(2) sh])
  note st = slot_table [OF r3, of "nat c", unfolded same_shapeD [OF sh], OF h1(4)]
  have t': "table (sv_heap s') = (table h1)[nat c := it]" by (simp add: s'_def st)
  have run: "handle_accept mok c s = Some (Inr s')"
    using h1(1) m slot_table(1) [OF h1(2,4)]
    by (simp add: handle_accept_def with_item_def calloc_buf_def Let_def s'_def h3_def it_def)
  have bufs: "h_bufs (sv_heap s') = (h_bufs ?h)(?n \<mapsto> ?z, Suc ?n \<mapsto> ?z)"
    using h1(5) by (simp add: s'_def h3_def)
  have cl': "client s' f \<longleftrightarrow> client s f \<or> f = c" for f using c by (auto simp: s'_def client_def)
  have item_c: "item s' c = it" using h1(4) t' by simp
  have pre: "f < length (table ?h) \<Longrightarrow> f \<noteq> nat c \<Longrightarrow> table (sv_heap s') ! f = table ?h ! f" for f
    using h1(3) t' by (simp add: grow_table_def nth_append)
  have nc: "\<not> client s c" using c by (simp add: client_def)
  have inv': "server_inv s'"
  proof (rule server_inv_add [OF inv nc c(1) _ _ pre _ _ _ _ _ _ _ bufs _ _ cl'])
    show "h_bufs ?h ?n = None" "h_bufs ?h (Suc ?n) = None" using nf h1(5) by (auto simp: fresh_above_def)
    show "reactor_inv (sv_heap s')" by (simp add: s'_def st)
    show "length (table ?h) \<le> length (table (sv_heap s'))" using h1(3) t' by (simp add: grow_table_def)
  qed (use h1(4) t' item_c in \<open>simp_all add: it_def\<close>)
  have keep: "item s' f = item s f" if "client s f" for f
    using that nc c(1) client_range [OF inv that] by (intro pre) (auto simp: nat_eq_iff)
  have its: "it_rbuf (item s' c) = Some ?n" "it_wbuf (item s' c) = Some (Suc ?n)"
    unfolding item_c by (simp_all add: it_def)
  show thesis
    by (rule that [OF run inv' cl' keep its bufs]) (simp_all add: s'_def)
qed

section \<open>Runs of the server\<close>

text \<open>
  The events the kernel can report in a state: on a listening or a connected descriptor, at
  most 128 bytes received, and \<open>accept\<close> answers -1 or a positive descriptor that is not in use.
\<close>

definition ev_ok :: "server \<Rightarrow> ready_event \<Rightarrow> bool" where
  "ev_ok s e \<longleftrightarrow>
     (if ev_fd e \<in> sv_listen s
      then ev_accept e = -1 \<or> 0 < ev_accept e \<and> sv_interest s (ev_accept e) = None \<and> ev_accept e \<notin> sv_listen s
      else client s (ev_fd e) \<and> (case ev_recv e of RecvBytes bs \<Rightarrow> length bs \<le> BUFFER_LENGTH | RecvError _ \<Rightarrow> True))"

inductive srv_reach :: "(nat \<Rightarrow> bool) \<Rightarrow> int \<Rightarrow> (int \<times> int) list \<Rightarrow> server \<Rightarrow> bool"
  for mok epfd socks where
  init: "server_init mok epfd socks = Some s \<Longrightarrow> srv_reach mok epfd socks s"
| step: "srv_reach mok epfd socks s \<Longrightarrow> ev_ok s e \<Longrightarrow> handle_event mok e s = Some (Inr (b, s')) \<Longrightarrow>
         srv_reach mok epfd socks s'"

text \<open>The one way a handler can fail: the received bytes leave no zero byte in the read buffer.\<close>

definition overread :: "server \<Rightarrow> ready_event \<Rightarrow> bool" where
  "overread s e \<longleftrightarrow> ev_fd e \<notin> sv_listen s \<and> ev_mask e AND EPOLLIN \<noteq> 0 \<and>
     (case (ev_recv e, get_buf (sv_heap s) (it_rbuf (item s (ev_fd e)))) of
        (RecvBytes bs, Inr x) \<Rightarrow> bs \<noteq> [] \<and> 0 \<notin> set (bs @ drop (length bs) x)
      | _ \<Rightarrow> False)"

lemma handle_read_safe:
  assumes inv: "server_inv s" and cl: "client s fd"
    and res: "case res of RecvBytes bs \<Rightarrow> length bs \<le> BUFFER_LENGTH | RecvError _ \<Rightarrow> True"
  shows "if (case (res, get_buf (sv_heap s) (it_rbuf (item s fd))) of
               (RecvBytes bs, Inr x) \<Rightarrow> bs \<noteq> [] \<and> 0 \<notin> set (bs @ drop (length bs) x) | _ \<Rightarrow> False)
         then handle_read mok fd res s = Some (Inl (OutOfBounds BUFFER_LENGTH))
         else \<exists>s'. handle_read mok fd res s = Some (Inr s') \<and> server_inv s'"
proof (cases res)
  case (RecvError en)
  then show ?thesis using handle_read_error [OF inv cl] inv by simp
next
  case (RecvBytes bs)
  obtain a b x y where c: "it_rbuf (item s fd) = Some a" "it_wbuf (item s fd) = Some b" "a \<noteq> b"
    "h_bufs (sv_heap s) a = Some x" "length x = BUFFER_LENGTH"
    "h_bufs (sv_heap s) b = Some y" "length y = BUFFER_LENGTH"
    by (rule client_bufs [OF inv cl])
  have g: "get_buf (sv_heap s) (it_rbuf (item s fd)) = Inr x" using c by (simp add: get_buf_def)
  show ?thesis
  proof (cases "bs = []")
    case True
    obtain s' where "handle_read mok fd (RecvBytes []) s = Some (Inr s')" "server_inv s'"
      by (rule handle_read_eof [OF inv cl, of mok])
    then show ?thesis using True RecvBytes g by simp
  next
    case False
    have l: "length bs \<le> BUFFER_LENGTH" using res RecvBytes by simp
    show ?thesis
      using handle_read_data [OF inv cl False l c(1,4,2), of mok]
        handle_read_data_inv [OF inv cl False l, of mok] RecvBytes g False
      by (auto split: if_splits)
  qed
qed

lemma handle_event_safe:
  assumes inv: "server_inv s" and m: "\<forall>n. mok n" and ok: "ev_ok s e"
  shows "if overread s e then handle_event mok e s = Some (Inl (OutOfBounds BUFFER_LENGTH))
         else \<exists>b s'. handle_event mok e s = Some (Inr (b, s')) \<and> server_inv s'"
proof (cases "ev_fd e \<in> sv_listen s")
  case True
  show ?thesis
  proof (cases "ev_accept e = -1")
    case True
    then have "handle_event mok e s = Some (Inr (True, s))" "\<not> overread s e"
      using \<open>ev_fd e \<in> sv_listen s\<close> by (simp_all add: overread_def handle_event_def is_listenfd_def)
    then show ?thesis using inv by auto
  next
    case False
    then have "0 < ev_accept e" "sv_interest s (ev_accept e) = None" "ev_accept e \<notin> sv_listen s"
      using ok True by (auto simp: ev_ok_def)
    then obtain s' where "handle_accept mok (ev_accept e) s = Some (Inr s')" "server_inv s'"
      by (rule handle_accept_ok [OF inv m])
    then have "handle_event mok e s = Some (Inr (False, s'))" "\<not> overread s e" "server_inv s'"
      using True False by (simp_all add: overread_def handle_event_def is_listenfd_def)
    then show ?thesis by auto
  qed
next
  case False
  then have cl: "client s (ev_fd e)"
    and res: "case ev_recv e of RecvBytes bs \<Rightarrow> length bs \<le> BUFFER_LENGTH | RecvError _ \<Rightarrow> True"
    using ok by (simp_all add: ev_ok_def)
  show ?thesis
    using False handle_read_safe [OF inv cl res, of mok] handle_write_inv [OF inv cl, of mok "ev_sent e"] inv
    by (auto simp: overread_def handle_event_def is_listenfd_def split: if_splits)
qed

lemma add_listeners_frame:
  assumes "\<forall>fd. sv_interest s fd \<noteq> None \<longrightarrow> fd \<in> sv_listen s"
  shows "sv_heap (add_listeners xs s) = sv_heap s \<and> \<not> client (add_listeners xs s) fd"
  using assms
proof (induction xs s rule: add_listeners.induct)
  case (1 s) then show ?case by (auto simp: client_def)
next
  case (2 sock bound xs s)
  then show ?case by (auto simp: Let_def split: if_splits)
qed

lemma server_init_inv: "server_init mok epfd socks = Some s \<Longrightarrow> server_inv s"
proof -
  assume i: "server_init mok epfd socks = Some s"
  let ?s0 = "\<lparr>sv_heap = reactor_new epfd, sv_listen = {}, sv_interest = (\<lambda>_. None), sv_out = []\<rparr>"
  have "s = add_listeners (take PORT_COUNT socks) ?s0"
    using i by (auto simp: server_init_def split: if_splits)
  moreover have "sv_heap (add_listeners (take PORT_COUNT socks) ?s0) = sv_heap ?s0 \<and>
      \<not> client (add_listeners (take PORT_COUNT socks) ?s0) fd" for fd
    by (rule add_listeners_frame) simp
  ultimately have "sv_heap s = reactor_new epfd" "\<And>fd. \<not> client s fd" by simp_all
  then show "server_inv s" by (simp add: server_inv_def reactor_inv_new) (simp add: reactor_new_def)
qed

lemma srv_reach_inv:
  assumes "srv_reach mok epfd socks s" "\<forall>n. mok n"
  shows "server_inv s"
  using assms(1)
proof (induction rule: srv_reach.induct)
  case (init s) then show ?case by (rule server_init_inv)
next
  case (step s e b s')
  then show ?case using handle_event_safe [OF _ assms(2) step.hyps(2)] by (auto split: if_splits)
qed

section \<open>Properties of the server\<close>

text \<open>
  C6. In every reachable state of the server, with memory available: each connection has an
  item of its own that carries its descriptor and two live buffers of 128 bytes, no buffer is
  shared between connections, and every live buffer belongs to a connection (no leak).
\<close>

theorem server_reachable_inv:
  assumes "srv_reach mok epfd socks s" "\<forall>n. mok n"
  shows "reactor_inv (sv_heap s) \<and>
    (\<forall>fd. client s fd \<longrightarrow> conn_ok (sv_heap s) (item s fd) fd) \<and>
    (\<forall>fd fd'. client s fd \<and> client s fd' \<and> fd \<noteq> fd' \<longrightarrow> item_bufs (item s fd) \<inter> item_bufs (item s fd') = {}) \<and>
    dom (h_bufs (sv_heap s)) = (\<Union>fd\<in>{fd. client s fd}. item_bufs (item s fd))"
  using srv_reach_inv [OF assms] by (simp add: server_inv_def)

text \<open>A server with one listening descriptor.\<close>

definition one_listener :: server where
  "one_listener = \<lparr>sv_heap = reactor_new 3, sv_listen = {4}, sv_interest = [4 \<mapsto> EPOLLIN], sv_out = []\<rparr>"

lemma server_init_one: "server_init (\<lambda>_. True) 3 [(4, 0)] = Some one_listener"
  by (simp add: server_init_def init_server_def one_listener_def PORT_COUNT_def)

lemma reach_one: "srv_reach (\<lambda>_. True) 3 [(4, 0)] one_listener"
  using server_init_one by (rule srv_reach.init)

lemma reach_one_client:
  obtains s a b where "srv_reach (\<lambda>_. True) 3 [(4, 0)] s" "client s 5" "sv_listen s = {4}" "sv_out s = []"
    "it_rbuf (item s 5) = Some a" "it_wbuf (item s 5) = Some b" "a \<noteq> b"
    "h_bufs (sv_heap s) a = Some (replicate BUFFER_LENGTH 0)"
proof -
  have inv: "server_inv one_listener" using srv_reach_inv [OF reach_one] by simp
  obtain s a b where s: "handle_accept (\<lambda>_. True) 5 one_listener = Some (Inr s)" "server_inv s"
    "\<And>f. client s f \<longleftrightarrow> client one_listener f \<or> f = 5"
    "it_rbuf (item s 5) = Some a" "it_wbuf (item s 5) = Some b"
    "h_bufs (sv_heap s) = (h_bufs (sv_heap one_listener))(a \<mapsto> replicate BUFFER_LENGTH 0, b \<mapsto> replicate BUFFER_LENGTH 0)"
    "sv_listen s = sv_listen one_listener"
    "sv_out s = sv_out one_listener @ (if (5::int) mod 1000 = 999 then [OutAccept 5] else [])"
    by (rule handle_accept_ok [OF inv, of "\<lambda>_. True" 5]) (simp_all add: one_listener_def)
  let ?e = "\<lparr>ev_fd = 4, ev_mask = EPOLLIN, ev_accept = 5, ev_recv = RecvError 0, ev_sent = 0\<rparr>"
  have "handle_event (\<lambda>_. True) ?e one_listener = Some (Inr (False, s))"
    using s(1) by (simp add: handle_event_def is_listenfd_def one_listener_def)
  moreover have "ev_ok one_listener ?e" by (simp add: ev_ok_def one_listener_def)
  ultimately have "srv_reach (\<lambda>_. True) 3 [(4, 0)] s" by (blast intro: srv_reach.step reach_one)
  moreover have c: "client s 5" using s(3) by simp
  moreover have "a \<noteq> b" using server_invD(2) [OF s(2) c] s(4,5) by (simp add: conn_ok_def)
  ultimately show thesis
    using that [of s a b] s(4-8) by (simp add: one_listener_def)
qed

theorem server_reachable_inv_witness:
  "\<exists>s. srv_reach (\<lambda>_. True) 3 [(4, 0)] s \<and> client s 5 \<and> conn_ok (sv_heap s) (item s 5) 5 \<and>
     dom (h_bufs (sv_heap s)) = (\<Union>fd\<in>{fd. client s fd}. item_bufs (item s fd))"
proof -
  obtain s a b where s: "srv_reach (\<lambda>_. True) 3 [(4, 0)] s" "client s 5" by (rule reach_one_client)
  from server_reachable_inv [OF this(1)] this show ?thesis by blast
qed

text \<open>Only an accepted connection allocates; the other handlers do not ask for memory.\<close>

lemma handle_event_no_alloc:
  assumes "server_inv s" "ev_ok s e" "ev_fd e \<notin> sv_listen s \<or> ev_accept e = -1"
  shows "handle_event mem e s = handle_event mok e s"
proof (cases "ev_fd e \<in> sv_listen s")
  case True
  then show ?thesis using assms(3) by (simp add: handle_event_def is_listenfd_def)
next
  case False
  then have "client s (ev_fd e)" using assms(2) by (simp add: ev_ok_def)
  note w = with_item_client [OF assms(1) this]
  show ?thesis by (simp add: handle_event_def handle_read_def handle_write_def is_listenfd_def w False)
qed

lemma handle_event_starved:
  assumes "server_inv s" "ev_ok s e" "ev_fd e \<in> sv_listen s" "ev_accept e \<noteq> -1"
    and "length (table (sv_heap s)) \<le> nat (ev_accept e)" "\<forall>n\<ge>h_calls (sv_heap s). \<not> mem n"
  shows "handle_event mem e s = None"
proof -
  have "0 < ev_accept e" using assms(2-4) by (auto simp: ev_ok_def)
  moreover have "reactor_inv (sv_heap s)" using assms(1) by (simp add: server_inv_def)
  ultimately have "reactor_lookup mem (sv_heap s) (ev_accept e) = None"
    using reactor_lookup_starves assms(5,6) by blast
  then show ?thesis
    using assms(3,4) by (simp add: handle_event_def is_listenfd_def handle_accept_def with_item_def)
qed

text \<open>
  C5. Handling an event the kernel can report, in a state reached while memory was there. As long as
  memory does not run out, it never hangs, never touches a null or freed
  object and never frees twice; it fails in exactly one case, when the received bytes fill the
  read buffer so that no zero byte is left and \<open>printf("%s")\<close> reads past its 128 bytes. For every event but an accepted
  connection this holds even when memory has run out, since nothing is allocated. For an accepted connection whose
  descriptor lies beyond the blocks of the table memory matters: when it has run out, the handler hangs.
\<close>

theorem server_event_safe:
  assumes "srv_reach mok epfd socks s" "\<forall>n. mok n" "ev_ok s e"
  shows "(if overread s e then handle_event mok e s = Some (Inl (OutOfBounds BUFFER_LENGTH))
          else \<exists>b s'. handle_event mok e s = Some (Inr (b, s')) \<and> server_inv s') \<and>
    (ev_fd e \<notin> sv_listen s \<or> ev_accept e = -1 \<longrightarrow> (\<forall>mem. handle_event mem e s = handle_event mok e s)) \<and>
    (ev_fd e \<in> sv_listen s \<and> ev_accept e \<noteq> -1 \<and> length (table (sv_heap s)) \<le> nat (ev_accept e) \<longrightarrow>
       (\<forall>mem. (\<forall>n\<ge>h_calls (sv_heap s). \<not> mem n) \<longrightarrow> handle_event mem e s = None))"
  using handle_event_safe [OF srv_reach_inv [OF assms(1,2)] assms(2,3)]
    handle_event_no_alloc [OF srv_reach_inv [OF assms(1,2)] assms(3)]
    handle_event_starved [OF srv_reach_inv [OF assms(1,2)] assms(3)] by blast

theorem server_event_safe_witness:
  "\<exists>s e e'. srv_reach (\<lambda>_. True) 3 [(4, 0)] s \<and> ev_ok s e \<and> overread s e \<and>
     handle_event (\<lambda>_. True) e s = Some (Inl (OutOfBounds BUFFER_LENGTH)) \<and>
     handle_event (\<lambda>_. False) e s = handle_event (\<lambda>_. True) e s \<and>
     ev_ok s e' \<and> (\<exists>b s'. handle_event (\<lambda>_. True) e' s = Some (Inr (b, s'))) \<and> handle_event (\<lambda>_. False) e' s = None"
proof -
  obtain s a b where s: "srv_reach (\<lambda>_. True) 3 [(4, 0)] s" "client s 5" "sv_listen s = {4}"
    "it_rbuf (item s 5) = Some a" "h_bufs (sv_heap s) a = Some (replicate BUFFER_LENGTH 0)"
    by (rule reach_one_client)
  let ?e = "\<lparr>ev_fd = 5, ev_mask = EPOLLIN, ev_accept = 0,
             ev_recv = RecvBytes (replicate BUFFER_LENGTH 65), ev_sent = 0\<rparr>"
  have ok: "ev_ok s ?e" using s by (simp add: ev_ok_def)
  have ov: "overread s ?e"
    using s by (simp add: overread_def get_buf_def) (simp add: BUFFER_LENGTH_def)
  define c where "c = int (length (table (sv_heap s))) + 6"
  let ?e' = "\<lparr>ev_fd = 4, ev_mask = EPOLLIN, ev_accept = c, ev_recv = RecvError 0, ev_sent = 0\<rparr>"
  have inv: "server_inv s" using srv_reach_inv [OF s(1)] by simp
  have "\<not> client s c" using client_range [OF inv, of c] by (auto simp: c_def)
  then have ok': "ev_ok s ?e'" using s(3) by (auto simp: ev_ok_def client_def c_def)
  have "\<not> overread s ?e'" using s(3) by (simp add: overread_def)
  then have "\<exists>b s'. handle_event (\<lambda>_. True) ?e' s = Some (Inr (b, s'))" "handle_event (\<lambda>_. False) ?e' s = None"
    using server_event_safe [OF s(1) _ ok'] s(3) by (auto simp: c_def)
  moreover have "handle_event (\<lambda>_. True) ?e s = Some (Inl (OutOfBounds BUFFER_LENGTH))"
    "handle_event (\<lambda>_. False) ?e s = handle_event (\<lambda>_. True) ?e s"
    using server_event_safe [OF s(1) _ ok] ov s(3) by auto
  ultimately show ?thesis using s(1) ok ov ok' by blast
qed



end
