(* ===== verification/C1000kClient.thy ===== *)
theory C1000kClient
  imports Prelude "HOL-Library.Signed_Division"
begin

text \<open>
  The load generator \<open>src/network/demo4_c1000k_client.cpp\<close>: it opens up to 100000 connections
  to 100 consecutive ports and, every thousand connections, serves the events of the ones it
  has. One iteration of its loop is one step, from the answers of the kernel in that iteration.
\<close>

definition MAX_BUFFER :: nat where "MAX_BUFFER = 128"
definition MAX_EPOLLSIZE :: int where "MAX_EPOLLSIZE = 100 * 1024"
definition MAX_PORT :: int where "MAX_PORT = 100"
definition EINTR :: int where "EINTR = 4"

record timeval =
  tv_sec :: int
  tv_usec :: int

text \<open>The macro \<open>TIME_SUB_MS\<close>; the division of C truncates.\<close>

definition TIME_SUB_MS :: "timeval \<Rightarrow> timeval \<Rightarrow> int" where
  "TIME_SUB_MS tv1 tv2 = (tv_sec tv1 - tv_sec tv2) * 1000 + (tv_usec tv1 - tv_usec tv2) sdiv 1000"

datatype gen_out =
    GenConnect int int      \<comment> \<open>\<open>connect\<close> of this descriptor to this port\<close>
  | GenSend int string      \<comment> \<open>\<open>send\<close> on this descriptor\<close>
  | GenAdd int              \<comment> \<open>registered with epoll\<close>
  | GenStat int int int     \<comment> \<open>\<open>connections\<close>, \<open>sockfd\<close>, \<open>time_used\<close>\<close>
  | GenWait int             \<comment> \<open>\<open>epoll_wait\<close> with this \<open>maxevents\<close>\<close>
  | GenRecv int nat         \<comment> \<open>\<open>recv\<close> on this descriptor, of at most so many bytes\<close>
  | GenPrint bytes          \<comment> \<open>the received text\<close>
  | GenClose int

record generator =
  g_port_index :: int
  g_connections :: int
  g_isContinue :: int
  g_wbuf :: string
  g_interest :: "int set"   \<comment> \<open>the descriptors registered with epoll\<close>
  g_out :: "gen_out list"

record gen_ready =
  ge_fd :: int
  ge_mask :: u32
  ge_recv :: recv_res

record gen_answers =
  ga_socket :: int
  ga_connect :: int
  ga_now :: timeval
  ga_events :: "gen_ready list"

text \<open>\<open>sprintf\<close> into the array \<open>wbuf[128]\<close>: the text and its terminating zero have to fit.\<close>

definition sprintf_wbuf :: "string \<Rightarrow> generator \<Rightarrow> generator c_res" where
  "sprintf_wbuf t g = (if length t + 1 \<le> MAX_BUFFER then Inr (g\<lparr>g_wbuf := t\<rparr>) else Inl (OutOfBounds (length t)))"

text \<open>\<open>close\<close> also takes the descriptor out of the interest list.\<close>

definition gen_close :: "int \<Rightarrow> generator \<Rightarrow> generator" where
  "gen_close fd g = g\<lparr>g_interest := g_interest g - {fd}, g_out := g_out g @ [GenClose fd]\<rparr>"

text \<open>
  One iteration of the loop over the ready events. \<open>RecvBytes\<close> holds the bytes that are there
  to be received; \<open>recv\<close> takes at most \<open>strlen(wbuf)\<close> of them.
\<close>

definition gen_event :: "int \<Rightarrow> gen_ready \<Rightarrow> generator \<Rightarrow> generator c_res" where
  "gen_event sockfd e g =
     (let clientfd = ge_fd e in
      if ge_mask e AND EPOLLOUT \<noteq> 0 then
        bind_err (sprintf_wbuf (''data from '' @ show_int clientfd @ ''\<newline>'') g) (\<lambda>g1.
          Inr (g1\<lparr>g_out := g_out g1 @ [GenSend sockfd (g_wbuf g1)]\<rparr>))
      else if ge_mask e AND EPOLLIN \<noteq> 0 then
        (let g1 = g\<lparr>g_out := g_out g @ [GenRecv sockfd (length (g_wbuf g))]\<rparr> in
         case ge_recv e of
           RecvBytes avail \<Rightarrow>
             let bs = take (length (g_wbuf g)) avail in
             if bs \<noteq> [] then
               bind_err (mem_write (replicate MAX_BUFFER 0) 0 bs) (\<lambda>rbuf.
               bind_err (c_strlen rbuf) (\<lambda>n.
                 let g2 = g1\<lparr>g_out := g_out g1 @ [GenPrint (take n rbuf)]\<rparr> in
                 Inr (if take n rbuf = map (\<lambda>c. of_char c) ''quit'' then g2\<lparr>g_isContinue := 0\<rparr> else g2)))
             else Inr (gen_close clientfd (g1\<lparr>g_connections := g_connections g1 - 1\<rparr>))
         | RecvError en \<Rightarrow>
             if en = EINTR then Inr g1
             else Inr (gen_close clientfd g1))
      else Inr (gen_close clientfd g))"

fun gen_events :: "int \<Rightarrow> gen_ready list \<Rightarrow> generator \<Rightarrow> generator c_res" where
  "gen_events sockfd [] g = Inr g"
| "gen_events sockfd (e # es) g = bind_err (gen_event sockfd e g) (gen_events sockfd es)"

text \<open>
  Opening one connection: \<open>Inl\<close> is the jump to \<open>err\<close>; on success the descriptor.
\<close>

definition gen_connect :: "int \<Rightarrow> gen_answers \<Rightarrow> generator \<Rightarrow> (generator + int \<times> generator) c_res" where
  "gen_connect port a g =
     (let sockfd = ga_socket a in
      if sockfd = -1 then Inr (Inl g)
      else
        let g1 = g\<lparr>g_out := g_out g @ [GenConnect sockfd (port + g_port_index g)]\<rparr> in
        if ga_connect a < 0 then Inr (Inl g1)
        else
          bind_err (sprintf_wbuf (''Hello Server: client --> '' @ show_int (g_connections g1) @ ''\<newline>'') g1) (\<lambda>g2.
            Inr (Inr (sockfd, g2\<lparr>g_out := g_out g2 @ [GenSend sockfd (g_wbuf g2), GenAdd sockfd],
                                 g_interest := insert sockfd (g_interest g2),
                                 g_connections := g_connections g2 + 1\<rparr>))))"

text \<open>One iteration of the main loop; \<open>Inl\<close> is the end of the program through \<open>err\<close>.\<close>

definition gen_iter :: "int \<Rightarrow> timeval \<Rightarrow> gen_answers \<Rightarrow> generator \<Rightarrow> (generator + generator) c_res" where
  "gen_iter port tv_begin a g =
     (let i = g_port_index g + 1;
          g1 = g\<lparr>g_port_index := (if i \<ge> MAX_PORT then 0 else i)\<rparr> in
      bind_err (if g_connections g1 < 100000 \<and> g_isContinue g1 = 0 then gen_connect port a g1
                else Inr (Inr (0, g1))) (\<lambda>r.
        case r of
          Inl g2 \<Rightarrow> Inr (Inl g2)
        | Inr (sockfd, g2) \<Rightarrow>
            if g_connections g2 smod 1000 = 999 \<or> g_connections g2 \<ge> 100000 then
              let time_used = TIME_SUB_MS tv_begin (ga_now a);
                  g3 = g2\<lparr>g_out := g_out g2 @ [GenStat (g_connections g2) sockfd time_used,
                                               GenWait (g_connections g2)]\<rparr> in
              bind_err (gen_events sockfd (ga_events a) g3) (\<lambda>g4. Inr (Inr g4))
            else Inr (Inr g2)))"

definition gen_init :: generator where
  "gen_init = \<lparr>g_port_index = 0, g_connections = 0, g_isContinue = 0,
               g_wbuf = '' Data From MulClient\<newline>'', g_interest = {}, g_out = []\<rparr>"

section \<open>Invariant\<close>

definition fd_range :: "int \<Rightarrow> bool" where
  "fd_range fd \<longleftrightarrow> 0 \<le> fd \<and> fd < 2 ^ 31"

definition gen_inv :: "generator \<Rightarrow> bool" where
  "gen_inv g \<longleftrightarrow> 0 \<le> g_port_index g \<and> g_port_index g < MAX_PORT \<and> g_isContinue g = 0 \<and>
     int (card (g_interest g)) \<le> g_connections g \<and> g_connections g \<le> 100000 \<and>
     finite (g_interest g) \<and> (\<forall>fd\<in>g_interest g. fd_range fd) \<and>
     0 < length (g_wbuf g) \<and> length (g_wbuf g) < MAX_BUFFER"

text \<open>What the kernel reports: distinct registered descriptors, and fresh ones from \<open>socket\<close>.\<close>

definition gen_ok :: "generator \<Rightarrow> gen_answers \<Rightarrow> bool" where
  "gen_ok g a \<longleftrightarrow> (ga_socket a = -1 \<or> fd_range (ga_socket a) \<and> ga_socket a \<notin> g_interest g) \<and>
     distinct (map ge_fd (ga_events a)) \<and>
     set (map ge_fd (ga_events a)) \<subseteq>
       (if g_connections g < 100000 then insert (ga_socket a) (g_interest g) else g_interest g)"

lemma length_show_int: "fd_range fd \<Longrightarrow> length (show_int fd) \<le> 10"
  using length_show_nat_le [of "nat fd" 10] by (auto simp: show_int_def fd_range_def)

lemma received_strlen:
  assumes "length bs < n"
  shows "\<exists>k. mem_write (replicate n 0) 0 bs = Inr (bs @ replicate (n - length bs) 0) \<and>
             c_strlen (bs @ replicate (n - length bs) 0) = Inr k"
proof -
  have "0 \<in> set (bs @ replicate (n - length bs) 0)" using assms by simp
  then show ?thesis using assms by (simp add: mem_write_def c_strlen_if del: set_append)
qed

lemma gen_close_inv: "gen_inv g \<Longrightarrow> gen_inv (gen_close fd g)"
  using card_mono [of "g_interest g" "g_interest g - {fd}"] by (auto simp: gen_inv_def gen_close_def)

lemma gen_inv_out [simp]: "gen_inv (g\<lparr>g_out := x\<rparr>) = gen_inv g"
  by (simp add: gen_inv_def)

lemma sprintf_inv:
  assumes "gen_inv g" "0 < length t" "length t < MAX_BUFFER"
  shows "sprintf_wbuf t g = Inr (g\<lparr>g_wbuf := t\<rparr>) \<and> gen_inv (g\<lparr>g_wbuf := t\<rparr>)"
  using assms by (simp add: sprintf_wbuf_def gen_inv_def)

lemma gen_event_inv:
  assumes inv: "gen_inv g" and fd: "ge_fd e \<in> g_interest g"
  shows "\<exists>g'. gen_event s e g = Inr g' \<and> gen_inv g' \<and> g_interest g - {ge_fd e} \<subseteq> g_interest g'"
proof -
  have r: "length (show_int (ge_fd e)) \<le> 10" using inv fd length_show_int by (auto simp: gen_inv_def)
  have "0 < length (''data from '' @ show_int (ge_fd e) @ ''\<newline>'')"
    "length (''data from '' @ show_int (ge_fd e) @ ''\<newline>'') < MAX_BUFFER"
    using r by (simp_all add: MAX_BUFFER_def)
  note sp = sprintf_inv [OF inv this]
  show ?thesis
  proof (cases "ge_mask e AND EPOLLOUT \<noteq> 0 \<or> ge_mask e AND EPOLLIN = 0")
    case True
    then show ?thesis using sp gen_close_inv [OF inv] by (auto simp: gen_event_def gen_close_def Let_def)
  next
    case False
    show ?thesis
    proof (cases "ge_recv e")
      case (RecvError en)
      then show ?thesis using False inv
        by (cases "en = EINTR") (simp_all add: gen_event_def Let_def gen_close_inv, simp add: gen_close_def)
    next
      case (RecvBytes avail)
      let ?bs = "take (length (g_wbuf g)) avail" and ?g1 = "g\<lparr>g_out := g_out g @ [GenRecv s (length (g_wbuf g))]\<rparr>"
      show ?thesis
      proof (cases "?bs = []")
        case True
        have "gen_inv (gen_close (ge_fd e) (?g1\<lparr>g_connections := g_connections ?g1 - 1\<rparr>))"
          using inv fd card_Suc_Diff1 [of "g_interest g" "ge_fd e"] by (auto simp: gen_inv_def gen_close_def)
        then show ?thesis using True False RecvBytes by (simp add: gen_event_def Let_def) (simp add: gen_close_def)
      next
        case False
        have "length ?bs < MAX_BUFFER" using inv by (auto simp: gen_inv_def)
        then obtain k where "mem_write (replicate MAX_BUFFER 0) 0 ?bs = Inr (?bs @ replicate (MAX_BUFFER - length ?bs) 0)"
            "c_strlen (?bs @ replicate (MAX_BUFFER - length ?bs) 0) = Inr k"
          using received_strlen by blast
        moreover have "g\<lparr>g_out := x, g_isContinue := 0\<rparr> = g\<lparr>g_out := x\<rparr>" for x
          using inv by (simp add: gen_inv_def)
        ultimately show ?thesis
          using False RecvBytes inv \<open>\<not> (ge_mask e AND EPOLLOUT \<noteq> 0 \<or> ge_mask e AND EPOLLIN = 0)\<close>
          by (auto simp: gen_event_def Let_def)
      qed
    qed
  qed
qed

lemma gen_events_inv:
  assumes "gen_inv g" "distinct (map ge_fd es)" "set (map ge_fd es) \<subseteq> g_interest g"
  shows "\<exists>g'. gen_events s es g = Inr g' \<and> gen_inv g'"
  using assms
proof (induction es arbitrary: g)
  case Nil then show ?case by simp
next
  case (Cons e es)
  obtain g1 where g1: "gen_event s e g = Inr g1" "gen_inv g1" "g_interest g - {ge_fd e} \<subseteq> g_interest g1"
    using gen_event_inv [OF Cons.prems(1), of e s] Cons.prems(3) by auto
  have "ge_fd e \<notin> set (map ge_fd es)" "set (map ge_fd es) \<subseteq> g_interest g"
    using Cons.prems(2,3) by simp_all
  then have "set (map ge_fd es) \<subseteq> g_interest g1" using g1(3) by blast
  then show ?case using Cons.IH [OF g1(2)] Cons.prems(2) g1(1) by simp
qed

lemma gen_connect_inv:
  assumes inv: "gen_inv g" and c: "g_connections g < 100000"
    and ok: "ga_socket a = -1 \<or> fd_range (ga_socket a) \<and> ga_socket a \<notin> g_interest g"
  shows "(\<exists>g'. gen_connect port a g = Inr (Inl g')) \<or>
    (\<exists>g'. gen_connect port a g = Inr (Inr (ga_socket a, g')) \<and> gen_inv g' \<and> ga_socket a \<noteq> -1 \<and>
          g_interest g' = insert (ga_socket a) (g_interest g) \<and> g_connections g' = g_connections g + 1)"
proof (cases "ga_socket a = -1 \<or> ga_connect a < 0")
  case True
  then show ?thesis by (auto simp: gen_connect_def Let_def)
next
  case False
  let ?g1 = "g\<lparr>g_out := g_out g @ [GenConnect (ga_socket a) (port + g_port_index g)]\<rparr>"
  let ?t = "''Hello Server: client --> '' @ show_int (g_connections g) @ ''\<newline>''"
  have "fd_range (g_connections g)" using inv c by (simp add: gen_inv_def fd_range_def)
  then have "length ?t < MAX_BUFFER" using length_show_int [of "g_connections g"] by (simp add: MAX_BUFFER_def)
  then have "sprintf_wbuf ?t ?g1 = Inr (?g1\<lparr>g_wbuf := ?t\<rparr>)" "gen_inv (?g1\<lparr>g_wbuf := ?t\<rparr>)"
    using sprintf_inv [of ?g1 ?t] inv by simp_all
  then show ?thesis
    using False ok inv c by (simp add: gen_connect_def gen_inv_def Let_def)
qed

lemma gen_iter_ok:
  assumes inv: "gen_inv g" and ok: "gen_ok g a"
  shows "\<exists>r. gen_iter port tv a g = Inr r \<and> (case r of Inl _ \<Rightarrow> True | Inr g' \<Rightarrow> gen_inv g')"
proof -
  let ?i = "g_port_index g + 1"
  let ?g1 = "g\<lparr>g_port_index := (if ?i \<ge> MAX_PORT then 0 else ?i)\<rparr>"
  let ?c = "if g_connections ?g1 < 100000 \<and> g_isContinue ?g1 = 0 then gen_connect port a ?g1 else Inr (Inr (0, ?g1))"
  have inv1: "gen_inv ?g1" using inv by (simp add: gen_inv_def MAX_PORT_def)
  have "(\<exists>g2. ?c = Inr (Inl g2)) \<or>
    (\<exists>s g2. ?c = Inr (Inr (s, g2)) \<and> gen_inv g2 \<and> set (map ge_fd (ga_events a)) \<subseteq> g_interest g2)"
    using gen_connect_inv [OF inv1, of a port] inv1 ok by (auto simp: gen_ok_def gen_inv_def)
  then consider g2 where "?c = Inr (Inl g2)"
    | s g2 where "?c = Inr (Inr (s, g2))" "gen_inv g2" "set (map ge_fd (ga_events a)) \<subseteq> g_interest g2"
    by blast
  then show ?thesis
  proof cases
    case 1 then show ?thesis by (simp add: gen_iter_def Let_def)
  next
    case 2
    let ?g3 = "g2\<lparr>g_out := g_out g2 @ [GenStat (g_connections g2) s (TIME_SUB_MS tv (ga_now a)), GenWait (g_connections g2)]\<rparr>"
    obtain g4 where "gen_events s (ga_events a) ?g3 = Inr g4" "gen_inv g4"
      using gen_events_inv [of ?g3 "ga_events a" s] 2 ok by (auto simp: gen_ok_def)
    then show ?thesis using 2 by (simp add: gen_iter_def Let_def)
  qed
qed

inductive gen_reach :: "int \<Rightarrow> timeval \<Rightarrow> generator \<Rightarrow> bool" for port tv where
  start: "gen_reach port tv gen_init"
| iter: "gen_reach port tv g \<Longrightarrow> gen_ok g a \<Longrightarrow> gen_iter port tv a g = Inr (Inr g') \<Longrightarrow> gen_reach port tv g'"

lemma gen_reach_inv: "gen_reach port tv g \<Longrightarrow> gen_inv g"
proof (induction rule: gen_reach.induct)
  case start
  show ?case by (simp add: gen_inv_def gen_init_def MAX_PORT_def MAX_BUFFER_def)
next
  case (iter g a g')
  then show ?case using gen_iter_ok [of g a port tv] by auto
qed

text \<open>
  C17. The load generator, for every answer of the kernel: the port offset stays below
  \<open>MAX_PORT\<close>, at most 100000 connections are counted and at least as many as are registered, so
  that \<open>epoll_wait\<close> never gets more room than the event array has, and no formatted message and
  no received text leaves its 128-byte buffer.
\<close>


theorem generator_safe:
  assumes "gen_reach port tv g" "gen_ok g a"
  shows "0 \<le> g_port_index g \<and> g_port_index g < MAX_PORT \<and>
    int (card (g_interest g)) \<le> g_connections g \<and> g_connections g \<le> 100000 \<and> 100000 \<le> MAX_EPOLLSIZE \<and>
    length (g_wbuf g) < MAX_BUFFER \<and> (\<exists>r. gen_iter port tv a g = Inr r)"
  using gen_reach_inv [OF assms(1)] gen_iter_ok [OF _ assms(2), of port tv]
  by (auto simp: gen_inv_def MAX_EPOLLSIZE_def)

definition sample_answers :: gen_answers where
  "sample_answers = \<lparr>ga_socket = 3, ga_connect = 0, ga_now = \<lparr>tv_sec = 1, tv_usec = 0\<rparr>, ga_events = []\<rparr>"

theorem generator_safe_witness:
  "0 \<le> g_port_index gen_init \<and> g_port_index gen_init < MAX_PORT \<and>
    int (card (g_interest gen_init)) \<le> g_connections gen_init \<and> g_connections gen_init \<le> 100000 \<and>
    100000 \<le> MAX_EPOLLSIZE \<and> length (g_wbuf gen_init) < MAX_BUFFER \<and>
    (\<exists>r. gen_iter 9999 \<lparr>tv_sec = 0, tv_usec = 0\<rparr> sample_answers gen_init = Inr r)"
  by (rule generator_safe [OF gen_reach.start]) (simp add: gen_ok_def sample_answers_def gen_init_def fd_range_def)

section \<open>What the event loop of the generator does\<close>

text \<open>
  The reported elapsed time is never positive: the macro subtracts the current time from
  the start time.
\<close>

theorem time_used_nonpositive:
  assumes "tv_sec b < tv_sec c \<or> tv_sec b = tv_sec c \<and> tv_usec b \<le> tv_usec c"
    and "0 \<le> tv_usec b" "tv_usec b < 1000000" "0 \<le> tv_usec c" "tv_usec c < 1000000"
  shows "TIME_SUB_MS b c \<le> 0"
proof (cases "tv_usec b \<le> tv_usec c")
  case True
  then have "(tv_usec b - tv_usec c) sdiv 1000 \<le> 0"
    by (simp add: signed_divide_int_def sgn_if pos_imp_zdiv_nonneg_iff)
  then show ?thesis using assms(1) by (auto simp: TIME_SUB_MS_def)
next
  case False
  then have "(tv_usec b - tv_usec c) sdiv 1000 = (tv_usec b - tv_usec c) div 1000"
    by (simp add: signed_divide_int_def sgn_if)
  also have "\<dots> \<le> 999" using assms(3,4) by linarith
  finally show ?thesis using False assms(1) by (auto simp: TIME_SUB_MS_def)
qed

theorem time_used_nonpositive_witness:
  "TIME_SUB_MS \<lparr>tv_sec = 1, tv_usec = 500000\<rparr> \<lparr>tv_sec = 3, tv_usec = 0\<rparr> \<le> 0"
  by (rule time_used_nonpositive) simp_all

text \<open>
  Once 100000 connections are open, the answer to a writable connection goes to descriptor
  0, whatever connection was reported: the event loop sends on \<open>sockfd\<close>, the descriptor opened in
  this iteration (0 when none was), and not on \<open>clientfd\<close>.
\<close>

theorem generator_sends_to_stdin:
  assumes "gen_inv g" "100000 \<le> g_connections g" "gen_ok g a"
    and "ga_events a = [\<lparr>ge_fd = fd, ge_mask = EPOLLOUT, ge_recv = r\<rparr>]"
  shows "\<exists>g'. gen_iter port tv a g = Inr (Inr g') \<and>
    last (g_out g') = GenSend 0 (''data from '' @ show_int fd @ ''\<newline>'')"
proof -
  have "fd \<in> g_interest g" using assms by (simp add: gen_ok_def)
  then have "length (show_int fd) \<le> 10"
    using assms(1) length_show_int by (auto simp: gen_inv_def)
  then show ?thesis
    using assms(2,4) by (simp add: gen_iter_def gen_event_def sprintf_wbuf_def MAX_BUFFER_def Let_def)
qed

theorem generator_sends_to_stdin_witness:
  "\<exists>g'. gen_iter 9999 \<lparr>tv_sec = 0, tv_usec = 0\<rparr>
        (sample_answers\<lparr>ga_events := [\<lparr>ge_fd = 5, ge_mask = EPOLLOUT, ge_recv = RecvError 0\<rparr>]\<rparr>)
        (gen_init\<lparr>g_connections := 100000, g_interest := {5}\<rparr>) = Inr (Inr g') \<and>
    last (g_out g') = GenSend 0 (''data from '' @ show_int 5 @ ''\<newline>'')"
  by (rule generator_sends_to_stdin [of _ _ _ "RecvError 0"])
    (simp_all add: gen_inv_def gen_init_def MAX_PORT_def MAX_BUFFER_def gen_ok_def sample_answers_def fd_range_def)

end
