(* ===== verification/Monitor.thy ===== *)
theory Monitor
  imports Prelude
begin

text \<open>
  Interfaces of the concurrent components. A component is a transition system whose steps are
  the steps of its threads; the interleaving is arbitrary.

  \<^item> \<open>simulation\<close>: that a component refines another one, or a specification, under an abstraction.
  \<^item> \<open>mutex_protocol\<close>: what a component does with its mutex, and that the threads inside the
    protected regions are then exactly the holder of the mutex.
  \<^item> \<open>fifo_log\<close>: what the operations do with the queue, with the logs of what was put and what
    was taken, and that the queue is then first-in first-out without loss or duplication.
  \<^item> \<open>bounded_fifo\<close>: the same with a capacity.

  The lemmas are proved here once and used by the queues and the thread pool through their
  interpretations.
\<close>

type_synonym tid = nat

inductive reachable :: "('s \<Rightarrow> bool) \<Rightarrow> ('s \<Rightarrow> 's \<Rightarrow> bool) \<Rightarrow> 's \<Rightarrow> bool" for init step where
  reach_init: "init s \<Longrightarrow> reachable init step s"
| reach_step: "reachable init step s \<Longrightarrow> step s s' \<Longrightarrow> reachable init step s'"

lemma reachable_invariant:
  assumes "reachable init step s" "\<And>s. init s \<Longrightarrow> I s"
    and "\<And>s s'. reachable init step s \<Longrightarrow> I s \<Longrightarrow> step s s' \<Longrightarrow> I s'"
  shows "I s"
  using assms(1) by (induction rule: reachable.induct) (auto intro: assms(2,3))

section \<open>Simulation\<close>

locale simulation =
  fixes init :: "'s \<Rightarrow> bool" and step :: "'s \<Rightarrow> 's \<Rightarrow> bool"
    and spec_init :: "'a \<Rightarrow> bool" and spec_step :: "'a \<Rightarrow> 'a \<Rightarrow> bool" and abst :: "'s \<Rightarrow> 'a"
  assumes sim_init: "init s \<Longrightarrow> spec_init (abst s)"
    and sim_step: "reachable init step s \<Longrightarrow> step s s' \<Longrightarrow> abst s' = abst s \<or> spec_step (abst s) (abst s')"
begin

lemma simulated: "reachable init step s \<Longrightarrow> reachable spec_init spec_step (abst s)"
proof (induction rule: reachable.induct)
  case (reach_init s) then show ?case by (intro reachable.reach_init sim_init)
next
  case (reach_step s s') then show ?case using sim_step [OF reach_step(1,2)] by (auto intro: reachable.reach_step)
qed

lemma transfer:
  assumes "\<And>a. reachable spec_init spec_step a \<Longrightarrow> P a" "reachable init step s"
  shows "P (abst s)"
  using assms(1) simulated [OF assms(2)] .

end

section \<open>Mutual exclusion\<close>

locale mutex_protocol =
  fixes init :: "'s \<Rightarrow> bool" and step :: "'s \<Rightarrow> 's \<Rightarrow> bool"
    and holder :: "'s \<Rightarrow> tid option" and inside :: "'s \<Rightarrow> tid \<Rightarrow> bool"
  assumes init_free: "init s \<Longrightarrow> holder s = None \<and> \<not> inside s t"
    and step_mutex: "reachable init step s \<Longrightarrow> step s s' \<Longrightarrow>
      (\<exists>t. holder s = None \<and> holder s' = Some t \<and> inside s' = (inside s)(t := True)) \<or>
      (\<exists>t. inside s t \<and> holder s' = None \<and> inside s' = (inside s)(t := False)) \<or>
      (holder s' = holder s \<and> inside s' = inside s)"
begin

lemma inside_iff_holder: "reachable init step s \<Longrightarrow> inside s t \<longleftrightarrow> holder s = Some t"
proof (induction arbitrary: t rule: reachable.induct)
  case (reach_init s) then show ?case using init_free by simp
next
  case (reach_step s s') then show ?case using step_mutex [OF reach_step(1,2)] by (auto split: if_splits)
qed

lemma exclusion: "reachable init step s \<Longrightarrow> inside s t \<Longrightarrow> inside s t' \<Longrightarrow> t = t'"
  by (simp add: inside_iff_holder)

end

text \<open>How a step of one thread gives the law \<open>step_mutex\<close>.\<close>

lemma mutex_move:
  assumes "(\<forall>u. u \<noteq> t \<longrightarrow> i' u = i u) \<and> (h = None \<and> h' = Some t \<and> i' t \<or> i t \<and> \<not> i' t \<and> h' = None \<or> h' = h \<and> i' t = i t)"
  shows "(\<exists>t. h = None \<and> h' = Some t \<and> i' = i(t := True)) \<or> (\<exists>t. i t \<and> h' = None \<and> i' = i(t := False)) \<or> (h' = h \<and> i' = i)"
proof -
  obtain x where x: "i' = i(t := x)" using assms by (auto simp: fun_eq_iff intro: exI [of _ "i' t"])
  then consider "x" "h = None" "h' = Some t" | "i t" "\<not> x" "h' = None" | "h' = h" "x = i t" using assms by auto
  then show ?thesis using x by cases auto
qed

section \<open>First in, first out\<close>

locale fifo_log =
  fixes init :: "'s \<Rightarrow> bool" and step :: "'s \<Rightarrow> 's \<Rightarrow> bool"
    and queue :: "'s \<Rightarrow> 'a list" and puts :: "'s \<Rightarrow> 'a list" and takes :: "'s \<Rightarrow> 'a list"
  assumes init_empty: "init s \<Longrightarrow> queue s = [] \<and> puts s = [] \<and> takes s = []"
    and step_queue: "step s s' \<Longrightarrow>
      (\<exists>x. queue s' = queue s @ [x] \<and> puts s' = puts s @ [x] \<and> takes s' = takes s) \<or>
      (\<exists>x. queue s = x # queue s' \<and> puts s' = puts s \<and> takes s' = takes s @ [x]) \<or>
      (queue s' = queue s \<and> puts s' = puts s \<and> takes s' = takes s)"
begin

lemma fifo: "reachable init step s \<Longrightarrow> puts s = takes s @ queue s"
proof (induction rule: reachable.induct)
  case (reach_init s) then show ?case using init_empty by simp
next
  case (reach_step s s') then show ?case using step_queue [OF reach_step(2)] by auto
qed

lemma nth_taken: "reachable init step s \<Longrightarrow> i < length (takes s) \<Longrightarrow> takes s ! i = puts s ! i"
  by (simp add: fifo nth_append)

end

locale bounded_fifo = fifo_log +
  fixes bound :: "'s \<Rightarrow> nat"
  assumes step_bound: "reachable init step s \<Longrightarrow> step s s' \<Longrightarrow> bound s' = bound s"
    and step_room: "reachable init step s \<Longrightarrow> step s s' \<Longrightarrow> length (queue s) \<le> bound s \<Longrightarrow> length (queue s') \<le> bound s'"
begin

lemma within_bound: "reachable init step s \<Longrightarrow> length (queue s) \<le> bound s"
proof (induction rule: reachable.induct)
  case (reach_init s) then show ?case using init_empty by simp
next
  case (reach_step s s') then show ?case by (blast intro: step_room)
qed

lemma outstanding: "reachable init step s \<Longrightarrow> length (puts s) \<le> length (takes s) + bound s"
  using within_bound by (simp add: fifo)

end

section \<open>Counting threads by program counter\<close>

text \<open>Finitely many threads have left the program counter \<open>p0\<close>; how many satisfy a predicate.\<close>

definition few :: "'p \<Rightarrow> (tid \<Rightarrow> 'p) \<Rightarrow> bool" where
  "few p0 f \<longleftrightarrow> finite {t. f t \<noteq> p0}"

definition count_pc :: "('p \<Rightarrow> bool) \<Rightarrow> (tid \<Rightarrow> 'p) \<Rightarrow> nat" where
  "count_pc P f = card {t. P (f t)}"

lemma few_upd [simp]: "few p0 (f(a := v)) = few p0 f"
proof
  assume "few p0 f"
  then show "few p0 (f(a := v))"
    unfolding few_def by (rule finite_subset [of _ "insert a {t. f t \<noteq> p0}", rotated, OF finite.insertI]) auto
next
  assume "few p0 (f(a := v))"
  then show "few p0 f"
    unfolding few_def
    by (rule finite_subset [of _ "insert a {t. (f(a := v)) t \<noteq> p0}", rotated, OF finite.insertI]) auto
qed

lemma few_finite: "few p0 f \<Longrightarrow> \<not> P p0 \<Longrightarrow> finite {t. P (f t)}"
  unfolding few_def by (erule finite_subset [rotated]) auto

lemma count_pc_upd:
  assumes "few p0 f" "\<not> P p0"
  shows "count_pc P (f(a := v)) = count_pc P f + (if P v then 1 else 0) - (if P (f a) then 1 else 0)"
proof -
  have fin: "finite {t. P (f t)}" using few_finite [of p0 f P] assms by simp
  have s: "{t. P ((f(a := v)) t)} = (if P v then insert a ({t. P (f t)} - {a}) else {t. P (f t)} - {a})"
    by auto
  have c: "card {t. P (f t)} = card ({t. P (f t)} - {a}) + (if P (f a) then 1 else 0)"
    using card_Suc_Diff1 [OF fin, of a] by auto
  show ?thesis
    unfolding count_pc_def s using c fin by (simp add: card.insert_remove)
qed

lemma count_pc_pos: "0 < count_pc P f \<Longrightarrow> \<exists>t. P (f t)"
  by (auto simp: count_pc_def card_gt_0_iff)

end
