(* ===== verification/SyncQueue.thy ===== *)
theory SyncQueue
  imports Monitor
begin

text \<open>
  The blocking queues of \<open>src/condition_variable/\<close>: \<open>SyncQueue\<close>
  (\<open>sync_queue_by_lock_guard.h\<close>), bounded, with the conditions "not empty" and "not full", and
  \<open>SimpleSyncQueue\<close> (\<open>sync_queue_by_unique_lock.h\<close>), unbounded.

  A thread inside \<open>Put\<close> or \<open>Take\<close> has a program counter for every point where another thread can
  interfere or the mutex changes hands. \<open>wait\<close> releases the mutex and enters the wait set in one
  step; a waiting thread leaves it when \<open>notify_one\<close> picks it, or spuriously, and then competes
  for the mutex again. \<open>sq_put_log\<close> and \<open>sq_take_log\<close> record the elements in the order in which
  they were pushed and popped.
\<close>

section \<open>SyncQueue\<close>

datatype 'a sq_pc =
    SqIdle
  | PutEntry 'a | PutLoop 'a | PutWait 'a | PutWake 'a | PutNotify | PutExit
  | TakeEntry | TakeLoop | TakeWait | TakeWake | TakeNotify 'a | TakeExit 'a

datatype 'a sq_act = CallPut 'a | CallTake | Run | Notify "tid option" | Spurious

record 'a syncqueue =
  sq_queue :: "'a list"
  sq_mutex :: "tid option"
  sq_notEmpty :: "tid set"
  sq_notFull :: "tid set"
  sq_maxSize :: int
  sq_pc :: "tid \<Rightarrow> 'a sq_pc"
  sq_put_log :: "'a list"
  sq_take_log :: "'a list"

text \<open>The constructor, and the private tests; \<open>size_t\<close> against \<open>int\<close> compares modulo \<open>2 ^ 64\<close>.\<close>

definition SyncQueue_new :: "int \<Rightarrow> 'a syncqueue" where
  "SyncQueue_new maxSize = \<lparr>sq_queue = [], sq_mutex = None, sq_notEmpty = {}, sq_notFull = {},
     sq_maxSize = maxSize, sq_pc = (\<lambda>_. SqIdle), sq_put_log = [], sq_take_log = []\<rparr>"

definition IsFull :: "'a syncqueue \<Rightarrow> bool" where
  "IsFull s \<longleftrightarrow> int (length (sq_queue s)) mod 2 ^ 64 = sq_maxSize s mod 2 ^ 64"

definition IsEmpty :: "'a syncqueue \<Rightarrow> bool" where
  "IsEmpty s \<longleftrightarrow> sq_queue s = []"

definition goto :: "tid \<Rightarrow> 'a sq_pc \<Rightarrow> 'a syncqueue \<Rightarrow> 'a syncqueue" where
  "goto t p s = s\<lparr>sq_pc := (sq_pc s)(t := p)\<rparr>"

definition acquire :: "tid \<Rightarrow> 'a sq_pc \<Rightarrow> 'a syncqueue \<Rightarrow> 'a syncqueue option" where
  "acquire t p s = (if sq_mutex s = None then Some (goto t p (s\<lparr>sq_mutex := Some t\<rparr>)) else None)"

text \<open>The steps of \<open>Put\<close>.\<close>

definition Put_step :: "tid \<Rightarrow> 'a sq_act \<Rightarrow> 'a syncqueue \<Rightarrow> 'a syncqueue option" where
  "Put_step t act s =
     (case (sq_pc s t, act) of
        (PutEntry x, Run) \<Rightarrow> acquire t (PutLoop x) s
      | (PutLoop x, Run) \<Rightarrow>
          if IsFull s
          then Some (goto t (PutWait x) (s\<lparr>sq_mutex := None, sq_notFull := insert t (sq_notFull s)\<rparr>))
          else Some (goto t PutNotify (s\<lparr>sq_queue := sq_queue s @ [x], sq_put_log := sq_put_log s @ [x]\<rparr>))
      | (PutWait x, Spurious) \<Rightarrow> Some (goto t (PutWake x) (s\<lparr>sq_notFull := sq_notFull s - {t}\<rparr>))
      | (PutWake x, Run) \<Rightarrow> acquire t (PutLoop x) s
      | (PutNotify, Notify None) \<Rightarrow> if sq_notEmpty s = {} then Some (goto t PutExit s) else None
      | (PutNotify, Notify (Some w)) \<Rightarrow>
          if w \<in> sq_notEmpty s
          then Some (goto t PutExit (goto w TakeWake (s\<lparr>sq_notEmpty := sq_notEmpty s - {w}\<rparr>)))
          else None
      | (PutExit, Run) \<Rightarrow> Some (goto t SqIdle (s\<lparr>sq_mutex := None\<rparr>))
      | _ \<Rightarrow> None)"

text \<open>The steps of \<open>Take\<close>. The producer of a waiting \<open>Put\<close> keeps its argument across the wait.\<close>

definition wake_put :: "tid \<Rightarrow> 'a syncqueue \<Rightarrow> 'a syncqueue" where
  "wake_put w s = (case sq_pc s w of PutWait x \<Rightarrow> goto w (PutWake x) s | _ \<Rightarrow> s)"

definition Take_step :: "tid \<Rightarrow> 'a sq_act \<Rightarrow> 'a syncqueue \<Rightarrow> 'a syncqueue option" where
  "Take_step t act s =
     (case (sq_pc s t, act) of
        (TakeEntry, Run) \<Rightarrow> acquire t TakeLoop s
      | (TakeLoop, Run) \<Rightarrow>
          if IsEmpty s
          then Some (goto t TakeWait (s\<lparr>sq_mutex := None, sq_notEmpty := insert t (sq_notEmpty s)\<rparr>))
          else Some (goto t (TakeNotify (hd (sq_queue s)))
                       (s\<lparr>sq_queue := tl (sq_queue s), sq_take_log := sq_take_log s @ [hd (sq_queue s)]\<rparr>))
      | (TakeWait, Spurious) \<Rightarrow> Some (goto t TakeWake (s\<lparr>sq_notEmpty := sq_notEmpty s - {t}\<rparr>))
      | (TakeWake, Run) \<Rightarrow> acquire t TakeLoop s
      | (TakeNotify x, Notify None) \<Rightarrow> if sq_notFull s = {} then Some (goto t (TakeExit x) s) else None
      | (TakeNotify x, Notify (Some w)) \<Rightarrow>
          if w \<in> sq_notFull s
          then Some (goto t (TakeExit x) (wake_put w (s\<lparr>sq_notFull := sq_notFull s - {w}\<rparr>)))
          else None
      | (TakeExit x, Run) \<Rightarrow> Some (goto t SqIdle (s\<lparr>sq_mutex := None\<rparr>))
      | _ \<Rightarrow> None)"

definition call_step :: "tid \<Rightarrow> 'a sq_act \<Rightarrow> 'a syncqueue \<Rightarrow> 'a syncqueue option" where
  "call_step t act s =
     (case (sq_pc s t, act) of
        (SqIdle, CallPut x) \<Rightarrow> Some (goto t (PutEntry x) s)
      | (SqIdle, CallTake) \<Rightarrow> Some (goto t TakeEntry s)
      | _ \<Rightarrow> None)"

definition sq_exec :: "tid \<Rightarrow> 'a sq_act \<Rightarrow> 'a syncqueue \<Rightarrow> 'a syncqueue option" where
  "sq_exec t act s =
     (case call_step t act s of
        Some s' \<Rightarrow> Some s'
      | None \<Rightarrow> (case Put_step t act s of Some s' \<Rightarrow> Some s' | None \<Rightarrow> Take_step t act s))"

definition sq_step :: "'a syncqueue \<Rightarrow> 'a syncqueue \<Rightarrow> bool" where
  "sq_step s s' \<longleftrightarrow>
     (\<exists>t act. call_step t act s = Some s' \<or> Put_step t act s = Some s' \<or> Take_step t act s = Some s')"

text \<open>The observers that take the mutex answer only when it is free; \<open>Count\<close> reads without it.\<close>

definition Empty :: "'a syncqueue \<Rightarrow> bool option" where
  "Empty s = (if sq_mutex s = None then Some (sq_queue s = []) else None)"

definition Full :: "'a syncqueue \<Rightarrow> bool option" where
  "Full s = (if sq_mutex s = None then Some (int (length (sq_queue s)) mod 2 ^ 64 = sq_maxSize s mod 2 ^ 64) else None)"

definition Size :: "'a syncqueue \<Rightarrow> nat option" where
  "Size s = (if sq_mutex s = None then Some (length (sq_queue s)) else None)"

definition Count :: "'a syncqueue \<Rightarrow> nat" where
  "Count s = length (sq_queue s)"

definition sq_init :: "nat \<Rightarrow> 'a syncqueue \<Rightarrow> bool" where
  "sq_init m s \<longleftrightarrow> s = SyncQueue_new (int m)"

section \<open>What a step does\<close>

text \<open>The step function as an inductive relation, one rule per kind of step.\<close>

inductive sq_rule :: "'a syncqueue \<Rightarrow> 'a syncqueue \<Rightarrow> bool" where
  r_call_put: "sq_pc s t = SqIdle \<Longrightarrow> sq_rule s (goto t (PutEntry x) s)"
| r_call_take: "sq_pc s t = SqIdle \<Longrightarrow> sq_rule s (goto t TakeEntry s)"
| r_put_lock: "sq_pc s t = PutEntry x \<or> sq_pc s t = PutWake x \<Longrightarrow> sq_mutex s = None \<Longrightarrow>
    sq_rule s (goto t (PutLoop x) (s\<lparr>sq_mutex := Some t\<rparr>))"
| r_put_wait: "sq_pc s t = PutLoop x \<Longrightarrow> IsFull s \<Longrightarrow>
    sq_rule s (goto t (PutWait x) (s\<lparr>sq_mutex := None, sq_notFull := insert t (sq_notFull s)\<rparr>))"
| r_push: "sq_pc s t = PutLoop x \<Longrightarrow> \<not> IsFull s \<Longrightarrow>
    sq_rule s (goto t PutNotify (s\<lparr>sq_queue := sq_queue s @ [x], sq_put_log := sq_put_log s @ [x]\<rparr>))"
| r_put_spurious: "sq_pc s t = PutWait x \<Longrightarrow>
    sq_rule s (goto t (PutWake x) (s\<lparr>sq_notFull := sq_notFull s - {t}\<rparr>))"
| r_put_notify_none: "sq_pc s t = PutNotify \<Longrightarrow> sq_notEmpty s = {} \<Longrightarrow> sq_rule s (goto t PutExit s)"
| r_put_notify: "sq_pc s t = PutNotify \<Longrightarrow> w \<in> sq_notEmpty s \<Longrightarrow>
    sq_rule s (goto t PutExit (goto w TakeWake (s\<lparr>sq_notEmpty := sq_notEmpty s - {w}\<rparr>)))"
| r_put_exit: "sq_pc s t = PutExit \<Longrightarrow> sq_rule s (goto t SqIdle (s\<lparr>sq_mutex := None\<rparr>))"
| r_take_lock: "sq_pc s t = TakeEntry \<or> sq_pc s t = TakeWake \<Longrightarrow> sq_mutex s = None \<Longrightarrow>
    sq_rule s (goto t TakeLoop (s\<lparr>sq_mutex := Some t\<rparr>))"
| r_take_wait: "sq_pc s t = TakeLoop \<Longrightarrow> sq_queue s = [] \<Longrightarrow>
    sq_rule s (goto t TakeWait (s\<lparr>sq_mutex := None, sq_notEmpty := insert t (sq_notEmpty s)\<rparr>))"
| r_pop: "sq_pc s t = TakeLoop \<Longrightarrow> sq_queue s = x # q \<Longrightarrow>
    sq_rule s (goto t (TakeNotify x) (s\<lparr>sq_queue := q, sq_take_log := sq_take_log s @ [x]\<rparr>))"
| r_take_spurious: "sq_pc s t = TakeWait \<Longrightarrow>
    sq_rule s (goto t TakeWake (s\<lparr>sq_notEmpty := sq_notEmpty s - {t}\<rparr>))"
| r_take_notify_none: "sq_pc s t = TakeNotify x \<Longrightarrow> sq_notFull s = {} \<Longrightarrow> sq_rule s (goto t (TakeExit x) s)"
| r_take_notify: "sq_pc s t = TakeNotify x \<Longrightarrow> w \<in> sq_notFull s \<Longrightarrow>
    sq_rule s (goto t (TakeExit x) (wake_put w (s\<lparr>sq_notFull := sq_notFull s - {w}\<rparr>)))"
| r_take_exit: "sq_pc s t = TakeExit x \<Longrightarrow> sq_rule s (goto t SqIdle (s\<lparr>sq_mutex := None\<rparr>))"

lemma call_step_rule: "call_step t act s = Some s' \<Longrightarrow> sq_rule s s'"
  by (auto simp: call_step_def intro: sq_rule.intros split: sq_pc.splits sq_act.splits)

lemma Put_step_rule: "Put_step t act s = Some s' \<Longrightarrow> sq_rule s s'"
  by (auto simp: Put_step_def acquire_def intro: sq_rule.intros
      split: sq_pc.splits sq_act.splits if_splits option.splits)

lemma Take_step_rule: "Take_step t act s = Some s' \<Longrightarrow> sq_rule s s'"
  by (auto simp: Take_step_def acquire_def IsEmpty_def neq_Nil_conv intro: sq_rule.intros
      split: sq_pc.splits sq_act.splits if_splits option.splits)

lemma sq_stepI:
  "call_step t act s = Some s' \<Longrightarrow> sq_step s s'" "Put_step t act s = Some s' \<Longrightarrow> sq_step s s'"
  "Take_step t act s = Some s' \<Longrightarrow> sq_step s s'"
  by (auto simp: sq_step_def)

lemma sq_step_rule: "sq_step s s' \<Longrightarrow> sq_rule s s'"
  by (auto simp: sq_step_def intro: call_step_rule Put_step_rule Take_step_rule)

section \<open>Mutual exclusion and order\<close>

fun in_crit :: "'a sq_pc \<Rightarrow> bool" where
  "in_crit (PutLoop _) = True" | "in_crit PutNotify = True" | "in_crit PutExit = True"
| "in_crit TakeLoop = True" | "in_crit (TakeNotify _) = True" | "in_crit (TakeExit _) = True"
| "in_crit _ = False"

definition sq_inside :: "'a syncqueue \<Rightarrow> tid \<Rightarrow> bool" where
  "sq_inside s t = in_crit (sq_pc s t)"

text \<open>The wait sets hold exactly the threads that wait.\<close>

fun is_put_wait :: "'a sq_pc \<Rightarrow> bool" where
  "is_put_wait (PutWait _) = True" | "is_put_wait _ = False"

definition sq_waits :: "'a syncqueue \<Rightarrow> bool" where
  "sq_waits s \<longleftrightarrow> (\<forall>t. (t \<in> sq_notFull s \<longleftrightarrow> is_put_wait (sq_pc s t)) \<and> (t \<in> sq_notEmpty s \<longleftrightarrow> sq_pc s t = TakeWait))"

lemmas goto_simps [simp] = goto_def

lemma is_put_wait_iff: "is_put_wait p \<longleftrightarrow> (\<exists>x. p = PutWait x)"
  by (cases p) auto

lemma wake_put_waiting [simp]: "sq_pc s w = PutWait x \<Longrightarrow> wake_put w s = goto w (PutWake x) s"
  by (simp add: wake_put_def)

lemma sq_waits_step: "sq_rule s s' \<Longrightarrow> sq_waits s \<Longrightarrow> sq_waits s'"
proof (induction rule: sq_rule.induct)
  case (r_take_notify s t x w)
  then obtain y where "sq_pc s w = PutWait y" by (auto simp: sq_waits_def is_put_wait_iff)
  then show ?case using r_take_notify by (auto simp: sq_waits_def is_put_wait_iff)
qed (auto simp: sq_waits_def)

lemma sq_waits_init: "sq_init m s \<Longrightarrow> sq_waits s"
  by (simp add: sq_init_def SyncQueue_new_def sq_waits_def)

lemma sq_reach_waits: "reachable (sq_init m) sq_step s \<Longrightarrow> sq_waits s"
  by (erule reachable_invariant) (blast intro: sq_waits_init sq_step_rule sq_waits_step)+

lemma sq_inside_leave:
  assumes "in_crit (sq_pc s t)" "\<not> in_crit p" "sq_mutex s' = None" "sq_pc s' = (sq_pc s)(t := p)"
  shows "\<exists>t. sq_inside s t \<and> sq_mutex s' = None \<and> sq_inside s' = (sq_inside s)(t := False)"
  using assms by (intro exI [of _ t]) (auto simp: sq_inside_def fun_eq_iff)

lemma sq_mutex_step:
  assumes "sq_rule s s'" "sq_waits s"
  shows "(\<exists>t. sq_mutex s = None \<and> sq_mutex s' = Some t \<and> sq_inside s' = (sq_inside s)(t := True)) \<or>
      (\<exists>t. sq_inside s t \<and> sq_mutex s' = None \<and> sq_inside s' = (sq_inside s)(t := False)) \<or>
      (sq_mutex s' = sq_mutex s \<and> sq_inside s' = sq_inside s)"
  using assms
proof (induction rule: sq_rule.induct)
  case (r_take_notify s t x w)
  then obtain y where "sq_pc s w = PutWait y" by (auto simp: sq_waits_def is_put_wait_iff)
  then show ?case using r_take_notify(1) by (intro disjI2) (auto simp: sq_inside_def)
next
  case (r_put_notify s t w)
  then have "sq_pc s w = TakeWait" by (auto simp: sq_waits_def)
  then show ?case using r_put_notify(1) by (intro disjI2) (auto simp: sq_inside_def)
next
  case (r_put_wait s t x)
  then show ?case by (intro disjI2 disjI1 sq_inside_leave [of s t]) auto
next
  case (r_put_exit s t)
  then show ?case by (intro disjI2 disjI1 sq_inside_leave [of s t]) auto
next
  case (r_take_wait s t)
  then show ?case by (intro disjI2 disjI1 sq_inside_leave [of s t]) auto
next
  case (r_take_exit s t x)
  then show ?case by (intro disjI2 disjI1 sq_inside_leave [of s t]) auto
qed (auto simp: sq_inside_def fun_eq_iff)

interpretation sqm: mutex_protocol "sq_init m" sq_step sq_mutex sq_inside
proof unfold_locales
  fix s :: "'a syncqueue" and t
  show "sq_init m s \<Longrightarrow> sq_mutex s = None \<and> \<not> sq_inside s t"
    by (simp add: sq_init_def SyncQueue_new_def sq_inside_def)
qed (use sq_mutex_step sq_step_rule sq_reach_waits in blast)

lemma sq_fifo_step:
  "sq_rule s s' \<Longrightarrow>
      (\<exists>x. sq_queue s' = sq_queue s @ [x] \<and> sq_put_log s' = sq_put_log s @ [x] \<and> sq_take_log s' = sq_take_log s) \<or>
      (\<exists>x. sq_queue s = x # sq_queue s' \<and> sq_put_log s' = sq_put_log s \<and> sq_take_log s' = sq_take_log s @ [x]) \<or>
      (sq_queue s' = sq_queue s \<and> sq_put_log s' = sq_put_log s \<and> sq_take_log s' = sq_take_log s)"
  by (induction rule: sq_rule.induct) (auto simp: wake_put_def split: sq_pc.splits)

lemma sq_bound_step:
  "sq_rule s s' \<Longrightarrow> sq_maxSize s' = sq_maxSize s \<and>
    (length (sq_queue s) \<le> nat (sq_maxSize s) \<longrightarrow> 0 \<le> sq_maxSize s \<longrightarrow> length (sq_queue s') \<le> nat (sq_maxSize s'))"
proof (induction rule: sq_rule.induct)
  case (r_push s t x)
  then have "int (length (sq_queue s)) \<noteq> sq_maxSize s" by (auto simp: IsFull_def)
  then show ?case by auto
qed (auto simp: wake_put_def split: sq_pc.splits)

lemma sq_maxSize_reach: "reachable (sq_init m) sq_step s \<Longrightarrow> sq_maxSize s = int m"
  by (erule reachable_invariant)
    (auto simp: sq_init_def SyncQueue_new_def dest!: sq_step_rule dest: sq_bound_step)

interpretation sqf: bounded_fifo "sq_init m" sq_step sq_queue sq_put_log sq_take_log "\<lambda>s. nat (sq_maxSize s)"
proof unfold_locales
  fix s s' :: "'a syncqueue"
  show "sq_init m s \<Longrightarrow> sq_queue s = [] \<and> sq_put_log s = [] \<and> sq_take_log s = []"
    by (simp add: sq_init_def SyncQueue_new_def)
  assume step: "sq_step s s'"
  then show "(\<exists>x. sq_queue s' = sq_queue s @ [x] \<and> sq_put_log s' = sq_put_log s @ [x] \<and> sq_take_log s' = sq_take_log s) \<or>
      (\<exists>x. sq_queue s = x # sq_queue s' \<and> sq_put_log s' = sq_put_log s \<and> sq_take_log s' = sq_take_log s @ [x]) \<or>
      (sq_queue s' = sq_queue s \<and> sq_put_log s' = sq_put_log s \<and> sq_take_log s' = sq_take_log s)"
    by (intro sq_fifo_step sq_step_rule)
  assume "reachable (sq_init m) sq_step s"
  then have "0 \<le> sq_maxSize s" by (simp add: sq_maxSize_reach)
  with sq_bound_step [OF sq_step_rule [OF step]]
  show "nat (sq_maxSize s') = nat (sq_maxSize s)"
    "length (sq_queue s) \<le> nat (sq_maxSize s) \<Longrightarrow> length (sq_queue s') \<le> nat (sq_maxSize s')" by auto
qed

section \<open>No lost wake-up\<close>

fun take_active :: "'a sq_pc \<Rightarrow> bool" where
  "take_active TakeLoop = True" | "take_active TakeWake = True" | "take_active PutNotify = True"
| "take_active _ = False"

fun put_active :: "'a sq_pc \<Rightarrow> bool" where
  "put_active (PutLoop _) = True" | "put_active (PutWake _) = True" | "put_active (TakeNotify _) = True"
| "put_active _ = False"

text \<open>
  While a consumer sleeps, every element of the queue is accounted for by a thread that is about
  to take one or to wake a consumer; while a producer sleeps, every free place is.
\<close>

definition sq_awake :: "'a syncqueue \<Rightarrow> bool" where
  "sq_awake s \<longleftrightarrow> few SqIdle (sq_pc s) \<and>
     (sq_notEmpty s \<noteq> {} \<longrightarrow> length (sq_queue s) \<le> count_pc take_active (sq_pc s)) \<and>
     (sq_notFull s \<noteq> {} \<longrightarrow> nat (sq_maxSize s) \<le> length (sq_queue s) + count_pc put_active (sq_pc s))"

lemmas sq_count_upd = count_pc_upd [of SqIdle _ take_active, simplified] count_pc_upd [of SqIdle _ put_active, simplified]

lemma IsFull_room: "IsFull s \<Longrightarrow> length (sq_queue s) < 2 ^ 64 \<Longrightarrow> 0 \<le> sq_maxSize s \<Longrightarrow> sq_maxSize s < 2 ^ 64 \<Longrightarrow>
  nat (sq_maxSize s) = length (sq_queue s)"
  by (simp add: IsFull_def)

lemma sq_awake_step:
  assumes "sq_rule s s'" "sq_waits s" "sq_awake s" "length (sq_queue s) \<le> nat (sq_maxSize s)"
    and "0 \<le> sq_maxSize s" "sq_maxSize s < 2 ^ 64"
  shows "sq_awake s'"
  using assms
proof (induction rule: sq_rule.induct)
  case (r_put_wait s t x)
  then have "nat (sq_maxSize s) = length (sq_queue s)" by (intro IsFull_room) auto
  then show ?case using r_put_wait by (auto simp: sq_awake_def sq_count_upd)
next
  case (r_put_notify s t w)
  then have "sq_pc s w = TakeWait" "t \<noteq> w" by (auto simp: sq_waits_def)
  then show ?case using r_put_notify by (auto simp: sq_awake_def sq_count_upd)
next
  case (r_take_notify s t x w)
  then obtain y where y: "sq_pc s w = PutWait y" by (auto simp: sq_waits_def is_put_wait_iff)
  then have "t \<noteq> w" using r_take_notify(1) by auto
  then show ?case using r_take_notify y by (auto simp: sq_awake_def sq_count_upd)
qed (auto simp: sq_awake_def sq_count_upd)

lemma sq_reach_awake:
  assumes "reachable (sq_init m) sq_step s" "m < 2 ^ 64"
  shows "sq_awake s"
  using assms(1)
proof (rule reachable_invariant)
  fix s :: "'a syncqueue"
  show "sq_init m s \<Longrightarrow> sq_awake s"
    by (simp add: sq_init_def SyncQueue_new_def sq_awake_def few_def)
next
  fix s s' :: "'a syncqueue"
  assume r: "reachable (sq_init m) sq_step s" and aw: "sq_awake s" and st: "sq_step s s'"
  show "sq_awake s'"
    using sq_awake_step [OF sq_step_rule [OF st] sq_reach_waits [OF r] aw sqf.within_bound [OF r]]
      sq_maxSize_reach [OF r] assms(2) by simp
qed

section \<open>Properties of the bounded queue\<close>

text \<open>A run given by its schedule, for concrete instances.\<close>

fun sq_run :: "(tid \<times> 'a sq_act) list \<Rightarrow> 'a syncqueue \<Rightarrow> 'a syncqueue option" where
  "sq_run [] s = Some s"
| "sq_run ((t, a) # as) s = (case sq_exec t a s of None \<Rightarrow> None | Some s' \<Rightarrow> sq_run as s')"

lemma sq_run_reachable:
  "sq_run as s = Some s' \<Longrightarrow> reachable (sq_init m) sq_step s \<Longrightarrow> reachable (sq_init m) sq_step s'"
proof (induction as s rule: sq_run.induct)
  case (2 t a as s)
  then obtain s1 where "sq_exec t a s = Some s1" "sq_run as s1 = Some s'" by (auto split: option.splits)
  moreover from this have "sq_step s s1" by (auto simp: sq_step_def sq_exec_def split: option.splits)
  ultimately show ?case using 2 by (blast intro: reach_step)
qed simp

lemmas sq_eval = sq_exec_def call_step_def Put_step_def Take_step_def acquire_def IsFull_def IsEmpty_def SyncQueue_new_def

text \<open>A consumer is asleep; a producer has pushed 7 and is about to notify; another waits for the mutex.\<close>

definition sample_schedule :: "(tid \<times> int sq_act) list" where
  "sample_schedule = [(2, CallTake), (2, Run), (2, Run), (1, CallPut 7), (3, CallPut 8), (1, Run), (1, Run)]"

definition sample_queue :: "int syncqueue" where
  "sample_queue = \<lparr>sq_queue = [7], sq_mutex = Some 1, sq_notEmpty = {2}, sq_notFull = {}, sq_maxSize = 1,
     sq_pc = (\<lambda>_. SqIdle)(2 := TakeEntry, 2 := TakeLoop, 2 := TakeWait, 1 := PutEntry 7, 3 := PutEntry 8,
       1 := PutLoop 7, 1 := PutNotify), sq_put_log = [7], sq_take_log = []\<rparr>"

lemma sample_reachable: "reachable (sq_init 1) sq_step sample_queue"
proof -
  have "sq_run sample_schedule (SyncQueue_new (int 1)) = Some sample_queue"
    by (simp add: sample_schedule_def sq_eval sample_queue_def)
  moreover have "reachable (sq_init 1) sq_step (SyncQueue_new (int 1))"
    by (rule reach_init) (simp add: sq_init_def)
  ultimately show ?thesis by (rule sq_run_reachable)
qed

text \<open>
  The bounded queue, for every interleaving of any number of producers and consumers: what
  was taken is a prefix of what was put, in order; the queue holds exactly the rest, and never
  more than its capacity.
\<close>

theorem syncqueue_fifo_bounded:
  assumes "reachable (sq_init m) sq_step s"
  shows "sq_put_log s = sq_take_log s @ sq_queue s \<and> length (sq_queue s) \<le> m"
  using sqf.fifo [OF assms] sqf.within_bound [OF assms] sq_maxSize_reach [OF assms] by simp

theorem syncqueue_fifo_bounded_witness:
  "sq_put_log sample_queue = sq_take_log sample_queue @ sq_queue sample_queue \<and> length (sq_queue sample_queue) \<le> 1"
  by (rule syncqueue_fifo_bounded [OF sample_reachable])

text \<open>
  At most one thread at a time is between taking and releasing the mutex of the bounded
  queue, and it is the one the mutex belongs to.
\<close>

theorem syncqueue_exclusion:
  assumes "reachable (sq_init m) sq_step s"
  shows "(in_crit (sq_pc s t) \<longleftrightarrow> sq_mutex s = Some t) \<and>
         (in_crit (sq_pc s t) \<longrightarrow> in_crit (sq_pc s t') \<longrightarrow> t = t')"
  using sqm.inside_iff_holder [OF assms] sqm.exclusion [OF assms] by (simp add: sq_inside_def)

theorem syncqueue_exclusion_witness:
  "sq_mutex sample_queue = Some 1 \<and> in_crit (sq_pc sample_queue 1) \<and> \<not> in_crit (sq_pc sample_queue 3)"
proof -
  have "sq_mutex sample_queue = Some 1" by (simp add: sample_queue_def)
  then show ?thesis using syncqueue_exclusion [OF sample_reachable, of 1 3] by simp
qed

text \<open>
  C9. No wake-up is lost, although each operation wakes only one thread: while a consumer
  sleeps and the queue is not empty, some thread is about to take an element or to wake a
  consumer; while a producer sleeps and there is room, some thread is about to put or to wake a
  producer. So when every thread has returned or sleeps, producers and consumers are not both
  asleep.
\<close>

theorem syncqueue_no_lost_wakeup:
  assumes "reachable (sq_init m) sq_step s" "0 < m" "m < 2 ^ 64"
  shows "(sq_notEmpty s \<noteq> {} \<longrightarrow> sq_queue s \<noteq> [] \<longrightarrow> (\<exists>t. take_active (sq_pc s t))) \<and>
    (sq_notFull s \<noteq> {} \<longrightarrow> length (sq_queue s) < m \<longrightarrow> (\<exists>t. put_active (sq_pc s t))) \<and>
    ((\<forall>t. sq_pc s t = SqIdle \<or> t \<in> sq_notEmpty s \<or> t \<in> sq_notFull s) \<longrightarrow> sq_notEmpty s = {} \<or> sq_notFull s = {})"
proof -
  have aw: "sq_awake s" using sq_reach_awake [OF assms(1,3)] .
  have m: "nat (sq_maxSize s) = m" using sq_maxSize_reach [OF assms(1)] by simp
  have w: "sq_waits s" using sq_reach_waits [OF assms(1)] .
  have c: "sq_notEmpty s \<noteq> {} \<Longrightarrow> sq_queue s \<noteq> [] \<Longrightarrow> \<exists>t. take_active (sq_pc s t)"
    using aw by (intro count_pc_pos) (auto simp: sq_awake_def intro: less_le_trans)
  have p: "sq_notFull s \<noteq> {} \<Longrightarrow> length (sq_queue s) < m \<Longrightarrow> \<exists>t. put_active (sq_pc s t)"
    using aw m by (intro count_pc_pos) (auto simp: sq_awake_def)
  have "\<not> take_active (sq_pc s t) \<and> \<not> put_active (sq_pc s t)"
    if "sq_pc s t = SqIdle \<or> t \<in> sq_notEmpty s \<or> t \<in> sq_notFull s" for t
    using that w by (auto simp: sq_waits_def is_put_wait_iff)
  then show ?thesis using c p assms(2) by fastforce
qed

theorem syncqueue_no_lost_wakeup_witness:
  "sq_notEmpty sample_queue \<noteq> {} \<and> sq_queue sample_queue \<noteq> [] \<and> (\<exists>t. take_active (sq_pc sample_queue t))"
  using syncqueue_no_lost_wakeup [OF sample_reachable] by (simp add: sample_queue_def)

end
