(* ===== verification/SyncQueueDemo.thy ===== *)
theory SyncQueueDemo
  imports SyncQueue
begin

text \<open>
  The program \<open>src/condition_variable/demo1_sync_queue.cpp\<close>: a \<open>SyncQueue<int>\<close> of capacity 5, a
  thread \<open>PutDatas\<close> that puts 0 to 19 and a thread \<open>TakeDatas\<close> that takes twenty elements and
  prints them. The threads have the identifiers 1 and 2.
\<close>

record demo =
  d_q :: "int syncqueue"
  d_i :: nat             \<comment> \<open>calls of \<open>Put\<close> made\<close>
  d_j :: nat             \<comment> \<open>calls of \<open>Take\<close> made\<close>
  d_out :: "int list"    \<comment> \<open>what \<open>TakeDatas\<close> printed\<close>

definition demo_new :: demo where
  "demo_new = \<lparr>d_q = SyncQueue_new 5, d_i = 0, d_j = 0, d_out = []\<rparr>"

definition PutDatas :: "int sq_act \<Rightarrow> demo \<Rightarrow> demo option" where
  "PutDatas act s =
     (if sq_pc (d_q s) 1 = SqIdle then
        (if d_i s < 20
         then map_option (\<lambda>q. s\<lparr>d_q := q, d_i := d_i s + 1\<rparr>) (call_step 1 (CallPut (int (d_i s))) (d_q s))
         else None)
      else map_option (\<lambda>q. s\<lparr>d_q := q\<rparr>) (Put_step 1 act (d_q s)))"

definition TakeDatas :: "int sq_act \<Rightarrow> demo \<Rightarrow> demo option" where
  "TakeDatas act s =
     (if sq_pc (d_q s) 2 = SqIdle then
        (if d_j s < 20
         then map_option (\<lambda>q. s\<lparr>d_q := q, d_j := d_j s + 1\<rparr>) (call_step 2 CallTake (d_q s))
         else None)
      else map_option (\<lambda>q. s\<lparr>d_q := q, d_out := d_out s @
              (case sq_pc (d_q s) 2 of TakeExit x \<Rightarrow> [x] | _ \<Rightarrow> [])\<rparr>) (Take_step 2 act (d_q s)))"

definition demo_step :: "demo \<Rightarrow> demo \<Rightarrow> bool" where
  "demo_step s s' \<longleftrightarrow> (\<exists>act. PutDatas act s = Some s' \<or> TakeDatas act s = Some s')"

definition demo_init :: "demo \<Rightarrow> bool" where
  "demo_init s \<longleftrightarrow> s = demo_new"

definition demo_finished :: "demo \<Rightarrow> bool" where
  "demo_finished s \<longleftrightarrow> d_i s = 20 \<and> sq_pc (d_q s) 1 = SqIdle \<and> d_j s = 20 \<and> sq_pc (d_q s) 2 = SqIdle"

section \<open>Invariant\<close>

fun pend_put :: "int sq_pc \<Rightarrow> int list" where
  "pend_put (PutEntry x) = [x]" | "pend_put (PutLoop x) = [x]" | "pend_put (PutWait x) = [x]"
| "pend_put (PutWake x) = [x]" | "pend_put _ = []"

fun pend_take :: "int sq_pc \<Rightarrow> nat" where
  "pend_take TakeEntry = 1" | "pend_take TakeLoop = 1" | "pend_take TakeWait = 1" | "pend_take TakeWake = 1"
| "pend_take _ = 0"

fun held :: "int sq_pc \<Rightarrow> int list" where
  "held (TakeNotify x) = [x]" | "held (TakeExit x) = [x]" | "held _ = []"

fun put_side :: "int sq_pc \<Rightarrow> bool" where
  "put_side SqIdle = True" | "put_side (PutEntry _) = True" | "put_side (PutLoop _) = True"
| "put_side (PutWait _) = True" | "put_side (PutWake _) = True" | "put_side PutNotify = True"
| "put_side PutExit = True" | "put_side _ = False"

definition demo_inv :: "demo \<Rightarrow> bool" where
  "demo_inv s \<longleftrightarrow> (let q = d_q s in
     d_i s \<le> 20 \<and> d_j s \<le> 20 \<and> (\<forall>t. t \<noteq> 1 \<longrightarrow> t \<noteq> 2 \<longrightarrow> sq_pc q t = SqIdle) \<and>
     put_side (sq_pc q 1) \<and> (sq_pc q 2 = SqIdle \<or> \<not> put_side (sq_pc q 2)) \<and>
     sq_put_log q @ pend_put (sq_pc q 1) = map int [0..<d_i s] \<and>
     length (sq_take_log q) + pend_take (sq_pc q 2) = d_j s \<and>
     sq_take_log q = d_out s @ held (sq_pc q 2))"

lemma PutDatas_sq: "PutDatas act s = Some s' \<Longrightarrow> sq_step (d_q s) (d_q s')"
  by (auto simp: PutDatas_def intro: sq_stepI split: if_splits)

lemma TakeDatas_sq: "TakeDatas act s = Some s' \<Longrightarrow> sq_step (d_q s) (d_q s')"
  by (auto simp: TakeDatas_def intro: sq_stepI split: if_splits)

lemma demo_step_sq: "demo_step s s' \<Longrightarrow> sq_step (d_q s) (d_q s')"
  by (auto simp: demo_step_def intro: PutDatas_sq TakeDatas_sq)

text \<open>What the program does to the queue are steps of the queue.\<close>

interpretation dqr: simulation demo_init demo_step "sq_init 5" sq_step d_q
  by unfold_locales (auto simp: demo_init_def demo_new_def sq_init_def intro: demo_step_sq)

lemmas demo_reach_sq = dqr.simulated

lemma PutDatas_inv:
  assumes "PutDatas act s = Some s'" "demo_inv s" "sq_waits (d_q s)"
  shows "demo_inv s'"
proof (cases "sq_pc (d_q s) 1 = SqIdle")
  case True
  then show ?thesis using assms
    by (auto simp: PutDatas_def demo_inv_def call_step_def Let_def split: if_splits)
next
  case False
  then obtain q where q: "Put_step 1 act (d_q s) = Some q" "s' = s\<lparr>d_q := q\<rparr>"
    using assms(1) by (auto simp: PutDatas_def)
  have w: "w \<in> sq_notEmpty (d_q s) \<Longrightarrow> sq_pc (d_q s) w = TakeWait" for w
    using assms(3) by (simp add: sq_waits_def)
  have w2: "w \<in> sq_notEmpty (d_q s) \<Longrightarrow> w = 2" for w
    using w [of w] assms(2) by (cases "w = 1 \<or> w = 2") (auto simp: demo_inv_def Let_def)
  show ?thesis
    using q assms(2) w w2
    by (auto simp: Put_step_def acquire_def demo_inv_def Let_def
        split: sq_pc.splits sq_act.splits if_splits option.splits)
qed

lemma TakeDatas_inv:
  assumes "TakeDatas act s = Some s'" "demo_inv s" "sq_waits (d_q s)"
  shows "demo_inv s'"
proof (cases "sq_pc (d_q s) 2 = SqIdle")
  case True
  then show ?thesis using assms
    by (auto simp: TakeDatas_def demo_inv_def call_step_def Let_def split: if_splits)
next
  case False
  then obtain q where q: "Take_step 2 act (d_q s) = Some q"
      "s' = s\<lparr>d_q := q, d_out := d_out s @ (case sq_pc (d_q s) 2 of TakeExit x \<Rightarrow> [x] | _ \<Rightarrow> [])\<rparr>"
    using assms(1) by (auto simp: TakeDatas_def)
  have w: "w \<in> sq_notFull (d_q s) \<Longrightarrow> w = 1 \<and> (\<exists>x. sq_pc (d_q s) 1 = PutWait x)" for w
    using assms(2,3) False by (cases "w = 1 \<or> w = 2") (auto simp: sq_waits_def is_put_wait_iff demo_inv_def Let_def)
  show ?thesis
  proof (cases "\<exists>x w. sq_pc (d_q s) 2 = TakeNotify x \<and> act = Notify (Some w)")
    case True
    then obtain x v where t: "sq_pc (d_q s) 2 = TakeNotify x" "act = Notify (Some v)" by blast
    then have v: "v \<in> sq_notFull (d_q s)" using q(1) by (simp add: Take_step_def split: if_splits)
    then obtain y where y: "v = 1" "sq_pc (d_q s) 1 = PutWait y" using w by blast
    then show ?thesis using q assms(2) t v by (auto simp: Take_step_def demo_inv_def Let_def)
  next
    case False
    then show ?thesis
      using q assms(2)
      by (auto simp: Take_step_def acquire_def IsEmpty_def demo_inv_def Let_def
          split: sq_pc.splits sq_act.splits if_splits option.splits)
  qed
qed

lemma demo_reach_inv: "reachable demo_init demo_step s \<Longrightarrow> demo_inv s"
proof (induction rule: reachable.induct)
  case (reach_init s)
  then show ?case by (simp add: demo_init_def demo_new_def demo_inv_def SyncQueue_new_def)
next
  case (reach_step s s')
  then show ?case
    using sq_reach_waits [OF demo_reach_sq [OF reach_step(1)]] PutDatas_inv TakeDatas_inv
    by (auto simp: demo_step_def)
qed

section \<open>The program\<close>

lemma demo_output:
  assumes "reachable demo_init demo_step s"
  shows "d_out s = map int [0..<length (d_out s)] \<and> length (d_out s) \<le> 20 \<and>
    (demo_finished s \<longrightarrow> d_out s = map int [0..<20])"
proof -
  have inv: "demo_inv s" using assms by (rule demo_reach_inv)
  have f: "sq_put_log (d_q s) = sq_take_log (d_q s) @ sq_queue (d_q s)"
    using sqf.fifo [OF demo_reach_sq [OF assms]] .
  let ?rest = "held (sq_pc (d_q s) 2) @ sq_queue (d_q s) @ pend_put (sq_pc (d_q s) 1)"
  have all: "d_out s @ ?rest = map int [0..<d_i s]" and le: "d_i s \<le> 20" and
    len: "length (d_out s) + length (held (sq_pc (d_q s) 2)) + pend_take (sq_pc (d_q s) 2) = d_j s"
    using inv f by (auto simp: demo_inv_def Let_def)
  have "length (d_out s) \<le> d_i s" using arg_cong [OF all, of length] by simp
  moreover have "d_out s = take (length (d_out s)) (map int [0..<d_i s])" by (simp flip: all)
  ultimately have "d_out s = map int [0..<length (d_out s)]" by (simp add: take_map)
  moreover have "length (d_out s) = 20" if "demo_finished s"
    using that len by (simp add: demo_finished_def)
  ultimately show ?thesis using le \<open>length (d_out s) \<le> d_i s\<close> by auto
qed

lemma demo_new_reachable: "reachable demo_init demo_step demo_new"
  by (rule reach_init) (simp add: demo_init_def)

lemma put_side_cases:
  "put_side p \<Longrightarrow> p = SqIdle \<or> (\<exists>x. p = PutEntry x \<or> p = PutLoop x \<or> p = PutWait x \<or> p = PutWake x) \<or> p = PutNotify \<or> p = PutExit"
  by (cases p) auto

text \<open>A thread that holds the mutex, or finds it free and does not wait, can go on.\<close>

lemma PutDatas_enabled:
  assumes "put_side (sq_pc (d_q s) 1)" "in_crit (sq_pc (d_q s) 1) \<or> sq_mutex (d_q s) = None"
    and "\<not> is_put_wait (sq_pc (d_q s) 1)" "sq_pc (d_q s) 1 = SqIdle \<longrightarrow> d_i s < 20"
  shows "\<exists>act s'. act \<noteq> Spurious \<and> PutDatas act s = Some s'"
proof (cases "sq_pc (d_q s) 1 = PutNotify")
  case True
  then show ?thesis
    by (cases "sq_notEmpty (d_q s) = {}")
      (auto simp: PutDatas_def Put_step_def intro: exI [of _ "Notify None"] exI [of _ "Notify (Some _)"])
next
  case False
  then show ?thesis
    using put_side_cases [OF assms(1)] assms(2-4)
    by (intro exI [of _ Run]) (auto simp: PutDatas_def Put_step_def call_step_def acquire_def split: if_splits)
qed

lemma TakeDatas_enabled:
  assumes "sq_pc (d_q s) 2 = SqIdle \<or> \<not> put_side (sq_pc (d_q s) 2)"
    and "in_crit (sq_pc (d_q s) 2) \<or> sq_mutex (d_q s) = None"
    and "sq_pc (d_q s) 2 \<noteq> TakeWait" "sq_pc (d_q s) 2 = SqIdle \<longrightarrow> d_j s < 20"
  shows "\<exists>act s'. act \<noteq> Spurious \<and> TakeDatas act s = Some s'"
proof (cases "\<exists>x. sq_pc (d_q s) 2 = TakeNotify x")
  case True
  then show ?thesis
    by (cases "sq_notFull (d_q s) = {}")
      (auto simp: TakeDatas_def Take_step_def intro: exI [of _ "Notify None"] exI [of _ "Notify (Some _)"])
next
  case False
  then show ?thesis
    using assms by (intro exI [of _ Run], cases "sq_pc (d_q s) 2")
      (auto simp: TakeDatas_def Take_step_def call_step_def acquire_def split: if_splits)
qed

lemma demo_not_stuck:
  assumes r: "reachable demo_init demo_step s" and free: "sq_mutex (d_q s) = None"
    and p: "is_put_wait (sq_pc (d_q s) 1) \<or> sq_pc (d_q s) 1 = SqIdle \<and> d_i s = 20"
    and c: "sq_pc (d_q s) 2 = TakeWait \<or> sq_pc (d_q s) 2 = SqIdle \<and> d_j s = 20"
  shows "demo_finished s"
proof (rule ccontr)
  assume nf: "\<not> demo_finished s"
  let ?q = "d_q s"
  have rq: "reachable (sq_init 5) sq_step ?q" using r by (rule demo_reach_sq)
  have inv: "demo_inv s" using r by (rule demo_reach_inv)
  have w: "sq_waits ?q" and aw: "sq_awake ?q"
    using sq_reach_waits [OF rq] sq_reach_awake [OF rq] by simp_all
  have quiet: "\<not> take_active (sq_pc ?q t) \<and> \<not> put_active (sq_pc ?q t)" for t
    using inv p c by (cases "t = 1"; cases "t = 2") (auto simp: demo_inv_def Let_def is_put_wait_iff)
  then have z: "count_pc take_active (sq_pc ?q) = 0" "count_pc put_active (sq_pc ?q) = 0"
    by (simp_all add: count_pc_def)
  have f: "length (sq_put_log ?q) = length (sq_take_log ?q) + length (sq_queue ?q)"
    using sqf.fifo [OF rq] by simp
  have pl: "length (sq_put_log ?q) + length (pend_put (sq_pc ?q 1)) = d_i s"
  proof -
    have "sq_put_log ?q @ pend_put (sq_pc ?q 1) = map int [0..<d_i s]" using inv by (simp add: demo_inv_def Let_def)
    then have "length (sq_put_log ?q @ pend_put (sq_pc ?q 1)) = length (map int [0..<d_i s])" by (rule arg_cong)
    then show ?thesis by simp
  qed
  have tl: "length (sq_take_log ?q) + pend_take (sq_pc ?q 2) = d_j s" and le: "d_i s \<le> 20" "d_j s \<le> 20"
    using inv unfolding demo_inv_def Let_def by blast+
  have m: "sq_maxSize ?q = 5" using sq_maxSize_reach [OF rq] by simp
  have tk: "sq_queue ?q = []" if "sq_pc ?q 2 = TakeWait"
  proof -
    have "2 \<in> sq_notEmpty ?q" using that w by (simp add: sq_waits_def)
    then show ?thesis using aw z by (auto simp: sq_awake_def)
  qed
  have pt: "5 \<le> length (sq_queue ?q)" if "is_put_wait (sq_pc ?q 1)"
  proof -
    have "1 \<in> sq_notFull ?q" using that w by (simp add: sq_waits_def)
    then show ?thesis using aw z m by (auto simp: sq_awake_def)
  qed
  show False
    using p c nf tk pt f pl tl le by (auto simp: demo_finished_def is_put_wait_iff)
qed

text \<open>
  The demonstration program does not deadlock: in every reachable state, either both
  threads have finished or one of them can take a step that is not a spurious wake-up.
\<close>

lemma demo_deadlock_free:
  assumes "reachable demo_init demo_step s" "\<not> demo_finished s"
  shows "\<exists>act s'. act \<noteq> Spurious \<and> (PutDatas act s = Some s' \<or> TakeDatas act s = Some s')"
proof -
  let ?q = "d_q s"
  have inv: "demo_inv s" using assms(1) by (rule demo_reach_inv)
  have sides: "put_side (sq_pc ?q 1)" "sq_pc ?q 2 = SqIdle \<or> \<not> put_side (sq_pc ?q 2)" "d_i s \<le> 20" "d_j s \<le> 20"
    using inv by (simp_all add: demo_inv_def Let_def)
  have holder: "in_crit (sq_pc ?q t) \<longleftrightarrow> sq_mutex ?q = Some t" for t
    using sqm.inside_iff_holder [OF demo_reach_sq [OF assms(1)]] by (simp add: sq_inside_def)
  show ?thesis
  proof (cases "sq_mutex ?q")
    case None
    then have "\<not> (is_put_wait (sq_pc ?q 1) \<or> sq_pc ?q 1 = SqIdle \<and> d_i s = 20) \<or>
        \<not> (sq_pc ?q 2 = TakeWait \<or> sq_pc ?q 2 = SqIdle \<and> d_j s = 20)"
      using demo_not_stuck [OF assms(1)] assms(2) by blast
    then show ?thesis
    proof
      assume "\<not> (is_put_wait (sq_pc ?q 1) \<or> sq_pc ?q 1 = SqIdle \<and> d_i s = 20)"
      then have "\<exists>act s'. act \<noteq> Spurious \<and> PutDatas act s = Some s'"
        using sides None by (intro PutDatas_enabled) auto
      then show ?thesis by blast
    next
      assume "\<not> (sq_pc ?q 2 = TakeWait \<or> sq_pc ?q 2 = SqIdle \<and> d_j s = 20)"
      then have "\<exists>act s'. act \<noteq> Spurious \<and> TakeDatas act s = Some s'"
        using sides None by (intro TakeDatas_enabled) auto
      then show ?thesis by blast
    qed
  next
    case (Some t)
    then have crit: "in_crit (sq_pc ?q t)" using holder by simp
    then have "t = 1 \<or> t = 2" using inv by (auto simp: demo_inv_def Let_def)
    then show ?thesis
    proof
      assume "t = 1"
      then have "\<exists>act s'. act \<noteq> Spurious \<and> PutDatas act s = Some s'"
        using crit sides by (intro PutDatas_enabled) (auto simp: is_put_wait_iff)
      then show ?thesis by blast
    next
      assume "t = 2"
      then have "\<exists>act s'. act \<noteq> Spurious \<and> TakeDatas act s = Some s'"
        using crit sides by (intro TakeDatas_enabled) auto
      then show ?thesis by blast
    qed
  qed
qed

text \<open>
  The measure: the calls that are left and where the threads are in their calls. A notification
  weighs more than the way of the thread it wakes back into its loop.
\<close>

fun pc_weight :: "int sq_pc \<Rightarrow> nat" where
  "pc_weight SqIdle = 0"
| "pc_weight (PutEntry x) = 7" | "pc_weight (PutLoop x) = 6" | "pc_weight (PutWait x) = 5" | "pc_weight (PutWake x) = 7"
| "pc_weight PutNotify = 4" | "pc_weight PutExit = 1"
| "pc_weight TakeEntry = 7" | "pc_weight TakeLoop = 6" | "pc_weight TakeWait = 5" | "pc_weight TakeWake = 7"
| "pc_weight (TakeNotify x) = 4" | "pc_weight (TakeExit x) = 1"

definition demo_measure :: "demo \<Rightarrow> nat" where
  "demo_measure s = 8 * (20 - d_i s) + 8 * (20 - d_j s) + pc_weight (sq_pc (d_q s) 1) + pc_weight (sq_pc (d_q s) 2)"

definition demo_progress :: "demo \<Rightarrow> demo \<Rightarrow> bool" where
  "demo_progress s s' \<longleftrightarrow> (\<exists>act. act \<noteq> Spurious \<and> (PutDatas act s = Some s' \<or> TakeDatas act s = Some s'))"

lemma PutDatas_less:
  assumes "demo_inv s" "sq_waits (d_q s)" "PutDatas act s = Some s'" "act \<noteq> Spurious"
  shows "demo_measure s' < demo_measure s"
proof (cases "sq_pc (d_q s) 1 = SqIdle")
  case True
  then show ?thesis using assms
    by (auto simp: PutDatas_def call_step_def goto_def demo_measure_def split: if_splits)
next
  case False
  then obtain q where q: "Put_step 1 act (d_q s) = Some q" "s' = s\<lparr>d_q := q\<rparr>" using assms(3) by (auto simp: PutDatas_def)
  have w: "w = 2 \<and> sq_pc (d_q s) 2 = TakeWait" if m: "w \<in> sq_notEmpty (d_q s)" for w
  proof -
    have "sq_pc (d_q s) w = TakeWait" using assms(2) m by (simp add: sq_waits_def)
    then show ?thesis using assms(1) by (cases "w = 1 \<or> w = 2") (auto simp: demo_inv_def Let_def)
  qed
  show ?thesis
  proof (cases "\<exists>v. act = Notify (Some v)")
    case True
    then obtain v where v: "act = Notify (Some v)" "v \<in> sq_notEmpty (d_q s)" "sq_pc (d_q s) 1 = PutNotify"
      using q(1) by (auto simp: Put_step_def split: sq_pc.splits if_splits)
    moreover have "v = 2" "sq_pc (d_q s) 2 = TakeWait" using w [OF v(2)] by blast+
    ultimately show ?thesis using q by (auto simp: Put_step_def goto_def demo_measure_def)
  next
    case False
    then show ?thesis using q assms(4)
      by (auto simp: Put_step_def acquire_def goto_def demo_measure_def split: sq_pc.splits sq_act.splits if_splits option.splits)
  qed
qed

lemma TakeDatas_less:
  assumes "demo_inv s" "sq_waits (d_q s)" "TakeDatas act s = Some s'" "act \<noteq> Spurious"
  shows "demo_measure s' < demo_measure s"
proof (cases "sq_pc (d_q s) 2 = SqIdle")
  case True
  then show ?thesis using assms
    by (auto simp: TakeDatas_def call_step_def goto_def demo_measure_def split: if_splits)
next
  case False
  then obtain q where q: "Take_step 2 act (d_q s) = Some q"
      "s' = s\<lparr>d_q := q, d_out := d_out s @ (case sq_pc (d_q s) 2 of TakeExit x \<Rightarrow> [x] | _ \<Rightarrow> [])\<rparr>"
    using assms(3) by (auto simp: TakeDatas_def)
  have w: "w = 1 \<and> (\<exists>x. sq_pc (d_q s) 1 = PutWait x)" if "w \<in> sq_notFull (d_q s)" for w
    using that assms(1,2) False by (cases "w = 1 \<or> w = 2") (auto simp: sq_waits_def is_put_wait_iff demo_inv_def Let_def)
  show ?thesis
  proof (cases "\<exists>v. act = Notify (Some v)")
    case True
    then obtain v x where v: "act = Notify (Some v)" "v \<in> sq_notFull (d_q s)" "sq_pc (d_q s) 2 = TakeNotify x"
      using q(1) by (auto simp: Take_step_def split: sq_pc.splits if_splits)
    moreover from this obtain y where "v = 1" "sq_pc (d_q s) 1 = PutWait y" using w by blast
    ultimately show ?thesis using q by (auto simp: Take_step_def goto_def wake_put_def demo_measure_def)
  next
    case False
    then show ?thesis using q assms(4)
      by (auto simp: Take_step_def acquire_def goto_def demo_measure_def split: sq_pc.splits sq_act.splits if_splits option.splits)
  qed
qed

lemma demo_progress_less:
  assumes "reachable demo_init demo_step s" "demo_progress s s'"
  shows "demo_measure s' < demo_measure s"
  using assms(2) PutDatas_less TakeDatas_less demo_reach_inv [OF assms(1)] sq_reach_waits [OF demo_reach_sq [OF assms(1)]]
  by (auto simp: demo_progress_def)

lemma demo_finishes: "reachable demo_init demo_step s \<Longrightarrow> \<exists>s'. reachable demo_init demo_step s' \<and> demo_finished s'"
proof (induction "demo_measure s" arbitrary: s rule: less_induct)
  case less
  show ?case
  proof (cases "demo_finished s")
    case True then show ?thesis using less(2) by blast
  next
    case False
    then obtain s' where s': "demo_progress s s'" using demo_deadlock_free [OF less(2)] unfolding demo_progress_def by blast
    then have "demo_step s s'" by (auto simp: demo_progress_def demo_step_def)
    then show ?thesis using less(1) [OF demo_progress_less [OF less(2) s']] less(2) by (blast intro: reach_step)
  qed
qed

text \<open>
  C11. The demonstration program, for every interleaving of its two threads: the printed numbers
  are at every moment an initial part of 0 to 19 in order, and all of them when both threads
  have finished. Until then one of the threads can take a step, and every step that is not a spurious wake-up
  lowers a measure, so the program finishes unless wake-ups without cause go on for ever.
\<close>

theorem demo_prints_in_order:
  assumes "reachable demo_init demo_step s"
  shows "d_out s = map int [0..<length (d_out s)] \<and> length (d_out s) \<le> 20 \<and>
    (if demo_finished s then d_out s = map int [0..<20] else (\<exists>s'. demo_progress s s')) \<and>
    (\<forall>s'. demo_progress s s' \<longrightarrow> demo_step s s' \<and> demo_measure s' < demo_measure s)"
proof -
  have "\<exists>s'. demo_progress s s'" if "\<not> demo_finished s"
    using demo_deadlock_free [OF assms that] unfolding demo_progress_def by blast
  moreover have "demo_step s s'" if "demo_progress s s'" for s' using that by (auto simp: demo_progress_def demo_step_def)
  ultimately show ?thesis using demo_output [OF assms] demo_progress_less [OF assms] by auto
qed

theorem demo_prints_in_order_witness:
  "\<exists>s. reachable demo_init demo_step s \<and> demo_finished s \<and> d_out s = map int [0..<20]"
proof -
  obtain s where "reachable demo_init demo_step s" "demo_finished s" using demo_finishes [OF demo_new_reachable] by blast
  then show ?thesis using demo_prints_in_order [of s] by auto
qed

end
