(* ===== verification/SimpleSyncQueue.thy ===== *)
theory SimpleSyncQueue
  imports Monitor
begin

text \<open>
  The unbounded blocking queue \<open>SimpleSyncQueue\<close> of
  \<open>src/condition_variable/sync_queue_by_unique_lock.h\<close>, modelled like the bounded one: \<open>Put\<close>
  never waits, \<open>Take\<close> waits with a predicate on one condition variable and notifies nobody.
\<close>

datatype 'a ss_pc =
    SsIdle | SPutEntry 'a | SPutPush 'a | SPutNotify | SPutExit
  | STakeEntry | STakeTest | STakeWait | STakeWake | STakeExit 'a

datatype 'a ss_act = SCallPut 'a | SCallTake | SRun | SNotify "tid option" | SSpurious

record 'a simplequeue =
  ss_queue :: "'a list"
  ss_mutex :: "tid option"
  ss_notEmpty :: "tid set"
  ss_pc :: "tid \<Rightarrow> 'a ss_pc"
  ss_put_log :: "'a list"
  ss_take_log :: "'a list"

definition SimpleSyncQueue_new :: "'a simplequeue" where
  "SimpleSyncQueue_new = \<lparr>ss_queue = [], ss_mutex = None, ss_notEmpty = {},
     ss_pc = (\<lambda>_. SsIdle), ss_put_log = [], ss_take_log = []\<rparr>"

definition ss_goto :: "tid \<Rightarrow> 'a ss_pc \<Rightarrow> 'a simplequeue \<Rightarrow> 'a simplequeue" where
  "ss_goto t p s = s\<lparr>ss_pc := (ss_pc s)(t := p)\<rparr>"

definition ss_acquire :: "tid \<Rightarrow> 'a ss_pc \<Rightarrow> 'a simplequeue \<Rightarrow> 'a simplequeue option" where
  "ss_acquire t p s = (if ss_mutex s = None then Some (ss_goto t p (s\<lparr>ss_mutex := Some t\<rparr>)) else None)"

definition ss_Put_step :: "tid \<Rightarrow> 'a ss_act \<Rightarrow> 'a simplequeue \<Rightarrow> 'a simplequeue option" where
  "ss_Put_step t act s =
     (case (ss_pc s t, act) of
        (SsIdle, SCallPut x) \<Rightarrow> Some (ss_goto t (SPutEntry x) s)
      | (SPutEntry x, SRun) \<Rightarrow> ss_acquire t (SPutPush x) s
      | (SPutPush x, SRun) \<Rightarrow>
          Some (ss_goto t SPutNotify (s\<lparr>ss_queue := ss_queue s @ [x], ss_put_log := ss_put_log s @ [x]\<rparr>))
      | (SPutNotify, SNotify None) \<Rightarrow> if ss_notEmpty s = {} then Some (ss_goto t SPutExit s) else None
      | (SPutNotify, SNotify (Some w)) \<Rightarrow>
          if w \<in> ss_notEmpty s
          then Some (ss_goto t SPutExit (ss_goto w STakeWake (s\<lparr>ss_notEmpty := ss_notEmpty s - {w}\<rparr>)))
          else None
      | (SPutExit, SRun) \<Rightarrow> Some (ss_goto t SsIdle (s\<lparr>ss_mutex := None\<rparr>))
      | _ \<Rightarrow> None)"

text \<open>\<open>wait\<close> with a predicate is the loop that tests it before and after every wait.\<close>

definition ss_Take_step :: "tid \<Rightarrow> 'a ss_act \<Rightarrow> 'a simplequeue \<Rightarrow> 'a simplequeue option" where
  "ss_Take_step t act s =
     (case (ss_pc s t, act) of
        (SsIdle, SCallTake) \<Rightarrow> Some (ss_goto t STakeEntry s)
      | (STakeEntry, SRun) \<Rightarrow> ss_acquire t STakeTest s
      | (STakeTest, SRun) \<Rightarrow>
          (case ss_queue s of
             [] \<Rightarrow> Some (ss_goto t STakeWait (s\<lparr>ss_mutex := None, ss_notEmpty := insert t (ss_notEmpty s)\<rparr>))
           | x # q \<Rightarrow> Some (ss_goto t (STakeExit x) (s\<lparr>ss_queue := q, ss_take_log := ss_take_log s @ [x]\<rparr>)))
      | (STakeWait, SSpurious) \<Rightarrow> Some (ss_goto t STakeWake (s\<lparr>ss_notEmpty := ss_notEmpty s - {t}\<rparr>))
      | (STakeWake, SRun) \<Rightarrow> ss_acquire t STakeTest s
      | (STakeExit x, SRun) \<Rightarrow> Some (ss_goto t SsIdle (s\<lparr>ss_mutex := None\<rparr>))
      | _ \<Rightarrow> None)"

definition ss_exec :: "tid \<Rightarrow> 'a ss_act \<Rightarrow> 'a simplequeue \<Rightarrow> 'a simplequeue option" where
  "ss_exec t act s = (case ss_Put_step t act s of Some s' \<Rightarrow> Some s' | None \<Rightarrow> ss_Take_step t act s)"

definition ss_step :: "'a simplequeue \<Rightarrow> 'a simplequeue \<Rightarrow> bool" where
  "ss_step s s' \<longleftrightarrow> (\<exists>t act. ss_exec t act s = Some s')"

definition ss_Empty :: "'a simplequeue \<Rightarrow> bool option" where
  "ss_Empty s = (if ss_mutex s = None then Some (ss_queue s = []) else None)"

definition ss_Size :: "'a simplequeue \<Rightarrow> nat option" where
  "ss_Size s = (if ss_mutex s = None then Some (length (ss_queue s)) else None)"

definition ss_init :: "'a simplequeue \<Rightarrow> bool" where
  "ss_init s \<longleftrightarrow> s = SimpleSyncQueue_new"

section \<open>Invariants\<close>

fun ss_crit :: "'a ss_pc \<Rightarrow> bool" where
  "ss_crit (SPutPush _) = True" | "ss_crit SPutNotify = True" | "ss_crit SPutExit = True"
| "ss_crit STakeTest = True" | "ss_crit (STakeExit _) = True" | "ss_crit _ = False"

definition ss_inside :: "'a simplequeue \<Rightarrow> tid \<Rightarrow> bool" where
  "ss_inside s t = ss_crit (ss_pc s t)"

fun ss_active :: "'a ss_pc \<Rightarrow> bool" where
  "ss_active STakeTest = True" | "ss_active STakeWake = True" | "ss_active SPutNotify = True"
| "ss_active _ = False"

text \<open>The wait set is the set of waiting threads, and no wake-up is lost.\<close>

definition ss_inv :: "'a simplequeue \<Rightarrow> bool" where
  "ss_inv s \<longleftrightarrow> (\<forall>t. t \<in> ss_notEmpty s \<longleftrightarrow> ss_pc s t = STakeWait) \<and> few SsIdle (ss_pc s) \<and>
     (ss_notEmpty s \<noteq> {} \<longrightarrow> length (ss_queue s) \<le> count_pc ss_active (ss_pc s))"

lemmas ss_count_upd = count_pc_upd [of SsIdle _ ss_active, simplified]

lemmas ss_defs = ss_Put_step_def ss_Take_step_def ss_acquire_def ss_goto_def

lemma ss_inside_leave:
  assumes "ss_crit (ss_pc s t)" "\<not> ss_crit p" "ss_mutex s' = None" "ss_pc s' = (ss_pc s)(t := p)"
  shows "\<exists>t. ss_inside s t \<and> ss_mutex s' = None \<and> ss_inside s' = (ss_inside s)(t := False)"
  using assms by (intro exI [of _ t]) (auto simp: ss_inside_def fun_eq_iff)

lemma ss_notify_pc: "ss_inv s \<Longrightarrow> \<forall>w\<in>ss_notEmpty s. ss_pc s w = STakeWait"
  by (simp add: ss_inv_def)

lemma ss_Put_step_mutex:
  assumes "ss_Put_step t act s = Some s'" "\<forall>w\<in>ss_notEmpty s. ss_pc s w = STakeWait"
  shows "(\<exists>t. ss_mutex s = None \<and> ss_mutex s' = Some t \<and> ss_inside s' = (ss_inside s)(t := True)) \<or>
      (\<exists>t. ss_inside s t \<and> ss_mutex s' = None \<and> ss_inside s' = (ss_inside s)(t := False)) \<or>
      (ss_mutex s' = ss_mutex s \<and> ss_inside s' = ss_inside s)"
  using assms ss_inside_leave [of s t SsIdle s']
  by (auto simp: ss_defs ss_inside_def fun_eq_iff
      split: ss_pc.splits ss_act.splits option.splits if_splits)

lemma ss_Take_step_mutex:
  assumes "ss_Take_step t act s = Some s'"
  shows "(\<exists>t. ss_mutex s = None \<and> ss_mutex s' = Some t \<and> ss_inside s' = (ss_inside s)(t := True)) \<or>
      (\<exists>t. ss_inside s t \<and> ss_mutex s' = None \<and> ss_inside s' = (ss_inside s)(t := False)) \<or>
      (ss_mutex s' = ss_mutex s \<and> ss_inside s' = ss_inside s)"
  using assms ss_inside_leave [of s t SsIdle s'] ss_inside_leave [of s t STakeWait s']
  by (auto simp: ss_defs ss_inside_def fun_eq_iff
      split: ss_pc.splits ss_act.splits option.splits if_splits list.splits)

lemma ss_Put_step_inv: "ss_Put_step t act s = Some s' \<Longrightarrow> ss_inv s \<Longrightarrow> ss_inv s'"
  by (auto simp: ss_defs ss_inv_def ss_count_upd split: ss_pc.splits ss_act.splits option.splits if_splits)

lemma ss_Take_step_inv: "ss_Take_step t act s = Some s' \<Longrightarrow> ss_inv s \<Longrightarrow> ss_inv s'"
  by (auto simp: ss_defs ss_inv_def ss_count_upd split: ss_pc.splits ss_act.splits if_splits list.splits)

lemma ss_exec_cases:
  assumes "ss_step s s'"
  obtains t act where "ss_Put_step t act s = Some s'" | t act where "ss_Take_step t act s = Some s'"
  using assms by (auto simp: ss_step_def ss_exec_def split: option.splits)

lemma ss_reach_inv: "reachable ss_init ss_step s \<Longrightarrow> ss_inv s"
proof (erule reachable_invariant)
  fix s :: "'a simplequeue"
  show "ss_init s \<Longrightarrow> ss_inv s" by (simp add: ss_init_def SimpleSyncQueue_new_def ss_inv_def few_def)
qed (blast elim: ss_exec_cases intro: ss_Put_step_inv ss_Take_step_inv)

interpretation ssm: mutex_protocol ss_init ss_step ss_mutex ss_inside
proof unfold_locales
  fix s s' :: "'a simplequeue" and t
  show "ss_init s \<Longrightarrow> ss_mutex s = None \<and> \<not> ss_inside s t"
    by (simp add: ss_init_def SimpleSyncQueue_new_def ss_inside_def)
  assume "reachable ss_init ss_step s" "ss_step s s'"
  then show "(\<exists>t. ss_mutex s = None \<and> ss_mutex s' = Some t \<and> ss_inside s' = (ss_inside s)(t := True)) \<or>
      (\<exists>t. ss_inside s t \<and> ss_mutex s' = None \<and> ss_inside s' = (ss_inside s)(t := False)) \<or>
      (ss_mutex s' = ss_mutex s \<and> ss_inside s' = ss_inside s)"
    by (elim ss_exec_cases) (rule ss_Put_step_mutex ss_Take_step_mutex; simp add: ss_notify_pc ss_reach_inv)+
qed

interpretation ssf: fifo_log ss_init ss_step ss_queue ss_put_log ss_take_log
proof unfold_locales
  fix s s' :: "'a simplequeue"
  show "ss_init s \<Longrightarrow> ss_queue s = [] \<and> ss_put_log s = [] \<and> ss_take_log s = []"
    by (simp add: ss_init_def SimpleSyncQueue_new_def)
  assume "ss_step s s'"
  then show "(\<exists>x. ss_queue s' = ss_queue s @ [x] \<and> ss_put_log s' = ss_put_log s @ [x] \<and> ss_take_log s' = ss_take_log s) \<or>
      (\<exists>x. ss_queue s = x # ss_queue s' \<and> ss_put_log s' = ss_put_log s \<and> ss_take_log s' = ss_take_log s @ [x]) \<or>
      (ss_queue s' = ss_queue s \<and> ss_put_log s' = ss_put_log s \<and> ss_take_log s' = ss_take_log s)"
    by (elim ss_exec_cases) (auto simp: ss_defs split: ss_pc.splits ss_act.splits option.splits if_splits list.splits)
qed

section \<open>Properties of the unbounded queue\<close>

definition sample_simple :: "int simplequeue" where
  "sample_simple = \<lparr>ss_queue = [7], ss_mutex = Some 1, ss_notEmpty = {2},
     ss_pc = (\<lambda>_. SsIdle)(2 := STakeEntry, 2 := STakeTest, 2 := STakeWait, 1 := SPutEntry 7, 1 := SPutPush 7, 1 := SPutNotify),
     ss_put_log = [7], ss_take_log = []\<rparr>"

fun ss_run :: "(tid \<times> 'a ss_act) list \<Rightarrow> 'a simplequeue \<Rightarrow> 'a simplequeue option" where
  "ss_run [] s = Some s"
| "ss_run ((t, a) # as) s = (case ss_exec t a s of None \<Rightarrow> None | Some s' \<Rightarrow> ss_run as s')"

lemma ss_run_reachable:
  "ss_run as s = Some s' \<Longrightarrow> reachable ss_init ss_step s \<Longrightarrow> reachable ss_init ss_step s'"
proof (induction as s rule: ss_run.induct)
  case (2 t a as s)
  then obtain s1 where "ss_exec t a s = Some s1" "ss_run as s1 = Some s'" by (auto split: option.splits)
  moreover from this have "ss_step s s1" by (auto simp: ss_step_def)
  ultimately show ?case using 2 by (blast intro: reach_step)
qed simp

lemma sample_simple_reachable: "reachable ss_init ss_step sample_simple"
proof -
  have "ss_run [(2, SCallTake), (2, SRun), (2, SRun), (1, SCallPut 7), (1, SRun), (1, SRun)] SimpleSyncQueue_new
      = Some sample_simple"
    by (simp add: ss_exec_def ss_defs SimpleSyncQueue_new_def sample_simple_def)
  moreover have "reachable ss_init ss_step (SimpleSyncQueue_new :: int simplequeue)"
    by (rule reach_init) (simp add: ss_init_def)
  ultimately show ?thesis by (rule ss_run_reachable)
qed

text \<open>
  C12. The unbounded queue, for every interleaving: what was taken is a prefix of what was put,
  in order, and the queue holds exactly the rest; at most one thread is in a protected region;
  and while a consumer sleeps and the queue is not empty, some thread is about to take an
  element or to wake a consumer.
\<close>

theorem simplequeue_correct:
  assumes "reachable ss_init ss_step s"
  shows "ss_put_log s = ss_take_log s @ ss_queue s \<and>
    (ss_crit (ss_pc s t) \<longrightarrow> ss_crit (ss_pc s t') \<longrightarrow> t = t') \<and>
    (ss_notEmpty s \<noteq> {} \<longrightarrow> ss_queue s \<noteq> [] \<longrightarrow> (\<exists>t. ss_active (ss_pc s t)))"
proof -
  have "ss_notEmpty s \<noteq> {} \<Longrightarrow> ss_queue s \<noteq> [] \<Longrightarrow> \<exists>t. ss_active (ss_pc s t)"
    using ss_reach_inv [OF assms] by (intro count_pc_pos) (auto simp: ss_inv_def intro: less_le_trans)
  then show ?thesis using ssf.fifo [OF assms] ssm.exclusion [OF assms, of t t'] by (simp add: ss_inside_def)
qed

theorem simplequeue_correct_witness:
  "ss_put_log sample_simple = ss_take_log sample_simple @ ss_queue sample_simple \<and>
   ss_notEmpty sample_simple \<noteq> {} \<and> ss_queue sample_simple \<noteq> [] \<and> (\<exists>t. ss_active (ss_pc sample_simple t))"
proof -
  have "ss_notEmpty sample_simple \<noteq> {}" "ss_queue sample_simple \<noteq> []" by (simp_all add: sample_simple_def)
  then show ?thesis using simplequeue_correct [OF sample_simple_reachable, of 1 1] by blast
qed

end
