(* ===== verification/SimpleQueueDemo.thy ===== *)
theory SimpleQueueDemo
  imports SimpleSyncQueue
begin

text \<open>
  The program \<open>src/condition_variable/demo2_sync_queue.cpp\<close>: a \<open>SimpleSyncQueue<int>\<close>, a thread \<open>PutDatas\<close> that
  puts 888 twenty times and a thread \<open>TakeDatas\<close> that takes and prints twenty elements. The threads have the
  identifiers 1 and 2.
\<close>

record sdemo =
  sd_q :: "int simplequeue"
  sd_i :: nat             \<comment> \<open>calls of \<open>Put\<close> made\<close>
  sd_j :: nat             \<comment> \<open>calls of \<open>Take\<close> made\<close>
  sd_out :: "int list"    \<comment> \<open>what \<open>TakeDatas\<close> printed\<close>

definition sdemo_new :: sdemo where
  "sdemo_new = \<lparr>sd_q = SimpleSyncQueue_new, sd_i = 0, sd_j = 0, sd_out = []\<rparr>"

definition sd_PutDatas :: "int ss_act \<Rightarrow> sdemo \<Rightarrow> sdemo option" where
  "sd_PutDatas act s =
     (if ss_pc (sd_q s) 1 = SsIdle then
        (if sd_i s < 20
         then map_option (\<lambda>q. s\<lparr>sd_q := q, sd_i := sd_i s + 1\<rparr>) (ss_Put_step 1 (SCallPut 888) (sd_q s))
         else None)
      else map_option (\<lambda>q. s\<lparr>sd_q := q\<rparr>) (ss_Put_step 1 act (sd_q s)))"

definition sd_TakeDatas :: "int ss_act \<Rightarrow> sdemo \<Rightarrow> sdemo option" where
  "sd_TakeDatas act s =
     (if ss_pc (sd_q s) 2 = SsIdle then
        (if sd_j s < 20
         then map_option (\<lambda>q. s\<lparr>sd_q := q, sd_j := sd_j s + 1\<rparr>) (ss_Take_step 2 SCallTake (sd_q s))
         else None)
      else map_option (\<lambda>q. s\<lparr>sd_q := q, sd_out := sd_out s @
              (case ss_pc (sd_q s) 2 of STakeExit x \<Rightarrow> [x] | _ \<Rightarrow> [])\<rparr>) (ss_Take_step 2 act (sd_q s)))"

definition sdemo_step :: "sdemo \<Rightarrow> sdemo \<Rightarrow> bool" where
  "sdemo_step s s' \<longleftrightarrow> (\<exists>act. sd_PutDatas act s = Some s' \<or> sd_TakeDatas act s = Some s')"

definition sdemo_init :: "sdemo \<Rightarrow> bool" where
  "sdemo_init s \<longleftrightarrow> s = sdemo_new"

definition sdemo_finished :: "sdemo \<Rightarrow> bool" where
  "sdemo_finished s \<longleftrightarrow> sd_i s = 20 \<and> ss_pc (sd_q s) 1 = SsIdle \<and> sd_j s = 20 \<and> ss_pc (sd_q s) 2 = SsIdle"

section \<open>Invariant\<close>

fun sd_pend_put :: "int ss_pc \<Rightarrow> int list" where
  "sd_pend_put (SPutEntry x) = [x]" | "sd_pend_put (SPutPush x) = [x]" | "sd_pend_put _ = []"

fun sd_pend_take :: "int ss_pc \<Rightarrow> nat" where
  "sd_pend_take STakeEntry = 1" | "sd_pend_take STakeTest = 1" | "sd_pend_take STakeWait = 1"
| "sd_pend_take STakeWake = 1" | "sd_pend_take _ = 0"

fun sd_held :: "int ss_pc \<Rightarrow> int list" where
  "sd_held (STakeExit x) = [x]" | "sd_held _ = []"

fun sd_put_side :: "int ss_pc \<Rightarrow> bool" where
  "sd_put_side SsIdle = True" | "sd_put_side (SPutEntry _) = True" | "sd_put_side (SPutPush _) = True"
| "sd_put_side SPutNotify = True" | "sd_put_side SPutExit = True" | "sd_put_side _ = False"

definition sdemo_inv :: "sdemo \<Rightarrow> bool" where
  "sdemo_inv s \<longleftrightarrow> (let q = sd_q s in
     sd_i s \<le> 20 \<and> sd_j s \<le> 20 \<and> (\<forall>t. t \<noteq> 1 \<longrightarrow> t \<noteq> 2 \<longrightarrow> ss_pc q t = SsIdle) \<and>
     sd_put_side (ss_pc q 1) \<and> (ss_pc q 2 = SsIdle \<or> \<not> sd_put_side (ss_pc q 2)) \<and>
     ss_put_log q @ sd_pend_put (ss_pc q 1) = replicate (sd_i s) 888 \<and>
     length (ss_take_log q) + sd_pend_take (ss_pc q 2) = sd_j s \<and>
     ss_take_log q = sd_out s @ sd_held (ss_pc q 2))"

lemma ss_stepI:
  "ss_Put_step t act s = Some s' \<Longrightarrow> ss_step s s'" "ss_Take_step t act s = Some s' \<Longrightarrow> ss_step s s'"
proof -
  show "ss_Put_step t act s = Some s' \<Longrightarrow> ss_step s s'" by (auto simp: ss_step_def ss_exec_def intro!: exI [of _ t] exI [of _ act])
  assume "ss_Take_step t act s = Some s'"
  moreover from this have "ss_Put_step t act s = None" by (auto simp: ss_defs split: ss_pc.splits ss_act.splits)
  ultimately show "ss_step s s'" by (auto simp: ss_step_def ss_exec_def intro!: exI [of _ t] exI [of _ act])
qed

lemma sdemo_step_ss: "sdemo_step s s' \<Longrightarrow> ss_step (sd_q s) (sd_q s')"
  by (auto simp: sdemo_step_def sd_PutDatas_def sd_TakeDatas_def intro: ss_stepI split: if_splits)

interpretation sdr: simulation sdemo_init sdemo_step ss_init ss_step sd_q
  by unfold_locales (auto simp: sdemo_init_def sdemo_new_def ss_init_def intro: sdemo_step_ss)

lemmas sdemo_reach_ss = sdr.simulated

lemma sd_PutDatas_inv:
  assumes "sd_PutDatas act s = Some s'" "sdemo_inv s" "ss_inv (sd_q s)"
  shows "sdemo_inv s'"
proof (cases "ss_pc (sd_q s) 1 = SsIdle")
  case True
  then show ?thesis using assms by (auto simp: sd_PutDatas_def sdemo_inv_def ss_defs Let_def replicate_append_same split: if_splits)
next
  case False
  then obtain q where q: "ss_Put_step 1 act (sd_q s) = Some q" "s' = s\<lparr>sd_q := q\<rparr>"
    using assms(1) by (auto simp: sd_PutDatas_def)
  have w: "w \<in> ss_notEmpty (sd_q s) \<Longrightarrow> w = 2 \<and> ss_pc (sd_q s) 2 = STakeWait" for w
    using assms(2,3) by (cases "w = 1 \<or> w = 2") (auto simp: ss_inv_def sdemo_inv_def Let_def)
  show ?thesis
  proof (cases "\<exists>w. ss_pc (sd_q s) 1 = SPutNotify \<and> act = SNotify (Some w)")
    case True
    then obtain v where t: "ss_pc (sd_q s) 1 = SPutNotify" "act = SNotify (Some v)" by blast
    then have v: "v \<in> ss_notEmpty (sd_q s)" using q(1) by (simp add: ss_Put_step_def split: if_splits)
    then have "v = 2" "ss_pc (sd_q s) 2 = STakeWait" using w by blast+
    then show ?thesis using q assms(2) t v by (auto simp: ss_defs sdemo_inv_def Let_def)
  next
    case no_notify: False
    then show ?thesis
      using q assms(2) False by (auto simp: ss_defs sdemo_inv_def Let_def split: ss_pc.splits ss_act.splits if_splits option.splits)
  qed
qed

lemma sd_TakeDatas_inv:
  assumes "sd_TakeDatas act s = Some s'" "sdemo_inv s"
  shows "sdemo_inv s'"
  using assms
  by (auto simp: sd_TakeDatas_def ss_defs sdemo_inv_def Let_def split: ss_pc.splits ss_act.splits if_splits list.splits)

lemma sdemo_reach_inv: "reachable sdemo_init sdemo_step s \<Longrightarrow> sdemo_inv s"
proof (induction rule: reachable.induct)
  case (reach_init s)
  then show ?case by (simp add: sdemo_init_def sdemo_new_def sdemo_inv_def SimpleSyncQueue_new_def)
next
  case (reach_step s s')
  then show ?case
    using ss_reach_inv [OF sdemo_reach_ss [OF reach_step(1)]] sd_PutDatas_inv sd_TakeDatas_inv by (auto simp: sdemo_step_def)
qed

section \<open>The program\<close>

text \<open>A thread that holds the mutex, or finds it free and does not wait, can go on.\<close>

lemma sd_PutDatas_enabled:
  assumes "sd_put_side (ss_pc (sd_q s) 1)" "ss_crit (ss_pc (sd_q s) 1) \<or> ss_mutex (sd_q s) = None"
    and "ss_pc (sd_q s) 1 = SsIdle \<longrightarrow> sd_i s < 20"
  shows "\<exists>act s'. act \<noteq> SSpurious \<and> sd_PutDatas act s = Some s'"
proof (cases "ss_pc (sd_q s) 1 = SPutNotify")
  case True
  then show ?thesis
    by (cases "ss_notEmpty (sd_q s) = {}")
      (auto simp: sd_PutDatas_def ss_Put_step_def intro: exI [of _ "SNotify None"] exI [of _ "SNotify (Some _)"])
next
  case False
  then show ?thesis
    using assms by (intro exI [of _ SRun], cases "ss_pc (sd_q s) 1") (auto simp: sd_PutDatas_def ss_Put_step_def ss_acquire_def)
qed

lemma sd_TakeDatas_enabled:
  assumes "ss_pc (sd_q s) 2 = SsIdle \<or> \<not> sd_put_side (ss_pc (sd_q s) 2)"
    and "ss_crit (ss_pc (sd_q s) 2) \<or> ss_mutex (sd_q s) = None"
    and "ss_pc (sd_q s) 2 \<noteq> STakeWait" "ss_pc (sd_q s) 2 = SsIdle \<longrightarrow> sd_j s < 20"
  shows "\<exists>act s'. act \<noteq> SSpurious \<and> sd_TakeDatas act s = Some s'"
  using assms by (intro exI [of _ SRun], cases "ss_pc (sd_q s) 2")
    (auto simp: sd_TakeDatas_def ss_Take_step_def ss_acquire_def split: list.splits)

lemma sdemo_not_stuck:
  assumes r: "reachable sdemo_init sdemo_step s" and free: "ss_mutex (sd_q s) = None"
    and p: "ss_pc (sd_q s) 1 = SsIdle" "sd_i s = 20"
    and c: "ss_pc (sd_q s) 2 = STakeWait \<or> ss_pc (sd_q s) 2 = SsIdle \<and> sd_j s = 20"
  shows "sdemo_finished s"
proof (rule ccontr)
  assume nf: "\<not> sdemo_finished s"
  have rq: "reachable ss_init ss_step (sd_q s)" by (rule sdemo_reach_ss [OF r])
  have inv: "sdemo_inv s" "ss_inv (sd_q s)" by (rule sdemo_reach_inv [OF r], rule ss_reach_inv [OF rq])
  have w: "ss_pc (sd_q s) 2 = STakeWait" using nf p c by (auto simp: sdemo_finished_def)
  have "\<not> ss_active (ss_pc (sd_q s) t)" for t
    using inv(1) p w by (cases "t = 1"; cases "t = 2") (auto simp: sdemo_inv_def Let_def)
  then have "count_pc ss_active (ss_pc (sd_q s)) = 0" by (simp add: count_pc_def)
  then have "ss_queue (sd_q s) = []" using inv(2) w by (auto simp: ss_inv_def)
  then have "ss_put_log (sd_q s) = ss_take_log (sd_q s)" using ssf.fifo [OF rq] by simp
  moreover have "length (ss_put_log (sd_q s)) = 20" "length (ss_take_log (sd_q s)) + 1 \<le> 20"
    using inv(1) p w by (auto simp: sdemo_inv_def Let_def)
  ultimately show False by simp
qed

text \<open>
  The second queue program, for every interleaving: it never deadlocks, prints only numbers that were put, never
  more than were put, and has printed twenty when both threads have finished.
\<close>

theorem simple_demo_correct:
  assumes r: "reachable sdemo_init sdemo_step s"
  shows "(\<exists>k \<le> sd_i s. sd_out s = replicate k 888) \<and> (sdemo_finished s \<longrightarrow> sd_out s = replicate 20 888) \<and>
    (\<not> sdemo_finished s \<longrightarrow> (\<exists>act s'. act \<noteq> SSpurious \<and> (sd_PutDatas act s = Some s' \<or> sd_TakeDatas act s = Some s')))"
proof -
  let ?q = "sd_q s"
  have rq: "reachable ss_init ss_step ?q" by (rule sdemo_reach_ss [OF r])
  have inv: "sdemo_inv s" by (rule sdemo_reach_inv [OF r])
  have all: "sd_out s @ sd_held (ss_pc ?q 2) @ ss_queue ?q @ sd_pend_put (ss_pc ?q 1) = replicate (sd_i s) 888"
  proof -
    have "ss_put_log ?q @ sd_pend_put (ss_pc ?q 1) = replicate (sd_i s) 888" "ss_take_log ?q = sd_out s @ sd_held (ss_pc ?q 2)"
      using inv unfolding sdemo_inv_def Let_def by blast+
    then show ?thesis using ssf.fifo [OF rq] by (metis append.assoc)
  qed
  then have le: "length (sd_out s) \<le> sd_i s" by (metis length_append length_replicate le_add1)
  have out: "sd_out s = replicate (length (sd_out s)) 888"
    using all le by (metis append_eq_conv_conj take_replicate min.absorb1)
  have fin: "length (sd_out s) = 20" if "sdemo_finished s"
    using that inv by (auto simp: sdemo_finished_def sdemo_inv_def Let_def)
  have sides: "sd_put_side (ss_pc ?q 1)" "ss_pc ?q 2 = SsIdle \<or> \<not> sd_put_side (ss_pc ?q 2)" "sd_i s \<le> 20" "sd_j s \<le> 20"
    using inv by (simp_all add: sdemo_inv_def Let_def)
  have p: "\<exists>act s'. act \<noteq> SSpurious \<and> (sd_PutDatas act s = Some s' \<or> sd_TakeDatas act s = Some s')" if nf: "\<not> sdemo_finished s"
  proof (cases "ss_mutex ?q")
    case None
    consider "ss_pc ?q 1 = SsIdle \<longrightarrow> sd_i s < 20" | "ss_pc ?q 2 \<noteq> STakeWait" "ss_pc ?q 2 = SsIdle \<longrightarrow> sd_j s < 20"
      using sdemo_not_stuck [OF r None] nf sides by fastforce
    then show ?thesis
    proof cases
      case 1 then show ?thesis using sd_PutDatas_enabled [of s] sides None by blast
    next
      case 2 then show ?thesis using sd_TakeDatas_enabled [of s] sides None by blast
    qed
  next
    case (Some t)
    then have crit: "ss_crit (ss_pc ?q t)" using ssm.inside_iff_holder [OF rq] by (simp add: ss_inside_def)
    then have "t = 1 \<or> t = 2" using inv by (auto simp: sdemo_inv_def Let_def)
    then show ?thesis
      using crit sides sd_PutDatas_enabled [of s] sd_TakeDatas_enabled [of s] by fastforce
  qed
  show ?thesis using out le fin p by metis
qed

theorem simple_demo_correct_witness:
  "\<exists>act s'. act \<noteq> SSpurious \<and> (sd_PutDatas act sdemo_new = Some s' \<or> sd_TakeDatas act sdemo_new = Some s')"
  using simple_demo_correct [OF reach_init, of sdemo_new] by (simp add: sdemo_init_def sdemo_finished_def sdemo_new_def)

end
