(* ===== verification/ThreadPool.thy ===== *)
theory ThreadPool
  imports Monitor "HOL-Library.Multiset"
begin

text \<open>
  The thread pool of \<open>src/thread_pool/demo_threadpool.h\<close> and \<open>demo_threadpool.cpp\<close>.

  Every access to the task queue, the worker vector and the pool size is made with
  \<open>_pool_mutex\<close> held, from taking it to releasing it or waiting, and no such region blocks in
  between; so a region is one step here. What happens outside of the mutex has its own steps:
  the read of \<open>_terminate\<close> in the loop of \<open>run\<close>, the updates of \<open>running_count\<close>, the execution of
  the task, the joins of \<open>stop\<close>. The condition variable \<open>_pool_cond\<close> is a set of waiting threads;
  \<open>notify_one\<close> picks any of them and a thread may also wake spuriously. A task is known by its
  number; its body is not interpreted, and \<open>tp_done\<close> records, with the task, whether the worker
  ran it or skipped it because it had expired.
\<close>

record task =
  tk_id :: nat
  tk_expire_time :: int

datatype tp_pc =
    PIdle                       \<comment> \<open>a client outside of the pool\<close>
  | DWait int | DWake int       \<comment> \<open>\<open>wait_for_all_done\<close>: asleep, woken; its timeout\<close>
  | SJoin "tid list"            \<comment> \<open>\<open>stop\<close>: workers still to join\<close>
  | WTop | WGet                 \<comment> \<open>\<open>run\<close>: loop test, \<open>get\<close>\<close>
  | WWait | WWake               \<comment> \<open>\<open>get\<close>: asleep, woken\<close>
  | WGot task | WRun task | WDone | WCheck
  | WExited

datatype tp_ret = RetBool bool | RetVoid

record pool =
  tp_tasks :: "task list"
  tp_workers :: "tid list"
  tp_cond :: "tid set"
  tp_size :: nat
  tp_terminate :: bool
  tp_running :: int
  tp_pc :: "tid \<Rightarrow> tp_pc"
  tp_put_log :: "task list"
  tp_take_log :: "task list"
  tp_done :: "(task \<times> bool) list"
  tp_returns :: "(tid \<times> tp_ret) list"

datatype tp_act =
    AExec task "tid option"     \<comment> \<open>\<open>exec\<close> of a task; whom \<open>notify_one\<close> picks\<close>
  | AInitial nat | AStart "tid list" | AWaitAll int | AStop
  | AGo | ANow int | ASpurious | ATimeout

definition demo_threadpool :: pool where
  "demo_threadpool = \<lparr>tp_tasks = [], tp_workers = [], tp_cond = {}, tp_size = 1, tp_terminate = False,
     tp_running = 0, tp_pc = (\<lambda>_. PIdle), tp_put_log = [], tp_take_log = [], tp_done = [], tp_returns = []\<rparr>"

definition getNowMs :: "int \<Rightarrow> int \<Rightarrow> int" where
  "getNowMs tv_sec tv_usec = tv_sec * 1000 + tv_usec div 1000"

text \<open>\<open>exec\<close>: the task that is pushed for a timeout.\<close>

definition make_task :: "nat \<Rightarrow> int \<Rightarrow> int \<Rightarrow> task" where
  "make_task i timeout_ms now = \<lparr>tk_id = i, tk_expire_time = (if timeout_ms = 0 then 0 else now + timeout_ms)\<rparr>"

definition tp_goto :: "tid \<Rightarrow> tp_pc \<Rightarrow> pool \<Rightarrow> pool" where
  "tp_goto t p s = s\<lparr>tp_pc := (tp_pc s)(t := p)\<rparr>"

definition tp_return :: "tid \<Rightarrow> tp_ret \<Rightarrow> pool \<Rightarrow> pool" where
  "tp_return t r s = tp_goto t PIdle (s\<lparr>tp_returns := tp_returns s @ [(t, r)]\<rparr>)"

fun woken :: "tp_pc \<Rightarrow> tp_pc" where
  "woken WWait = WWake" | "woken (DWait n) = DWake n" | "woken p = p"

definition notify_one :: "tid option \<Rightarrow> pool \<Rightarrow> pool option" where
  "notify_one w s =
     (case w of
        None \<Rightarrow> if tp_cond s = {} then Some s else None
      | Some t \<Rightarrow> if t \<in> tp_cond s
          then Some (tp_goto t (woken (tp_pc s t)) (s\<lparr>tp_cond := tp_cond s - {t}\<rparr>)) else None)"

definition notify_all :: "pool \<Rightarrow> pool" where
  "notify_all s = s\<lparr>tp_cond := {}, tp_pc := (\<lambda>t. if t \<in> tp_cond s then woken (tp_pc s t) else tp_pc s t)\<rparr>"

definition cond_wait :: "tid \<Rightarrow> tp_pc \<Rightarrow> pool \<Rightarrow> pool" where
  "cond_wait t p s = tp_goto t p (s\<lparr>tp_cond := insert t (tp_cond s)\<rparr>)"

definition initial :: "tid \<Rightarrow> nat \<Rightarrow> pool \<Rightarrow> pool" where
  "initial t num s =
     (if tp_workers s \<noteq> [] then tp_return t (RetBool False) s
      else tp_return t (RetBool True) (s\<lparr>tp_size := num\<rparr>))"

text \<open>\<open>start\<close>: the identifiers of the new threads are given by the system.\<close>

definition start :: "tid \<Rightarrow> tid list \<Rightarrow> pool \<Rightarrow> pool" where
  "start t ws s =
     (if tp_workers s \<noteq> [] then tp_return t (RetBool False) s
      else tp_return t (RetBool False)
             (s\<lparr>tp_workers := ws, tp_pc := (\<lambda>u. if u \<in> set ws then WTop else tp_pc s u)\<rparr>))"

definition stop_begin :: "tid \<Rightarrow> pool \<Rightarrow> pool" where
  "stop_begin t s = tp_goto t (SJoin (tp_workers s)) (notify_all (s\<lparr>tp_terminate := True\<rparr>))"

text \<open>The joins and the last region of \<open>stop\<close>.\<close>

definition stop_join :: "tid \<Rightarrow> tid list \<Rightarrow> pool \<Rightarrow> pool option" where
  "stop_join t ws s =
     (case ws of
        [] \<Rightarrow> Some (tp_return t RetVoid (s\<lparr>tp_workers := []\<rparr>))
      | w # ws' \<Rightarrow> if tp_pc s w = WExited then Some (tp_goto t (SJoin ws') s) else None)"

text \<open>\<open>wait_for_all_done\<close>: the loop of the two waits with a predicate, entered and re-entered.\<close>

definition wait_for_all_done :: "tid \<Rightarrow> int \<Rightarrow> pool \<Rightarrow> pool" where
  "wait_for_all_done t timeout_ms s =
     (if tp_tasks s = [] then tp_return t (RetBool True) s else cond_wait t (DWait timeout_ms) s)"

definition wait_timeout :: "tid \<Rightarrow> int \<Rightarrow> pool \<Rightarrow> pool option" where
  "wait_timeout t timeout_ms s =
     (if timeout_ms < 0 then None
      else Some (tp_return t (RetBool (tp_tasks s = [])) (s\<lparr>tp_cond := tp_cond s - {t}\<rparr>)))"

text \<open>\<open>get\<close>, from the test of its wait: asleep again, no task, or the first task.\<close>

definition get :: "tid \<Rightarrow> pool \<Rightarrow> pool" where
  "get t s =
     (if tp_tasks s = [] \<and> \<not> tp_terminate s then cond_wait t WWait s
      else if tp_terminate s then tp_goto t WTop s
      else tp_goto t (WGot (hd (tp_tasks s)))
             (s\<lparr>tp_tasks := tl (tp_tasks s), tp_take_log := tp_take_log s @ [hd (tp_tasks s)]\<rparr>))"

definition run_task :: "tid \<Rightarrow> task \<Rightarrow> int \<Rightarrow> pool \<Rightarrow> pool" where
  "run_task t k now s =
     tp_goto t WDone (s\<lparr>tp_done := tp_done s @ [(k, \<not> (tk_expire_time k \<noteq> 0 \<and> tk_expire_time k < now))]\<rparr>)"

definition finish_task :: "tid \<Rightarrow> pool \<Rightarrow> pool" where
  "finish_task t s =
     (let s1 = tp_goto t WTop s in
      if tp_running s = 0 \<and> tp_tasks s = [] then notify_all s1 else s1)"

text \<open>The steps of a worker: the loop of \<open>run\<close>.\<close>

definition run_step :: "tid \<Rightarrow> tp_act \<Rightarrow> pool \<Rightarrow> pool option" where
  "run_step t act s =
     (case (tp_pc s t, act) of
        (WTop, AGo) \<Rightarrow> Some (tp_goto t (if tp_terminate s then WExited else WGet) s)
      | (WGet, AGo) \<Rightarrow> Some (get t s)
      | (WWait, ASpurious) \<Rightarrow> Some (tp_goto t WWake (s\<lparr>tp_cond := tp_cond s - {t}\<rparr>))
      | (WWake, AGo) \<Rightarrow> Some (get t s)
      | (WGot k, AGo) \<Rightarrow> Some (tp_goto t (WRun k) (s\<lparr>tp_running := tp_running s + 1\<rparr>))
      | (WRun k, ANow now) \<Rightarrow> Some (run_task t k now s)
      | (WDone, AGo) \<Rightarrow> Some (tp_goto t WCheck (s\<lparr>tp_running := tp_running s - 1\<rparr>))
      | (WCheck, AGo) \<Rightarrow> Some (finish_task t s)
      | _ \<Rightarrow> None)"

text \<open>The steps of a client.\<close>

definition client_step :: "tid \<Rightarrow> tp_act \<Rightarrow> pool \<Rightarrow> pool option" where
  "client_step t act s =
     (case (tp_pc s t, act) of
        (PIdle, AExec k w) \<Rightarrow>
          notify_one w (s\<lparr>tp_tasks := tp_tasks s @ [k], tp_put_log := tp_put_log s @ [k]\<rparr>)
      | (PIdle, AInitial n) \<Rightarrow> Some (initial t n s)
      | (PIdle, AStart ws) \<Rightarrow>
          if tp_workers s \<noteq> [] \<or>
             length ws = tp_size s \<and> distinct ws \<and> t \<notin> set ws \<and> (\<forall>w\<in>set ws. tp_pc s w = PIdle)
          then Some (start t ws s) else None
      | (PIdle, AWaitAll n) \<Rightarrow> Some (wait_for_all_done t n s)
      | (PIdle, AStop) \<Rightarrow> Some (stop_begin t s)
      | (SJoin ws, AGo) \<Rightarrow> stop_join t ws s
      | (DWait n, ASpurious) \<Rightarrow> Some (tp_goto t (DWake n) (s\<lparr>tp_cond := tp_cond s - {t}\<rparr>))
      | (DWake n, AGo) \<Rightarrow> Some (wait_for_all_done t n s)
      | (DWait n, ATimeout) \<Rightarrow> wait_timeout t n s
      | (DWake n, ATimeout) \<Rightarrow> wait_timeout t n s
      | _ \<Rightarrow> None)"

definition tp_exec :: "tid \<Rightarrow> tp_act \<Rightarrow> pool \<Rightarrow> pool option" where
  "tp_exec t act s = (case client_step t act s of Some s' \<Rightarrow> Some s' | None \<Rightarrow> run_step t act s)"

definition tp_step :: "pool \<Rightarrow> pool \<Rightarrow> bool" where
  "tp_step s s' \<longleftrightarrow> (\<exists>t act. client_step t act s = Some s' \<or> run_step t act s = Some s')"

definition tp_init :: "pool \<Rightarrow> bool" where
  "tp_init s \<longleftrightarrow> s = demo_threadpool"

definition get_pool_size :: "pool \<Rightarrow> nat" where
  "get_pool_size s = tp_size s"

definition get_pending_task :: "pool \<Rightarrow> nat" where
  "get_pending_task s = length (tp_tasks s)"

section \<open>Order of the tasks\<close>

lemmas tp_defs = tp_goto_def tp_return_def notify_one_def notify_all_def cond_wait_def initial_def start_def
  stop_begin_def stop_join_def wait_for_all_done_def wait_timeout_def get_def run_task_def finish_task_def

lemma tp_stepE:
  assumes "tp_step s s'"
  obtains t act where "client_step t act s = Some s'" | t act where "run_step t act s = Some s'"
  using assms by (auto simp: tp_step_def)

lemma run_stepE:
  assumes "run_step t act p = Some p'"
  obtains (top) "tp_pc p t = WTop" "act = AGo" "p' = tp_goto t (if tp_terminate p then WExited else WGet) p"
  | (get) "tp_pc p t = WGet \<or> tp_pc p t = WWake" "act = AGo" "p' = get t p"
  | (spur) "tp_pc p t = WWait" "act = ASpurious" "p' = tp_goto t WWake (p\<lparr>tp_cond := tp_cond p - {t}\<rparr>)"
  | (got) k where "tp_pc p t = WGot k" "act = AGo" "p' = tp_goto t (WRun k) (p\<lparr>tp_running := tp_running p + 1\<rparr>)"
  | (run) k now where "tp_pc p t = WRun k" "act = ANow now" "p' = run_task t k now p"
  | (fin) "tp_pc p t = WDone" "act = AGo" "p' = tp_goto t WCheck (p\<lparr>tp_running := tp_running p - 1\<rparr>)"
  | (check) "tp_pc p t = WCheck" "act = AGo" "p' = finish_task t p"
  using assms by (cases "tp_pc p t"; cases act) (auto simp: run_step_def)

lemma client_step_queue:
  assumes "client_step t act s = Some s'"
  shows "(\<exists>x. tp_tasks s' = tp_tasks s @ [x] \<and> tp_put_log s' = tp_put_log s @ [x]) \<and> tp_take_log s' = tp_take_log s \<or>
      (tp_tasks s' = tp_tasks s \<and> tp_put_log s' = tp_put_log s \<and> tp_take_log s' = tp_take_log s)"
  using assms
  by (auto simp: client_step_def tp_defs split: tp_pc.splits tp_act.splits option.splits if_splits list.splits)

lemma run_step_queue:
  assumes "run_step t act s = Some s'"
  shows "(\<exists>x. tp_tasks s = x # tp_tasks s' \<and> tp_put_log s' = tp_put_log s \<and> tp_take_log s' = tp_take_log s @ [x]) \<or>
      (tp_tasks s' = tp_tasks s \<and> tp_put_log s' = tp_put_log s \<and> tp_take_log s' = tp_take_log s)"
  using assms
  by (auto simp: run_step_def tp_defs Let_def neq_Nil_conv split: tp_pc.splits tp_act.splits option.splits if_splits)

interpretation tpf: fifo_log tp_init tp_step tp_tasks tp_put_log tp_take_log
proof unfold_locales
  fix s s' :: pool
  show "tp_init s \<Longrightarrow> tp_tasks s = [] \<and> tp_put_log s = [] \<and> tp_take_log s = []"
    by (simp add: tp_init_def demo_threadpool_def)
  assume "tp_step s s'"
  then show "(\<exists>x. tp_tasks s' = tp_tasks s @ [x] \<and> tp_put_log s' = tp_put_log s @ [x] \<and> tp_take_log s' = tp_take_log s) \<or>
      (\<exists>x. tp_tasks s = x # tp_tasks s' \<and> tp_put_log s' = tp_put_log s \<and> tp_take_log s' = tp_take_log s @ [x]) \<or>
      (tp_tasks s' = tp_tasks s \<and> tp_put_log s' = tp_put_log s \<and> tp_take_log s' = tp_take_log s)"
    by (elim tp_stepE) (blast dest: client_step_queue run_step_queue)+
qed

section \<open>Termination flag\<close>

lemma client_step_terminate: "client_step t act s = Some s' \<Longrightarrow> tp_terminate s \<Longrightarrow> tp_terminate s' \<and> tp_take_log s' = tp_take_log s"
  by (auto simp: client_step_def tp_defs split: tp_pc.splits tp_act.splits option.splits if_splits list.splits)

lemma run_step_terminate:
  "run_step t act s = Some s' \<Longrightarrow> tp_terminate s \<Longrightarrow>
   tp_terminate s' \<and> tp_take_log s' = tp_take_log s \<and> tp_tasks s' = tp_tasks s"
  by (auto simp: run_step_def tp_defs Let_def split: tp_pc.splits tp_act.splits option.splits if_splits)

text \<open>No worker sleeps once the pool terminates: \<open>stop\<close> wakes all, and \<open>get\<close> does not wait again.\<close>

definition awake_inv :: "pool \<Rightarrow> bool" where
  "awake_inv s \<longleftrightarrow> (\<forall>t. tp_pc s t = WWait \<longrightarrow> t \<in> tp_cond s \<and> \<not> tp_terminate s)"

lemma woken_not_wait [simp]: "woken p \<noteq> WWait"
  by (cases p) auto

lemma client_step_awake: "client_step t act s = Some s' \<Longrightarrow> awake_inv s \<Longrightarrow> awake_inv s'"
  by (auto simp: client_step_def awake_inv_def tp_defs
      split: tp_pc.splits tp_act.splits option.splits if_splits list.splits)

lemma run_step_awake: "run_step t act s = Some s' \<Longrightarrow> awake_inv s \<Longrightarrow> awake_inv s'"
  by (auto simp: run_step_def awake_inv_def tp_defs Let_def split: tp_pc.splits tp_act.splits option.splits if_splits)

lemma tp_invariant:
  assumes "reachable tp_init tp_step s" "I demo_threadpool"
    and "\<And>t act s s'. client_step t act s = Some s' \<Longrightarrow> I s \<Longrightarrow> I s'"
    and "\<And>t act s s'. run_step t act s = Some s' \<Longrightarrow> I s \<Longrightarrow> I s'"
  shows "I s"
  using assms(1)
  by (rule reachable_invariant) (auto simp: tp_init_def elim!: tp_stepE intro: assms(2-4))

lemma tp_reach_awake: "reachable tp_init tp_step s \<Longrightarrow> awake_inv s"
  by (erule tp_invariant) (auto intro: client_step_awake run_step_awake, simp add: awake_inv_def demo_threadpool_def)

section \<open>Every task is handled at most once\<close>

fun holds :: "tp_pc \<Rightarrow> task option" where
  "holds (WGot k) = Some k" | "holds (WRun k) = Some k" | "holds _ = None"

definition in_hand :: "(tid \<Rightarrow> tp_pc) \<Rightarrow> task multiset" where
  "in_hand f = image_mset (\<lambda>t. the (holds (f t))) (mset_set {t. holds (f t) \<noteq> None})"

lemma holds_finite: "few PIdle f \<Longrightarrow> finite {t. holds (f t) \<noteq> None}"
  by (rule few_finite [of PIdle f "\<lambda>p. holds p \<noteq> None"]) auto

lemma in_hand_split:
  assumes "few PIdle f"
  shows "in_hand f = in_hand (f(a := PIdle)) + (case holds (f a) of None \<Rightarrow> {#} | Some k \<Rightarrow> {#k#})"
proof -
  let ?A = "{t. holds (f t) \<noteq> None}"
  have e: "{t. holds ((f(a := PIdle)) t) \<noteq> None} = ?A - {a}" by auto
  have i: "in_hand (f(a := PIdle)) = image_mset (\<lambda>t. the (holds (f t))) (mset_set (?A - {a}))"
    unfolding in_hand_def e by (rule image_mset_cong) (use holds_finite [OF assms] in auto)
  show ?thesis
  proof (cases "holds (f a)")
    case None
    then have "?A - {a} = ?A" by auto
    then show ?thesis using i None by (simp add: in_hand_def)
  next
    case (Some k)
    then have "?A = insert a (?A - {a})" by auto
    then have "mset_set ?A = add_mset a (mset_set (?A - {a}))"
      using holds_finite [OF assms] by (metis Diff_iff finite_Diff insertI1 mset_set.insert)
    then show ?thesis using i Some by (simp add: in_hand_def)
  qed
qed

lemma in_hand_upd:
  assumes "few PIdle f" "holds (f a) = holds p"
  shows "in_hand (f(a := p)) = in_hand f"
  using in_hand_split [OF assms(1), of a] in_hand_split [of "f(a := p)" a] assms by simp

lemma in_hand_upd_Some:
  assumes "few PIdle f" "holds (f a) = None" "holds p = Some k"
  shows "in_hand (f(a := p)) = add_mset k (in_hand f)"
  using in_hand_split [OF assms(1), of a] in_hand_split [of "f(a := p)" a] assms by simp

lemma in_hand_upd_None:
  assumes "few PIdle f" "holds (f a) = Some k" "holds p = None"
  shows "add_mset k (in_hand (f(a := p))) = in_hand f"
  using in_hand_split [OF assms(1), of a] in_hand_split [of "f(a := p)" a] assms by simp

lemma in_hand_cong: "(\<And>t. holds (f t) = holds (g t)) \<Longrightarrow> in_hand f = in_hand g"
  by (simp add: in_hand_def)

definition task_inv :: "pool \<Rightarrow> bool" where
  "task_inv s \<longleftrightarrow> few PIdle (tp_pc s) \<and> mset (tp_take_log s) = mset (map fst (tp_done s)) + in_hand (tp_pc s)"

lemma holds_woken [simp]: "holds (woken p) = holds p"
  by (cases p) auto

lemma few_notify: "few PIdle (\<lambda>t. if t \<in> C then woken (f t) else f t) = few PIdle f"
proof -
  have "woken p = PIdle \<longleftrightarrow> p = PIdle" for p by (cases p) auto
  then show ?thesis by (simp add: few_def)
qed

lemma in_hand_notify: "in_hand (\<lambda>t. if t \<in> C then woken (f t) else f t) = in_hand f"
  by (rule in_hand_cong) simp

lemmas in_hand_simps = in_hand_upd in_hand_upd_Some few_notify in_hand_notify

lemma few_start: "few PIdle f \<Longrightarrow> few PIdle (\<lambda>u. if u \<in> set ws then WTop else f u)"
  unfolding few_def by (rule finite_subset [of _ "{t. f t \<noteq> PIdle} \<union> set ws"]) auto

lemma in_hand_start: "\<forall>w\<in>set ws. f w = PIdle \<Longrightarrow> in_hand (\<lambda>u. if u \<in> set ws then WTop else f u) = in_hand f"
  by (rule in_hand_cong) simp

lemma client_step_task: "client_step t act s = Some s' \<Longrightarrow> task_inv s \<Longrightarrow> task_inv s'"
  by (auto simp: client_step_def task_inv_def tp_defs in_hand_simps few_start in_hand_start
      split: tp_pc.splits tp_act.splits option.splits if_splits list.splits)

lemma run_task_inv:
  assumes "task_inv s" "tp_pc s t = WRun k"
  shows "task_inv (run_task t k now s)"
  using assms in_hand_upd_None [of "tp_pc s" t k WDone] by (simp add: task_inv_def run_task_def tp_goto_def)

lemma get_inv:
  assumes "task_inv s" "holds (tp_pc s t) = None"
  shows "task_inv (get t s)"
  using assms by (auto simp: task_inv_def get_def cond_wait_def tp_goto_def in_hand_simps)

lemma notify_all_inv: "task_inv (notify_all s) = task_inv s"
  by (simp add: task_inv_def notify_all_def in_hand_simps)

lemma finish_task_inv: "task_inv s \<Longrightarrow> tp_pc s t = WCheck \<Longrightarrow> task_inv (finish_task t s)"
  by (simp add: finish_task_def Let_def notify_all_inv) (simp add: task_inv_def tp_goto_def in_hand_simps)

lemma run_step_task:
  assumes "run_step t act s = Some s'" "task_inv s"
  shows "task_inv s'"
proof (cases "(\<exists>k now. tp_pc s t = WRun k \<and> act = ANow now) \<or> tp_pc s t = WGet \<or> tp_pc s t = WWake \<or> tp_pc s t = WCheck")
  case True
  then show ?thesis
    using assms run_task_inv [OF assms(2)] get_inv [OF assms(2)] finish_task_inv [OF assms(2)]
    by (auto simp: run_step_def split: tp_act.splits)
next
  case False
  then show ?thesis using assms
    by (auto simp: run_step_def task_inv_def tp_goto_def in_hand_simps
        split: tp_pc.splits tp_act.splits if_splits)
qed

lemma tp_reach_task: "reachable tp_init tp_step s \<Longrightarrow> task_inv s"
  by (erule tp_invariant)
    (auto intro: client_step_task run_step_task, simp add: task_inv_def demo_threadpool_def few_def in_hand_def)

section \<open>Properties of the pool\<close>

fun tp_run :: "(tid \<times> tp_act) list \<Rightarrow> pool \<Rightarrow> pool option" where
  "tp_run [] s = Some s"
| "tp_run ((t, a) # as) s = (case tp_exec t a s of None \<Rightarrow> None | Some s' \<Rightarrow> tp_run as s')"

lemma tp_run_reachable:
  "tp_run as s = Some s' \<Longrightarrow> reachable tp_init tp_step s \<Longrightarrow> reachable tp_init tp_step s'"
proof (induction as s rule: tp_run.induct)
  case (2 t a as s)
  then obtain s1 where "tp_exec t a s = Some s1" "tp_run as s1 = Some s'" by (auto split: option.splits)
  moreover from this have "tp_step s s1" by (auto simp: tp_step_def tp_exec_def split: option.splits)
  ultimately show ?case using 2 by (blast intro: reach_step)
qed simp

lemma tp_new_reachable: "reachable tp_init tp_step demo_threadpool"
  by (rule reach_init) (simp add: tp_init_def)

lemmas tp_eval = tp_exec_def client_step_def run_step_def tp_defs Let_def

definition a_task :: "nat \<Rightarrow> task" where
  "a_task i = make_task i 0 0"

text \<open>Client 0 starts one worker (10), submits a task and waits; the worker has taken the task.\<close>

definition busy_schedule :: "(tid \<times> tp_act) list" where
  "busy_schedule = [(0, AStart [10]), (10, AGo), (10, AGo), (0, AExec (a_task 1) (Some 10)),
     (0, AWaitAll (-1)), (10, AGo), (10, AGo)]"

text \<open>
  C13. Tasks are taken in the order of their submission, and every submitted task is pending, in
  the hands of one worker, or handled exactly once: the tasks taken are, with multiplicity, those
  handled and those in hand.
\<close>

theorem pool_tasks_once:
  assumes "reachable tp_init tp_step s"
  shows "tp_put_log s = tp_take_log s @ tp_tasks s \<and>
    mset (tp_put_log s) = mset (map fst (tp_done s)) + in_hand (tp_pc s) + mset (tp_tasks s)"
  using tpf.fifo [OF assms] tp_reach_task [OF assms] by (simp add: task_inv_def)

text \<open>Three tasks are submitted; the worker has handled the first, holds the second, and the third is pending.\<close>

definition three_tasks :: "(tid \<times> tp_act) list" where
  "three_tasks = [(0, AStart [10]), (0, AExec (a_task 1) None), (0, AExec (a_task 2) None), (0, AExec (a_task 3) None),
     (10, AGo), (10, AGo), (10, AGo), (10, ANow 0), (10, AGo), (10, AGo), (10, AGo), (10, AGo)]"

theorem pool_tasks_once_witness:
  "\<exists>s. reachable tp_init tp_step s \<and> tp_put_log s = [a_task 1, a_task 2, a_task 3] \<and> tp_take_log s = [a_task 1, a_task 2] \<and>
     tp_done s = [(a_task 1, True)] \<and> tp_pc s 10 = WGot (a_task 2) \<and> tp_tasks s = [a_task 3] \<and> in_hand (tp_pc s) = {#a_task 2#}"
proof -
  obtain s where s: "tp_run three_tasks demo_threadpool = Some s" "tp_put_log s = [a_task 1, a_task 2, a_task 3]"
    "tp_done s = [(a_task 1, True)]" "tp_pc s 10 = WGot (a_task 2)" "tp_tasks s = [a_task 3]"
    by (simp add: three_tasks_def tp_eval demo_threadpool_def a_task_def make_task_def)
  have r: "reachable tp_init tp_step s" by (rule tp_run_reachable [OF s(1) tp_new_reachable])
  from pool_tasks_once [OF this] s have "tp_take_log s = [a_task 1, a_task 2]" "in_hand (tp_pc s) = {#a_task 2#}" by auto
  then show ?thesis using r s by blast
qed

text \<open>
  \<open>wait_for_all_done\<close> returns true while a task is still running: its predicate looks at the
  queue only. In this run the client is told that all tasks are done, the worker is executing the
  only task, and nothing has been completed.
\<close>

theorem wait_for_all_done_early:
  "\<exists>s. reachable tp_init tp_step s \<and> (0, RetBool True) \<in> set (tp_returns s) \<and>
     tp_pc s 10 = WRun (a_task 1) \<and> tp_running s = 1 \<and> tp_put_log s = [a_task 1] \<and> tp_done s = []"
proof -
  obtain s where s: "tp_run (busy_schedule @ [(0, ASpurious), (0, AGo)]) demo_threadpool = Some s"
    "(0, RetBool True) \<in> set (tp_returns s)" "tp_pc s 10 = WRun (a_task 1)" "tp_running s = 1"
    "tp_put_log s = [a_task 1]" "tp_done s = []"
    by (simp add: busy_schedule_def tp_eval demo_threadpool_def)
  then show ?thesis using tp_run_reachable [OF s(1) tp_new_reachable] by blast
qed

text \<open>
  Termination. Once \<open>_terminate\<close> is set, it stays set, no step takes a task from the queue
  (also after another \<open>start\<close>), and no worker sleeps or goes to sleep.
\<close>

theorem pool_terminated:
  assumes "reachable tp_init tp_step s" "tp_terminate s" "tp_step s s'"
  shows "tp_terminate s' \<and> tp_take_log s' = tp_take_log s \<and> (\<exists>ks. tp_tasks s' = tp_tasks s @ ks) \<and>
    (\<forall>t. tp_pc s' t \<noteq> WWait)"
proof -
  have t: "tp_terminate s' \<and> tp_take_log s' = tp_take_log s"
    using assms(3) client_step_terminate [OF _ assms(2)] run_step_terminate [OF _ assms(2)] by (elim tp_stepE) blast+
  have "\<exists>ks. tp_tasks s' = tp_tasks s @ ks"
    using assms(3) client_step_queue run_step_terminate [OF _ assms(2)] by (elim tp_stepE) force+
  moreover have "awake_inv s'" using tp_reach_awake [OF reach_step [OF assms(1,3)]] .
  ultimately show ?thesis using t by (auto simp: awake_inv_def)
qed

definition stopped_pool :: pool where
  "stopped_pool = demo_threadpool\<lparr>tp_terminate := True, tp_pc := (\<lambda>_. PIdle)(0 := SJoin [])\<rparr>"

lemma stopped_reachable: "reachable tp_init tp_step stopped_pool"
  by (rule tp_run_reachable [of "[(0, AStop)]" demo_threadpool, OF _ tp_new_reachable])
    (simp add: tp_eval demo_threadpool_def stopped_pool_def)

theorem pool_terminated_witness:
  "\<exists>s'. tp_step stopped_pool s' \<and> tp_terminate s' \<and> tp_take_log s' = tp_take_log stopped_pool \<and>
     (\<exists>ks. tp_tasks s' = tp_tasks stopped_pool @ ks) \<and> (\<forall>t. tp_pc s' t \<noteq> WWait)"
proof -
  have "client_step 1 (AExec (a_task 1) None) stopped_pool =
      Some (stopped_pool\<lparr>tp_tasks := [a_task 1], tp_put_log := [a_task 1]\<rparr>)"
    by (simp add: client_step_def tp_defs stopped_pool_def demo_threadpool_def)
  then have "tp_step stopped_pool (stopped_pool\<lparr>tp_tasks := [a_task 1], tp_put_log := [a_task 1]\<rparr>)"
    by (auto simp: tp_step_def)
  moreover have "tp_terminate stopped_pool" by (simp add: stopped_pool_def)
  ultimately show ?thesis using pool_terminated [OF stopped_reachable] by blast
qed

fun to_exit :: "tp_pc \<Rightarrow> nat" where
  "to_exit (WGot _) = 6" | "to_exit (WRun _) = 5" | "to_exit WDone = 4" | "to_exit WCheck = 3"
| "to_exit WWake = 2" | "to_exit WGet = 2" | "to_exit WTop = 1" | "to_exit _ = 0"

fun is_worker :: "tp_pc \<Rightarrow> bool" where
  "is_worker WTop = True" | "is_worker WGet = True" | "is_worker WWait = True" | "is_worker WWake = True"
| "is_worker (WGot _) = True" | "is_worker (WRun _) = True" | "is_worker WDone = True" | "is_worker WCheck = True"
| "is_worker _ = False"

text \<open>
  C15. \<open>stop\<close> gets its workers: once \<open>_terminate\<close> is set, every worker that has not exited can take
  a step at once, and each of its steps brings it closer to its exit, after at most five more.
\<close>

theorem pool_workers_exit:
  assumes "reachable tp_init tp_step s" "tp_terminate s" "is_worker (tp_pc s t)"
  shows "(\<exists>act s'. run_step t act s = Some s') \<and>
    (\<forall>act s'. run_step t act s = Some s' \<longrightarrow> to_exit (tp_pc s' t) < to_exit (tp_pc s t)) \<and> to_exit (tp_pc s t) \<le> 6"
proof -
  have w: "tp_pc s t \<noteq> WWait" using tp_reach_awake [OF assms(1)] assms(2) by (auto simp: awake_inv_def)
  have "\<exists>act s'. run_step t act s = Some s'"
    using w assms(3) by (cases "tp_pc s t") (auto simp: run_step_def intro: exI [of _ AGo] exI [of _ "ANow 0"])
  moreover have "to_exit (tp_pc s' t) < to_exit (tp_pc s t)" if "run_step t act s = Some s'" for act s'
    using that w assms(2)
    by (auto simp: run_step_def tp_defs Let_def split: tp_pc.splits tp_act.splits if_splits)
  moreover have "to_exit (tp_pc s t) \<le> 6" by (cases "tp_pc s t") auto
  ultimately show ?thesis by blast
qed

definition stopping_pool :: pool where
  "stopping_pool = demo_threadpool\<lparr>tp_workers := [10], tp_returns := [(0, RetBool False)], tp_terminate := True,
     tp_pc := (\<lambda>t. if t = 10 then WTop else PIdle)(0 := PIdle, 0 := SJoin [10])\<rparr>"

lemma stopping_reachable: "reachable tp_init tp_step stopping_pool"
  by (rule tp_run_reachable [of "[(0, AStart [10]), (0, AStop)]" demo_threadpool, OF _ tp_new_reachable])
    (simp add: tp_eval demo_threadpool_def stopping_pool_def fun_eq_iff)

theorem pool_workers_exit_witness:
  "\<exists>act s'. run_step 10 act stopping_pool = Some s' \<and> to_exit (tp_pc s' 10) < to_exit (tp_pc stopping_pool 10)"
proof -
  have "tp_terminate stopping_pool" "is_worker (tp_pc stopping_pool 10)" by (simp_all add: stopping_pool_def)
  from pool_workers_exit [OF stopping_reachable this] show ?thesis by blast
qed

definition stranded :: "tid \<Rightarrow> int \<Rightarrow> pool \<Rightarrow> bool" where
  "stranded t n s \<longleftrightarrow> tp_terminate s \<and> tp_tasks s \<noteq> [] \<and> (tp_pc s t = DWait n \<or> tp_pc s t = DWake n)"

lemma client_step_stranded: "n < 0 \<Longrightarrow> client_step u act s = Some s' \<Longrightarrow> stranded t n s \<Longrightarrow> stranded t n s'"
  by (auto simp: client_step_def stranded_def tp_defs
      split: tp_pc.splits tp_act.splits option.splits if_splits list.splits)

lemma run_step_stranded: "run_step u act s = Some s' \<Longrightarrow> stranded t n s \<Longrightarrow> stranded t n s'"
  by (auto simp: run_step_def stranded_def tp_defs Let_def
      split: tp_pc.splits tp_act.splits option.splits if_splits)

text \<open>
  A client that waits without a timeout in \<open>wait_for_all_done\<close> when \<open>stop\<close> is called with tasks
  pending never returns, whatever happens afterwards: the workers leave the tasks in the queue and
  the predicate of the wait does not look at \<open>_terminate\<close>.
\<close>

theorem wait_for_all_done_stranded:
  assumes "tp_terminate s" "tp_tasks s \<noteq> []" "tp_pc s t = DWait n" "n < 0"
    and "reachable (\<lambda>x. x = s) tp_step s'"
  shows "tp_pc s' t = DWait n \<or> tp_pc s' t = DWake n"
proof -
  have "stranded t n s'"
    using assms(5)
  proof (rule reachable_invariant)
    show "stranded t n x" if "x = s" for x using that assms(1-3) by (simp add: stranded_def)
  qed (use assms(4) in \<open>blast elim: tp_stepE intro: client_step_stranded run_step_stranded\<close>)
  then show ?thesis by (simp add: stranded_def)
qed

definition stranded_pool :: pool where
  "stranded_pool = demo_threadpool\<lparr>tp_tasks := [a_task 1], tp_put_log := [a_task 1], tp_terminate := True,
     tp_cond := {1}, tp_pc := (\<lambda>_. PIdle)(1 := DWait (-1))\<rparr>"

theorem wait_for_all_done_stranded_witness:
  "tp_pc stranded_pool 1 = DWait (-1) \<or> tp_pc stranded_pool 1 = DWake (-1)"
  by (rule wait_for_all_done_stranded [of stranded_pool])
    (simp_all add: stranded_pool_def reach_init)

text \<open>
  \<open>start\<close> creates one worker for each unit of the pool size when the pool has none, and none
  otherwise; it returns false in both cases.
\<close>

theorem start_returns_false:
  assumes "client_step t (AStart ws) s = Some s'"
  shows "tp_returns s' = tp_returns s @ [(t, RetBool False)] \<and>
    tp_workers s' = (if tp_workers s = [] then ws else tp_workers s) \<and>
    (tp_workers s = [] \<longrightarrow> length ws = tp_size s \<and> (\<forall>w\<in>set ws. tp_pc s' w = WTop))"
  using assms by (auto simp: client_step_def start_def tp_return_def tp_goto_def split: tp_pc.splits if_splits)

theorem start_returns_false_witness:
  "\<exists>s'. client_step 0 (AStart [10]) demo_threadpool = Some s' \<and>
    tp_returns s' = [(0, RetBool False)] \<and> tp_workers s' = [10] \<and> tp_pc s' 10 = WTop"
proof -
  obtain s' where s': "client_step 0 (AStart [10]) demo_threadpool = Some s'"
    by (simp add: client_step_def demo_threadpool_def)
  from start_returns_false [OF this] show ?thesis using s' by (simp add: demo_threadpool_def)
qed

text \<open>
  A wake-up can be lost because workers and \<open>wait_for_all_done\<close> share one condition variable:
  in this run of a pool of two workers a task is pending and a worker sleeps, the notification of
  its submission went to the client in \<open>wait_for_all_done\<close>, which went back to sleep, and the only
  thread that can go on without a further submission or a spurious wake-up is the worker that
  still executes an earlier task.
\<close>

definition lost_schedule :: "(tid \<times> tp_act) list" where
  "lost_schedule =
    [(0, AInitial 2), (0, AStart [10, 11]), (10, AGo), (11, AGo),
     (0, AExec (a_task 1) None), (11, AGo), (11, AGo),      \<comment> \<open>11 takes task 1\<close>
     (10, AGo),                                             \<comment> \<open>10 sleeps\<close>
     (1, AExec (a_task 2) (Some 10)), (0, AWaitAll (-1)),   \<comment> \<open>10 is woken, 0 sleeps\<close>
     (11, ANow 0), (11, AGo), (11, AGo), (11, AGo), (11, AGo), (11, AGo),  \<comment> \<open>11 finishes task 1, takes task 2\<close>
     (10, AGo),                                             \<comment> \<open>10 finds nothing and sleeps\<close>
     (1, AExec (a_task 3) (Some 0)), (0, AGo)]              \<comment> \<open>0 is woken for task 3 and sleeps again\<close>"

theorem pool_lost_wakeup:
  "\<exists>s. reachable tp_init tp_step s \<and> tp_tasks s = [a_task 3] \<and> tp_pc s 10 = WWait \<and> tp_pc s 0 = DWait (-1) \<and>
     tp_pc s 11 = WRun (a_task 2) \<and> {t. tp_pc s t \<noteq> PIdle} = {0, 10, 11}"
proof -
  have "\<exists>s. tp_run lost_schedule demo_threadpool = Some s \<and> tp_tasks s = [a_task 3] \<and> tp_pc s 10 = WWait \<and>
     tp_pc s 0 = DWait (-1) \<and> tp_pc s 11 = WRun (a_task 2) \<and> {t. tp_pc s t \<noteq> PIdle} = {0, 10, 11}"
    by (simp add: lost_schedule_def tp_eval demo_threadpool_def) auto
  then show ?thesis using tp_run_reachable [OF _ tp_new_reachable] by blast
qed

end
