(* ===== verification/QueueSpec.thy ===== *)
theory QueueSpec
  imports SyncQueue SimpleSyncQueue ThreadPool
begin

text \<open>
  What the concurrent containers promise, as atomic specifications, and that they keep it. The
  specification of a blocking queue has no mutex and no condition variable: a call is made, takes
  effect in one step when it can, and returns. The specification of a pool has no workers: a task
  is submitted, begun and finished. A component refines its specification when an abstraction maps
  each of its steps to a step of the specification or to none (\<open>simulation\<close> of \<open>Monitor\<close>); the effect of every
  call then lies between its beginning and its end, in one order for all threads.
\<close>

section \<open>Blocking queues\<close>

datatype 'a bq_call = BIdle | BPut 'a | BPutDone | BTake | BGot 'a

record 'a bqueue =
  bq_queue :: "'a list"
  bq_calls :: "tid \<Rightarrow> 'a bq_call"

text \<open>The capacity is \<open>None\<close> for the unbounded queue.\<close>

definition has_room :: "nat option \<Rightarrow> 'a list \<Rightarrow> bool" where
  "has_room cap q = (case cap of None \<Rightarrow> True | Some m \<Rightarrow> length q < m)"

inductive bq_step :: "nat option \<Rightarrow> 'a bqueue \<Rightarrow> 'a bqueue \<Rightarrow> bool" for cap where
  b_call_put: "bq_calls b t = BIdle \<Longrightarrow> bq_step cap b (b\<lparr>bq_calls := (bq_calls b)(t := BPut x)\<rparr>)"
| b_call_take: "bq_calls b t = BIdle \<Longrightarrow> bq_step cap b (b\<lparr>bq_calls := (bq_calls b)(t := BTake)\<rparr>)"
| b_put: "bq_calls b t = BPut x \<Longrightarrow> has_room cap (bq_queue b) \<Longrightarrow>
    bq_step cap b (b\<lparr>bq_queue := bq_queue b @ [x], bq_calls := (bq_calls b)(t := BPutDone)\<rparr>)"
| b_take: "bq_calls b t = BTake \<Longrightarrow> bq_queue b = x # q \<Longrightarrow>
    bq_step cap b (b\<lparr>bq_queue := q, bq_calls := (bq_calls b)(t := BGot x)\<rparr>)"
| b_return: "bq_calls b t = BPutDone \<or> bq_calls b t = BGot x \<Longrightarrow>
    bq_step cap b (b\<lparr>bq_calls := (bq_calls b)(t := BIdle)\<rparr>)"

definition bq_init :: "'a bqueue \<Rightarrow> bool" where
  "bq_init b \<longleftrightarrow> b = \<lparr>bq_queue = [], bq_calls = (\<lambda>_. BIdle)\<rparr>"

fun sq_call :: "'a sq_pc \<Rightarrow> 'a bq_call" where
  "sq_call SqIdle = BIdle"
| "sq_call (PutEntry x) = BPut x" | "sq_call (PutLoop x) = BPut x" | "sq_call (PutWait x) = BPut x"
| "sq_call (PutWake x) = BPut x" | "sq_call PutNotify = BPutDone" | "sq_call PutExit = BPutDone"
| "sq_call TakeEntry = BTake" | "sq_call TakeLoop = BTake" | "sq_call TakeWait = BTake" | "sq_call TakeWake = BTake"
| "sq_call (TakeNotify x) = BGot x" | "sq_call (TakeExit x) = BGot x"

definition sq_abs :: "'a syncqueue \<Rightarrow> 'a bqueue" where
  "sq_abs s = \<lparr>bq_queue = sq_queue s, bq_calls = sq_call \<circ> sq_pc s\<rparr>"

fun ss_call :: "'a ss_pc \<Rightarrow> 'a bq_call" where
  "ss_call SsIdle = BIdle"
| "ss_call (SPutEntry x) = BPut x" | "ss_call (SPutPush x) = BPut x" | "ss_call SPutNotify = BPutDone" | "ss_call SPutExit = BPutDone"
| "ss_call STakeEntry = BTake" | "ss_call STakeTest = BTake" | "ss_call STakeWait = BTake" | "ss_call STakeWake = BTake"
| "ss_call (STakeExit x) = BGot x"

definition ss_abs :: "'a simplequeue \<Rightarrow> 'a bqueue" where
  "ss_abs s = \<lparr>bq_queue = ss_queue s, bq_calls = ss_call \<circ> ss_pc s\<rparr>"

text \<open>Updates of a program counter, seen through the abstraction.\<close>

lemma comp_upd: "f \<circ> g(a := b) = (f \<circ> g)(a := f b)"
  by (auto simp: fun_eq_iff)

lemma comp_same: "f (g a) = f b \<Longrightarrow> f \<circ> g(a := b) = f \<circ> g"
  by (auto simp: fun_eq_iff)

lemma sq_abs_rule:
  assumes "sq_rule s s'" "sq_waits s" "length (sq_queue s) \<le> m" "sq_maxSize s = int m"
  shows "sq_abs s' = sq_abs s \<or> bq_step (Some m) (sq_abs s) (sq_abs s')"
  using assms
proof (induction rule: sq_rule.induct)
  case (r_push s t x)
  then have "length (sq_queue s) < m" by (auto simp: IsFull_def le_less)
  then show ?case using r_push(1) b_put [of "sq_abs s" t x "Some m"] by (simp add: sq_abs_def comp_upd has_room_def)
next
  case (r_pop s t x q)
  then show ?case using b_take [of "sq_abs s" t x q "Some m"] by (simp add: sq_abs_def comp_upd)
next
  case (r_call_put s t x)
  then show ?case using b_call_put [of "sq_abs s" t "Some m" x] by (simp add: sq_abs_def comp_upd)
next
  case (r_call_take s t)
  then show ?case using b_call_take [of "sq_abs s" t "Some m"] by (simp add: sq_abs_def comp_upd)
next
  case (r_put_exit s t)
  then show ?case using b_return [of "sq_abs s" t _ "Some m"] by (simp add: sq_abs_def comp_upd)
next
  case (r_take_exit s t x)
  then show ?case using b_return [of "sq_abs s" t x "Some m"] by (simp add: sq_abs_def comp_upd)
next
  case (r_put_notify s t w)
  then have "sq_pc s w = TakeWait" by (simp add: sq_waits_def)
  then show ?case using r_put_notify(1) by (auto simp: sq_abs_def fun_eq_iff)
next
  case (r_take_notify s t x w)
  then obtain y where "sq_pc s w = PutWait y" by (auto simp: sq_waits_def is_put_wait_iff)
  then show ?case using r_take_notify(1) by (auto simp: sq_abs_def fun_eq_iff)
qed (auto simp: sq_abs_def fun_eq_iff)

interpretation sqr: simulation "sq_init m" sq_step bq_init "bq_step (Some m)" sq_abs
proof unfold_locales
  fix s s' :: "'a syncqueue"
  show "sq_init m s \<Longrightarrow> bq_init (sq_abs s)"
    by (simp add: sq_init_def bq_init_def sq_abs_def SyncQueue_new_def fun_eq_iff)
  assume r: "reachable (sq_init m) sq_step s" and "sq_step s s'"
  then show "sq_abs s' = sq_abs s \<or> bq_step (Some m) (sq_abs s) (sq_abs s')"
    using sqf.within_bound [OF r] sq_maxSize_reach [OF r] by (intro sq_abs_rule sq_step_rule sq_reach_waits [OF r]) simp_all
qed

lemma ss_abs_put:
  assumes "ss_Put_step t act s = Some s'" "ss_inv s"
  shows "ss_abs s' = ss_abs s \<or> bq_step None (ss_abs s) (ss_abs s')"
proof -
  have w: "w \<in> ss_notEmpty s \<Longrightarrow> ss_pc s w = STakeWait" for w using assms(2) by (simp add: ss_inv_def)
  show ?thesis
  proof (cases "ss_pc s t")
    case SsIdle
    then obtain x where "s' = ss_goto t (SPutEntry x) s" using assms(1) by (auto simp: ss_Put_step_def split: ss_act.splits)
    then show ?thesis using b_call_put [of "ss_abs s" t None x] SsIdle by (simp add: ss_abs_def comp_upd ss_goto_def)
  next
    case (SPutPush x)
    then show ?thesis using assms(1) b_put [of "ss_abs s" t x None]
      by (auto simp: ss_abs_def comp_upd ss_goto_def ss_Put_step_def has_room_def split: ss_act.splits)
  next
    case SPutExit
    then show ?thesis using assms(1) b_return [of "ss_abs s" t _ None]
      by (auto simp: ss_abs_def comp_upd ss_goto_def ss_Put_step_def split: ss_act.splits)
  qed (use assms(1) w in \<open>auto simp: ss_Put_step_def ss_acquire_def ss_goto_def ss_abs_def fun_eq_iff
      split: ss_act.splits option.splits if_splits\<close>)
qed

lemma ss_abs_take:
  assumes "ss_Take_step t act s = Some s'"
  shows "ss_abs s' = ss_abs s \<or> bq_step None (ss_abs s) (ss_abs s')"
proof (cases "ss_pc s t")
  case SsIdle
  then show ?thesis using assms b_call_take [of "ss_abs s" t None]
    by (auto simp: ss_abs_def comp_upd ss_goto_def ss_Take_step_def split: ss_act.splits)
next
  case STakeTest
  show ?thesis
  proof (cases "ss_queue s")
    case Nil
    then show ?thesis using assms STakeTest by (auto simp: ss_Take_step_def ss_goto_def ss_abs_def fun_eq_iff split: ss_act.splits)
  next
    case (Cons x q)
    then show ?thesis using assms STakeTest b_take [of "ss_abs s" t x q None]
      by (auto simp: ss_Take_step_def ss_goto_def ss_abs_def comp_upd split: ss_act.splits)
  qed
next
  case (STakeExit x)
  then show ?thesis using assms b_return [of "ss_abs s" t x None]
    by (auto simp: ss_abs_def comp_upd ss_goto_def ss_Take_step_def split: ss_act.splits)
qed (use assms in \<open>auto simp: ss_Take_step_def ss_acquire_def ss_goto_def ss_abs_def fun_eq_iff
    split: ss_act.splits if_splits\<close>)

interpretation ssr: simulation ss_init ss_step bq_init "bq_step None" ss_abs
proof unfold_locales
  fix s s' :: "'a simplequeue"
  show "ss_init s \<Longrightarrow> bq_init (ss_abs s)"
    by (simp add: ss_init_def bq_init_def ss_abs_def SimpleSyncQueue_new_def fun_eq_iff)
  assume "reachable ss_init ss_step s" "ss_step s s'"
  then show "ss_abs s' = ss_abs s \<or> bq_step None (ss_abs s) (ss_abs s')"
    by (elim ss_exec_cases) (rule ss_abs_put ss_abs_take; simp add: ss_reach_inv)+
qed

text \<open>
  C10. Both queues implement the atomic queue, for every interleaving of any number of threads: each of their
  steps is a call, the whole effect of one \<open>Put\<close> on a queue with room or of one \<open>Take\<close> on a queue
  with elements, a return, or invisible. So every call takes effect at one moment between its
  beginning and its end, and \<open>Take\<close> returns what it then removed.
\<close>

theorem blocking_queues_refine:
  assumes "reachable (sq_init m) sq_step s" "reachable ss_init ss_step u"
  shows "reachable bq_init (bq_step (Some m)) (sq_abs s) \<and> reachable bq_init (bq_step None) (ss_abs u) \<and>
    (\<forall>s'. sq_step s s' \<longrightarrow> sq_abs s' = sq_abs s \<or> bq_step (Some m) (sq_abs s) (sq_abs s')) \<and>
    (\<forall>u'. ss_step u u' \<longrightarrow> ss_abs u' = ss_abs u \<or> bq_step None (ss_abs u) (ss_abs u'))"
  using sqr.simulated [OF assms(1)] ssr.simulated [OF assms(2)] sqr.sim_step [OF assms(1)] ssr.sim_step [OF assms(2)]
  by blast

theorem blocking_queues_refine_witness:
  "reachable bq_init (bq_step (Some 1)) (sq_abs sample_queue) \<and> reachable bq_init (bq_step None) (ss_abs sample_simple) \<and>
   bq_queue (ss_abs sample_simple) = [7] \<and> bq_calls (ss_abs sample_simple) 1 = BPutDone"
  using blocking_queues_refine [OF sample_reachable sample_simple_reachable]
  by (simp add: ss_abs_def sample_simple_def)

section \<open>Thread pool\<close>

record apool =
  ap_pending :: "task list"
  ap_running :: "task multiset"
  ap_done :: "(task \<times> bool) list"

text \<open>A finished task was executed, unless it has a time of expiry.\<close>

inductive ap_step :: "apool \<Rightarrow> apool \<Rightarrow> bool" where
  a_submit: "ap_step a (a\<lparr>ap_pending := ap_pending a @ [k]\<rparr>)"
| a_begin: "ap_pending a = k # ks \<Longrightarrow> ap_step a (a\<lparr>ap_pending := ks, ap_running := add_mset k (ap_running a)\<rparr>)"
| a_finish: "ap_running a = add_mset k ks \<Longrightarrow> rn \<or> tk_expire_time k \<noteq> 0 \<Longrightarrow>
    ap_step a (a\<lparr>ap_running := ks, ap_done := ap_done a @ [(k, rn)]\<rparr>)"

definition ap_init :: "apool \<Rightarrow> bool" where
  "ap_init a \<longleftrightarrow> a = \<lparr>ap_pending = [], ap_running = {#}, ap_done = []\<rparr>"

definition tp_abs :: "pool \<Rightarrow> apool" where
  "tp_abs s = \<lparr>ap_pending = tp_tasks s, ap_running = in_hand (tp_pc s), ap_done = tp_done s\<rparr>"

lemma client_abs:
  assumes "client_step t act s = Some s'" "few PIdle (tp_pc s)"
  shows "tp_abs s' = tp_abs s \<or> (\<exists>k. tp_abs s' = (tp_abs s)\<lparr>ap_pending := tp_tasks s @ [k]\<rparr>)"
  using assms
  by (auto simp: client_step_def tp_abs_def tp_defs in_hand_simps few_start in_hand_start
      split: tp_pc.splits tp_act.splits option.splits if_splits list.splits)

lemma get_abs:
  assumes "few PIdle (tp_pc s)" "holds (tp_pc s t) = None"
  shows "tp_abs (get t s) = tp_abs s \<or> ap_step (tp_abs s) (tp_abs (get t s))"
proof (cases "tp_terminate s \<or> tp_tasks s = []")
  case True
  then show ?thesis using assms by (auto simp: get_def cond_wait_def tp_goto_def tp_abs_def in_hand_upd)
next
  case False
  then obtain k ks where k: "tp_tasks s = k # ks" by (cases "tp_tasks s") auto
  have "in_hand ((tp_pc s)(t := WGot k)) = add_mset k (in_hand (tp_pc s))" using assms by (intro in_hand_upd_Some) simp_all
  then show ?thesis using False k a_begin [of "tp_abs s" k ks] by (simp add: get_def tp_goto_def tp_abs_def)
qed

lemma tp_abs_notify: "tp_abs (notify_all s) = tp_abs s"
  by (simp add: tp_abs_def notify_all_def in_hand_notify)

lemma run_abs:
  assumes st: "run_step t act s = Some s'" and few: "few PIdle (tp_pc s)"
  shows "tp_abs s' = tp_abs s \<or> ap_step (tp_abs s) (tp_abs s')"
  using st
proof (cases rule: run_stepE)
  case get
  then show ?thesis using get_abs [OF few, of t] by auto
next
  case (run k now)
  let ?rn = "\<not> (tk_expire_time k \<noteq> 0 \<and> tk_expire_time k < now)"
  have "add_mset k (in_hand ((tp_pc s)(t := WDone))) = in_hand (tp_pc s)" using run few by (intro in_hand_upd_None) simp_all
  then show ?thesis using run a_finish [of "tp_abs s" k "in_hand ((tp_pc s)(t := WDone))" ?rn]
    by (simp add: run_task_def tp_goto_def tp_abs_def)
next
  case check
  then have "tp_abs (tp_goto t WTop s) = tp_abs s" using few by (simp add: tp_abs_def tp_goto_def in_hand_upd)
  then show ?thesis using check by (simp add: finish_task_def Let_def tp_abs_notify)
qed (use few in \<open>auto simp: tp_abs_def tp_goto_def in_hand_upd\<close>)

interpretation tpr: simulation tp_init tp_step ap_init ap_step tp_abs
proof unfold_locales
  fix s s' :: pool
  show "tp_init s \<Longrightarrow> ap_init (tp_abs s)"
    by (simp add: tp_init_def ap_init_def tp_abs_def demo_threadpool_def in_hand_def)
  assume r: "reachable tp_init tp_step s" and st: "tp_step s s'"
  have few: "few PIdle (tp_pc s)" using tp_reach_task [OF r] by (simp add: task_inv_def)
  have c: "tp_abs s' = tp_abs s \<or> ap_step (tp_abs s) (tp_abs s')" if "client_step t act s = Some s'" for t act
    using client_abs [OF that few] a_submit [of "tp_abs s"] by (auto simp: tp_abs_def)
  show "tp_abs s' = tp_abs s \<or> ap_step (tp_abs s) (tp_abs s')"
    using st c run_abs [OF _ few] by (elim tp_stepE) blast+
qed

text \<open>
  C14. The pool implements its specification, for every interleaving of clients and workers, \<open>stop\<close> and restart
  included: each step submits one task, begins the task that has waited longest, finishes one that
  was begun, or changes nothing the specification speaks of; a task without time of expiry is
  executed and not skipped.
\<close>

theorem pool_refines:
  assumes "reachable tp_init tp_step s"
  shows "reachable ap_init ap_step (tp_abs s) \<and>
    (\<forall>s'. tp_step s s' \<longrightarrow> tp_abs s' = tp_abs s \<or> ap_step (tp_abs s) (tp_abs s'))"
  using tpr.simulated [OF assms] tpr.sim_step [OF assms] by blast

definition busy_pool :: pool where
  "busy_pool = the (tp_run busy_schedule demo_threadpool)"

theorem pool_refines_witness:
  "reachable ap_init ap_step (tp_abs busy_pool) \<and> ap_pending (tp_abs busy_pool) = [] \<and> tp_pc busy_pool 10 = WRun (a_task 1)"
proof -
  have "\<exists>s. tp_run busy_schedule demo_threadpool = Some s \<and> tp_tasks s = [] \<and> tp_pc s 10 = WRun (a_task 1)"
    by (simp add: busy_schedule_def tp_eval demo_threadpool_def)
  then obtain s where s: "tp_run busy_schedule demo_threadpool = Some s" "tp_tasks s = []" "tp_pc s 10 = WRun (a_task 1)" by blast
  have "reachable tp_init tp_step busy_pool" using tp_run_reachable [OF s(1) tp_new_reachable] s(1) by (simp add: busy_pool_def)
  from pool_refines [OF this] show ?thesis using s by (simp add: busy_pool_def tp_abs_def)
qed

end
