(* ===== verification/PoolTest.thy ===== *)
theory PoolTest
  imports ThreadPool
begin

text \<open>
  The program \<open>src/thread_pool/test_threadpool.cpp\<close>: its main thread (identifier 0) configures and
  starts a pool of one worker, submits tasks, reads their futures, waits and stops the pool. A
  program of the main thread is the list of the calls it still has to make; the calls themselves
  are the client steps of \<open>ThreadPool\<close>, interleaved in every way with the steps of the worker. The
  body of a task is the line it prints and the value it returns.
\<close>

section \<open>The functions the tasks call\<close>

datatype pt_line =
    Func0Line
  | Func1Line int
  | Func2Line int string
  | TestLine string int

datatype pt_value = VVoid | VInt int | VStr string

type_synonym pt_body = "pt_line \<times> pt_value"

definition func0 :: pt_body where
  "func0 = (Func0Line, VVoid)"

definition func1 :: "int \<Rightarrow> pt_body" where
  "func1 a = (Func1Line a, VVoid)"

definition func2 :: "int \<Rightarrow> string \<Rightarrow> pt_body" where
  "func2 a b = (Func2Line a b, VVoid)"

definition func1_future :: "int \<Rightarrow> pt_body" where
  "func1_future a = (Func1Line a, VInt a)"

text \<open>Its line starts with the text of \<open>func1\<close> and shows both arguments.\<close>

definition func2_future :: "int \<Rightarrow> string \<Rightarrow> pt_body" where
  "func2_future a b = (Func2Line a b, VStr b)"

record Test = t_name :: string

definition Test_test :: "Test \<Rightarrow> int \<Rightarrow> pt_body" where
  "Test_test t i = (TestLine (t_name t) i, VInt i)"

definition setName :: "string \<Rightarrow> Test \<Rightarrow> Test" where
  "setName name t = t\<lparr>t_name := name\<rparr>"

section \<open>Programs of the main thread\<close>

datatype pt_op =
    OpInitial nat
  | OpStart
  | OpExec int pt_body      \<comment> \<open>\<open>exec\<close> with its timeout, 0 for the overload without one\<close>
  | OpWaitAll
  | OpGet nat               \<comment> \<open>\<open>get\<close> on the future of the task with this number\<close>
  | OpStop                  \<comment> \<open>\<open>stop\<close>, also from the destructor\<close>

datatype pt_print = ByTask pt_line | Result nat pt_value

record pt_state =
  pt_pool :: pool
  pt_todo :: "pt_op list"
  pt_bodies :: "pt_body list"    \<comment> \<open>the tasks submitted so far, by number\<close>
  pt_out :: "pt_print list"
  pt_broken :: bool              \<comment> \<open>a \<open>get\<close> has thrown \<open>broken_promise\<close>\<close>

text \<open>What the system chooses for a step of the main thread.\<close>

datatype pt_choice =
    ChNone
  | ChThreads "tid list"
  | ChNotify int "tid option"
  | ChPool tp_act

definition pt_call :: "tp_act \<Rightarrow> pt_op list \<Rightarrow> pt_state \<Rightarrow> pt_state option" where
  "pt_call a r s = map_option (\<lambda>q. s\<lparr>pt_pool := q, pt_todo := r\<rparr>) (client_step 0 a (pt_pool s))"

text \<open>
  \<open>get\<close> blocks until the task was handled. A task that the worker skipped because it had expired is
  destroyed without having run, which breaks its promise: the exception ends the program.
\<close>

definition pt_get :: "nat \<Rightarrow> pt_op list \<Rightarrow> pt_state \<Rightarrow> pt_state option" where
  "pt_get i r s =
     (case List.find (\<lambda>(k, rn). tk_id k = i) (tp_done (pt_pool s)) of
        None \<Rightarrow> None
      | Some (k, rn) \<Rightarrow>
          Some (if rn then s\<lparr>pt_todo := r, pt_out := pt_out s @ [Result i (snd (pt_bodies s ! i))]\<rparr>
                else s\<lparr>pt_todo := [], pt_broken := True\<rparr>))"

definition pt_main :: "pt_choice \<Rightarrow> pt_state \<Rightarrow> pt_state option" where
  "pt_main ch s =
     (if tp_pc (pt_pool s) 0 \<noteq> PIdle then
        (case ch of ChPool a \<Rightarrow> pt_call a (pt_todo s) s | _ \<Rightarrow> None)
      else
        (case (pt_todo s, ch) of
           (OpInitial n # r, ChNone) \<Rightarrow> pt_call (AInitial n) r s
         | (OpStart # r, ChThreads ws) \<Rightarrow> pt_call (AStart ws) r s
         | (OpExec timeout_ms b # r, ChNotify now w) \<Rightarrow>
             map_option (\<lambda>s'. s'\<lparr>pt_bodies := pt_bodies s @ [b]\<rparr>)
               (pt_call (AExec (make_task (length (pt_bodies s)) timeout_ms now) w) r s)
         | (OpWaitAll # r, ChNone) \<Rightarrow> pt_call (AWaitAll (-1)) r s
         | (OpGet i # r, ChNone) \<Rightarrow> pt_get i r s
         | (OpStop # r, ChNone) \<Rightarrow> pt_call AStop r s
         | _ \<Rightarrow> None))"

text \<open>A step of a worker; when it runs a task, the body prints its line.\<close>

definition line_of :: "pt_body list \<Rightarrow> task \<times> bool \<Rightarrow> pt_line list" where
  "line_of bs x = (if snd x then [fst (bs ! tk_id (fst x))] else [])"

definition pt_worker :: "tid \<Rightarrow> tp_act \<Rightarrow> pt_state \<Rightarrow> pt_state option" where
  "pt_worker t act s =
     map_option (\<lambda>q. s\<lparr>pt_pool := q, pt_out := pt_out s @ map ByTask (concat (map (line_of (pt_bodies s))
         (drop (length (tp_done (pt_pool s))) (tp_done q))))\<rparr>) (run_step t act (pt_pool s))"

definition pt_step :: "pt_state \<Rightarrow> pt_state \<Rightarrow> bool" where
  "pt_step s s' \<longleftrightarrow> (\<exists>ch. pt_main ch s = Some s') \<or> (\<exists>t act. pt_worker t act s = Some s')"

text \<open>The steps that are not spurious wake-ups.\<close>

definition pt_progress :: "pt_state \<Rightarrow> pt_state \<Rightarrow> bool" where
  "pt_progress s s' \<longleftrightarrow> (\<exists>ch. ch \<noteq> ChPool ASpurious \<and> pt_main ch s = Some s') \<or>
     (\<exists>t act. act \<noteq> ASpurious \<and> pt_worker t act s = Some s')"

definition pt_new :: "pt_op list \<Rightarrow> pt_state" where
  "pt_new prog = \<lparr>pt_pool = demo_threadpool, pt_todo = prog, pt_bodies = [], pt_out = [], pt_broken = False\<rparr>"

definition pt_init :: "pt_op list \<Rightarrow> pt_state \<Rightarrow> bool" where
  "pt_init prog s \<longleftrightarrow> s = pt_new prog"

text \<open>The three tests; the last \<open>stop\<close> of each is the one of the destructor.\<close>

definition test1 :: "pt_op list" where
  "test1 = [OpInitial 1, OpStart, OpExec 1000 func0, OpExec 0 (func1 10), OpExec 0 (func2 20 ''darren''),
     OpWaitAll, OpStop, OpStop]"

definition test2 :: "pt_op list" where
  "test2 = [OpInitial 1, OpStart, OpExec 0 (func1_future 10), OpExec 0 (func2_future 20 ''darren''),
     OpGet 0, OpGet 1, OpWaitAll, OpStop, OpStop]"

definition test3 :: "pt_op list" where
  "test3 =
     (let t1 = setName ''Test1'' \<lparr>t_name = ''''\<rparr>; t2 = setName ''Test2'' \<lparr>t_name = ''''\<rparr> in
      [OpInitial 1, OpStart, OpExec 0 (Test_test t1 10), OpExec 0 (Test_test t2 20),
       OpWaitAll, OpGet 0, OpGet 1, OpStop])"

text \<open>
  Their common form: \<open>es\<close> are the submissions with their timeouts, \<open>mid\<close> the calls between the last
  submission and the first \<open>stop\<close>, among them \<open>wait_for_all_done\<close> and futures of tasks that do not
  expire.
\<close>

definition pool_program :: "(int \<times> pt_body) list \<Rightarrow> pt_op list \<Rightarrow> nat \<Rightarrow> pt_op list" where
  "pool_program es mid n = OpInitial 1 # OpStart # map (\<lambda>(t, b). OpExec t b) es @ mid @ replicate (Suc n) OpStop"

fun mid_op :: "(int \<times> pt_body) list \<Rightarrow> pt_op \<Rightarrow> bool" where
  "mid_op es OpWaitAll = True"
| "mid_op es (OpGet i) = (i < length es \<and> fst (es ! i) = 0)"
| "mid_op es _ = False"

definition wf_program :: "(int \<times> pt_body) list \<Rightarrow> pt_op list \<Rightarrow> bool" where
  "wf_program es mid \<longleftrightarrow> OpWaitAll \<in> set mid \<and> list_all (mid_op es) mid"

lemma tests_are_programs:
  "test1 = pool_program [(1000, func0), (0, func1 10), (0, func2 20 ''darren'')] [OpWaitAll] 1"
  "test2 = pool_program [(0, func1_future 10), (0, func2_future 20 ''darren'')] [OpGet 0, OpGet 1, OpWaitAll] 1"
  "test3 = pool_program [(0, Test_test \<lparr>t_name = ''Test1''\<rparr> 10), (0, Test_test \<lparr>t_name = ''Test2''\<rparr> 20)]
     [OpWaitAll, OpGet 0, OpGet 1] 0"
  by (simp_all add: test1_def test2_def test3_def pool_program_def setName_def numeral_2_eq_2)

section \<open>The program and the pool\<close>

text \<open>What a program does to the pool are steps of the pool, so what holds of every pool holds here.\<close>

interpretation ptr: simulation "pt_init prog" pt_step tp_init tp_step pt_pool
proof unfold_locales
  fix s s' :: pt_state
  show "pt_init prog s \<Longrightarrow> tp_init (pt_pool s)" by (simp add: pt_init_def pt_new_def tp_init_def)
  have c: "tp_step (pt_pool s) (pt_pool s')" if "pt_call a r s = Some s'" for a r s'
    using that by (auto simp: pt_call_def tp_step_def) blast
  assume "pt_step s s'"
  then consider ch where "pt_main ch s = Some s'" | t act where "pt_worker t act s = Some s'" by (auto simp: pt_step_def)
  then show "pt_pool s' = pt_pool s \<or> tp_step (pt_pool s) (pt_pool s')"
  proof cases
    case 1
    then show ?thesis
      by (auto simp: pt_main_def pt_get_def dest!: c split: if_splits list.splits pt_op.splits pt_choice.splits option.splits)
  next
    case (2 t act)
    then show ?thesis by (auto simp: pt_worker_def tp_step_def)
  qed
qed

section \<open>Invariant\<close>

fun hand :: "tp_pc \<Rightarrow> task list" where
  "hand (WGot k) = [k]" | "hand (WRun k) = [k]" | "hand _ = []"

fun busy :: "tp_pc \<Rightarrow> bool" where
  "busy (WGot _) = True" | "busy (WRun _) = True" | "busy WDone = True" | "busy WCheck = True" | "busy _ = False"

fun counted :: "tp_pc \<Rightarrow> int" where
  "counted (WRun _) = 1" | "counted WDone = 1" | "counted _ = 0"

fun task_lines :: "pt_print list \<Rightarrow> pt_line list" where
  "task_lines [] = []"
| "task_lines (ByTask l # ps) = l # task_lines ps"
| "task_lines (Result i v # ps) = task_lines ps"

fun results :: "pt_print list \<Rightarrow> (nat \<times> pt_value) list" where
  "results [] = []"
| "results (ByTask l # ps) = results ps"
| "results (Result i v # ps) = (i, v) # results ps"

fun gets :: "(int \<times> pt_body) list \<Rightarrow> pt_op list \<Rightarrow> (nat \<times> pt_value) list" where
  "gets es [] = []"
| "gets es (OpGet i # ops) = (i, snd (snd (es ! i))) # gets es ops"
| "gets es (_ # ops) = gets es ops"

lemma task_lines_append [simp]: "task_lines (xs @ ys) = task_lines xs @ task_lines ys"
  by (induction xs rule: task_lines.induct) auto

lemma results_append [simp]: "results (xs @ ys) = results xs @ results ys"
  by (induction xs rule: results.induct) auto

lemma lines_by_task [simp]: "task_lines (map ByTask ls) = ls" "results (map ByTask ls) = []"
  by (induction ls) auto

text \<open>What holds of the logs in every phase, \<open>w\<close> being the worker.\<close>

definition pt_logs :: "(int \<times> pt_body) list \<Rightarrow> tid \<Rightarrow> pt_state \<Rightarrow> bool" where
  "pt_logs es w s \<longleftrightarrow> (let p = pt_pool s; m = length (pt_bodies s) in
     m \<le> length es \<and> pt_bodies s = map snd (take m es) \<and>
     map fst (tp_done p) @ hand (tp_pc p w) @ tp_tasks p = tp_put_log p \<and>
     map tk_id (tp_put_log p) = [0..<m] \<and>
     list_all (\<lambda>k. fst (es ! tk_id k) = 0 \<longrightarrow> tk_expire_time k = 0) (tp_put_log p) \<and>
     list_all (\<lambda>(k, rn). tk_expire_time k = 0 \<longrightarrow> rn) (tp_done p) \<and>
     task_lines (pt_out s) = concat (map (line_of (map snd es)) (tp_done p)))"

definition pt_threads :: "tid \<Rightarrow> pool \<Rightarrow> bool" where
  "pt_threads w p \<longleftrightarrow> w \<noteq> 0 \<and> (\<forall>t. t \<noteq> 0 \<longrightarrow> t \<noteq> w \<longrightarrow> tp_pc p t = PIdle) \<and>
     (is_worker (tp_pc p w) \<or> tp_pc p w = WExited) \<and> \<not> is_worker (tp_pc p 0) \<and>
     tp_cond p = (if tp_pc p w = WWait then {w} else {}) \<union> (if tp_pc p 0 = DWait (-1) then {0} else {}) \<and>
     tp_running p = counted (tp_pc p w) \<and>
     (tp_pc p w = WWait \<longrightarrow> tp_tasks p = [] \<and> \<not> tp_terminate p)"

fun client_phase :: "tp_pc \<Rightarrow> bool" where
  "client_phase PIdle = True" | "client_phase (DWait n) = (n = -1)" | "client_phase (DWake n) = (n = -1)"
| "client_phase _ = False"

definition phase_submit :: "(int \<times> pt_body) list \<Rightarrow> pt_op list \<Rightarrow> nat \<Rightarrow> tid \<Rightarrow> pt_state \<Rightarrow> bool" where
  "phase_submit es mid n w s \<longleftrightarrow> (let p = pt_pool s in
     \<not> tp_terminate p \<and> tp_workers p = [w] \<and> tp_pc p w \<noteq> WExited \<and> tp_pc p 0 = PIdle \<and>
     pt_todo s = map (\<lambda>(t, b). OpExec t b) (drop (length (pt_bodies s)) es) @ mid @ replicate (Suc n) OpStop \<and>
     length (pt_bodies s) < length es \<and> results (pt_out s) = [])"

definition phase_wait :: "(int \<times> pt_body) list \<Rightarrow> pt_op list \<Rightarrow> nat \<Rightarrow> tid \<Rightarrow> pt_op list \<Rightarrow> pt_state \<Rightarrow> bool" where
  "phase_wait es mid n w r s \<longleftrightarrow> (let p = pt_pool s in
     \<not> tp_terminate p \<and> tp_workers p = [w] \<and> tp_pc p w \<noteq> WExited \<and> client_phase (tp_pc p 0) \<and>
     pt_todo s = r @ replicate (Suc n) OpStop \<and> list_all (mid_op es) r \<and> length (pt_bodies s) = length es \<and>
     (tp_pc p 0 = PIdle \<longrightarrow> OpWaitAll \<notin> set r \<longrightarrow> tp_tasks p = []) \<and>
     (tp_pc p 0 = DWait (-1) \<longrightarrow> tp_tasks p = [] \<longrightarrow> busy (tp_pc p w)) \<and>
     results (pt_out s) @ gets es r = gets es mid)"

definition phase_stop :: "(int \<times> pt_body) list \<Rightarrow> pt_op list \<Rightarrow> nat \<Rightarrow> tid \<Rightarrow> nat \<Rightarrow> pt_state \<Rightarrow> bool" where
  "phase_stop es mid n w j s \<longleftrightarrow> (let p = pt_pool s in
     tp_terminate p \<and> tp_tasks p = [] \<and> length (pt_bodies s) = length es \<and> pt_todo s = replicate j OpStop \<and>
     results (pt_out s) = gets es mid \<and>
     (tp_pc p 0 = SJoin [w] \<and> tp_workers p = [w] \<or>
      tp_pc p w = WExited \<and> tp_pc p 0 = SJoin [] \<and> (tp_workers p = [w] \<or> tp_workers p = []) \<or>
      tp_pc p w = WExited \<and> tp_pc p 0 = PIdle \<and> tp_workers p = []))"

definition pt_phase :: "(int \<times> pt_body) list \<Rightarrow> pt_op list \<Rightarrow> nat \<Rightarrow> tid \<Rightarrow> pt_state \<Rightarrow> bool" where
  "pt_phase es mid n w s \<longleftrightarrow>
     phase_submit es mid n w s \<or> (\<exists>r. phase_wait es mid n w r s) \<or> (\<exists>j. phase_stop es mid n w j s)"

definition pt_running :: "(int \<times> pt_body) list \<Rightarrow> pt_op list \<Rightarrow> nat \<Rightarrow> tid \<Rightarrow> pt_state \<Rightarrow> bool" where
  "pt_running es mid n w s \<longleftrightarrow> \<not> pt_broken s \<and> pt_threads w (pt_pool s) \<and> pt_logs es w s \<and> pt_phase es mid n w s"

text \<open>The first two calls: the pool is configured and its worker \<open>w\<close> started.\<close>

definition pt_configured :: "pt_op list \<Rightarrow> pt_state" where
  "pt_configured prog = (pt_new (tl prog))\<lparr>pt_pool := demo_threadpool\<lparr>tp_size := 1, tp_returns := [(0, RetBool True)]\<rparr>\<rparr>"

definition pt_started :: "pt_op list \<Rightarrow> tid \<Rightarrow> pt_state" where
  "pt_started prog w = (pt_new (tl (tl prog)))\<lparr>pt_pool := demo_threadpool\<lparr>tp_size := 1,
     tp_returns := [(0, RetBool True), (0, RetBool False)], tp_workers := [w], tp_pc := (\<lambda>_. PIdle)(w := WTop)\<rparr>\<rparr>"

definition pt_setup :: "(int \<times> pt_body) list \<Rightarrow> pt_op list \<Rightarrow> nat \<Rightarrow> pt_state \<Rightarrow> bool" where
  "pt_setup es mid n s \<longleftrightarrow> s = pt_new (pool_program es mid n) \<or>
     s = pt_configured (pool_program es mid n)"

definition pt_inv :: "(int \<times> pt_body) list \<Rightarrow> pt_op list \<Rightarrow> nat \<Rightarrow> pt_state \<Rightarrow> bool" where
  "pt_inv es mid n s \<longleftrightarrow> pt_setup es mid n s \<or> (\<exists>w. pt_running es mid n w s)"

section \<open>Steps of the worker\<close>

lemma concat_lines:
  assumes "list_all (\<lambda>x. tk_id (fst x) < length bs) xs" "bs = map snd (take (length bs) es)" "length bs \<le> length es"
  shows "concat (map (line_of bs) xs) = concat (map (line_of (map snd es)) xs)"
proof -
  have n: "bs ! i = map snd es ! i" if "i < length bs" for i
    using arg_cong [OF assms(2), of "\<lambda>l. l ! i"] that assms(3) by simp
  have "line_of bs x = line_of (map snd es) x" if "x \<in> set xs" for x
    using that assms(1) n [of "tk_id (fst x)"] by (simp add: line_of_def list_all_iff)
  then show ?thesis by (induction xs) auto
qed

lemma run_step_pc:
  assumes "pt_threads w p" "run_step t act p = Some p'"
  shows "t = w"
  using assms by (cases "t = 0"; cases "t = w") (auto simp: pt_threads_def run_step_def split: tp_pc.splits)

lemma notify_all_threads:
  assumes "pt_threads w p"
  shows "pt_threads w (notify_all p)"
proof -
  have c: "t \<in> tp_cond p \<longleftrightarrow> t = w \<and> tp_pc p w = WWait \<or> t = 0 \<and> tp_pc p 0 = DWait (-1)" and w: "w \<noteq> 0"
    and o: "\<not> is_worker (tp_pc p 0)" for t
    using assms by (auto simp: pt_threads_def split: if_splits)
  have pcw: "tp_pc (notify_all p) w = (if tp_pc p w = WWait then WWake else tp_pc p w)"
    using w by (auto simp: notify_all_def c)
  have pc0: "tp_pc (notify_all p) 0 = (if tp_pc p 0 = DWait (-1) then DWake (-1) else tp_pc p 0)"
    using w o by (auto simp: notify_all_def c)
  have pct: "tp_pc (notify_all p) t = tp_pc p t" if "t \<noteq> 0" "t \<noteq> w" for t
    using that by (simp add: notify_all_def c)
  show ?thesis
    using assms unfolding pt_threads_def pcw pc0 by (auto simp: pct notify_all_def)
qed

lemma worker_threads:
  assumes t: "pt_threads w p" and st: "run_step w act p = Some p'"
  shows "pt_threads w p'"
  using st
proof (cases rule: run_stepE)
  case top
  then show ?thesis using t by (simp add: pt_threads_def tp_goto_def)
next
  case get
  then show ?thesis using t by (auto simp: pt_threads_def get_def cond_wait_def tp_goto_def)
next
  case spur
  then show ?thesis using t by (auto simp: pt_threads_def tp_goto_def)
next
  case (got k)
  then show ?thesis using t by (simp add: pt_threads_def tp_goto_def)
next
  case (run k now)
  then show ?thesis using t by (simp add: pt_threads_def run_task_def tp_goto_def)
next
  case fin
  then show ?thesis using t by (simp add: pt_threads_def tp_goto_def)
next
  case check
  then show ?thesis using t notify_all_threads [of w "tp_goto w WTop p"]
    by (simp add: pt_threads_def finish_task_def tp_goto_def Let_def)
qed

text \<open>What a step of the worker does to the logs: nothing, take the first task, or handle the task in hand.\<close>

lemma worker_moves:
  assumes "run_step w act p = Some p'"
  shows "tp_put_log p' = tp_put_log p \<and>
    (tp_done p' = tp_done p \<and> hand (tp_pc p' w) @ tp_tasks p' = hand (tp_pc p w) @ tp_tasks p \<or>
     (\<exists>k rn. tp_done p' = tp_done p @ [(k, rn)] \<and> hand (tp_pc p w) = [k] \<and> hand (tp_pc p' w) = [] \<and>
        tp_tasks p' = tp_tasks p \<and> (tk_expire_time k = 0 \<longrightarrow> rn)))"
  using assms
proof (cases rule: run_stepE)
  case get
  then show ?thesis by (auto simp: get_def cond_wait_def tp_goto_def)
next
  case check
  then show ?thesis by (auto simp: finish_task_def notify_all_def tp_goto_def Let_def)
next
  case (run k now)
  then show ?thesis by (auto simp: run_task_def tp_goto_def)
qed (simp_all add: tp_goto_def)

lemma pt_logs_id: "pt_logs es w s \<Longrightarrow> k \<in> set (tp_put_log (pt_pool s)) \<Longrightarrow> tk_id k < length (pt_bodies s)"
proof -
  assume l: "pt_logs es w s" and k: "k \<in> set (tp_put_log (pt_pool s))"
  have m: "map tk_id (tp_put_log (pt_pool s)) = [0..<length (pt_bodies s)]" using l by (simp add: pt_logs_def Let_def)
  have "tk_id k \<in> set (map tk_id (tp_put_log (pt_pool s)))" using k by simp
  then show "tk_id k < length (pt_bodies s)" unfolding m by simp
qed

lemma worker_logs:
  assumes l: "pt_logs es w s" and st: "pt_worker w act s = Some s'"
  shows "pt_logs es w s'"
proof -
  let ?p = "pt_pool s"
  obtain q where q: "run_step w act ?p = Some q"
    "s' = s\<lparr>pt_pool := q, pt_out := pt_out s @ map ByTask (concat (map (line_of (pt_bodies s))
         (drop (length (tp_done ?p)) (tp_done q))))\<rparr>"
    using st by (auto simp: pt_worker_def)
  note m = worker_moves [OF q(1)]
  show ?thesis
  proof (cases "tp_done q = tp_done ?p")
    case True
    then show ?thesis using l m q(2) by (auto simp: pt_logs_def Let_def)
  next
    case False
    then obtain k rn where k: "tp_done q = tp_done ?p @ [(k, rn)]" "hand (tp_pc ?p w) = [k]" "hand (tp_pc q w) = []"
      "tp_tasks q = tp_tasks ?p" "tk_expire_time k = 0 \<longrightarrow> rn" "tp_put_log q = tp_put_log ?p" using m by auto
    have "map fst (tp_done ?p) @ k # tp_tasks ?p = tp_put_log ?p" using l k(2) by (simp add: pt_logs_def Let_def)
    then have "k \<in> set (tp_put_log ?p)" by (metis in_set_conv_decomp)
    then have "tk_id k < length (pt_bodies s)" by (rule pt_logs_id [OF l])
    then have "concat (map (line_of (pt_bodies s)) [(k, rn)]) = concat (map (line_of (map snd es)) [(k, rn)])"
      using l by (intro concat_lines) (simp_all add: pt_logs_def Let_def)
    then show ?thesis using l k q(2) by (simp add: pt_logs_def Let_def)
  qed
qed

lemma worker_keeps:
  assumes "run_step w act p = Some p'"
  shows "tp_terminate p' = tp_terminate p" "tp_workers p' = tp_workers p" "tp_pc p w \<noteq> WExited"
    "tp_pc p' w = WExited \<Longrightarrow> tp_terminate p" "tp_tasks p = [] \<Longrightarrow> tp_tasks p' = []"
  using assms
  by (cases rule: run_stepE; auto simp: tp_goto_def get_def cond_wait_def run_task_def finish_task_def notify_all_def
      Let_def split: if_splits; fail)+

lemma worker_pc0:
  assumes t: "pt_threads w p" and st: "run_step w act p = Some p'"
  shows "tp_pc p' 0 = (if tp_pc p w = WCheck \<and> tp_tasks p = [] \<and> tp_pc p 0 = DWait (-1) then DWake (-1) else tp_pc p 0)"
  using st
proof (cases rule: run_stepE)
  case check
  then show ?thesis using t
    by (cases "tp_pc p 0 = DWait (-1)") (auto simp: pt_threads_def finish_task_def notify_all_def tp_goto_def Let_def)
next
  case get
  then show ?thesis using t by (auto simp: pt_threads_def get_def cond_wait_def tp_goto_def)
qed (use t in \<open>auto simp: pt_threads_def run_task_def tp_goto_def\<close>)

lemma worker_busy:
  assumes "run_step w act p = Some p'" "\<not> tp_terminate p" "tp_tasks p' = []"
    "tp_tasks p = [] \<longrightarrow> busy (tp_pc p w) \<and> tp_pc p w \<noteq> WCheck"
  shows "busy (tp_pc p' w)"
  using assms(1)
proof (cases rule: run_stepE)
  case get
  then show ?thesis using assms(2-4) by (auto simp: get_def cond_wait_def tp_goto_def split: if_splits)
next
  case check
  then show ?thesis using assms(2-4)
    by (auto simp: finish_task_def notify_all_def tp_goto_def Let_def split: if_splits)
qed (use assms(2-4) in \<open>auto simp: run_task_def tp_goto_def split: if_splits\<close>)

lemma worker_phase:
  assumes t: "pt_threads w (pt_pool s)" and ph: "pt_phase es mid n w s" and st: "pt_worker w act s = Some s'"
  shows "pt_phase es mid n w s'"
proof -
  let ?p = "pt_pool s"
  obtain q where q: "run_step w act ?p = Some q" "pt_pool s' = q" "pt_todo s' = pt_todo s" "pt_bodies s' = pt_bodies s"
    "results (pt_out s') = results (pt_out s)"
    using st by (auto simp: pt_worker_def)
  note k = worker_keeps [OF q(1)] and pc0 = worker_pc0 [OF t q(1)]
  have tl: "tp_tasks q = [] \<or> tp_tasks ?p \<noteq> []" using k(5) by blast
  from ph consider (submit) "phase_submit es mid n w s" | (wait) r where "phase_wait es mid n w r s"
    | (stop) j where "phase_stop es mid n w j s" by (auto simp: pt_phase_def)
  then show ?thesis
  proof cases
    case submit
    then have "phase_submit es mid n w s'" using q k pc0 by (auto simp: phase_submit_def Let_def)
    then show ?thesis by (simp add: pt_phase_def)
  next
    case (wait r)
    have "busy (tp_pc q w)" if "tp_pc q 0 = DWait (-1)" "tp_tasks q = []"
      using that wait pc0 worker_busy [OF q(1)] by (auto simp: phase_wait_def Let_def split: if_splits)
    then have "phase_wait es mid n w r s'" using wait q k pc0 tl
      by (auto simp: phase_wait_def Let_def split: if_splits)
    then show ?thesis by (auto simp: pt_phase_def)
  next
    case (stop j)
    then have "phase_stop es mid n w j s'" using q k pc0 tl by (auto simp: phase_stop_def Let_def)
    then show ?thesis by (auto simp: pt_phase_def)
  qed
qed

section \<open>Steps of the main thread\<close>

text \<open>\<open>exec\<close> from the main thread: the worker is woken if it sleeps.\<close>

lemma exec_pool:
  assumes t: "pt_threads w p" and idle: "tp_pc p 0 = PIdle" and st: "client_step 0 (AExec k v) p = Some q"
  shows "q = p\<lparr>tp_tasks := tp_tasks p @ [k], tp_put_log := tp_put_log p @ [k], tp_cond := {},
      tp_pc := (tp_pc p)(w := woken (tp_pc p w))\<rparr>"
proof (cases "tp_pc p w = WWait")
  case True
  then have c: "tp_cond p = {w}" using t idle by (simp add: pt_threads_def)
  then have "v = Some w" using st idle by (auto simp: client_step_def notify_one_def split: option.splits if_splits)
  then show ?thesis using st idle c True by (auto simp: client_step_def notify_one_def tp_goto_def)
next
  case False
  then have c: "tp_cond p = {}" and k: "is_worker (tp_pc p w) \<or> tp_pc p w = WExited" using t idle by (simp_all add: pt_threads_def)
  have "woken (tp_pc p w) = tp_pc p w" using k False by (cases "tp_pc p w") auto
  then show ?thesis using st idle c by (auto simp: client_step_def notify_one_def split: option.splits)
qed

lemma hand_woken [simp]: "hand (woken p) = hand p"
  by (cases p) auto

lemma woken_worker:
  "is_worker p \<or> p = WExited \<Longrightarrow> is_worker (woken p) \<or> woken p = WExited"
  "woken p = WExited \<longleftrightarrow> p = WExited" "counted (woken p) = counted p" "\<not> is_worker p \<Longrightarrow> \<not> is_worker (woken p)"
  by (cases p; simp)+

lemma exec_threads:
  assumes "pt_threads w p" "tp_pc p 0 = PIdle" "client_step 0 (AExec k v) p = Some q"
  shows "pt_threads w q"
  using assms(1,2) woken_worker [of "tp_pc p w"] unfolding exec_pool [OF assms]
  by (simp add: pt_threads_def)

lemma exec_logs:
  assumes l: "pt_logs es w s" and t: "pt_threads w (pt_pool s)" "tp_pc (pt_pool s) 0 = PIdle"
    and b: "length (pt_bodies s) < length es" "es ! length (pt_bodies s) = (ms, b)"
    and c: "client_step 0 (AExec (make_task (length (pt_bodies s)) ms now) v) (pt_pool s) = Some q"
  shows "pt_logs es w (s\<lparr>pt_pool := q, pt_todo := r, pt_bodies := pt_bodies s @ [b]\<rparr>)"
proof -
  let ?k = "make_task (length (pt_bodies s)) ms now"
  have k: "tk_id ?k = length (pt_bodies s)" "fst (es ! tk_id ?k) = 0 \<longrightarrow> tk_expire_time ?k = 0"
    using b(2) by (simp_all add: make_task_def)
  have "pt_bodies s @ [b] = map snd (take (Suc (length (pt_bodies s))) es)"
    using l b by (simp add: pt_logs_def Let_def take_Suc_conv_app_nth)
  then show ?thesis
    using l k b(1) unfolding exec_pool [OF t c] by (auto simp: pt_logs_def Let_def simp flip: append_assoc)
qed

lemma main_exec:
  assumes r: "pt_running es mid n w s" and wf: "wf_program es mid" and ph: "phase_submit es mid n w s"
    and st: "pt_main ch s = Some s'"
  shows "pt_running es mid n w s'"
proof -
  let ?m = "length (pt_bodies s)"
  have i: "tp_pc (pt_pool s) 0 = PIdle" and m: "?m < length es" using ph by (simp_all add: phase_submit_def Let_def)
  obtain ms b where e: "es ! ?m = (ms, b)" by (cases "es ! ?m")
  have d: "drop ?m es = (ms, b) # drop (Suc ?m) es" using Cons_nth_drop_Suc [OF m] e by simp
  obtain now v q where st: "client_step 0 (AExec (make_task ?m ms now) v) (pt_pool s) = Some q"
    "s' = s\<lparr>pt_pool := q, pt_todo := tl (pt_todo s), pt_bodies := pt_bodies s @ [b]\<rparr>"
    using st ph i d by (auto simp: pt_main_def phase_submit_def Let_def pt_call_def split: pt_choice.splits)
  have l: "pt_logs es w s'" unfolding st(2) using r by (intro exec_logs [OF _ _ i m e st(1)]) (simp_all add: pt_running_def)
  have t: "pt_threads w (pt_pool s)" using r by (simp add: pt_running_def)
  have q: "tp_terminate q = tp_terminate (pt_pool s)" "tp_workers q = tp_workers (pt_pool s)" "tp_pc q 0 = PIdle"
    "tp_pc q w = WExited \<longleftrightarrow> tp_pc (pt_pool s) w = WExited"
    using t i unfolding exec_pool [OF t i st(1)] by (auto simp: woken_worker pt_threads_def)
  have "pt_phase es mid n w s'"
  proof (cases "Suc ?m = length es")
    case True
    then have "phase_wait es mid n w mid s'"
      using ph q wf d st(2) by (simp add: phase_wait_def phase_submit_def Let_def wf_program_def)
    then show ?thesis by (auto simp: pt_phase_def)
  next
    case False
    then have "phase_submit es mid n w s'" using ph q d st(2) m by (simp add: phase_submit_def Let_def)
    then show ?thesis by (simp add: pt_phase_def)
  qed
  then show ?thesis using r l exec_threads [OF t i st(1)] by (simp add: pt_running_def st(2))
qed

lemma pt_logs_cong:
  assumes "pt_logs es w s" "tp_put_log q = tp_put_log (pt_pool s)" "tp_done q = tp_done (pt_pool s)"
    "tp_tasks q = tp_tasks (pt_pool s)" "hand (tp_pc q w) = hand (tp_pc (pt_pool s) w)"
  shows "pt_logs es w (s\<lparr>pt_pool := q, pt_todo := r\<rparr>)"
  using assms by (simp add: pt_logs_def Let_def)

lemma wait_pool:
  assumes t: "pt_threads w p" and c: "client_phase (tp_pc p 0)" "tp_pc p 0 \<noteq> DWait (-1)"
  shows "pt_threads w (wait_for_all_done 0 (-1) p)"
  using assms by (cases "tp_pc p 0") (auto simp: pt_threads_def wait_for_all_done_def tp_return_def cond_wait_def tp_goto_def)

lemma main_wait:
  assumes r: "pt_running es mid n w s" and ph: "phase_wait es mid n w ops s"
    and ops: "tp_pc (pt_pool s) 0 = PIdle \<and> ops = OpWaitAll # ops' \<or> tp_pc (pt_pool s) 0 = DWake (-1) \<and> ops' = ops"
  shows "pt_running es mid n w (s\<lparr>pt_pool := wait_for_all_done 0 (-1) (pt_pool s), pt_todo := ops' @ replicate (Suc n) OpStop\<rparr>)"
    (is "pt_running _ _ _ _ ?s")
proof -
  let ?p = "pt_pool s" and ?q = "wait_for_all_done 0 (-1) (pt_pool s)"
  have t: "pt_threads w ?p" "w \<noteq> 0" using r by (auto simp: pt_running_def pt_threads_def)
  have q: "tp_put_log ?q = tp_put_log ?p" "tp_done ?q = tp_done ?p" "tp_tasks ?q = tp_tasks ?p" "tp_pc ?q w = tp_pc ?p w"
    "tp_terminate ?q = tp_terminate ?p" "tp_workers ?q = tp_workers ?p"
    "tp_pc ?q 0 = (if tp_tasks ?p = [] then PIdle else DWait (-1))"
    using t(2) by (auto simp: wait_for_all_done_def tp_return_def cond_wait_def tp_goto_def)
  have "phase_wait es mid n w ops' ?s"
    using ph ops q by (auto simp: phase_wait_def Let_def)
  moreover have "pt_threads w ?q" using ops by (intro wait_pool [OF t(1)]) auto
  moreover have "pt_logs es w ?s" using r q by (intro pt_logs_cong) (simp_all add: pt_running_def)
  ultimately show ?thesis using r by (auto simp: pt_running_def pt_phase_def)
qed

lemma main_get:
  assumes r: "pt_running es mid n w s" and ph: "phase_wait es mid n w (OpGet i # ops) s"
    and st: "pt_get i (ops @ replicate (Suc n) OpStop) s = Some s'"
  shows "pt_running es mid n w s'"
proof -
  let ?p = "pt_pool s"
  have l: "pt_logs es w s" using r by (simp add: pt_running_def)
  have i: "i < length es" "fst (es ! i) = 0" "length (pt_bodies s) = length es"
    using ph by (simp_all add: phase_wait_def Let_def)
  obtain k rn where k: "List.find (\<lambda>(k, rn). tk_id k = i) (tp_done ?p) = Some (k, rn)"
    using st by (auto simp: pt_get_def split: option.splits)
  then have kd: "(k, rn) \<in> set (tp_done ?p)" "tk_id k = i" by (auto simp: find_Some_iff in_set_conv_nth)
  have "map fst (tp_done ?p) @ hand (tp_pc ?p w) @ tp_tasks ?p = tp_put_log ?p" using l by (simp add: pt_logs_def Let_def)
  then have "k \<in> set (tp_put_log ?p)" using kd(1) by (metis UnI1 fst_conv image_eqI list.set_map set_append)
  then have "rn" using l kd i(2) by (auto simp: pt_logs_def Let_def list_all_iff)
  moreover have "pt_bodies s ! i = snd (es ! i)" using l i by (simp add: pt_logs_def Let_def)
  ultimately have s': "s' = s\<lparr>pt_todo := ops @ replicate (Suc n) OpStop, pt_out := pt_out s @ [Result i (snd (snd (es ! i)))]\<rparr>"
    using st k by (simp add: pt_get_def)
  have "phase_wait es mid n w ops s'" using ph by (simp add: phase_wait_def Let_def s')
  moreover have "pt_logs es w s'" using l by (simp add: pt_logs_def Let_def s')
  ultimately show ?thesis using r by (auto simp: pt_running_def pt_phase_def s')
qed

lemma stop_pool:
  assumes t: "pt_threads w p" and i: "tp_pc p 0 = PIdle"
  shows "pt_threads w (stop_begin 0 p)" "tp_pc (stop_begin 0 p) w = (if tp_pc p w = WWait then WWake else tp_pc p w)"
    "tp_pc (stop_begin 0 p) 0 = SJoin (tp_workers p)"
proof -
  have c: "x \<in> tp_cond p \<longleftrightarrow> x = w \<and> tp_pc p w = WWait" and w: "w \<noteq> 0" for x
    using t i by (auto simp: pt_threads_def)
  have pc: "tp_pc (stop_begin 0 p) = (tp_pc p)(w := if tp_pc p w = WWait then WWake else tp_pc p w, 0 := SJoin (tp_workers p))"
    using w by (auto simp: stop_begin_def notify_all_def tp_goto_def c fun_eq_iff)
  show "pt_threads w (stop_begin 0 p)"
    using t w unfolding pt_threads_def pc by (auto simp: stop_begin_def notify_all_def tp_goto_def)
  show "tp_pc (stop_begin 0 p) w = (if tp_pc p w = WWait then WWake else tp_pc p w)"
    "tp_pc (stop_begin 0 p) 0 = SJoin (tp_workers p)" using w by (simp_all add: pc)
qed

lemma stop_begin_keeps [simp]:
  "tp_put_log (stop_begin t p) = tp_put_log p" "tp_done (stop_begin t p) = tp_done p" "tp_tasks (stop_begin t p) = tp_tasks p"
  "tp_workers (stop_begin t p) = tp_workers p" "tp_terminate (stop_begin t p)"
  by (simp_all add: stop_begin_def notify_all_def tp_goto_def)

lemma main_stop:
  assumes r: "pt_running es mid n w s" and i: "tp_pc (pt_pool s) 0 = PIdle"
    and ph: "phase_wait es mid n w [] s \<and> j = n \<or> phase_stop es mid n w (Suc j) s"
  shows "pt_running es mid n w (s\<lparr>pt_pool := stop_begin 0 (pt_pool s), pt_todo := replicate j OpStop\<rparr>)"
    (is "pt_running _ _ _ _ ?s")
proof -
  have t: "pt_threads w (pt_pool s)" using r by (simp add: pt_running_def)
  note sp = stop_pool [OF t i]
  have "phase_stop es mid n w j ?s"
    using ph i sp by (auto simp: phase_stop_def phase_wait_def Let_def)
  moreover have "pt_logs es w ?s" using r sp(2) by (intro pt_logs_cong) (simp_all add: pt_running_def)
  ultimately show ?thesis using r sp(1) by (auto simp: pt_running_def pt_phase_def)
qed

lemma main_join:
  assumes r: "pt_running es mid n w s" and ph: "phase_stop es mid n w j s"
    and i: "tp_pc (pt_pool s) 0 = SJoin ws" and st: "stop_join 0 ws (pt_pool s) = Some q"
  shows "pt_running es mid n w (s\<lparr>pt_pool := q, pt_todo := pt_todo s\<rparr>)" (is "pt_running _ _ _ _ ?s")
proof -
  let ?p = "pt_pool s"
  have t: "pt_threads w ?p" "w \<noteq> 0" using r by (auto simp: pt_running_def pt_threads_def)
  have ws: "ws = [] \<or> ws = [w]" using ph i by (auto simp: phase_stop_def Let_def)
  have q: "tp_put_log q = tp_put_log ?p" "tp_done q = tp_done ?p" "tp_tasks q = tp_tasks ?p" "tp_pc q w = tp_pc ?p w"
    "tp_terminate q = tp_terminate ?p"
    using st ws t(2) by (auto simp: stop_join_def tp_return_def tp_goto_def split: if_splits)
  have "phase_stop es mid n w j ?s"
    using ph i ws st q by (auto simp: phase_stop_def Let_def stop_join_def tp_return_def tp_goto_def split: if_splits)
  moreover have "pt_threads w q"
    using t ws i st by (auto simp: pt_threads_def stop_join_def tp_return_def tp_goto_def split: if_splits)
  moreover have "pt_logs es w ?s" using r q by (intro pt_logs_cong) (simp_all add: pt_running_def)
  ultimately show ?thesis using r by (auto simp: pt_running_def pt_phase_def)
qed

lemma client_phase_cases:
  assumes "client_phase p"
  obtains "p = PIdle" | "p = DWait (-1)" | "p = DWake (-1)"
  using assms by (cases p) auto

lemma main_idle_wait:
  assumes r: "pt_running es mid n w s" and ph: "phase_wait es mid n w ops s" and st: "pt_main ch s = Some s'"
    and idle: "tp_pc (pt_pool s) 0 = PIdle"
  shows "pt_running es mid n w s'"
proof -
  have todo: "pt_todo s = ops @ replicate (Suc n) OpStop" and mid: "list_all (mid_op es) ops"
    using ph by (auto simp: phase_wait_def Let_def)
  show ?thesis
  proof (cases ops)
    case Nil
    then have "s' = s\<lparr>pt_pool := stop_begin 0 (pt_pool s), pt_todo := replicate n OpStop\<rparr>"
      using st idle todo by (auto simp: pt_main_def pt_call_def client_step_def split: pt_choice.splits)
    then show ?thesis using main_stop [OF r idle, of n] ph Nil by simp
  next
    case (Cons a ops')
    show ?thesis
    proof (cases a)
      case OpWaitAll
      then have "s' = s\<lparr>pt_pool := wait_for_all_done 0 (-1) (pt_pool s), pt_todo := ops' @ replicate (Suc n) OpStop\<rparr>"
        using st idle todo Cons by (auto simp: pt_main_def pt_call_def client_step_def split: pt_choice.splits)
      then show ?thesis using main_wait [OF r ph, of ops'] idle Cons OpWaitAll by simp
    next
      case (OpGet i)
      then have "pt_get i (ops' @ replicate (Suc n) OpStop) s = Some s'"
        using st idle todo Cons by (auto simp: pt_main_def split: pt_choice.splits)
      then show ?thesis using main_get [OF r] ph Cons OpGet by simp
    qed (use mid Cons in simp_all)
  qed
qed

lemma main_phase_wait:
  assumes r: "pt_running es mid n w s" and ph: "phase_wait es mid n w ops s" and st: "pt_main ch s = Some s'"
  shows "pt_running es mid n w s'"
proof -
  let ?p = "pt_pool s"
  have todo: "pt_todo s = ops @ replicate (Suc n) OpStop" and c: "client_phase (tp_pc ?p 0)"
    using ph by (auto simp: phase_wait_def Let_def)
  from c show ?thesis
  proof (cases rule: client_phase_cases)
    case 1
    then show ?thesis by (rule main_idle_wait [OF r ph st])
  next
    case 2
    then have s': "s' = s\<lparr>pt_pool := tp_goto 0 (DWake (-1)) (?p\<lparr>tp_cond := tp_cond ?p - {0}\<rparr>)\<rparr>" (is "_ = s\<lparr>pt_pool := ?q\<rparr>")
      using st by (auto simp: pt_main_def pt_call_def client_step_def wait_timeout_def split: pt_choice.splits tp_act.splits)
    have t: "pt_threads w ?p" "w \<noteq> 0" using r by (auto simp: pt_running_def pt_threads_def)
    have "pt_threads w ?q" using t 2 by (auto simp: pt_threads_def tp_goto_def)
    moreover have "phase_wait es mid n w ops s'" using ph 2 t(2) by (simp add: phase_wait_def Let_def s' tp_goto_def)
    moreover have "pt_logs es w s'" using r t(2) pt_logs_cong [of es w s ?q "pt_todo s"]
      by (simp add: pt_running_def s' tp_goto_def)
    ultimately show ?thesis using r by (auto simp: pt_running_def pt_phase_def s')
  next
    case 3
    then have "s' = s\<lparr>pt_pool := wait_for_all_done 0 (-1) ?p, pt_todo := ops @ replicate (Suc n) OpStop\<rparr>"
      using st todo by (auto simp: pt_main_def pt_call_def client_step_def wait_timeout_def split: pt_choice.splits tp_act.splits)
    then show ?thesis using main_wait [OF r ph, of ops] 3 by simp
  qed
qed

lemma main_phase_stop:
  assumes r: "pt_running es mid n w s" and ph: "phase_stop es mid n w j s" and st: "pt_main ch s = Some s'"
  shows "pt_running es mid n w s'"
proof (cases "tp_pc (pt_pool s) 0 = PIdle")
  case True
  then obtain j' where j: "j = Suc j'" using st ph by (cases j) (auto simp: phase_stop_def Let_def pt_main_def)
  then have "s' = s\<lparr>pt_pool := stop_begin 0 (pt_pool s), pt_todo := replicate j' OpStop\<rparr>"
    using st ph True by (auto simp: phase_stop_def Let_def pt_main_def pt_call_def client_step_def split: pt_choice.splits)
  then show ?thesis using main_stop [OF r True, of j'] ph j by simp
next
  case False
  then obtain ws where ws: "tp_pc (pt_pool s) 0 = SJoin ws" using ph by (auto simp: phase_stop_def Let_def)
  then obtain q where "stop_join 0 ws (pt_pool s) = Some q" "s' = s\<lparr>pt_pool := q, pt_todo := pt_todo s\<rparr>"
    using st by (auto simp: pt_main_def pt_call_def client_step_def split: pt_choice.splits tp_act.splits)
  then show ?thesis using main_join [OF r ph ws] by simp
qed

lemma running_step:
  assumes r: "pt_running es mid n w s" and wf: "wf_program es mid" and st: "pt_step s s'"
  shows "pt_running es mid n w s'"
proof -
  have t: "pt_threads w (pt_pool s)" and l: "pt_logs es w s" and ph: "pt_phase es mid n w s"
    using r by (simp_all add: pt_running_def)
  from st consider (main) ch where "pt_main ch s = Some s'" | (worker) u act where "pt_worker u act s = Some s'"
    by (auto simp: pt_step_def)
  then show ?thesis
  proof cases
    case main
    then show ?thesis
      using ph main_exec [OF r wf _ main] main_phase_wait [OF r _ main] main_phase_stop [OF r _ main]
      by (auto simp: pt_phase_def)
  next
    case (worker u act)
    then obtain q where q: "run_step u act (pt_pool s) = Some q" "pt_pool s' = q" "pt_broken s' = pt_broken s"
      by (auto simp: pt_worker_def)
    have u: "u = w" using run_step_pc [OF t q(1)] .
    show ?thesis
      using r worker_threads [OF t q(1) [unfolded u]] worker_logs [OF l worker [unfolded u]]
        worker_phase [OF t ph worker [unfolded u]] q by (simp add: pt_running_def)
  qed
qed

lemma setup_cases:
  assumes st: "pt_setup es mid n s" and step: "pt_step s s'"
  obtains "s = pt_new (pool_program es mid n)" "s' = pt_configured (pool_program es mid n)"
  | w where "s = pt_configured (pool_program es mid n)" "w \<noteq> 0" "s' = pt_started (pool_program es mid n) w"
proof -
  have nw: "run_step t act demo_threadpool = None"
    "run_step t act (demo_threadpool\<lparr>tp_size := 1, tp_returns := x\<rparr>) = None" for t act x
    by (simp_all add: run_step_def demo_threadpool_def)
  obtain ch where ch: "pt_main ch s = Some s'"
    using st step nw by (auto simp: pt_setup_def pt_configured_def pt_step_def pt_worker_def pt_new_def)
  from st consider (one) "s = pt_new (pool_program es mid n)" | (two) "s = pt_configured (pool_program es mid n)"
    by (auto simp: pt_setup_def)
  then show thesis
  proof cases
    case one
    then have "s' = pt_configured (pool_program es mid n)"
      using ch by (cases ch) (auto simp: pt_new_def pool_program_def pt_main_def pt_call_def client_step_def
          pt_configured_def initial_def tp_return_def tp_goto_def demo_threadpool_def fun_upd_triv)
    then show thesis using one that(1) by blast
  next
    case two
    then obtain ws q where q: "client_step 0 (AStart ws) (pt_pool s) = Some q" "s' = s\<lparr>pt_pool := q, pt_todo := tl (pt_todo s)\<rparr>"
      using ch by (cases ch) (auto simp: pt_configured_def pt_new_def pool_program_def pt_main_def pt_call_def demo_threadpool_def)
    then obtain w where w: "ws = [w]" "w \<noteq> 0" using two
      by (auto simp: client_step_def pt_configured_def demo_threadpool_def length_Suc_conv split: if_splits)
    then have "s' = pt_started (pool_program es mid n) w"
      using q two by (auto simp: pt_configured_def pt_started_def pt_new_def client_step_def start_def tp_return_def tp_goto_def
          demo_threadpool_def fun_eq_iff split: if_splits)
    then show thesis using two w(2) that(2) by blast
  qed
qed

lemma setup_step:
  assumes "pt_setup es mid n s" and wf: "wf_program es mid" and "pt_step s s'"
  shows "pt_inv es mid n s'"
  using assms(1,3)
proof (cases rule: setup_cases)
  case 1
  then show ?thesis by (simp add: pt_inv_def pt_setup_def)
next
  case (2 w)
  note e = 2(3) pt_started_def pt_new_def demo_threadpool_def
  have "pt_threads w (pt_pool s')" "pt_logs es w s'" using 2(2) by (simp_all add: pt_threads_def pt_logs_def Let_def e)
  moreover have "phase_wait es mid n w mid s'" if "es = []"
    using that wf by (simp add: phase_wait_def Let_def e wf_program_def pool_program_def 2(2))
  moreover have "phase_submit es mid n w s'" if "es \<noteq> []"
    using that by (simp add: phase_submit_def Let_def e pool_program_def 2(2))
  ultimately have "pt_running es mid n w s'" unfolding pt_running_def pt_phase_def by (auto simp: e)
  then show ?thesis by (auto simp: pt_inv_def)
qed

lemma pt_reach_inv:
  assumes "wf_program es mid" "reachable (pt_init (pool_program es mid n)) pt_step s"
  shows "pt_inv es mid n s"
  using assms(2)
proof (rule reachable_invariant)
  show "pt_inv es mid n s" if "pt_init (pool_program es mid n) s" for s
    using that by (simp add: pt_init_def pt_inv_def pt_setup_def)
  show "pt_inv es mid n s'" if "pt_inv es mid n s" "pt_step s s'" for s s'
    using that setup_step [OF _ assms(1)] running_step [OF _ assms(1)] unfolding pt_inv_def by meson
qed

section \<open>Progress\<close>

text \<open>
  A bound on the steps that remain, spurious wake-ups apart: for the calls of the main thread, the
  call it is in, the tasks in the queue and the position of the worker.
\<close>

fun op_weight :: "pt_op \<Rightarrow> nat" where
  "op_weight (OpInitial _) = 1" | "op_weight OpStart = 4" | "op_weight (OpExec _ _) = 10"
| "op_weight OpWaitAll = 1" | "op_weight (OpGet _) = 1" | "op_weight OpStop = 6"

fun main_weight :: "tp_pc \<Rightarrow> nat" where
  "main_weight (DWake _) = 1" | "main_weight (SJoin ws) = length ws + 1" | "main_weight _ = 0"

fun worker_weight :: "bool \<Rightarrow> tp_pc \<Rightarrow> nat" where
  "worker_weight e (WGot _) = 7" | "worker_weight e (WRun _) = 6" | "worker_weight e WDone = 5"
| "worker_weight e WCheck = 4" | "worker_weight e WTop = (if e then 1 else 2)"
| "worker_weight e WGet = (if e then 2 else 1)" | "worker_weight e WWake = (if e then 2 else 1)"
| "worker_weight e _ = 0"

definition pt_measure :: "pt_state \<Rightarrow> nat" where
  "pt_measure s = (let p = pt_pool s in
     sum_list (map op_weight (pt_todo s)) + main_weight (tp_pc p 0) + 7 * length (tp_tasks p) +
     sum_list (map (\<lambda>w. worker_weight (tp_terminate p) (tp_pc p w)) (tp_workers p)))"

definition pool_weight :: "tid \<Rightarrow> pool \<Rightarrow> nat" where
  "pool_weight w p = main_weight (tp_pc p 0) + 7 * length (tp_tasks p) + worker_weight (tp_terminate p) (tp_pc p w)"

lemma worker_less:
  assumes t: "pt_threads w p" and st: "run_step w act p = Some q" and a: "act \<noteq> ASpurious"
  shows "pool_weight w q < pool_weight w p"
proof -
  note pc0 = worker_pc0 [OF t st]
  have w: "w \<noteq> 0" using t by (simp add: pt_threads_def)
  from st show ?thesis
  proof (cases rule: run_stepE)
    case get
    then show ?thesis using pc0 w
      by (cases "tp_tasks p") (auto simp: pool_weight_def get_def cond_wait_def tp_goto_def)
  next
    case check
    then show ?thesis using pc0 w
      by (auto simp: pool_weight_def finish_task_def notify_all_def tp_goto_def Let_def split: if_splits)
  qed (use a pc0 w in \<open>auto simp: pool_weight_def run_task_def tp_goto_def\<close>)
qed

lemma pt_measure_running:
  assumes "pt_running es mid n w s"
  shows "pt_measure s = sum_list (map op_weight (pt_todo s)) + pool_weight w (pt_pool s)"
  using assms
  by (auto simp: pt_running_def pt_phase_def phase_submit_def phase_wait_def phase_stop_def pt_measure_def pool_weight_def Let_def)

lemma worker_weight_woken: "worker_weight e (woken p) \<le> Suc (Suc (worker_weight e p))"
  "\<not> e \<Longrightarrow> worker_weight e (woken p) \<le> Suc (worker_weight e p)" "worker_weight True p \<le> Suc (worker_weight False p)"
  by (cases p; simp)+

lemma stop_less:
  assumes t: "pt_threads w p" and i: "tp_pc p 0 = PIdle" and ws: "tp_workers p = [w] \<or> tp_workers p = []"
  shows "pool_weight w (stop_begin 0 p) < 6 + pool_weight w p"
  using stop_pool [OF t i] ws worker_weight_woken(3) [of "tp_pc p w"] i
  by (cases "tp_terminate p") (auto simp: pool_weight_def)

lemma wait_less:
  assumes "w \<noteq> 0"
  shows "tp_pc p 0 = PIdle \<Longrightarrow> pool_weight w (wait_for_all_done 0 (-1) p) = pool_weight w p"
    "tp_pc p 0 = DWake m \<Longrightarrow> pool_weight w (wait_for_all_done 0 (-1) p) < pool_weight w p"
  using assms by (auto simp: pool_weight_def wait_for_all_done_def tp_return_def cond_wait_def tp_goto_def)

lemma join_less:
  assumes "w \<noteq> 0" "tp_pc p 0 = SJoin ws" "stop_join 0 ws p = Some q"
  shows "pool_weight w q < pool_weight w p"
  using assms by (auto simp: pool_weight_def stop_join_def tp_return_def tp_goto_def split: list.splits if_splits)

lemma exec_less:
  assumes t: "pt_threads w p" and i: "tp_pc p 0 = PIdle" and st: "client_step 0 (AExec k v) p = Some q"
  shows "pool_weight w q < 10 + pool_weight w p"
  using t i worker_weight_woken(1) [of "tp_terminate p" "tp_pc p w"] unfolding exec_pool [OF t i st]
  by (auto simp: pool_weight_def pt_threads_def)

lemma running_main:
  assumes "pt_running es mid n w s"
  shows "tp_workers (pt_pool s) = [w] \<or> tp_workers (pt_pool s) = []"
    "tp_pc (pt_pool s) 0 = PIdle \<or> tp_pc (pt_pool s) 0 = DWait (-1) \<or> tp_pc (pt_pool s) 0 = DWake (-1) \<or>
      (\<exists>ws. tp_pc (pt_pool s) 0 = SJoin ws)"
    "pt_todo s = op # r \<Longrightarrow> op \<noteq> OpStart \<and> (\<forall>m. op \<noteq> OpInitial m)"
proof -
  from assms consider (submit) "phase_submit es mid n w s" | (wait) ops where "phase_wait es mid n w ops s"
    | (stop) j where "phase_stop es mid n w j s" by (auto simp: pt_running_def pt_phase_def)
  note cs = this
  show "tp_workers (pt_pool s) = [w] \<or> tp_workers (pt_pool s) = []"
    using cs by cases (auto simp: phase_submit_def phase_wait_def phase_stop_def Let_def)
  show "tp_pc (pt_pool s) 0 = PIdle \<or> tp_pc (pt_pool s) 0 = DWait (-1) \<or> tp_pc (pt_pool s) 0 = DWake (-1) \<or>
      (\<exists>ws. tp_pc (pt_pool s) 0 = SJoin ws)"
    using cs by cases (auto simp: phase_submit_def phase_wait_def phase_stop_def Let_def elim: client_phase_cases)
  show "op \<noteq> OpStart \<and> (\<forall>m. op \<noteq> OpInitial m)" if "pt_todo s = op # r"
    using cs
  proof cases
    case submit
    then have "drop (length (pt_bodies s)) es \<noteq> []" by (simp add: phase_submit_def Let_def)
    then obtain e es' where "drop (length (pt_bodies s)) es = e # es'" by (meson neq_Nil_conv)
    then show ?thesis using submit that by (cases e) (auto simp: phase_submit_def Let_def)
  next
    case (wait ops)
    then show ?thesis using that by (cases ops) (auto simp: phase_wait_def Let_def)
  next
    case (stop j)
    then show ?thesis using that by (cases j) (auto simp: phase_stop_def Let_def)
  qed
qed

lemma main_less_idle:
  assumes r: "pt_running es mid n w s" and st: "pt_main ch s = Some s'" and nb: "\<not> pt_broken s'"
    and idle: "tp_pc (pt_pool s) 0 = PIdle"
  shows "sum_list (map op_weight (pt_todo s')) + pool_weight w (pt_pool s') <
    sum_list (map op_weight (pt_todo s)) + pool_weight w (pt_pool s)"
proof -
  let ?p = "pt_pool s"
  have t: "pt_threads w ?p" and w: "w \<noteq> 0" using r by (auto simp: pt_running_def pt_threads_def)
  note m = running_main [OF r]
  obtain op ops where todo: "pt_todo s = op # ops" using st idle by (cases "pt_todo s") (auto simp: pt_main_def)
  show ?thesis
  proof (cases op)
    case (OpExec ms b)
    then obtain k v q where "client_step 0 (AExec k v) ?p = Some q" "pt_pool s' = q" "pt_todo s' = ops"
      using st todo idle by (auto simp: pt_main_def pt_call_def split: pt_choice.splits)
    then show ?thesis using exec_less [OF t idle] todo OpExec by simp
  next
    case OpWaitAll
    then have "pt_pool s' = wait_for_all_done 0 (-1) ?p" "pt_todo s' = ops"
      using st todo idle by (auto simp: pt_main_def pt_call_def client_step_def split: pt_choice.splits)
    then show ?thesis using wait_less(1) [OF w idle] todo OpWaitAll by simp
  next
    case (OpGet i)
    then show ?thesis using st todo idle nb
      by (auto simp: pt_main_def pt_get_def split: pt_choice.splits option.splits if_splits)
  next
    case OpStop
    then have "pt_pool s' = stop_begin 0 ?p" "pt_todo s' = ops"
      using st todo idle by (auto simp: pt_main_def pt_call_def client_step_def split: pt_choice.splits)
    then show ?thesis using stop_less [OF t idle m(1)] todo OpStop by simp
  qed (use m(3) [OF todo] in auto)
qed

lemma main_less_call:
  assumes r: "pt_running es mid n w s" and st: "pt_main ch s = Some s'" and ch: "ch \<noteq> ChPool ASpurious"
    and busy: "tp_pc (pt_pool s) 0 \<noteq> PIdle"
  shows "sum_list (map op_weight (pt_todo s')) + pool_weight w (pt_pool s') <
    sum_list (map op_weight (pt_todo s)) + pool_weight w (pt_pool s)"
proof -
  let ?p = "pt_pool s"
  have w: "w \<noteq> 0" using r by (auto simp: pt_running_def pt_threads_def)
  note m = running_main [OF r]
  obtain a where a: "ch = ChPool a" "a \<noteq> ASpurious" "pt_todo s' = pt_todo s" "client_step 0 a ?p = Some (pt_pool s')"
    using st ch busy by (auto simp: pt_main_def pt_call_def split: pt_choice.splits)
  from m(2) busy consider (slept) "tp_pc ?p 0 = DWait (-1)" | (woke) "tp_pc ?p 0 = DWake (-1)"
    | (join) ws where "tp_pc ?p 0 = SJoin ws" by blast
  then have "pool_weight w (pt_pool s') < pool_weight w ?p"
  proof cases
    case slept
    then show ?thesis using a by (auto simp: client_step_def wait_timeout_def split: tp_act.splits)
  next
    case woke
    then have "pt_pool s' = wait_for_all_done 0 (-1) ?p"
      using a(4) by (auto simp: client_step_def wait_timeout_def split: tp_act.splits)
    then show ?thesis using wait_less(2) [OF w woke] by simp
  next
    case (join ws)
    then have "stop_join 0 ws ?p = Some (pt_pool s')"
      using a(4) by (auto simp: client_step_def split: tp_act.splits)
    then show ?thesis by (rule join_less [OF w join])
  qed
  then show ?thesis using a(3) by simp
qed

text \<open>The worker can go on unless it sleeps or has exited.\<close>

lemma worker_enabled:
  assumes "pt_threads w (pt_pool s)" "tp_pc (pt_pool s) w \<noteq> WWait" "tp_pc (pt_pool s) w \<noteq> WExited"
  shows "\<exists>s'. pt_progress s s'"
proof -
  have "\<exists>act q. act \<noteq> ASpurious \<and> run_step w act (pt_pool s) = Some q"
    using assms by (cases "tp_pc (pt_pool s) w")
      (auto simp: pt_threads_def run_step_def intro: exI [of _ AGo] exI [of _ "ANow 0"])
  then show ?thesis by (fastforce simp: pt_progress_def pt_worker_def)
qed

lemma main_enabled: "pt_main ch s = Some s' \<Longrightarrow> ch \<noteq> ChPool ASpurious \<Longrightarrow> \<exists>s'. pt_progress s s'"
  by (auto simp: pt_progress_def)

lemma get_enabled:
  assumes l: "pt_logs es w s" and e: "hand (tp_pc (pt_pool s) w) = []" "tp_tasks (pt_pool s) = []" "i < length (pt_bodies s)"
  shows "pt_get i r s \<noteq> None"
proof -
  let ?d = "tp_done (pt_pool s)"
  have "map (tk_id \<circ> fst) ?d = [0..<length (pt_bodies s)]" using l e(1,2) by (auto simp: pt_logs_def Let_def simp flip: map_map)
  then have "i \<in> set (map (tk_id \<circ> fst) ?d)" using e(3) by simp
  then have "List.find (\<lambda>(k, rn). tk_id k = i) ?d \<noteq> None" by (auto simp: find_None_iff)
  then show ?thesis by (auto simp: pt_get_def split: option.splits)
qed

lemma wait_enabled:
  assumes r: "pt_running es mid n w s" and ph: "phase_wait es mid n w ops s" and sl: "tp_pc (pt_pool s) w = WWait"
  shows "\<exists>s'. pt_progress s s'"
proof -
  let ?p = "pt_pool s"
  have e: "tp_tasks ?p = []" and l: "pt_logs es w s" using r sl by (auto simp: pt_running_def pt_threads_def)
  have todo: "pt_todo s = ops @ replicate (Suc n) OpStop" and mid: "list_all (mid_op es) ops"
    and c: "client_phase (tp_pc ?p 0)" "tp_pc ?p 0 \<noteq> DWait (-1)" and b: "length (pt_bodies s) = length es"
    using ph sl e by (auto simp: phase_wait_def Let_def)
  from c(1) show ?thesis
  proof (cases rule: client_phase_cases)
    case 1
    have "\<exists>s'. pt_main ChNone s = Some s'"
    proof (cases ops)
      case Nil
      then show ?thesis using 1 todo by (simp add: pt_main_def pt_call_def client_step_def)
    next
      case (Cons a ops')
      then show ?thesis using 1 todo mid get_enabled [OF l _ e] sl b
        by (cases a) (auto simp: pt_main_def pt_call_def client_step_def)
    qed
    then show ?thesis by (auto intro: main_enabled)
  next
    case 3
    then have "\<exists>s'. pt_main (ChPool AGo) s = Some s'" by (simp add: pt_main_def pt_call_def client_step_def)
    then show ?thesis by (auto intro: main_enabled)
  qed (use c(2) in simp)
qed

lemma submit_enabled:
  assumes t: "pt_threads w (pt_pool s)" and submit: "phase_submit es mid n w s"
  shows "\<exists>s'. pt_progress s s'"
proof (cases "tp_pc (pt_pool s) w = WWait")
  case True
  have i: "tp_pc (pt_pool s) 0 = PIdle" using submit by (simp add: phase_submit_def Let_def)
  have c: "tp_cond (pt_pool s) = {w}" using t True i by (simp add: pt_threads_def)
  obtain ms b r where "pt_todo s = OpExec ms b # r"
    using submit by (cases "drop (length (pt_bodies s)) es") (auto simp: phase_submit_def Let_def)
  then have "\<exists>s'. pt_main (ChNotify 0 (Some w)) s = Some s'" using i c
    by (simp add: pt_main_def pt_call_def client_step_def notify_one_def)
  then show ?thesis by (auto intro: main_enabled)
next
  case False
  then show ?thesis using worker_enabled [OF t] submit by (simp add: phase_submit_def Let_def)
qed

lemma stop_enabled:
  assumes t: "pt_threads w (pt_pool s)" and stop: "phase_stop es mid n w j s"
    and nf: "\<not> (pt_todo s = [] \<and> tp_pc (pt_pool s) 0 = PIdle)"
  shows "\<exists>s'. pt_progress s s'"
proof (cases "tp_pc (pt_pool s) w = WExited")
  case True
  have "\<exists>ch s'. ch \<noteq> ChPool ASpurious \<and> pt_main ch s = Some s'"
  proof (cases "tp_pc (pt_pool s) 0 = PIdle")
    case True
    then show ?thesis using stop nf
      by (cases j) (auto simp: phase_stop_def Let_def pt_main_def pt_call_def client_step_def intro!: exI [of _ ChNone])
  next
    case False
    then show ?thesis using stop True
      by (auto simp: phase_stop_def Let_def pt_main_def pt_call_def client_step_def stop_join_def intro!: exI [of _ "ChPool AGo"])
  qed
  then show ?thesis by (auto intro: main_enabled)
next
  case False
  moreover have "tp_pc (pt_pool s) w \<noteq> WWait" using t stop by (auto simp: pt_threads_def phase_stop_def Let_def)
  ultimately show ?thesis using worker_enabled [OF t] by simp
qed

lemma running_enabled:
  assumes r: "pt_running es mid n w s" and nf: "\<not> (pt_todo s = [] \<and> tp_pc (pt_pool s) 0 = PIdle)"
  shows "\<exists>s'. pt_progress s s'"
proof -
  have t: "pt_threads w (pt_pool s)" using r by (simp add: pt_running_def)
  from r consider (submit) "phase_submit es mid n w s" | (wait) ops where "phase_wait es mid n w ops s"
    | (stop) j where "phase_stop es mid n w j s" by (auto simp: pt_running_def pt_phase_def)
  then show ?thesis
  proof cases
    case (wait ops)
    then show ?thesis using wait_enabled [OF r wait] worker_enabled [OF t] by (auto simp: phase_wait_def Let_def)
  qed (use submit_enabled [OF t] stop_enabled [OF t _ nf] in blast)+
qed

lemma setup_enabled:
  assumes "pt_setup es mid n s"
  shows "\<exists>s'. pt_progress s s'"
proof -
  have "\<exists>ch s'. ch \<noteq> ChPool ASpurious \<and> pt_main ch s = Some s'"
    using assms unfolding pt_setup_def
  proof
    assume "s = pt_new (pool_program es mid n)"
    then show ?thesis
      by (auto simp: pt_new_def pool_program_def pt_main_def pt_call_def client_step_def demo_threadpool_def intro!: exI [of _ ChNone])
  next
    assume "s = pt_configured (pool_program es mid n)"
    then show ?thesis
      by (auto simp: pt_configured_def pt_new_def pool_program_def pt_main_def pt_call_def client_step_def demo_threadpool_def intro!: exI [of _ "ChThreads [1]"])
  qed
  then show ?thesis by (auto intro: main_enabled)
qed

lemma setup_less:
  assumes "pt_setup es mid n s" "pt_step s s'"
  shows "pt_measure s' < pt_measure s"
  using assms
proof (cases rule: setup_cases)
  case 1
  then show ?thesis by (simp add: pt_measure_def pt_configured_def pt_new_def pool_program_def demo_threadpool_def)
next
  case (2 w)
  then show ?thesis
    by (simp add: pt_measure_def pt_configured_def pt_started_def pt_new_def pool_program_def demo_threadpool_def)
qed

lemma progress_step: "pt_progress s s' \<Longrightarrow> pt_step s s'"
  by (auto simp: pt_progress_def pt_step_def)

lemma progress_less:
  assumes "pt_inv es mid n s" and wf: "wf_program es mid" and p: "pt_progress s s'"
  shows "pt_measure s' < pt_measure s"
proof (cases "pt_setup es mid n s")
  case True
  then show ?thesis using p by (blast intro: setup_less progress_step)
next
  case False
  then obtain w where r: "pt_running es mid n w s" using assms(1) by (auto simp: pt_inv_def)
  have r': "pt_running es mid n w s'" using running_step [OF r wf progress_step [OF p]] .
  have t: "pt_threads w (pt_pool s)" using r by (simp add: pt_running_def)
  from p consider (main) ch where "ch \<noteq> ChPool ASpurious" "pt_main ch s = Some s'"
    | (worker) u act where "act \<noteq> ASpurious" "pt_worker u act s = Some s'" by (auto simp: pt_progress_def)
  then show ?thesis
  proof cases
    case main
    then show ?thesis using main_less_idle [OF r main(2)] main_less_call [OF r main(2,1)] r' pt_measure_running [OF r]
        pt_measure_running [OF r'] by (cases "tp_pc (pt_pool s) 0 = PIdle") (simp_all add: pt_running_def)
  next
    case (worker u act)
    then have q: "run_step u act (pt_pool s) = Some (pt_pool s')" "pt_todo s' = pt_todo s" by (auto simp: pt_worker_def)
    then show ?thesis
      using worker_less [OF t _ worker(1)] run_step_pc [OF t q(1)] pt_measure_running [OF r] pt_measure_running [OF r'] by simp
  qed
qed

definition pt_finished :: "pt_state \<Rightarrow> bool" where
  "pt_finished s \<longleftrightarrow> pt_todo s = [] \<and> tp_pc (pt_pool s) 0 = PIdle"

lemma finished_result:
  assumes inv: "pt_inv es mid n s" and f: "pt_finished s"
  shows "map (tk_id \<circ> fst) (tp_done (pt_pool s)) = [0..<length es] \<and>
    (\<forall>x\<in>set (tp_done (pt_pool s)). fst (es ! tk_id (fst x)) = 0 \<longrightarrow> snd x) \<and>
    task_lines (pt_out s) = concat (map (line_of (map snd es)) (tp_done (pt_pool s))) \<and>
    results (pt_out s) = gets es mid \<and> \<not> pt_broken s \<and> tp_tasks (pt_pool s) = [] \<and> tp_workers (pt_pool s) = []"
proof -
  let ?p = "pt_pool s"
  have "\<not> pt_setup es mid n s"
    using f by (auto simp: pt_finished_def pt_setup_def pt_new_def pt_configured_def pool_program_def)
  then obtain w where r: "pt_running es mid n w s" using inv by (auto simp: pt_inv_def)
  then obtain j where ph: "phase_stop es mid n w j s"
    using f by (auto simp: pt_running_def pt_phase_def phase_submit_def phase_wait_def pt_finished_def Let_def)
  then have x: "tp_pc ?p w = WExited" "tp_tasks ?p = []" "tp_workers ?p = []" "results (pt_out s) = gets es mid"
    "length (pt_bodies s) = length es"
    using f by (auto simp: phase_stop_def pt_finished_def Let_def)
  have l: "pt_logs es w s" "\<not> pt_broken s" using r by (simp_all add: pt_running_def)
  have d: "map fst (tp_done ?p) = tp_put_log ?p" using l(1) x by (simp add: pt_logs_def Let_def)
  have "snd x" if k: "x \<in> set (tp_done ?p)" "fst (es ! tk_id (fst x)) = 0" for x
  proof -
    have "fst x \<in> set (tp_put_log ?p)" using k(1) by (force simp flip: d)
    then show ?thesis using l(1) k by (auto simp: pt_logs_def Let_def list_all_iff)
  qed
  moreover have "map (tk_id \<circ> fst) (tp_done ?p) = [0..<length es]"
    using l(1) x(5) d by (simp add: pt_logs_def Let_def flip: map_map)
  moreover have "task_lines (pt_out s) = concat (map (line_of (map snd es)) (tp_done ?p))"
    using l(1) by (simp add: pt_logs_def Let_def)
  ultimately show ?thesis using x l(2) by simp
qed

text \<open>
  C16. The programs of the thread pool test, for every interleaving of the main thread and the worker and whatever
  the clock shows: as long as the program has not finished some thread can go on, and every step
  that is not a spurious wake-up brings the end closer; when it has finished, all submitted tasks
  were handled, each once and in the order of submission, those without a timeout were executed,
  every future delivered the value of its task, and queue and pool are empty.
\<close>

theorem pool_program_completes:
  assumes "wf_program es mid" "reachable (pt_init (pool_program es mid n)) pt_step s"
  shows "(\<not> pt_finished s \<longrightarrow> (\<exists>s'. pt_progress s s')) \<and> (\<forall>s'. pt_progress s s' \<longrightarrow> pt_measure s' < pt_measure s) \<and>
    (pt_finished s \<longrightarrow> map (tk_id \<circ> fst) (tp_done (pt_pool s)) = [0..<length es] \<and>
      (\<forall>x\<in>set (tp_done (pt_pool s)). fst (es ! tk_id (fst x)) = 0 \<longrightarrow> snd x) \<and>
      task_lines (pt_out s) = concat (map (line_of (map snd es)) (tp_done (pt_pool s))) \<and>
      results (pt_out s) = gets es mid \<and> \<not> pt_broken s \<and> tp_tasks (pt_pool s) = [] \<and> tp_workers (pt_pool s) = [])"
proof -
  have inv: "pt_inv es mid n s" using pt_reach_inv [OF assms] .
  then have "\<not> pt_finished s \<longrightarrow> (\<exists>s'. pt_progress s s')"
    using setup_enabled running_enabled unfolding pt_inv_def pt_finished_def by meson
  then show ?thesis using progress_less [OF inv assms(1)] finished_result [OF inv] by blast
qed

text \<open>A complete run of the second test: the worker handles each task as soon as it is submitted.\<close>

fun pt_run :: "(pt_choice + tid \<times> tp_act) list \<Rightarrow> pt_state \<Rightarrow> pt_state option" where
  "pt_run [] s = Some s"
| "pt_run (Inl ch # as) s = (case pt_main ch s of None \<Rightarrow> None | Some s' \<Rightarrow> pt_run as s')"
| "pt_run (Inr (t, a) # as) s = (case pt_worker t a s of None \<Rightarrow> None | Some s' \<Rightarrow> pt_run as s')"

lemma pt_run_reachable:
  "pt_run as s = Some s' \<Longrightarrow> reachable (pt_init prog) pt_step s \<Longrightarrow> reachable (pt_init prog) pt_step s'"
proof (induction as s rule: pt_run.induct)
  case (2 ch as s)
  then obtain s1 where "pt_main ch s = Some s1" "pt_run as s1 = Some s'" by (auto split: option.splits)
  moreover from this have "pt_step s s1" by (auto simp: pt_step_def)
  ultimately show ?case using 2 by (blast intro: reach_step)
next
  case (3 t a as s)
  then obtain s1 where "pt_worker t a s = Some s1" "pt_run as s1 = Some s'" by (auto split: option.splits)
  moreover from this have "pt_step s s1" by (auto simp: pt_step_def)
  ultimately show ?case using 3 by (blast intro: reach_step)
qed simp

definition work :: "(pt_choice + tid \<times> tp_act) list" where
  "work = [Inr (10, AGo), Inr (10, AGo), Inr (10, AGo), Inr (10, ANow 0), Inr (10, AGo), Inr (10, AGo)]"

definition test2_schedule :: "(pt_choice + tid \<times> tp_act) list" where
  "test2_schedule = [Inl ChNone, Inl (ChThreads [10]), Inl (ChNotify 0 None)] @ work @ [Inl (ChNotify 0 None)] @ work @
     [Inl ChNone, Inl ChNone, Inl ChNone, Inl ChNone, Inr (10, AGo), Inl (ChPool AGo), Inl (ChPool AGo), Inl ChNone, Inl (ChPool AGo)]"

lemmas pt_eval = pt_main_def pt_call_def pt_get_def pt_worker_def client_step_def run_step_def tp_defs Let_def line_of_def make_task_def

theorem pool_program_completes_witness:
  "\<exists>s. reachable (pt_init test2) pt_step s \<and> pt_finished s \<and> map (tk_id \<circ> fst) (tp_done (pt_pool s)) = [0, 1] \<and>
     results (pt_out s) = [(0, VInt 10), (1, VStr ''darren'')] \<and> \<not> pt_broken s \<and> tp_tasks (pt_pool s) = []"
proof -
  have "\<exists>s. pt_run test2_schedule (pt_new test2) = Some s \<and> pt_finished s"
    by (simp add: test2_schedule_def work_def test2_def pt_new_def demo_threadpool_def pt_eval pt_finished_def)
  then obtain s where s: "pt_run test2_schedule (pt_new test2) = Some s" "pt_finished s" by blast
  have r: "reachable (pt_init test2) pt_step s"
    by (rule pt_run_reachable [OF s(1)]) (simp add: reach_init pt_init_def)
  let ?es = "[(0, func1_future 10), (0, func2_future 20 ''darren'')]" and ?mid = "[OpGet 0, OpGet 1, OpWaitAll]"
  have "wf_program ?es ?mid" by (simp add: wf_program_def)
  from pool_program_completes [OF this r [unfolded tests_are_programs(2)]] s(2) r show ?thesis
    by (intro exI [of _ s]) (simp add: func1_future_def func2_future_def upt_rec)
qed

end
