(* ===== verification/AsyncDns.thy ===== *)
theory AsyncDns
  imports Dns
begin

text \<open>
  The asynchronous client \<open>src/network/dns/async_dns_client.cpp\<close>. Its functions that build a
  query and parse a response are textual copies of those of the synchronous client, so the
  definitions of \<open>Dns\<close> are used for them. Modelled here is what is new: the query contexts
  (\<open>ep_arg\<close>) registered with epoll, the event thread that receives, parses, calls back,
  deregisters, closes and frees, and the initialisation.

  \<open>as_args\<close> are the live \<open>ep_arg\<close> objects and \<open>as_blocks\<close> the live blocks of result lists, both
  by address; \<open>as_open\<close> are the open sockets. \<open>as_qnames\<close> are the sizes of the live blocks
  \<open>question.qname\<close>, in the order of their allocation: their addresses are lost when \<open>dns_async_client_commit\<close> returns, so
  nothing ever frees one.
\<close>

section \<open>Data\<close>

datatype async_out =
    AsSend int bytes              \<comment> \<open>\<open>sendto\<close>\<close>
  | AsReport "dns_print list"     \<comment> \<open>printed by the parser\<close>
  | AsResult bytes bytes          \<comment> \<open>printed by the callback: name and address\<close>
  | AsClose int

record ep_arg =
  ea_sockfd :: int
  ea_cb :: "dns_item list \<Rightarrow> int \<Rightarrow> async_out list"

record async_state =
  as_open :: "int set"
  as_flags :: "int \<Rightarrow> int option"
  as_epoll :: "int \<Rightarrow> nat option"
  as_args :: "nat \<Rightarrow> ep_arg option"
  as_blocks :: "nat set"
  as_qnames :: "nat list"
  as_next :: nat
  as_out :: "async_out list"

text \<open>The copies of the functions of the synchronous client.\<close>

definition async_create_header :: "endian \<Rightarrow> int \<Rightarrow> dns_header option \<Rightarrow> int \<times> dns_header option" where
  "async_create_header = dns_create_header"

definition async_create_question ::
    "endian \<Rightarrow> (nat \<Rightarrow> bytes option) \<Rightarrow> bool \<Rightarrow> dns_question option \<Rightarrow> bytes \<Rightarrow> (int \<times> dns_question option) c_res" where
  "async_create_question = dns_create_question"

definition async_build_request :: "endian \<Rightarrow> dns_header \<Rightarrow> dns_question \<Rightarrow> bytes \<Rightarrow> (int \<times> bytes) c_res" where
  "async_build_request = dns_build_request"

definition async_make_query ::
    "endian \<Rightarrow> int \<Rightarrow> (nat \<Rightarrow> bytes option) \<Rightarrow> bool \<Rightarrow> bytes \<Rightarrow> (int \<times> bytes) c_res" where
  "async_make_query e rnd mal dup domain =
     bind_err (async_create_question e mal dup (Some zero_question) domain) (\<lambda>(ret, q).
     case (snd (async_create_header e rnd (Some zero_header)), q) of
       (Some header, Some question) \<Rightarrow> async_build_request e header question (replicate 1024 0)
     | _ \<Rightarrow> Inl NullDeref)"

lemma async_make_query_eq: "async_make_query = make_query"
  unfolding fun_eq_iff async_make_query_def make_query_def async_create_question_def async_create_header_def
    async_build_request_def by simp

definition async_parse_response ::
    "endian \<Rightarrow> (nat \<Rightarrow> bool) \<Rightarrow> bytes \<Rightarrow> (int \<times> dns_item list \<times> dns_print list) c_run" where
  "async_parse_response = dns_parse_response"

definition dns_async_client_result_callback :: "dns_item list \<Rightarrow> int \<Rightarrow> async_out list" where
  "dns_async_client_result_callback list count =
     map (\<lambda>it. AsResult (d_domain it) (d_ip it)) (take (nat count) list)"

definition O_NONBLOCK :: int where "O_NONBLOCK = 2048"

text \<open>\<open>set_block\<close>, from the answers of the two calls of \<open>fcntl\<close>: its result and the flags it set.\<close>

definition set_block :: "int \<Rightarrow> int \<Rightarrow> bool \<Rightarrow> int \<times> int option" where
  "set_block getfl setfl block =
     (if getfl < 0 then (getfl, None)
      else let flags = (if block then getfl AND NOT O_NONBLOCK else getfl OR O_NONBLOCK) in
           if setfl < 0 then (-1, None) else (0, Some flags))"

section \<open>Submitting a query\<close>

record async_env =
  ae_socket :: int
  ae_getfl :: int                \<comment> \<open>what \<open>fcntl(F_GETFL)\<close> and \<open>fcntl(F_SETFL)\<close> return\<close>
  ae_setfl :: int
  ae_random :: int
  ae_malloc :: "nat \<Rightarrow> bytes option"
  ae_strdup :: bool
  ae_calloc :: bool              \<comment> \<open>whether the \<open>ep_arg\<close> is allocated\<close>
  ae_ctl :: int                  \<comment> \<open>what \<open>epoll_ctl\<close> returns\<close>

definition set_nonblock :: "async_env \<Rightarrow> (int \<Rightarrow> int option) \<Rightarrow> int \<Rightarrow> int option" where
  "set_nonblock env fl =
     (case set_block (ae_getfl env) (ae_setfl env) False of
        (_, None) \<Rightarrow> fl | (_, Some f) \<Rightarrow> fl(ae_socket env \<mapsto> f))"

text \<open>The block \<open>dns_create_question\<close> leaves in \<open>question.qname\<close>, by its size.\<close>

definition qname_block :: "(nat \<Rightarrow> bytes option) \<Rightarrow> bytes \<Rightarrow> nat list" where
  "qname_block mal domain = (case mal (length domain + 2) of None \<Rightarrow> [] | Some blk \<Rightarrow> [length blk])"

definition dns_async_client_commit ::
    "endian \<Rightarrow> async_env \<Rightarrow> bytes \<Rightarrow> (dns_item list \<Rightarrow> int \<Rightarrow> async_out list) \<Rightarrow> async_state \<Rightarrow>
     (int exitable \<times> async_state) c_res" where
  "dns_async_client_commit e env domain cb s =
     (let sockfd = ae_socket env in
      if sockfd < 0 then Inr (Exited (-1), s)
      else
        bind_err (async_make_query e (ae_random env) (ae_malloc env) (ae_strdup env) domain) (\<lambda>(req_len, request).
        bind_err (mem_read request 0 (nat req_len)) (\<lambda>datagram.
          let s1 = s\<lparr>as_open := insert sockfd (as_open s), as_flags := set_nonblock env (as_flags s),
                     as_qnames := as_qnames s @ qname_block (ae_malloc env) domain, as_out := as_out s @ [AsSend sockfd datagram]\<rparr> in
          if \<not> ae_calloc env then Inr (Returned (-1), s1)
          else
            let eparg = as_next s1;
                s2 = s1\<lparr>as_next := eparg + 1,
                        as_args := (as_args s1)(eparg \<mapsto> \<lparr>ea_sockfd = sockfd, ea_cb = cb\<rparr>)\<rparr> in
            Inr (Returned (ae_ctl env),
                 if ae_ctl env = 0 then s2\<lparr>as_epoll := (as_epoll s2)(sockfd \<mapsto> eparg)\<rparr> else s2))))"

section \<open>The event thread\<close>

text \<open>
  The blocks of a result: one for the list and two for each item; none when the parser could not
  allocate the list. The pointers of the items are those of \<open>list[i].domain\<close> and \<open>list[i].ip\<close>.
\<close>

definition alloc_result :: "int \<Rightarrow> async_state \<Rightarrow> (nat option \<times> (nat \<times> nat) list) \<times> async_state" where
  "alloc_result cnt s =
     (if cnt < 0 then ((None, []), s)
      else let a = as_next s; n = nat cnt in
        ((Some a, map (\<lambda>i. (a + 1 + 2 * i, a + 2 + 2 * i)) [0..<n]),
         s\<lparr>as_blocks := as_blocks s \<union> {a..<a + 1 + 2 * n}, as_next := a + 1 + 2 * n\<rparr>))"

definition free_block :: "nat \<Rightarrow> async_state \<Rightarrow> async_state c_res" where
  "free_block a s = (if a \<in> as_blocks s then Inr (s\<lparr>as_blocks := as_blocks s - {a}\<rparr>) else Inl (BadFree a))"

fun free_items :: "(nat \<times> nat) list \<Rightarrow> async_state \<Rightarrow> async_state c_res" where
  "free_items [] s = Inr s"
| "free_items ((d, i) # ps) s =
     bind_err (free_block d s) (\<lambda>s1. bind_err (free_block i s1) (\<lambda>s2. free_items ps s2))"

definition dns_async_client_free_domains ::
    "nat option \<Rightarrow> (nat \<times> nat) list \<Rightarrow> int \<Rightarrow> async_state \<Rightarrow> async_state c_res" where
  "dns_async_client_free_domains list ps count s =
     bind_err (free_items (take (nat count) ps) s) (\<lambda>s1.
       case list of None \<Rightarrow> Inr s1 | Some a \<Rightarrow> free_block a s1)"

text \<open>
  One ready event, by the pointer that was registered: receive, parse, call back, deregister,
  close, free the result and the context. \<open>rcv\<close> is what \<open>recvfrom\<close> delivers.
\<close>

definition proc_event ::
    "endian \<Rightarrow> (nat \<Rightarrow> bool) \<Rightarrow> bytes option \<Rightarrow> nat \<Rightarrow> async_state \<Rightarrow> async_state c_run" where
  "proc_event e al rcv ptr s =
     (case as_args s ptr of
        None \<Rightarrow> Some (Inl (OutOfBounds ptr))
      | Some data \<Rightarrow>
          let sockfd = ea_sockfd data in
          bind_run (async_parse_response e al (recv_buffer 1024 rcv)) (\<lambda>(count, items, prints).
            let ((list, ps), s1) = alloc_result count s;
                s2 = s1\<lparr>as_out := as_out s1 @ [AsReport prints] @ ea_cb data items count\<rparr>;
                s3 = s2\<lparr>as_epoll := (as_epoll s2)(sockfd := None)\<rparr>;
                s4 = s3\<lparr>as_open := as_open s3 - {sockfd}, as_out := as_out s3 @ [AsClose sockfd]\<rparr> in
            bind_run (Some (dns_async_client_free_domains list ps count s4)) (\<lambda>s5.
              if as_args s5 ptr = None then Some (Inl (BadFree ptr))
              else Some (Inr (s5\<lparr>as_args := (as_args s5)(ptr := None)\<rparr>)))))"

fun proc_events ::
    "endian \<Rightarrow> (nat \<times> bytes option \<times> (nat \<Rightarrow> bool)) list \<Rightarrow> async_state \<Rightarrow> async_state c_run" where
  "proc_events e [] s = Some (Inr s)"
| "proc_events e ((ptr, rcv, al) # es) s = bind_run (proc_event e al rcv ptr s) (proc_events e es)"

text \<open>The answers of \<open>epoll_wait\<close>, and the loop of the thread; the flag says that it was left.\<close>

datatype wait_res = WaitError int | WaitReady "(nat \<times> bytes option \<times> (nat \<Rightarrow> bool)) list"

fun dns_async_client_proc :: "endian \<Rightarrow> wait_res list \<Rightarrow> async_state \<Rightarrow> (bool \<times> async_state) c_run" where
  "dns_async_client_proc e [] s = Some (Inr (False, s))"
| "dns_async_client_proc e (WaitError en # ws) s =
     (if en = 4 \<or> en = 11 then dns_async_client_proc e ws s else Some (Inr (True, s)))"
| "dns_async_client_proc e (WaitReady es # ws) s =
     bind_run (proc_events e es s) (dns_async_client_proc e ws)"

text \<open>
  \<open>dns_async_client_init\<close>: the context, or \<open>None\<close> for \<open>NULL\<close>, and whether the epoll descriptor and
  the context are still held afterwards. They are when the thread cannot be created.
\<close>

definition dns_async_client_init :: "int \<Rightarrow> bool \<Rightarrow> int \<Rightarrow> int option \<times> bool \<times> bool" where
  "dns_async_client_init epoll_fd mem ret =
     (if epoll_fd < 0 then (None, False, False)
      else if \<not> mem then (None, False, False)
      else if ret \<noteq> 0 then (None, True, True)
      else (Some epoll_fd, True, True))"

definition async_new :: async_state where
  "async_new = \<lparr>as_open = {}, as_flags = (\<lambda>_. None), as_epoll = (\<lambda>_. None), as_args = (\<lambda>_. None), as_blocks = {}, as_qnames = [], as_next = 0, as_out = []\<rparr>"

section \<open>Invariant\<close>

text \<open>
  Every registered socket is open and has a context of its own that names it; between events no
  block of a result is live.
\<close>

definition async_inv :: "async_state \<Rightarrow> bool" where
  "async_inv s \<longleftrightarrow>
     (\<forall>fd a. as_epoll s fd = Some a \<longrightarrow> fd \<in> as_open s \<and> (\<exists>d. as_args s a = Some d \<and> ea_sockfd d = fd)) \<and>
     (\<forall>a\<ge>as_next s. as_args s a = None) \<and> as_blocks s = {}"

fun pointers :: "(nat \<times> nat) list \<Rightarrow> nat list" where
  "pointers [] = []" | "pointers ((d, i) # ps) = d # i # pointers ps"

lemma pointers_append: "pointers (ps @ qs) = pointers ps @ pointers qs"
  by (induction ps rule: pointers.induct) auto

lemma free_items_ok:
  "distinct (pointers ps) \<Longrightarrow> set (pointers ps) \<subseteq> as_blocks s \<Longrightarrow>
   free_items ps s = Inr (s\<lparr>as_blocks := as_blocks s - set (pointers ps)\<rparr>)"
proof (induction ps arbitrary: s rule: pointers.induct)
  case 1 then show ?case by simp
next
  case (2 d i ps)
  let ?s = "s\<lparr>as_blocks := as_blocks s - {d} - {i}\<rparr>"
  have "free_items ((d, i) # ps) s = free_items ps ?s"
    using 2(2,3) by (auto simp: free_block_def)
  also have "\<dots> = Inr (?s\<lparr>as_blocks := as_blocks ?s - set (pointers ps)\<rparr>)"
    by (rule 2(1)) (use 2(2,3) in auto)
  also have "as_blocks ?s - set (pointers ps) = as_blocks s - set (pointers ((d, i) # ps))" by auto
  finally show ?case by simp
qed

lemma result_pointers: "pointers (map (\<lambda>i. (a + 1 + 2 * i, a + 2 + 2 * i)) [0..<n]) = [a + 1..<a + 1 + 2 * n]"
  by (induction n) (simp_all add: pointers_append)

text \<open>Allocating a result and freeing it leaves the blocks as they were.\<close>

lemma alloc_free_result:
  assumes "as_blocks s = {}" "alloc_result cnt s = ((list, ps), s1)" "as_blocks s' = as_blocks s1"
  shows "dns_async_client_free_domains list ps cnt s' = Inr (s'\<lparr>as_blocks := {}\<rparr>)"
proof (cases "cnt < 0")
  case True
  then show ?thesis using assms by (auto simp: alloc_result_def dns_async_client_free_domains_def)
next
  case False
  let ?a = "as_next s" and ?n = "nat cnt"
  have e: "list = Some ?a" "ps = map (\<lambda>i. (?a + 1 + 2 * i, ?a + 2 + 2 * i)) [0..<?n]"
    "as_blocks s' = {?a..<?a + 1 + 2 * ?n}"
    using False assms by (auto simp: alloc_result_def Let_def)
  have "set (pointers ps) = {?a + 1..<?a + 1 + 2 * ?n}" "distinct (pointers ps)"
    unfolding e(2) result_pointers by (simp_all only: set_upt distinct_upt)
  moreover from this have "free_items ps s' = Inr (s'\<lparr>as_blocks := as_blocks s' - set (pointers ps)\<rparr>)"
    using e(3) by (intro free_items_ok) auto
  moreover have "{?a..<?a + 1 + 2 * ?n} - {?a + 1..<?a + 1 + 2 * ?n} = {?a}" by auto
  ultimately have "free_items ps s' = Inr (s'\<lparr>as_blocks := {?a}\<rparr>)"
    unfolding e(3) by (simp only:)
  moreover have "take ?n ps = ps" using e(2) by simp
  ultimately show ?thesis using e(1) by (simp add: dns_async_client_free_domains_def free_block_def)
qed

lemma proc_event_ok:
  assumes inv: "async_inv s" and reg: "as_epoll s fd = Some ptr" and d: "as_args s ptr = Some d"
    and parse: "async_parse_response e al (recv_buffer 1024 rcv) = Some (Inr (count, items, prints))"
  obtains s' where "proc_event e al rcv ptr s = Some (Inr s')"
    "as_out s' = as_out s @ [AsReport prints] @ ea_cb d items count @ [AsClose fd]"
    "as_epoll s' = (as_epoll s)(fd := None)" "as_args s' = (as_args s)(ptr := None)"
    "as_open s' = as_open s - {fd}" "as_blocks s' = {}" "as_next s \<le> as_next s'" "as_qnames s' = as_qnames s"
proof -
  have fd: "ea_sockfd d = fd" and b: "as_blocks s = {}" using inv reg d by (fastforce simp: async_inv_def)+
  obtain list ps s1 where a: "alloc_result count s = ((list, ps), s1)" by (metis prod.collapse)
  have f1: "as_out s1 = as_out s" "as_epoll s1 = as_epoll s" "as_args s1 = as_args s" "as_open s1 = as_open s"
    "as_next s \<le> as_next s1" "as_qnames s1 = as_qnames s"
    using a by (auto simp: alloc_result_def Let_def split: if_splits)
  let ?s4 = "s1\<lparr>as_epoll := (as_epoll s1)(fd := None), as_open := as_open s1 - {fd},
      as_out := (as_out s1 @ [AsReport prints] @ ea_cb d items count) @ [AsClose fd]\<rparr>"
  have "dns_async_client_free_domains list ps count ?s4 = Inr (?s4\<lparr>as_blocks := {}\<rparr>)"
    by (rule alloc_free_result [OF b a]) simp
  then have "proc_event e al rcv ptr s = Some (Inr (?s4\<lparr>as_blocks := {}, as_args := (as_args s1)(ptr := None)\<rparr>))"
    using d parse a fd f1(3) by (simp add: proc_event_def Let_def)
  then show thesis by (rule that) (simp_all add: f1)
qed

lemma async_inv_event:
  assumes "async_inv s" "as_epoll s fd = Some ptr" "as_args s ptr = Some d"
    and "as_epoll s' = (as_epoll s)(fd := None)" "as_args s' = (as_args s)(ptr := None)"
      "as_open s' = as_open s - {fd}" "as_blocks s' = {}" "as_next s \<le> as_next s'"
  shows "async_inv s'"
proof -
  have "a \<noteq> ptr" if f: "as_epoll s f = Some a" "f \<noteq> fd" for f a
  proof -
    obtain d' where "as_args s a = Some d'" "ea_sockfd d' = f" using assms(1) f unfolding async_inv_def by blast
    moreover have "ea_sockfd d = fd" using assms(1-3) unfolding async_inv_def by fastforce
    ultimately show ?thesis using assms(3) f(2) by auto
  qed
  then show ?thesis
    using assms unfolding async_inv_def by (fastforce split: if_splits)
qed

lemma commit_inv:
  assumes "async_inv s" "dns_async_client_commit e env name cb s = Inr (Returned r, s')"
    "ae_socket env \<notin> as_open s"
  shows "async_inv s'"
  using assms
  by (auto simp: async_inv_def dns_async_client_commit_def bind_err_eq_Inr Let_def split: if_splits) fastforce+

section \<open>Properties of the asynchronous client\<close>

inductive async_reach :: "endian \<Rightarrow> async_state \<Rightarrow> bool" for e where
  ar_new: "async_reach e async_new"
| ar_commit: "async_reach e s \<Longrightarrow> ae_socket env \<notin> as_open s \<Longrightarrow>
    dns_async_client_commit e env name cb s = Inr (Returned r, s') \<Longrightarrow> async_reach e s'"
| ar_event: "async_reach e s \<Longrightarrow> as_epoll s fd = Some ptr \<Longrightarrow>
    proc_event e al rcv ptr s = Some (Inr s') \<Longrightarrow> async_reach e s'"

lemma proc_event_inv:
  assumes "async_inv s" "as_epoll s fd = Some ptr" "proc_event e al rcv ptr s = Some (Inr s')"
  shows "async_inv s'"
proof -
  obtain d where d: "as_args s ptr = Some d" using assms(1,2) unfolding async_inv_def by blast
  obtain count items prints where p: "async_parse_response e al (recv_buffer 1024 rcv) = Some (Inr (count, items, prints))"
    using assms(3) d by (auto simp: proc_event_def bind_run_def Let_def split: option.splits sum.splits)
  obtain s2 where "proc_event e al rcv ptr s = Some (Inr s2)"
    "as_epoll s2 = (as_epoll s)(fd := None)" "as_args s2 = (as_args s)(ptr := None)"
    "as_open s2 = as_open s - {fd}" "as_blocks s2 = {}" "as_next s \<le> as_next s2"
    by (rule proc_event_ok [OF assms(1,2) d p])
  then show ?thesis using assms(3) async_inv_event [OF assms(1,2) d] by simp
qed

lemma async_reach_inv: "async_reach e s \<Longrightarrow> async_inv s"
proof (induction rule: async_reach.induct)
  case ar_new then show ?case by (simp add: async_inv_def async_new_def)
next
  case (ar_commit s env name cb r s') then show ?case by (blast intro: commit_inv)
next
  case (ar_event s fd ptr al rcv s') then show ?case by (blast intro: proc_event_inv)
qed

text \<open>
  C19. In every state reachable by submissions and events, a ready event on a registered socket
  finds its context; if the parser returns, the callback is called once with what it returned,
  the socket is deregistered and closed, and the result and the context are freed exactly once:
  no dangling context, no double free, no leak of a context or result, other queries untouched.
\<close>

theorem async_event_once:
  assumes "async_reach e s" "as_epoll s fd = Some ptr"
    and "async_parse_response e al (recv_buffer 1024 rcv) = Some (Inr (count, items, prints))"
  shows "\<exists>d s'. as_args s ptr = Some d \<and> proc_event e al rcv ptr s = Some (Inr s') \<and>
     as_out s' = as_out s @ [AsReport prints] @ ea_cb d items count @ [AsClose fd] \<and>
     as_epoll s' = (as_epoll s)(fd := None) \<and> as_args s' = (as_args s)(ptr := None) \<and>
     as_open s' = as_open s - {fd} \<and> as_blocks s' = {} \<and> as_qnames s' = as_qnames s"
proof -
  have inv: "async_inv s" using assms(1) by (rule async_reach_inv)
  then obtain d where d: "as_args s ptr = Some d" using assms(2) unfolding async_inv_def by blast
  obtain s' where "proc_event e al rcv ptr s = Some (Inr s')"
    "as_out s' = as_out s @ [AsReport prints] @ ea_cb d items count @ [AsClose fd]"
    "as_epoll s' = (as_epoll s)(fd := None)" "as_args s' = (as_args s)(ptr := None)"
    "as_open s' = as_open s - {fd}" "as_blocks s' = {}" "as_qnames s' = as_qnames s"
    by (rule proc_event_ok [OF inv assms(2) d assms(3)])
  then show ?thesis using d by blast
qed

lemma commit_ok:
  assumes wf: "wf_labels ls" "length (join_dots ls) < 128"
    and mem: "ae_malloc env (length (join_dots ls) + 2) = Some blk" "length blk = length (join_dots ls) + 2"
      "ae_strdup env" "ae_calloc env"
    and net: "0 \<le> ae_socket env" "ae_ctl env = 0"
  shows "dns_async_client_commit e env (join_dots ls) cb s =
    Inr (Returned 0, s\<lparr>as_open := insert (ae_socket env) (as_open s), as_flags := set_nonblock env (as_flags s),
      as_qnames := as_qnames s @ [length (join_dots ls) + 2], as_out := as_out s @ [AsSend (ae_socket env) (query_wire e (ae_random env) ls)],
      as_next := as_next s + 1,
      as_args := (as_args s)(as_next s \<mapsto> \<lparr>ea_sockfd = ae_socket env, ea_cb = cb\<rparr>),
      as_epoll := (as_epoll s)(ae_socket env \<mapsto> as_next s)\<rparr>)"
proof -
  have ne: "ls \<noteq> []" using wf(1) by (simp add: wf_labels_def)
  have "length (wire_name ls) \<le> 1008" using length_wire_name [OF ne] wf(2) by simp
  from make_query_wire [of ls "ae_malloc env" blk e "ae_random env", OF wf(1) mem(1,2) this]
  show ?thesis using mem net
    by (auto simp: qname_block_def dns_async_client_commit_def async_make_query_eq mem_read_def Let_def)
qed


definition sample_async_env :: async_env where
  "sample_async_env = \<lparr>ae_socket = 5, ae_getfl = 2, ae_setfl = 0, ae_random = 258, ae_malloc = (\<lambda>n. Some (replicate n 0xFF)), ae_strdup = True,
     ae_calloc = True, ae_ctl = 0\<rparr>"


text \<open>An event without a datagram: the empty buffer parses as a response without answers.\<close>

lemma parse_empty: "async_parse_response e (\<lambda>_. True) (recv_buffer 1024 None) = Some (Inr (0, [], []))"
proof -
  have "load16 e 0 0 = 0" by (cases e) (simp_all add: load16_def u16_of_def)
  then have "read16 e (replicate 1024 0) 4 = Inr 0" "read16 e (replicate 1024 0) 6 = Inr 0"
    by (cases e; simp add: read16_def mem_get_def ntohs_def htons_def bswap16_def u16_of_def hi8_def lo8_def)+
  then show ?thesis
    by (simp add: async_parse_response_def dns_parse_response_def recv_buffer_def)
qed

theorem async_event_once_witness:
  "\<exists>s s'. async_reach BigEndian s \<and> as_epoll s 5 = Some 0 \<and>
     proc_event BigEndian (\<lambda>_. True) None 0 s = Some (Inr s') \<and> as_epoll s' 5 = None \<and> as_open s' = {}"
proof -
  let ?s = "async_new\<lparr>as_open := insert (ae_socket sample_async_env) (as_open async_new), as_flags := set_nonblock sample_async_env (as_flags async_new),
      as_qnames := as_qnames async_new @ [length (join_dots [[0x61]]) + 2], as_out := as_out async_new @ [AsSend (ae_socket sample_async_env) (query_wire BigEndian (ae_random sample_async_env) [[0x61]])],
      as_next := as_next async_new + 1,
      as_args := (as_args async_new)(as_next async_new \<mapsto> \<lparr>ea_sockfd = ae_socket sample_async_env, ea_cb = dns_async_client_result_callback\<rparr>),
      as_epoll := (as_epoll async_new)(ae_socket sample_async_env \<mapsto> as_next async_new)\<rparr>"
  have "dns_async_client_commit BigEndian sample_async_env (join_dots [[0x61]]) dns_async_client_result_callback async_new
      = Inr (Returned 0, ?s)"
    by (rule commit_ok [where blk = "replicate (length (join_dots [[0x61]]) + 2) 0xFF"])
      (simp_all add: sample_async_env_def wf_labels_def wf_label_def dot_def)
  moreover have "ae_socket sample_async_env \<notin> as_open async_new" by (simp add: async_new_def)
  ultimately have r: "async_reach BigEndian ?s" by (blast intro: ar_commit ar_new)
  have e: "as_epoll ?s 5 = Some 0" by (simp add: sample_async_env_def async_new_def)
  from async_event_once [OF r e parse_empty] obtain s' where
    "proc_event BigEndian (\<lambda>_. True) None 0 ?s = Some (Inr s')" "as_epoll s' = (as_epoll ?s)(5 := None)"
    "as_open s' = as_open ?s - {5}" by blast
  moreover from this have "as_epoll s' 5 = None" "as_open s' = {}"
    by (simp_all add: sample_async_env_def async_new_def)
  ultimately show ?thesis using r e by blast
qed

end
