(* ===== verification/DnsMains.thy ===== *)
theory DnsMains
  imports AsyncDns
begin

text \<open>
  The programs around the two DNS clients: \<open>main\<close> of \<open>src/network/dns/sync_dns_client.cpp\<close> resolves
  the names of its table one after the other; \<open>main\<close> of \<open>async_dns_client.cpp\<close> submits all of them
  while the event thread handles the answers. The \<open>getchar\<close> that keeps the programs alive is not
  modelled.
\<close>

section \<open>The synchronous program\<close>

text \<open>\<open>env i\<close> is what the system answers during the call for the name with the number \<open>i\<close>.\<close>

fun sync_loop :: "endian \<Rightarrow> (nat \<Rightarrow> dns_env) \<Rightarrow> nat \<Rightarrow> string list \<Rightarrow> (int exitable \<times> dns_event list) c_run" where
  "sync_loop e env i [] = Some (Inr (Returned 0, []))"
| "sync_loop e env i (d # ds) =
     bind_run (dns_client_commit e (env i) (bytes_of d)) (\<lambda>(r, evs).
       case r of
         Exited c \<Rightarrow> Some (Inr (Exited c, evs))
       | Returned _ \<Rightarrow> bind_run (sync_loop e env (i + 1) ds) (\<lambda>(r', evs'). Some (Inr (r', evs @ evs'))))"

definition sync_main :: "endian \<Rightarrow> (nat \<Rightarrow> dns_env) \<Rightarrow> (int exitable \<times> dns_event list) c_run" where
  "sync_main e env = sync_loop e env 0 domain_table"

section \<open>The asynchronous program\<close>

definition async_domain_table :: "string list" where
  "async_domain_table = domain_table"

record async_prog =
  am_todo :: "string list"
  am_ctx :: async_state

text \<open>The start of \<open>main\<close>: -2 without a context, else all names are still to be submitted.\<close>

definition async_main_start :: "int \<Rightarrow> bool \<Rightarrow> int \<Rightarrow> int + async_prog" where
  "async_main_start epoll_fd mem ret =
     (case fst (dns_async_client_init epoll_fd mem ret) of
        None \<Rightarrow> Inl (-2)
      | Some _ \<Rightarrow> Inr \<lparr>am_todo = async_domain_table, am_ctx = async_new\<rparr>)"

text \<open>One round of the loop; the result of the call is not looked at. \<open>None\<close>: the process ends.\<close>

definition async_main_round :: "endian \<Rightarrow> async_env \<Rightarrow> async_prog \<Rightarrow> async_prog option c_res" where
  "async_main_round e env m =
     (case am_todo m of
        [] \<Rightarrow> Inr (Some m)
      | d # ds \<Rightarrow>
          bind_err (dns_async_client_commit e env (bytes_of d) dns_async_client_result_callback (am_ctx m)) (\<lambda>(r, s).
            Inr (case r of Exited c \<Rightarrow> None | Returned _ \<Rightarrow> Some \<lparr>am_todo = ds, am_ctx = s\<rparr>)))"

text \<open>
  What the program relies on: \<open>socket\<close> returns a descriptor that is not open, memory is there, and
  \<open>epoll_ctl\<close> registers.
\<close>

definition system_answers :: "async_env \<Rightarrow> async_state \<Rightarrow> bool" where
  "system_answers env s \<longleftrightarrow> 0 \<le> ae_socket env \<and> ae_socket env \<notin> as_open s \<and> ae_strdup env \<and> ae_calloc env \<and>
     ae_ctl env = 0 \<and> (\<forall>n. \<exists>blk. ae_malloc env n = Some blk \<and> length blk = n)"

inductive async_main :: "endian \<Rightarrow> async_prog \<Rightarrow> bool" for e where
  am_start: "async_main_start epoll_fd mem ret = Inr m \<Longrightarrow> async_main e m"
| am_submit: "async_main e m \<Longrightarrow> system_answers env (am_ctx m) \<Longrightarrow> async_main_round e env m = Inr (Some m') \<Longrightarrow> async_main e m'"
| am_event: "async_main e m \<Longrightarrow> as_epoll (am_ctx m) fd = Some ptr \<Longrightarrow>
    proc_event e al rcv ptr (am_ctx m) = Some (Inr s') \<Longrightarrow> async_main e (m\<lparr>am_ctx := s'\<rparr>)"

fun sends :: "async_out list \<Rightarrow> bytes list" where
  "sends [] = []" | "sends (AsSend fd d # os) = d # sends os" | "sends (_ # os) = sends os"

fun closed :: "async_out list \<Rightarrow> nat" where
  "closed [] = 0" | "closed (AsClose fd # os) = Suc (closed os)" | "closed (_ # os) = closed os"

lemma sends_append [simp]: "sends (xs @ ys) = sends xs @ sends ys"
  by (induction xs rule: sends.induct) auto

lemma closed_append [simp]: "closed (xs @ ys) = closed xs + closed ys"
  by (induction xs rule: closed.induct) auto

lemma callback_out [simp]:
  "sends (dns_async_client_result_callback xs n) = []" "closed (dns_async_client_result_callback xs n) = 0"
proof -
  have "sends (map (\<lambda>it. AsResult (d_domain it) (d_ip it)) ys) = []"
    "closed (map (\<lambda>it. AsResult (d_domain it) (d_ip it)) ys) = 0" for ys by (induction ys) auto
  then show "sends (dns_async_client_result_callback xs n) = []" "closed (dns_async_client_result_callback xs n) = 0"
    by (simp_all add: dns_async_client_result_callback_def)
qed

text \<open>
  After \<open>n\<close> submissions: their queries were sent in the order of the table, the open sockets are the
  registered ones, each with one context, and the others were closed.
\<close>

definition am_inv :: "endian \<Rightarrow> nat \<Rightarrow> int list \<Rightarrow> async_prog \<Rightarrow> bool" where
  "am_inv e n ids m \<longleftrightarrow> (let s = am_ctx m in
     n \<le> length async_domain_table \<and> am_todo m = drop n async_domain_table \<and> length ids = n \<and>
     sends (as_out s) = map2 (\<lambda>i d. query_wire e i (labels_of d)) ids (take n async_domain_table) \<and>
     as_qnames s = map (\<lambda>d. length d + 2) (take n async_domain_table) \<and>
     async_inv s \<and> as_open s = dom (as_epoll s) \<and> finite (as_open s) \<and> closed (as_out s) + card (as_open s) = n \<and>
     (\<forall>a d. as_args s a = Some d \<longrightarrow> as_epoll s (ea_sockfd d) = Some a \<and> ea_cb d = dns_async_client_result_callback))"

lemma am_inv_args:
  "am_inv e n ids m \<Longrightarrow> as_args (am_ctx m) a = Some d \<Longrightarrow>
   as_epoll (am_ctx m) (ea_sockfd d) = Some a \<and> ea_cb d = dns_async_client_result_callback"
  by (simp add: am_inv_def Let_def)

lemma am_inv_start: "async_main_start epoll_fd mem ret = Inr m \<Longrightarrow> am_inv e 0 [] m"
  by (auto simp: async_main_start_def am_inv_def Let_def async_inv_def async_new_def split: option.splits)

lemma table_entry:
  assumes "d \<in> set async_domain_table"
  shows "wf_labels (labels_of d)" "join_dots (labels_of d) = bytes_of d" "length (join_dots (labels_of d)) < 128"
  using assms domain_table_resolvable by (auto simp: list_all_iff async_domain_table_def bytes_of_def)

lemma am_submit_ok:
  assumes inv: "am_inv e n ids m" and sys: "system_answers env (am_ctx m)" and ds: "am_todo m = d # ds"
  obtains m' where "async_main_round e env m = Inr (Some m')" "am_inv e (Suc n) (ids @ [ae_random env]) m'" "am_todo m' = ds"
    "as_open (am_ctx m') = insert (ae_socket env) (as_open (am_ctx m))"
proof -
  let ?s = "am_ctx m" and ?fd = "ae_socket env" and ?T = async_domain_table
  have dr: "drop n ?T = d # ds" using inv ds by (simp add: am_inv_def Let_def)
  then have lt: "n < length ?T" by (cases "n < length ?T") auto
  then have n: "n < length ?T" "?T ! n = d" "ds = drop (Suc n) ?T" using dr Cons_nth_drop_Suc [OF lt] by auto
  then have t: "d \<in> set ?T" by auto
  note e = table_entry [OF t]
  obtain blk where blk: "ae_malloc env (length (join_dots (labels_of d)) + 2) = Some blk"
    "length blk = length (join_dots (labels_of d)) + 2"
    using sys by (auto simp: system_answers_def)
  have fresh: "as_epoll ?s ?fd = None" "?fd \<notin> as_open ?s" "as_args ?s (as_next ?s) = None"
    using inv sys by (auto simp: am_inv_def Let_def system_answers_def async_inv_def)
  obtain s' where c: "dns_async_client_commit e env (bytes_of d) dns_async_client_result_callback ?s = Inr (Returned 0, s')"
    and s': "as_open s' = insert ?fd (as_open ?s)" "as_epoll s' = (as_epoll ?s)(?fd \<mapsto> as_next ?s)"
      "as_args s' = (as_args ?s)(as_next ?s \<mapsto> \<lparr>ea_sockfd = ?fd, ea_cb = dns_async_client_result_callback\<rparr>)"
      "as_out s' = as_out ?s @ [AsSend ?fd (query_wire e (ae_random env) (labels_of d))]"
      "as_qnames s' = as_qnames ?s @ [length d + 2]"
    using commit_ok [OF e(1,3) blk, of e dns_async_client_result_callback ?s] sys
    by (simp add: system_answers_def e(2) bytes_of_def)
  have m': "async_main_round e env m = Inr (Some \<lparr>am_todo = ds, am_ctx = s'\<rparr>)" using ds c by (simp add: async_main_round_def)
  have "async_inv s'" using commit_inv [OF _ c fresh(2)] inv by (simp add: am_inv_def Let_def)
  moreover have "take (Suc n) ?T = take n ?T @ [d]" using n by (simp add: take_Suc_conv_app_nth)
  moreover have "card (insert ?fd (dom (as_epoll ?s))) = Suc (card (dom (as_epoll ?s)))"
    using inv fresh(1) by (intro card_insert_disjoint) (auto simp: am_inv_def Let_def)
  moreover have "ea_sockfd d' \<noteq> ?fd" if "as_args ?s a = Some d'" for a d'
    using am_inv_args [OF inv that] fresh(1) by auto
  ultimately have "am_inv e (Suc n) (ids @ [ae_random env]) \<lparr>am_todo = ds, am_ctx = s'\<rparr>"
    using inv fresh n by (auto simp: am_inv_def Let_def s')
  then show thesis using m' that s'(1) by simp
qed

lemma am_inv_submit:
  assumes "am_inv e n ids m" "system_answers env (am_ctx m)" "async_main_round e env m = Inr (Some m')"
  shows "m' = m \<or> am_inv e (Suc n) (ids @ [ae_random env]) m'"
proof (cases "am_todo m")
  case Nil
  then show ?thesis using assms(3) by (simp add: async_main_round_def)
next
  case (Cons d ds)
  show ?thesis by (rule am_submit_ok [OF assms(1,2) Cons]) (use assms(3) in simp)
qed

lemma am_inv_event:
  assumes inv: "am_inv e n ids m" and ev: "as_epoll (am_ctx m) fd = Some ptr" "proc_event e al rcv ptr (am_ctx m) = Some (Inr s')"
  shows "am_inv e n ids (m\<lparr>am_ctx := s'\<rparr>)"
proof -
  let ?s = "am_ctx m"
  have i: "async_inv ?s" using inv by (simp add: am_inv_def Let_def)
  then obtain d where d: "as_args ?s ptr = Some d" "ea_sockfd d = fd" using ev(1) unfolding async_inv_def by blast
  obtain count items prints where p: "async_parse_response e al (recv_buffer 1024 rcv) = Some (Inr (count, items, prints))"
    using ev(2) d by (auto simp: proc_event_def bind_run_def Let_def split: option.splits sum.splits)
  obtain s2 where s2: "proc_event e al rcv ptr ?s = Some (Inr s2)"
    "as_out s2 = as_out ?s @ [AsReport prints] @ ea_cb d items count @ [AsClose fd]"
    "as_epoll s2 = (as_epoll ?s)(fd := None)" "as_args s2 = (as_args ?s)(ptr := None)" "as_open s2 = as_open ?s - {fd}"
    "as_qnames s2 = as_qnames ?s"
    by (rule proc_event_ok [OF i ev(1) d(1) p])
  then have e: "s2 = s'" using ev(2) by simp
  have fd: "fd \<in> as_open ?s" using inv ev(1) by (auto simp: am_inv_def Let_def)
  have cb: "ea_cb d = dns_async_client_result_callback" using am_inv_args [OF inv d(1)] by simp
  have "finite (as_open ?s)" using inv unfolding am_inv_def Let_def by blast
  then have "Suc (card (as_open ?s - {fd})) = card (as_open ?s)" using fd by (rule card_Suc_Diff1)
  moreover have "async_inv s'" using proc_event_inv [OF i ev] .
  moreover have "ea_sockfd d' \<noteq> fd" if "as_args ?s a = Some d'" "a \<noteq> ptr" for a d'
    using am_inv_args [OF inv that(1)] ev(1) that(2) by auto
  ultimately show ?thesis
    using inv s2(2-6) cb d ev(1) unfolding e by (auto simp: am_inv_def Let_def split: if_splits)
qed

lemma am_inv_reach:
  assumes "async_main e m"
  shows "\<exists>n ids. am_inv e n ids m"
  using assms
proof (induction rule: async_main.induct)
  case (am_start epoll_fd mem ret m)
  then show ?case by (blast intro: am_inv_start)
next
  case (am_submit m env m')
  then show ?case by (metis am_inv_submit)
next
  case (am_event m fd ptr al rcv s')
  then show ?case by (blast intro: am_inv_event)
qed

section \<open>Properties of the programs\<close>


text \<open>A run to the end: every name is submitted, and an event without a datagram ends its query.\<close>

lemma async_main_finish_one:
  assumes "async_main e m" "as_epoll (am_ctx m) = Map.empty" "am_todo m = d # ds"
  shows "\<exists>m'. async_main e m' \<and> am_todo m' = ds \<and> as_epoll (am_ctx m') = Map.empty"
proof -
  obtain n ids where inv: "am_inv e n ids m" using am_inv_reach [OF assms(1)] by blast
  then have o: "as_open (am_ctx m) = {}" using assms(2) by (simp add: am_inv_def Let_def)
  let ?env = sample_async_env and ?fd = "ae_socket sample_async_env"
  have sys: "system_answers ?env (am_ctx m)" by (simp add: system_answers_def sample_async_env_def o)
  obtain m1 ids1 where m1: "async_main_round e ?env m = Inr (Some m1)" "am_inv e (Suc n) ids1 m1" "am_todo m1 = ds"
    "as_open (am_ctx m1) = {?fd}"
    using am_submit_ok [OF inv sys assms(3)] o by metis
  have r1: "async_main e m1" by (rule am_submit [OF assms(1) sys m1(1)])
  have dom1: "dom (as_epoll (am_ctx m1)) = {?fd}" and i1: "async_inv (am_ctx m1)" using m1(2,4) by (auto simp: am_inv_def Let_def)
  then obtain ptr where ptr: "as_epoll (am_ctx m1) ?fd = Some ptr" by (auto simp: dom_def)
  then obtain dt where dt: "as_args (am_ctx m1) ptr = Some dt" using i1 unfolding async_inv_def by blast
  obtain s' where s': "proc_event e (\<lambda>_. True) None ptr (am_ctx m1) = Some (Inr s')" "as_epoll s' = (as_epoll (am_ctx m1))(?fd := None)"
    by (rule proc_event_ok [OF i1 ptr dt parse_empty])
  have "dom (as_epoll s') = {}" unfolding s'(2) using dom1 by simp
  then show ?thesis using am_event [OF r1 ptr s'(1)] m1(3) by (intro exI [of _ "m1\<lparr>am_ctx := s'\<rparr>"]) simp
qed

lemma async_main_finishes:
  "async_main e m \<Longrightarrow> as_epoll (am_ctx m) = Map.empty \<Longrightarrow> \<exists>m'. async_main e m' \<and> am_todo m' = [] \<and> as_epoll (am_ctx m') = Map.empty"
proof (induction "am_todo m" arbitrary: m)
  case Nil then show ?case by auto
next
  case (Cons d ds) then show ?case using async_main_finish_one by metis
qed


definition resolution_events :: "endian \<Rightarrow> dns_env \<Rightarrow> string \<Rightarrow> rr list \<Rightarrow> dns_event list" where
  "resolution_events e env d rrs =
     [EvSocket (e_socket env), EvConnect (e_connect env), EvSendto (query_wire e (e_random env) (labels_of d)), EvRecvfrom,
      EvReport (snd (rr_results (bytes_of d) rrs)), EvClose (e_socket env)]"

definition server_answers :: "dns_env \<Rightarrow> string \<Rightarrow> rr list \<Rightarrow> bool" where
  "server_answers env d rrs \<longleftrightarrow> 0 \<le> e_socket env \<and> e_strdup env \<and> e_calloc env = (\<lambda>_. True) \<and>
     (\<forall>n. \<exists>blk. e_malloc env n = Some blk \<and> length blk = n) \<and> list_all wf_rr rrs \<and> length rrs < 65536 \<and>
     (\<exists>h1 h2 qt. length h1 = 4 \<and> length h2 = 4 \<and> length qt = 4 \<and> length (encode_response h1 h2 (labels_of d) qt rrs) \<le> 1024 \<and>
        e_recv env = Some (encode_response h1 h2 (labels_of d) qt rrs))"

lemma commit_entry:
  assumes "server_answers env d rrs" "d \<in> set domain_table"
  shows "dns_client_commit e env (bytes_of d) = Some (Inr (Returned 0, resolution_events e env d rrs))"
proof -
  note t = table_entry [of d, unfolded async_domain_table_def, OF assms(2)]
  obtain h1 h2 qt where a: "length h1 = 4" "length h2 = 4" "length qt = 4"
    "length (encode_response h1 h2 (labels_of d) qt rrs) \<le> 1024" "e_recv env = Some (encode_response h1 h2 (labels_of d) qt rrs)"
    using assms(1) by (auto simp: server_answers_def)
  obtain blk where "e_malloc env (length (join_dots (labels_of d)) + 2) = Some blk" "length blk = length (join_dots (labels_of d)) + 2"
    using assms(1) by (auto simp: server_answers_def)
  from dns_client_commit_ok [OF t(1,3) _ _ a(1-3) this _ _ _ a(5,4)] assms(1) show ?thesis
    by (simp add: server_answers_def resolution_events_def t(2))
qed

lemma sync_loop_ok:
  assumes "\<And>k. k < length ds \<Longrightarrow> ds ! k \<in> set domain_table \<and> server_answers (env (i + k)) (ds ! k) (rrs (i + k))"
  shows "sync_loop e env i ds =
    Some (Inr (Returned 0, concat (map (\<lambda>k. resolution_events e (env (i + k)) (ds ! k) (rrs (i + k))) [0..<length ds])))"
  using assms
proof (induction ds arbitrary: i)
  case Nil
  then show ?case by simp
next
  case (Cons d ds)
  have "dns_client_commit e (env i) (bytes_of d) = Some (Inr (Returned 0, resolution_events e (env i) d (rrs i)))"
    using Cons.prems [of 0] by (intro commit_entry) auto
  moreover have "sync_loop e env (i + 1) ds =
      Some (Inr (Returned 0, concat (map (\<lambda>k. resolution_events e (env (i + 1 + k)) (ds ! k) (rrs (i + 1 + k))) [0..<length ds])))"
    using Cons.prems [of "Suc k" for k] by (intro Cons.IH) auto
  moreover have "[0..<length (d # ds)] = 0 # map Suc [0..<length ds]" by (simp add: upt_conv_Cons map_Suc_upt del: upt_Suc)
  ultimately show ?case by (simp add: o_def del: upt_Suc)
qed

text \<open>
  The synchronous program: when the system calls succeed and the server answers each query, \<open>main\<close>
  resolves all names of its table in order, each with the calls of one resolution, and reports
  exactly the addresses of the answers.
\<close>

theorem sync_main_correct:
  assumes "\<And>k. k < length domain_table \<Longrightarrow> server_answers (env k) (domain_table ! k) (rrs k)"
  shows "sync_main e env = Some (Inr (Returned 0,
    concat (map (\<lambda>k. resolution_events e (env k) (domain_table ! k) (rrs k)) [0..<length domain_table])))"
  using sync_loop_ok [of domain_table env 0 rrs e] assms by (simp add: sync_main_def)

definition quiet_env :: "nat \<Rightarrow> dns_env" where
  "quiet_env k = \<lparr>e_socket = 3, e_connect = 0, e_random = 258, e_malloc = (\<lambda>n. Some (replicate n 0xFF)), e_strdup = True,
     e_calloc = (\<lambda>_. True),
     e_recv = Some (encode_response [1, 2, 0x81, 0x80] [0, 0, 0, 0] (labels_of (domain_table ! k)) [0, 1, 0, 1] [])\<rparr>"

theorem sync_main_correct_witness:
  "\<exists>evs. sync_main BigEndian quiet_env = Some (Inr (Returned 0, evs)) \<and> length evs = 258 \<and>
     EvSendto (query_wire BigEndian 258 (labels_of ''www.baidu.com'')) \<in> set evs"
proof -
  have a: "server_answers (quiet_env k) (domain_table ! k) []" if "k < length domain_table" for k
  proof -
    let ?ls = "labels_of (domain_table ! k)"
    have t: "domain_table ! k \<in> set async_domain_table" using that by (simp add: async_domain_table_def)
    have "?ls \<noteq> []" using table_entry(1) [OF t] by (simp add: wf_labels_def)
    then have "length (wire_name ?ls) \<le> 1000" using length_wire_name [of ?ls] table_entry(3) [OF t] by simp
    then have "length (encode_response [1, 2, 0x81, 0x80] [0, 0, 0, 0] ?ls [0, 1, 0, 1] []) \<le> 1024"
      by (simp add: encode_response_def)
    then have "\<exists>h1 h2 qt. length h1 = 4 \<and> length h2 = 4 \<and> length qt = 4 \<and> length (encode_response h1 h2 ?ls qt []) \<le> 1024 \<and>
        e_recv (quiet_env k) = Some (encode_response h1 h2 ?ls qt [])"
      by (intro exI [of _ "[1, 2, 0x81, 0x80]"] exI [of _ "[0, 0, 0, 0]"] exI [of _ "[0, 1, 0, 1]"]) (simp add: quiet_env_def)
    then show ?thesis unfolding server_answers_def by (simp add: quiet_env_def)
  qed
  let ?evs = "concat (map (\<lambda>k. resolution_events BigEndian (quiet_env k) (domain_table ! k) []) [0..<length domain_table])"
  have l: "length domain_table = 43" "domain_table ! 0 = ''www.baidu.com''" by (simp_all add: domain_table_def)
  have "sync_main BigEndian quiet_env = Some (Inr (Returned 0, ?evs))" by (rule sync_main_correct) (rule a)
  moreover have "length ?evs = 258" by (simp add: length_concat o_def resolution_events_def l(1) sum_list_triv)
  moreover have "EvSendto (query_wire BigEndian 258 (labels_of ''www.baidu.com'')) \<in> set ?evs"
    using l by (auto simp: resolution_events_def quiet_env_def intro!: bexI [of _ 0])
  ultimately show ?thesis by blast
qed

end
