(* ===== verification/EchoServers.thy ===== *)
theory EchoServers
  imports Monitor
begin

text \<open>
  The single-threaded echo servers of \<open>src/network/echo/\<close>: with \<open>select\<close>
  (\<open>d3_select_echo_server.cpp\<close>), with \<open>poll\<close> (\<open>d4_poll_echo_server.cpp\<close>) and with \<open>epoll\<close>
  (\<open>d5_epoll_echo_server.cpp\<close>). One round of the endless loop is one step, from the answers of
  the kernel in that round; \<open>EchoQuit\<close> is the end of the process through \<open>err_sys\<close> or \<open>err_quit\<close>.
  Every server keeps a log of what it read, wrote and closed. The interface \<open>echo_server\<close> states
  what the three promise alike and is interpreted for each.
\<close>

section \<open>The echo contract\<close>

text \<open>
  What a server does, in order. \<open>Wr fd out n\<close> is a call of \<open>write\<close>: the bytes of the buffer offered and the
  number the call returned, which may be smaller, or -1; the programs ignore it.
\<close>

datatype echo_io = Rd int bytes | Wr int bytes int | Cl int | Ac int

text \<open>Every read is followed at once by a call of \<open>write\<close> with the same bytes for the same connection.\<close>

fun paired :: "echo_io list \<Rightarrow> bool" where
  "paired [] = True"
| "paired (Rd f bs # Wr g cs n # l) \<longleftrightarrow> f = g \<and> bs = cs \<and> paired l"
| "paired (Cl f # l) = paired l"
| "paired (Ac f # l) = paired l"
| "paired _ = False"

text \<open>The bytes read from a descriptor, those offered to it, and those it has taken.\<close>

fun received :: "int \<Rightarrow> echo_io list \<Rightarrow> bytes" where
  "received f [] = []"
| "received f (Rd g bs # l) = (if f = g then bs else []) @ received f l"
| "received f (_ # l) = received f l"

fun offered :: "int \<Rightarrow> echo_io list \<Rightarrow> bytes" where
  "offered f [] = []"
| "offered f (Wr g bs n # l) = (if f = g then bs else []) @ offered f l"
| "offered f (_ # l) = offered f l"

fun written :: "int \<Rightarrow> echo_io list \<Rightarrow> bytes" where
  "written f [] = []"
| "written f (Wr g bs n # l) = (if f = g then take (nat n) bs else []) @ written f l"
| "written f (_ # l) = written f l"

text \<open>No \<open>write\<close> to the descriptor was short or failed.\<close>

fun complete :: "int \<Rightarrow> echo_io list \<Rightarrow> bool" where
  "complete f [] = True"
| "complete f (Wr g bs n # l) \<longleftrightarrow> (f = g \<longrightarrow> length bs \<le> nat n) \<and> complete f l"
| "complete f (_ # l) = complete f l"

lemma log_append [simp]:
  "received f (l @ l') = received f l @ received f l'" "offered f (l @ l') = offered f l @ offered f l'"
  "written f (l @ l') = written f l @ written f l'" "complete f (l @ l') \<longleftrightarrow> complete f l \<and> complete f l'"
     apply (induction l rule: received.induct; simp)
    apply (induction l rule: offered.induct; simp)
   apply (induction l rule: written.induct; simp)
  apply (induction l rule: complete.induct; simp)
  done

lemma written_le: "length (written f l) \<le> length (offered f l)"
proof (induction f l rule: written.induct)
  case (2 f g bs n l)
  have "length (take (nat n) bs) \<le> length bs" by simp
  then show ?case using 2 by (cases "f = g") auto
qed auto

text \<open>What the descriptor has taken is everything offered exactly when no \<open>write\<close> was short: what one call leaves is lost.\<close>

lemma written_iff_complete: "written f l = offered f l \<longleftrightarrow> complete f l"
proof (induction f l rule: complete.induct)
  case (2 f g bs n l)
  show ?case
  proof (cases "f = g \<and> \<not> length bs \<le> nat n")
    case True
    have "length (take (nat n) bs) < length bs" using True by auto
    then have "length (written f (Wr g bs n # l)) < length (offered f (Wr g bs n # l))"
      using True written_le [of f l] by auto
    then have "written f (Wr g bs n # l) \<noteq> offered f (Wr g bs n # l)" by (metis less_irrefl)
    then show ?thesis using True by simp
  next
    case False then show ?thesis using 2 by (cases "f = g") auto
  qed
qed auto

lemma paired_append: "paired l \<Longrightarrow> paired l' \<Longrightarrow> paired (l @ l')"
  by (induction l rule: paired.induct) auto

lemma paired_echo: "paired l \<Longrightarrow> offered f l = received f l"
  by (induction l rule: paired.induct) auto

definition BUFFER_LENGTH :: nat where "BUFFER_LENGTH = 1024"

locale echo_server =
  fixes init :: "'s \<Rightarrow> bool" and step :: "'s \<Rightarrow> 's \<Rightarrow> bool" and log :: "'s \<Rightarrow> echo_io list" and buf :: "'s \<Rightarrow> bytes"
  assumes init_log: "init s \<Longrightarrow> log s = [] \<and> length (buf s) = BUFFER_LENGTH"
    and step_log: "step s s' \<Longrightarrow> \<exists>l. log s' = log s @ l \<and> paired l \<and> length (buf s') = length (buf s)"
begin

lemma log_paired: "reachable init step s \<Longrightarrow> paired (log s) \<and> length (buf s) = BUFFER_LENGTH"
proof (induction rule: reachable.induct)
  case (reach_init s) then show ?case using init_log by simp
next
  case (reach_step s s') then show ?case using step_log [OF reach_step(2)] by (auto intro: paired_append)
qed

lemma echo:
  "reachable init step s \<Longrightarrow> offered f (log s) = received f (log s) \<and> (written f (log s) = received f (log s) \<longleftrightarrow> complete f (log s))"
  using log_paired paired_echo written_iff_complete by metis

end

text \<open>\<open>write(sockfd, buf, n)\<close> after \<open>read\<close> has stored \<open>bs\<close> in \<open>buf\<close>: the new buffer and what happened.\<close>

definition echo_back :: "int \<Rightarrow> bytes \<Rightarrow> int \<Rightarrow> bytes \<Rightarrow> (bytes \<times> echo_io list) c_res" where
  "echo_back sockfd bs n buf =
     bind_err (mem_write buf 0 bs) (\<lambda>buf'.
     bind_err (mem_read buf' 0 (length bs)) (\<lambda>out. Inr (buf', [Rd sockfd bs, Wr sockfd out n])))"

lemma echo_back_log: "echo_back fd bs n buf = Inr (buf', l) \<Longrightarrow> paired l \<and> length buf' = length buf"
  by (auto simp: echo_back_def bind_err_eq_Inr dest: mem_write_read mem_write_length)

lemma echo_back_total:
  assumes "length bs \<le> length buf"
  obtains buf' where "echo_back fd bs n buf = Inr (buf', [Rd fd bs, Wr fd bs n])" "length buf' = length buf"
proof -
  obtain buf' where b: "mem_write buf 0 bs = Inr buf'" using mem_write_defined [of 0 bs buf] assms by auto
  then show thesis using mem_write_read [OF b] mem_write_length [OF b] by (intro that [of buf']) (simp_all add: echo_back_def)
qed

datatype 's echo_flow = EchoRun 's | EchoQuit 's

text \<open>A round: the new connection first, then, unless it ends the round, the clients.\<close>

definition echo_round :: "(bool \<times> 's echo_flow) c_res \<Rightarrow> ('s \<Rightarrow> 's c_res) \<Rightarrow> 's echo_flow c_res" where
  "echo_round acc clients =
     bind_err acc (\<lambda>(go, f).
       case f of
         EchoQuit s1 \<Rightarrow> Inr (EchoQuit s1)
       | EchoRun s1 \<Rightarrow> if \<not> go then Inr (EchoRun s1) else bind_err (clients s1) (\<lambda>s2. Inr (EchoRun s2)))"

lemma echo_roundE:
  assumes "echo_round acc k = Inr (EchoRun s')"
  obtains "acc = Inr (False, EchoRun s')" | s1 where "acc = Inr (True, EchoRun s1)" "k s1 = Inr s'"
proof (cases acc)
  case (Inl e) then show thesis using assms by (simp add: echo_round_def)
next
  case (Inr p)
  obtain go f where p: "p = (go, f)" by (cases p)
  then show thesis
    using assms that Inr by (cases f; cases go) (auto simp: echo_round_def bind_err_eq_Inr)
qed

lemma echo_round_total:
  "(\<And>s1. g = EchoRun s1 \<Longrightarrow> \<exists>s2. k s1 = Inr s2) \<Longrightarrow> \<exists>f. echo_round (Inr (go, g)) k = Inr f"
  by (cases g) (auto simp: echo_round_def)

record echo_answers =
  an_ready :: "int set"                 \<comment> \<open>the descriptors reported ready\<close>
  an_nready :: int                      \<comment> \<open>the number reported\<close>
  an_accept :: int                      \<comment> \<open>what \<open>accept\<close> returns\<close>
  an_errno :: int                       \<comment> \<open>and \<open>errno\<close> after it\<close>
  an_read :: "int \<Rightarrow> recv_res"          \<comment> \<open>what \<open>read\<close> delivers on a descriptor\<close>
  an_write :: "int \<Rightarrow> int"              \<comment> \<open>what \<open>write\<close> returns on a descriptor\<close>

definition ECHO_EINTR :: int where "ECHO_EINTR = 4"
definition FD_SETSIZE :: nat where "FD_SETSIZE = 1024"
definition MAX_POLL_SIZE :: nat where "MAX_POLL_SIZE = 4096"

text \<open>The bytes a \<open>read\<close> of at most \<open>BUFFER_LENGTH\<close> bytes returns; \<open>None\<close> for the end or an error.\<close>

definition read_bytes :: "recv_res \<Rightarrow> bytes option" where
  "read_bytes r = (case r of RecvError _ \<Rightarrow> None
                           | RecvBytes bs \<Rightarrow> let c = take BUFFER_LENGTH bs in if c = [] then None else Some c)"

lemma read_bytes_le: "read_bytes r = Some bs \<Longrightarrow> length bs \<le> BUFFER_LENGTH"
  by (auto simp: read_bytes_def Let_def split: recv_res.splits if_splits)

section \<open>The server with select\<close>

text \<open>An indeterminate element of the array \<open>client\<close> is \<open>None\<close>.\<close>

record sel_state =
  sl_client :: "int option list"
  sl_allset :: "int set"
  sl_maxfd :: int
  sl_maxidx :: int
  sl_listen :: int
  sl_buf :: bytes
  sl_log :: "echo_io list"

text \<open>
  \<open>memset(client, -1, FD_SETSIZE)\<close> sets \<open>FD_SETSIZE\<close> bytes, the first quarter of the array. The buffer has
  any contents. \<open>FD_SET\<close>, \<open>FD_ISSET\<close> and \<open>FD_CLR\<close> index the bits of the set by the descriptor.
\<close>

definition in_fd_set :: "int \<Rightarrow> bool" where
  "in_fd_set fd \<longleftrightarrow> 0 \<le> fd \<and> fd < int FD_SETSIZE"

definition sel_new :: "int \<Rightarrow> bytes \<Rightarrow> sel_state" where
  "sel_new listenfd buf = \<lparr>sl_client = replicate (FD_SETSIZE div 4) (Some (-1)) @ replicate (FD_SETSIZE - FD_SETSIZE div 4) None,
     sl_allset = {listenfd}, sl_maxfd = listenfd, sl_maxidx = -1, sl_listen = listenfd, sl_buf = buf, sl_log = []\<rparr>"

fun sel_find :: "nat \<Rightarrow> int option list \<Rightarrow> nat c_res" where
  "sel_find i [] = Inr i"
| "sel_find i (None # cs) = Inl (Uninit i)"
| "sel_find i (Some c # cs) = (if c < 0 then Inr i else sel_find (i + 1) cs)"

text \<open>The new connection; the flag says that the round goes on with the clients.\<close>

definition sel_accept :: "echo_answers \<Rightarrow> sel_state \<Rightarrow> (bool \<times> sel_state echo_flow) c_res" where
  "sel_accept a s =
     (let connfd = an_accept a in
      if connfd < 0 then Inr (False, if an_errno a = ECHO_EINTR then EchoRun s else EchoQuit s)
      else
        bind_err (sel_find 0 (sl_client s)) (\<lambda>i.
          if i = FD_SETSIZE then Inr (False, EchoQuit s)
          else if \<not> in_fd_set connfd then Inl (OutOfBounds (nat connfd))
          else Inr (an_nready a - 1 > 0,
                 EchoRun (s\<lparr>sl_client := (sl_client s)[i := Some connfd],
                            sl_allset := insert connfd (sl_allset s),
                            sl_maxfd := max (sl_maxfd s) connfd,
                            sl_maxidx := max (sl_maxidx s) (int i),
                            sl_log := sl_log s @ [Ac connfd]\<rparr>))))"

definition sel_serve :: "echo_answers \<Rightarrow> nat \<Rightarrow> int \<Rightarrow> sel_state \<Rightarrow> sel_state c_res" where
  "sel_serve a i sockfd s =
     (case read_bytes (an_read a sockfd) of
        None \<Rightarrow> Inr (s\<lparr>sl_client := (sl_client s)[i := Some (-1)], sl_allset := sl_allset s - {sockfd},
                       sl_log := sl_log s @ [Cl sockfd]\<rparr>)
      | Some bs \<Rightarrow> bind_err (echo_back sockfd bs (an_write a sockfd) (sl_buf s)) (\<lambda>(buf, l).
          Inr (s\<lparr>sl_buf := buf, sl_log := sl_log s @ l\<rparr>)))"

fun sel_clients :: "echo_answers \<Rightarrow> nat list \<Rightarrow> int \<Rightarrow> sel_state \<Rightarrow> sel_state c_res" where
  "sel_clients a [] n s = Inr s"
| "sel_clients a (i # is) n s =
     bind_err (mem_get (sl_client s) i) (\<lambda>c.
       case c of
         None \<Rightarrow> Inl (Uninit i)
       | Some sockfd \<Rightarrow>
           if sockfd < 0 then sel_clients a is n s
           else if \<not> in_fd_set sockfd then Inl (OutOfBounds (nat sockfd))
           else if sockfd \<in> an_ready a then
             bind_err (sel_serve a i sockfd s) (\<lambda>s1.
               if n - 1 \<le> 0 then Inr s1 else sel_clients a is (n - 1) s1)
           else sel_clients a is n s)"

definition sel_round :: "echo_answers \<Rightarrow> sel_state \<Rightarrow> sel_state echo_flow c_res" where
  "sel_round a s =
     (let new = sl_listen s \<in> an_ready a;
          n = (if new then an_nready a - 1 else an_nready a) in
      echo_round (if new then sel_accept a s else Inr (True, EchoRun s))
        (\<lambda>s1. sel_clients a [0..<nat (sl_maxidx s1 + 1)] n s1))"

definition sel_step :: "sel_state \<Rightarrow> sel_state \<Rightarrow> bool" where
  "sel_step s s' \<longleftrightarrow> (\<exists>a. sel_round a s = Inr (EchoRun s'))"

text \<open>\<open>main\<close> up to the loop, from the answers of \<open>socket\<close> and \<open>bind\<close>: the exit code, or the state the loop starts in.\<close>

definition sel_setup :: "int \<Rightarrow> int \<Rightarrow> bytes \<Rightarrow> (int + sel_state) c_res" where
  "sel_setup listenfd bound buf =
     (if listenfd = -1 then Inr (Inl (-1))
      else if bound = -1 then Inr (Inl (-2))
      else if \<not> in_fd_set listenfd then Inl (OutOfBounds (nat listenfd))
      else Inr (Inr (sel_new listenfd buf)))"

definition sel_init :: "int \<Rightarrow> sel_state \<Rightarrow> bool" where
  "sel_init listenfd s \<longleftrightarrow> (\<exists>buf. length buf = BUFFER_LENGTH \<and> sel_setup listenfd 0 buf = Inr (Inr s))"

lemma sel_initD: "sel_init lfd s \<Longrightarrow> \<exists>buf. length buf = BUFFER_LENGTH \<and> s = sel_new lfd buf"
  by (auto simp: sel_init_def sel_setup_def split: if_splits)

lemma sel_serve_log: "sel_serve a i c s = Inr s' \<Longrightarrow> \<exists>l. sl_log s' = sl_log s @ l \<and> paired l \<and> length (sl_buf s') = length (sl_buf s)"
  by (auto simp: sel_serve_def bind_err_eq_Inr dest!: echo_back_log split: option.splits)

lemma sel_clients_log:
  "sel_clients a is n s = Inr s' \<Longrightarrow> \<exists>l. sl_log s' = sl_log s @ l \<and> paired l \<and> length (sl_buf s') = length (sl_buf s)"
proof (induction "is" arbitrary: n s)
  case Nil then show ?case by auto
next
  case (Cons i "is")
  obtain c where c: "mem_get (sl_client s) i = Inr (Some c)"
    using Cons.prems by (auto simp: bind_err_eq_Inr split: option.splits)
  consider "sel_clients a is n s = Inr s'"
    | s1 where "sel_serve a i c s = Inr s1" "s' = s1 \<or> sel_clients a is (n - 1) s1 = Inr s'"
    using Cons.prems c by (auto simp: bind_err_eq_Inr split: if_splits)
  then show ?case
  proof cases
    case 1 then show ?thesis by (rule Cons.IH)
  next
    case (2 s1)
    obtain l1 where l1: "sl_log s1 = sl_log s @ l1" "paired l1" "length (sl_buf s1) = length (sl_buf s)"
      using sel_serve_log [OF 2(1)] by blast
    show ?thesis using 2(2) l1 Cons.IH [of "n - 1" s1] paired_append by auto
  qed
qed

lemma sel_accept_log:
  "sel_accept a s = Inr (go, EchoRun s') \<Longrightarrow> \<exists>l. sl_log s' = sl_log s @ l \<and> paired l \<and> length (sl_buf s') = length (sl_buf s)"
  by (auto simp: sel_accept_def Let_def bind_err_eq_Inr split: if_splits)

lemma sel_round_log:
  assumes "sel_round a s = Inr (EchoRun s')"
  shows "\<exists>l. sl_log s' = sl_log s @ l \<and> paired l \<and> length (sl_buf s') = length (sl_buf s)"
  using assms [unfolded sel_round_def Let_def]
proof (cases rule: echo_roundE)
  case 1
  then show ?thesis using sel_accept_log [of a s False s'] by (auto split: if_splits)
next
  case (2 s1)
  obtain l1 where l1: "sl_log s1 = sl_log s @ l1" "paired l1" "length (sl_buf s1) = length (sl_buf s)"
    using 2(1) sel_accept_log [of a s True s1] by (auto split: if_splits)
  show ?thesis using sel_clients_log [OF 2(2)] l1 paired_append by auto
qed

interpretation sel: echo_server "sel_init lfd" sel_step sl_log sl_buf
  by unfold_locales (auto simp: sel_new_def sel_step_def dest: sel_initD intro: sel_round_log)

subsection \<open>Indeterminate elements\<close>

lemma sel_find_cases:
  "sel_find k cs = Inr i \<Longrightarrow> k \<le> i \<and> i \<le> k + length cs \<and>
     (\<forall>j<i - k. \<exists>c\<ge>0. cs ! j = Some c) \<and> (i < k + length cs \<longrightarrow> (\<exists>c<0. cs ! (i - k) = Some c))"
proof (induction k cs rule: sel_find.induct)
  case (3 k c cs)
  show ?case
  proof (cases "c < 0")
    case True then show ?thesis using 3 by simp
  next
    case False
    then have h: "Suc k \<le> i" "i \<le> Suc k + length cs" "\<forall>j<i - Suc k. \<exists>c\<ge>0. cs ! j = Some c"
      "i < Suc k + length cs \<longrightarrow> (\<exists>c<0. cs ! (i - Suc k) = Some c)"
      using 3 by auto
    have "\<exists>c'\<ge>0. (Some c # cs) ! j = Some c'" if "j < i - k" for j
      using that h(1,3) False by (cases j) auto
    moreover have "(Some c # cs) ! (i - k) = cs ! (i - Suc k)" using h(1) by (simp add: nth_Cons')
    ultimately show ?thesis using h by auto
  qed
qed simp_all

lemma sel_find_defined:
  "j < length cs \<Longrightarrow> (\<forall>i\<le>j. cs ! i \<noteq> None) \<Longrightarrow> cs ! j = Some c \<Longrightarrow> c < 0 \<Longrightarrow> \<exists>i\<le>k + j. sel_find k cs = Inr i"
proof (induction k cs arbitrary: j rule: sel_find.induct)
  case (3 k d cs)
  show ?case
  proof (cases "d < 0")
    case False
    then obtain j' where "j = Suc j'" using 3(4,5) by (cases j) auto
    then show ?thesis using 3 False by fastforce
  qed auto
next
  case (2 k cs) then show ?case by (auto dest: spec [of _ 0])
qed simp

lemma sel_find_full:
  "m < length cs \<Longrightarrow> (\<forall>i<m. \<exists>c\<ge>0. cs ! i = Some c) \<Longrightarrow> cs ! m = None \<Longrightarrow> sel_find k cs = Inl (Uninit (k + m))"
proof (induction k cs arbitrary: m rule: sel_find.induct)
  case (3 k d cs)
  then obtain m' where m: "m = Suc m'" by (cases m) auto
  then have "0 \<le> d" using 3(3) by (auto dest: spec [of _ 0])
  moreover have "\<forall>i<m'. \<exists>c\<ge>0. cs ! i = Some c" using 3(3) m by auto
  ultimately show ?case using 3(1) [of m'] 3(2,4) m by simp
next
  case (2 k cs) then show ?case by (cases m) auto
qed simp

text \<open>
  The first 256 elements of \<open>client\<close> are always determinate, the others never: the server cannot
  get past the first indeterminate one. Every client is a bit of the descriptor set.
\<close>

definition sel_inv :: "sel_state \<Rightarrow> bool" where
  "sel_inv s \<longleftrightarrow> length (sl_client s) = FD_SETSIZE \<and> sl_maxidx s < 256 \<and> length (sl_buf s) = BUFFER_LENGTH \<and>
     (\<forall>i<FD_SETSIZE. sl_client s ! i = None \<longleftrightarrow> 256 \<le> i) \<and> (\<forall>c. Some c \<in> set (sl_client s) \<longrightarrow> c < int FD_SETSIZE)"

lemma sel_inv_update:
  assumes "sel_inv s" "i < 256" "c < int FD_SETSIZE" "m < 256"
  shows "sel_inv (s\<lparr>sl_client := (sl_client s)[i := Some c], sl_allset := A, sl_maxfd := f, sl_maxidx := m, sl_log := l\<rparr>)"
  using assms set_update_subset_insert [of "sl_client s" i "Some c"]
  by (auto simp: sel_inv_def nth_list_update FD_SETSIZE_def)

lemma sel_serve_inv:
  assumes "sel_inv s" "i < 256"
  shows "\<exists>s'. sel_serve a i c s = Inr s' \<and> sel_inv s'"
proof (cases "read_bytes (an_read a c)")
  case None
  have "sel_inv (s\<lparr>sl_client := (sl_client s)[i := Some (-1)], sl_allset := sl_allset s - {c}, sl_maxfd := sl_maxfd s,
      sl_maxidx := sl_maxidx s, sl_log := sl_log s @ [Cl c]\<rparr>)"
    using assms by (intro sel_inv_update) (auto simp: sel_inv_def FD_SETSIZE_def)
  then show ?thesis using None by (simp add: sel_serve_def)
next
  case (Some bs)
  have "length bs \<le> length (sl_buf s)" using read_bytes_le [OF Some] assms(1) by (simp add: sel_inv_def)
  then obtain buf where "echo_back c bs (an_write a c) (sl_buf s) = Inr (buf, [Rd c bs, Wr c bs (an_write a c)])"
    "length buf = length (sl_buf s)" by (rule echo_back_total)
  then show ?thesis using Some assms by (auto simp: sel_serve_def sel_inv_def)
qed

lemma sel_clients_inv:
  "sel_inv s \<Longrightarrow> \<forall>i\<in>set is. i < 256 \<Longrightarrow> \<exists>s'. sel_clients a is n s = Inr s' \<and> sel_inv s'"
proof (induction "is" arbitrary: n s)
  case Nil then show ?case by simp
next
  case (Cons i "is")
  have i: "i < 256" "\<forall>i\<in>set is. i < 256" using Cons.prems(2) by auto
  have "i < length (sl_client s)" "sl_client s ! i \<noteq> None" using Cons.prems(1) i by (auto simp: sel_inv_def FD_SETSIZE_def)
  then obtain c where c: "mem_get (sl_client s) i = Inr (Some c)" "Some c \<in> set (sl_client s)"
    by (auto simp: mem_get_def) (metis nth_mem)
  have r: "0 \<le> c \<Longrightarrow> in_fd_set c" using c(2) Cons.prems(1) by (simp add: sel_inv_def in_fd_set_def)
  obtain s1 where s1: "sel_serve a i c s = Inr s1" "sel_inv s1" using sel_serve_inv [OF Cons.prems(1) i(1)] by blast
  show ?case using c(1) r s1 Cons.IH [OF Cons.prems(1) i(2), of n] Cons.IH [OF s1(2) i(2), of "n - 1"] Cons.prems(1) by auto
qed

lemma sel_inv_range: "sel_inv s \<Longrightarrow> \<forall>i\<in>set [0..<nat (sl_maxidx s + 1)]. i < 256"
  by (auto simp: sel_inv_def)

lemma sel_accept_inv:
  assumes "sel_inv s" "sel_accept a s = Inr (go, EchoRun s')"
  shows "sel_inv s'"
proof (cases "an_accept a < 0")
  case True
  then show ?thesis using assms by (auto simp: sel_accept_def split: if_splits)
next
  case False
  then obtain i where i: "sel_find 0 (sl_client s) = Inr i" "i \<noteq> FD_SETSIZE"
    and s': "s' = s\<lparr>sl_client := (sl_client s)[i := Some (an_accept a)], sl_allset := insert (an_accept a) (sl_allset s),
      sl_maxfd := max (sl_maxfd s) (an_accept a), sl_maxidx := max (sl_maxidx s) (int i), sl_log := sl_log s @ [Ac (an_accept a)]\<rparr>"
    using assms(2) by (auto simp: sel_accept_def Let_def bind_err_eq_Inr split: if_splits)
  have "i < FD_SETSIZE" "\<exists>c. sl_client s ! i = Some c"
    using sel_find_cases [OF i(1)] i(2) assms(1) by (auto simp: sel_inv_def)
  then have "i < 256" using assms(1) by (auto simp: sel_inv_def not_less)
  moreover have "an_accept a < int FD_SETSIZE"
    using assms(2) False i by (auto simp: sel_accept_def in_fd_set_def Let_def split: if_splits)
  ultimately show ?thesis unfolding s' using assms(1) by (intro sel_inv_update) (auto simp: sel_inv_def)
qed

lemma sel_reach_inv: "reachable (sel_init lfd) sel_step s \<Longrightarrow> sel_inv s"
proof (erule reachable_invariant)
  fix s
  show "sel_init lfd s \<Longrightarrow> sel_inv s" by (drule sel_initD) (auto simp: sel_new_def sel_inv_def FD_SETSIZE_def nth_append split: if_splits)
next
  fix s s'
  assume inv: "sel_inv s" and st: "sel_step s s'"
  then obtain a where r: "sel_round a s = Inr (EchoRun s')" by (auto simp: sel_step_def)
  show "sel_inv s'"
    using r [unfolded sel_round_def Let_def]
  proof (cases rule: echo_roundE)
    case 1 then show ?thesis using sel_accept_inv [OF inv] by (auto split: if_splits)
  next
    case (2 s1)
    have inv1: "sel_inv s1" using 2(1) sel_accept_inv [OF inv, of a True s1] inv by (auto split: if_splits)
    then show ?thesis using sel_clients_inv [OF inv1 sel_inv_range [OF inv1]] 2(2) by (metis sum.inject(2))
  qed
qed

text \<open>
  The descriptors the process has open in a state: those it was started with, the listening socket
  and the clients. The kernel hands out the lowest number that is not open.
\<close>

definition sel_open :: "int set \<Rightarrow> sel_state \<Rightarrow> int set" where
  "sel_open base s = insert (sl_listen s) (base \<union> {c. 0 \<le> c \<and> Some c \<in> set (sl_client s)})"

definition lowest_free :: "int set \<Rightarrow> int \<Rightarrow> bool" where
  "lowest_free A fd \<longleftrightarrow> 0 \<le> fd \<and> fd \<notin> A \<and> (\<forall>d. 0 \<le> d \<and> d < fd \<longrightarrow> d \<in> A)"

lemma lowest_free_le:
  assumes "lowest_free A fd" "finite A"
  shows "fd \<le> int (card A)"
proof -
  have "{0..<fd} \<subseteq> A" using assms(1) by (auto simp: lowest_free_def)
  from card_mono [OF assms(2) this] show ?thesis using assms(1) by (simp add: lowest_free_def)
qed

text \<open>There are at most 256 clients.\<close>

lemma sel_open_card:
  assumes "sel_inv s" "finite base"
  shows "finite (sel_open base s) \<and> card (sel_open base s) \<le> card base + 257"
proof -
  let ?C = "{c. 0 \<le> c \<and> Some c \<in> set (sl_client s)}"
  have "Some c \<in> set (take 256 (sl_client s))" if m: "Some c \<in> set (sl_client s)" for c
  proof -
    obtain i where i: "i < length (sl_client s)" "sl_client s ! i = Some c" using m by (auto simp: in_set_conv_nth)
    then have "i < 256" using assms(1) by (auto simp: sel_inv_def not_le [symmetric])
    then show ?thesis using i by (auto simp: in_set_conv_nth intro!: exI [of _ i])
  qed
  then have sub: "?C \<subseteq> the ` set (take 256 (sl_client s))" by (force intro: rev_image_eqI)
  then have fin: "finite ?C" by (rule finite_subset) simp
  have "card ?C \<le> card (the ` set (take 256 (sl_client s)))" by (rule card_mono [OF _ sub]) simp
  also have "\<dots> \<le> 256"
    using card_image_le [of "set (take 256 (sl_client s))" the] card_length [of "take 256 (sl_client s)"] by simp
  finally have C: "card ?C \<le> 256" .
  have "card (sel_open base s) \<le> Suc (card (base \<union> ?C))" unfolding sel_open_def using assms(2) fin by (simp add: card_insert_if)
  also have "\<dots> \<le> Suc (card base + card ?C)" using card_Un_le [of base ?C] by simp
  finally show ?thesis using C assms(2) fin by (simp add: sel_open_def)
qed

lemma sel_find_free:
  assumes "sel_inv s" "k < 256" "sl_client s ! k = Some c" "c < 0"
  shows "\<exists>i. sel_find 0 (sl_client s) = Inr i"
proof -
  have "k < length (sl_client s)" "\<forall>i\<le>k. sl_client s ! i \<noteq> None"
    using assms(1,2) by (auto simp: sel_inv_def FD_SETSIZE_def)
  from sel_find_defined [OF this assms(3,4), of 0] show ?thesis by auto
qed

text \<open>
  C21. The server with \<open>select\<close>, started with at most 766 open descriptors, on a kernel that gives the listening
  socket and every connection the lowest descriptor that is not open: the set-up and, while one
  of the first 256 places of the client array is free, every round ends without reading an
  indeterminate element and without leaving the client array, the descriptor set or the buffer.
  That every descriptor is a bit of the set follows from the number of clients.
\<close>

theorem select_server_safe:
  assumes "finite base" "card base \<le> 766" "lowest_free base lfd" "reachable (sel_init lfd) sel_step s"
    and "an_accept a < 0 \<or> lowest_free (sel_open base s) (an_accept a)"
    and "k < 256" "sl_client s ! k = Some c" "c < 0"
  shows "(\<exists>r. sel_setup lfd bound buf = Inr r) \<and> (\<exists>f. sel_round a s = Inr f)"
proof
  have "in_fd_set lfd" using lowest_free_le [OF assms(3,1)] assms(2,3) by (simp add: in_fd_set_def lowest_free_def FD_SETSIZE_def)
  then show "\<exists>r. sel_setup lfd bound buf = Inr r" by (simp add: sel_setup_def)
  have inv: "sel_inv s" using assms(4) by (rule sel_reach_inv)
  have fd: "in_fd_set (an_accept a)" if "0 \<le> an_accept a"
    using that assms(2,5) sel_open_card [OF inv assms(1)] lowest_free_le [of "sel_open base s" "an_accept a"]
    by (auto simp: in_fd_set_def FD_SETSIZE_def)
  have acc: "\<exists>go f. sel_accept a s = Inr (go, f)"
    using sel_find_free [OF inv assms(6-8)] fd by (auto simp: sel_accept_def Let_def)
  have k: "\<exists>s2. sel_clients a [0..<nat (sl_maxidx s1 + 1)] n s1 = Inr s2" if "sel_inv s1" for s1 n
    using sel_clients_inv [OF that sel_inv_range [OF that]] by blast
  have "\<exists>go g. (if sl_listen s \<in> an_ready a then sel_accept a s else Inr (True, EchoRun s)) = Inr (go, g) \<and>
      (\<forall>s1. g = EchoRun s1 \<longrightarrow> sel_inv s1)"
    using acc sel_accept_inv [OF inv] inv by auto
  then show "\<exists>f. sel_round a s = Inr f"
    unfolding sel_round_def Let_def using k by (auto intro!: echo_round_total)
qed

definition quiet_answers :: echo_answers where
  "quiet_answers = \<lparr>an_ready = {}, an_nready = 0, an_accept = -1, an_errno = 0, an_read = (\<lambda>_. RecvError 0), an_write = (\<lambda>_. -1)\<rparr>"

definition zero_buffer :: bytes where
  "zero_buffer = replicate BUFFER_LENGTH 0"

lemma length_zero_buffer [simp]: "length zero_buffer = BUFFER_LENGTH"
  by (simp add: zero_buffer_def)

text \<open>
  The 257th simultaneous client: when the first 256 places are taken, accepting a further
  connection reads \<open>client[256]\<close>, which \<open>memset\<close> has left indeterminate.
\<close>

theorem select_server_257th:
  assumes "reachable (sel_init lfd) sel_step s" "\<forall>i<256. \<exists>c\<ge>0. sl_client s ! i = Some c"
    and "sl_listen s \<in> an_ready a" "0 \<le> an_accept a"
  shows "sel_round a s = Inl (Uninit 256)"
proof -
  have inv: "sel_inv s" using assms(1) by (rule sel_reach_inv)
  then have "256 < length (sl_client s)" "sl_client s ! 256 = None" by (auto simp: sel_inv_def FD_SETSIZE_def)
  from sel_find_full [OF this(1) assms(2) this(2), of 0] show ?thesis
    using assms(3,4) by (simp add: sel_round_def sel_accept_def echo_round_def Let_def)
qed

text \<open>A server with \<open>n\<close> clients on the descriptors from 4 on.\<close>

definition sel_with :: "nat \<Rightarrow> sel_state" where
  "sel_with n = \<lparr>sl_client = map (\<lambda>i. Some (int i + 4)) [0..<n] @ replicate (256 - n) (Some (-1)) @ replicate 768 None,
     sl_allset = {3} \<union> {4..<int n + 4}, sl_maxfd = int n + 3, sl_maxidx = int n - 1, sl_listen = 3, sl_buf = zero_buffer,
     sl_log = map (\<lambda>i. Ac (int i + 4)) [0..<n]\<rparr>"

lemma sel_find_used: "sel_find k (map (\<lambda>i. Some (int i + 4)) xs @ cs) = sel_find (k + length xs) cs"
  by (induction xs arbitrary: k) auto

lemma sel_with_step:
  assumes "n < 256"
  shows "sel_step (sel_with n) (sel_with (Suc n))"
proof -
  let ?a = "quiet_answers\<lparr>an_ready := {3}, an_accept := int n + 4, an_nready := 1\<rparr>"
  obtain m where m: "256 - n = Suc m" "m = 256 - Suc n" using assms by (cases "256 - n") auto
  have f: "sel_find 0 (sl_client (sel_with n)) = Inr n" using m by (simp add: sel_with_def sel_find_used)
  have c: "(sl_client (sel_with n))[n := Some (int n + 4)] = sl_client (sel_with (Suc n))"
    using m by (simp add: sel_with_def list_update_append)
  have "sel_round ?a (sel_with n) = Inr (EchoRun (sel_with (Suc n)))"
    using f c assms
    by (simp add: sel_round_def sel_accept_def echo_round_def quiet_answers_def Let_def FD_SETSIZE_def in_fd_set_def)
      (auto simp: sel_with_def)
  then show ?thesis by (auto simp: sel_step_def)
qed

lemma sel_with_reachable: "n \<le> 256 \<Longrightarrow> reachable (sel_init 3) sel_step (sel_with n)"
proof (induction n)
  case 0
  have "sel_with 0 = sel_new 3 zero_buffer" by (simp add: sel_with_def sel_new_def FD_SETSIZE_def)
  then show ?case
    by (intro reach_init) (auto simp: sel_init_def sel_setup_def in_fd_set_def FD_SETSIZE_def intro!: exI [of _ zero_buffer])
next
  case (Suc n) then show ?case using sel_with_step [of n] by (auto intro: reach_step)
qed

lemma sel_with_listen: "sl_listen (sel_with n) = 3"
  by (simp add: sel_with_def)

theorem select_server_safe_witness:
  "\<exists>f. sel_round (quiet_answers\<lparr>an_ready := {3, 5}, an_nready := 2, an_accept := 6, an_read := (\<lambda>_. RecvBytes [104])\<rparr>)
     (sel_with 2) = Inr f"
proof -
  let ?a = "quiet_answers\<lparr>an_ready := {3, 5}, an_nready := 2, an_accept := 6, an_read := (\<lambda>_. RecvBytes [104])\<rparr>"
  have "[0..<2] = [0, 1 :: nat]" by (simp add: numeral_2_eq_2)
  then have "set (sl_client (sel_with 2)) = {Some 4, Some 5, Some (-1), None}" by (auto simp: sel_with_def)
  then have "sel_open {0, 1, 2} (sel_with 2) = {0, 1, 2, 3, 4, 5}" using sel_with_listen [of 2] by (auto simp: sel_open_def)
  then have "lowest_free (sel_open {0, 1, 2} (sel_with 2)) (an_accept ?a)" by (simp add: lowest_free_def) presburger
  moreover have "lowest_free {0, 1, 2} 3" by (simp add: lowest_free_def) presburger
  moreover have "reachable (sel_init 3) sel_step (sel_with 2)" by (rule sel_with_reachable) simp
  moreover have "sl_client (sel_with 2) ! 2 = Some (-1)" by (simp add: sel_with_def nth_append)
  ultimately show ?thesis using select_server_safe [of "{0, 1, 2}" 3 "sel_with 2" ?a 2 "-1"] by simp
qed

theorem select_server_257th_witness:
  "sel_round (quiet_answers\<lparr>an_ready := {3}, an_accept := 300, an_nready := 1\<rparr>) (sel_with 256) = Inl (Uninit 256)"
  by (rule select_server_257th [OF sel_with_reachable]) (auto simp: sel_with_def nth_append)

section \<open>The server with poll\<close>

text \<open>
  Of \<open>events\<close> and \<open>revents\<close> only the bit \<open>POLLRDNORM\<close> is used; \<open>revents\<close> is indeterminate (\<open>None\<close>)
  until \<open>poll\<close> has seen the element.
\<close>

record pollfd =
  p_fd :: int
  p_events :: bool
  p_revents :: "bool option"

record pl_state =
  pl_client :: "pollfd list"
  pl_maxfd :: int
  pl_maxidx :: nat
  pl_listen :: int
  pl_buf :: bytes
  pl_log :: "echo_io list"

definition pl_new :: "int \<Rightarrow> bytes \<Rightarrow> pl_state" where
  "pl_new listenfd buf = \<lparr>pl_client = (replicate MAX_POLL_SIZE \<lparr>p_fd = -1, p_events = False, p_revents = None\<rparr>)
       [0 := \<lparr>p_fd = listenfd, p_events = True, p_revents = None\<rparr>],
     pl_maxfd = listenfd, pl_maxidx = 0, pl_listen = listenfd, pl_buf = buf, pl_log = []\<rparr>"

text \<open>\<open>poll(client, maxidx + 1, INFTIM)\<close>: it sets \<open>revents\<close> of the elements it is given.\<close>

definition pl_poll :: "echo_answers \<Rightarrow> pl_state \<Rightarrow> pl_state" where
  "pl_poll a s = s\<lparr>pl_client :=
     map (\<lambda>c. c\<lparr>p_revents := Some (0 \<le> p_fd c \<and> p_events c \<and> p_fd c \<in> an_ready a)\<rparr>) (take (pl_maxidx s + 1) (pl_client s)) @
     drop (pl_maxidx s + 1) (pl_client s)\<rparr>"

fun pl_find :: "nat \<Rightarrow> pollfd list \<Rightarrow> nat" where
  "pl_find i [] = i"
| "pl_find i (c # cs) = (if p_fd c < 0 then i else pl_find (i + 1) cs)"

definition pl_accept :: "echo_answers \<Rightarrow> pl_state \<Rightarrow> (bool \<times> pl_state echo_flow) c_res" where
  "pl_accept a s =
     (let connfd = an_accept a in
      if connfd < 0 then Inr (False, if an_errno a = ECHO_EINTR then EchoRun s else EchoQuit s)
      else
        let i = pl_find 1 (drop 1 (pl_client s)) in
        if i = MAX_POLL_SIZE then Inr (False, EchoQuit s)
        else bind_err (mem_get (pl_client s) i) (\<lambda>c.
               Inr (an_nready a - 1 > 0,
                 EchoRun (s\<lparr>pl_client := (pl_client s)[i := c\<lparr>p_fd := connfd, p_events := True\<rparr>],
                            pl_maxfd := max (pl_maxfd s) connfd, pl_maxidx := max (pl_maxidx s) i,
                            pl_log := pl_log s @ [Ac connfd]\<rparr>))))"

definition pl_serve :: "echo_answers \<Rightarrow> nat \<Rightarrow> pollfd \<Rightarrow> pl_state \<Rightarrow> pl_state c_res" where
  "pl_serve a i c s =
     (case read_bytes (an_read a (p_fd c)) of
        None \<Rightarrow> Inr (s\<lparr>pl_client := (pl_client s)[i := c\<lparr>p_fd := -1\<rparr>], pl_log := pl_log s @ [Cl (p_fd c)]\<rparr>)
      | Some bs \<Rightarrow> bind_err (echo_back (p_fd c) bs (an_write a (p_fd c)) (pl_buf s)) (\<lambda>(buf, l).
          Inr (s\<lparr>pl_buf := buf, pl_log := pl_log s @ l\<rparr>)))"

fun pl_clients :: "echo_answers \<Rightarrow> nat list \<Rightarrow> int \<Rightarrow> pl_state \<Rightarrow> pl_state c_res" where
  "pl_clients a [] n s = Inr s"
| "pl_clients a (i # is) n s =
     bind_err (mem_get (pl_client s) i) (\<lambda>c.
       if p_fd c < 0 then pl_clients a is n s
       else
         case p_revents c of
           None \<Rightarrow> Inl (Uninit i)
         | Some r \<Rightarrow>
             if r then
               bind_err (pl_serve a i c s) (\<lambda>s1.
                 if n - 1 \<le> 0 then Inr s1 else pl_clients a is (n - 1) s1)
             else pl_clients a is n s)"

definition pl_round :: "echo_answers \<Rightarrow> pl_state \<Rightarrow> pl_state echo_flow c_res" where
  "pl_round a s0 =
     (let s = pl_poll a s0 in
      bind_err (mem_get (pl_client s) 0) (\<lambda>c0.
        case p_revents c0 of
          None \<Rightarrow> Inl (Uninit 0)
        | Some new \<Rightarrow>
            let n = (if new then an_nready a - 1 else an_nready a) in
            echo_round (if new then pl_accept a s else Inr (True, EchoRun s))
              (\<lambda>s1. pl_clients a [1..<pl_maxidx s1 + 1] n s1)))"

definition pl_step :: "pl_state \<Rightarrow> pl_state \<Rightarrow> bool" where
  "pl_step s s' \<longleftrightarrow> (\<exists>a. pl_round a s = Inr (EchoRun s'))"

text \<open>\<open>main\<close> up to the loop, from the answers of \<open>socket\<close> and \<open>bind\<close>: the exit code, or the state the loop starts in.\<close>

definition pl_setup :: "int \<Rightarrow> int \<Rightarrow> bytes \<Rightarrow> int + pl_state" where
  "pl_setup listenfd bound buf =
     (if listenfd = -1 then Inl (-1) else if bound = -1 then Inl (-2) else Inr (pl_new listenfd buf))"

definition pl_init :: "int \<Rightarrow> pl_state \<Rightarrow> bool" where
  "pl_init listenfd s \<longleftrightarrow> (\<exists>buf. length buf = BUFFER_LENGTH \<and> pl_setup listenfd 0 buf = Inr s)"

lemma pl_initD: "pl_init lfd s \<Longrightarrow> \<exists>buf. length buf = BUFFER_LENGTH \<and> s = pl_new lfd buf"
  by (auto simp: pl_init_def pl_setup_def split: if_splits)

lemma pl_serve_log:
  "pl_serve a i c s = Inr s' \<Longrightarrow> \<exists>l. pl_log s' = pl_log s @ l \<and> paired l \<and> length (pl_buf s') = length (pl_buf s)"
  by (auto simp: pl_serve_def bind_err_eq_Inr dest!: echo_back_log split: option.splits)

lemma pl_clients_log:
  "pl_clients a is n s = Inr s' \<Longrightarrow> \<exists>l. pl_log s' = pl_log s @ l \<and> paired l \<and> length (pl_buf s') = length (pl_buf s)"
proof (induction "is" arbitrary: n s)
  case Nil then show ?case by auto
next
  case (Cons i "is")
  obtain c where c: "mem_get (pl_client s) i = Inr c" using Cons.prems by (auto simp: bind_err_eq_Inr)
  consider "pl_clients a is n s = Inr s'"
    | s1 where "pl_serve a i c s = Inr s1" "s' = s1 \<or> pl_clients a is (n - 1) s1 = Inr s'"
    using Cons.prems c by (auto simp: bind_err_eq_Inr split: if_splits option.splits)
  then show ?case
  proof cases
    case 1 then show ?thesis by (rule Cons.IH)
  next
    case (2 s1)
    obtain l1 where l1: "pl_log s1 = pl_log s @ l1" "paired l1" "length (pl_buf s1) = length (pl_buf s)"
      using pl_serve_log [OF 2(1)] by blast
    show ?thesis using 2(2) l1 Cons.IH [of "n - 1" s1] paired_append by auto
  qed
qed

lemma pl_accept_log:
  "pl_accept a s = Inr (go, EchoRun s') \<Longrightarrow> \<exists>l. pl_log s' = pl_log s @ l \<and> paired l \<and> length (pl_buf s') = length (pl_buf s)"
  by (auto simp: pl_accept_def Let_def bind_err_eq_Inr split: if_splits)

lemma pl_round_log:
  assumes "pl_round a s = Inr (EchoRun s')"
  shows "\<exists>l. pl_log s' = pl_log s @ l \<and> paired l \<and> length (pl_buf s') = length (pl_buf s)"
proof -
  let ?s = "pl_poll a s"
  have p: "pl_log ?s = pl_log s" "pl_buf ?s = pl_buf s" by (simp_all add: pl_poll_def)
  obtain new n where "echo_round (if new then pl_accept a ?s else Inr (True, EchoRun ?s))
      (\<lambda>s1. pl_clients a [1..<pl_maxidx s1 + 1] n s1) = Inr (EchoRun s')"
    using assms by (auto simp: pl_round_def Let_def bind_err_eq_Inr split: option.splits)
  then show ?thesis
  proof (cases rule: echo_roundE)
    case 1 then show ?thesis using pl_accept_log [of a ?s False s'] p by (auto split: if_splits)
  next
    case (2 s1)
    obtain l1 where l1: "pl_log s1 = pl_log s @ l1" "paired l1" "length (pl_buf s1) = length (pl_buf s)"
      using 2(1) pl_accept_log [of a ?s True s1] p by (auto split: if_splits)
    show ?thesis using pl_clients_log [OF 2(2)] l1 paired_append by auto
  qed
qed

interpretation pl: echo_server "pl_init lfd" pl_step pl_log pl_buf
  by unfold_locales (auto simp: pl_new_def pl_step_def dest: pl_initD intro: pl_round_log)

section \<open>The server with epoll\<close>

text \<open>\<open>ep_connfd\<close> is the variable \<open>connfd\<close> of \<open>main\<close>, indeterminate until the first \<open>accept\<close>.\<close>

record ep_state =
  ep_interest :: "int set"
  ep_open :: "int set"
  ep_connfd :: "int option"
  ep_listen :: int
  ep_buf :: bytes
  ep_log :: "echo_io list"

record ep_event =
  ee_fd :: int
  ee_mask :: u32
  ee_accept :: int
  ee_errno :: int
  ee_read :: recv_res
  ee_write :: int

definition ep_new :: "int \<Rightarrow> bytes \<Rightarrow> ep_state" where
  "ep_new listenfd buf = \<lparr>ep_interest = {listenfd}, ep_open = {listenfd}, ep_connfd = None, ep_listen = listenfd,
     ep_buf = buf, ep_log = []\<rparr>"

definition ep_accept :: "ep_event \<Rightarrow> ep_state \<Rightarrow> ep_state echo_flow" where
  "ep_accept e s =
     (let connfd = ee_accept e; s1 = s\<lparr>ep_connfd := Some connfd\<rparr> in
      if connfd < 0 then (if ee_errno e = ECHO_EINTR then EchoRun s1 else EchoQuit s1)
      else EchoRun (s1\<lparr>ep_interest := insert connfd (ep_interest s1), ep_open := insert connfd (ep_open s1),
                       ep_log := ep_log s1 @ [Ac connfd]\<rparr>))"

text \<open>The end of a connection: \<open>EPOLL_CTL_DEL\<close> on \<open>connfd\<close>, then \<open>close\<close> of \<open>sockfd\<close>.\<close>

definition ep_read :: "ep_event \<Rightarrow> ep_state \<Rightarrow> ep_state c_res" where
  "ep_read e s =
     (let sockfd = ee_fd e in
      if sockfd < 0 then Inr s
      else
        case read_bytes (ee_read e) of
          None \<Rightarrow>
            (case ep_connfd s of
               None \<Rightarrow> Inl (Uninit 0)
             | Some connfd \<Rightarrow>
                 Inr (s\<lparr>ep_interest := ep_interest s - {connfd} - {sockfd}, ep_open := ep_open s - {sockfd},
                        ep_log := ep_log s @ [Cl sockfd]\<rparr>))
        | Some bs \<Rightarrow> bind_err (echo_back sockfd bs (ee_write e) (ep_buf s)) (\<lambda>(buf, l).
            Inr (s\<lparr>ep_buf := buf, ep_log := ep_log s @ l\<rparr>)))"

definition ep_handle :: "ep_event \<Rightarrow> ep_state \<Rightarrow> ep_state echo_flow c_res" where
  "ep_handle e s =
     (if ep_listen s = ee_fd e then Inr (ep_accept e s)
      else if ee_mask e AND EPOLLIN \<noteq> 0 then bind_err (ep_read e s) (\<lambda>s1. Inr (EchoRun s1))
      else Inr (EchoRun s))"

fun ep_round :: "ep_event list \<Rightarrow> ep_state \<Rightarrow> ep_state echo_flow c_res" where
  "ep_round [] s = Inr (EchoRun s)"
| "ep_round (e # es) s =
     bind_err (ep_handle e s) (\<lambda>f. case f of EchoQuit s1 \<Rightarrow> Inr (EchoQuit s1) | EchoRun s1 \<Rightarrow> ep_round es s1)"

definition ep_step :: "ep_state \<Rightarrow> ep_state \<Rightarrow> bool" where
  "ep_step s s' \<longleftrightarrow> (\<exists>es. ep_round es s = Inr (EchoRun s'))"

text \<open>\<open>main\<close> up to the loop, from the answers of \<open>socket\<close> and \<open>bind\<close>: the exit code, or the state the loop starts in.\<close>

definition ep_setup :: "int \<Rightarrow> int \<Rightarrow> bytes \<Rightarrow> int + ep_state" where
  "ep_setup listenfd bound buf =
     (if listenfd = -1 then Inl (-1) else if bound = -1 then Inl (-2) else Inr (ep_new listenfd buf))"

definition ep_init :: "int \<Rightarrow> ep_state \<Rightarrow> bool" where
  "ep_init listenfd s \<longleftrightarrow> (\<exists>buf. length buf = BUFFER_LENGTH \<and> ep_setup listenfd 0 buf = Inr s)"

lemma ep_initD: "ep_init lfd s \<Longrightarrow> \<exists>buf. length buf = BUFFER_LENGTH \<and> s = ep_new lfd buf"
  by (auto simp: ep_init_def ep_setup_def split: if_splits)

lemma ep_handle_log:
  "ep_handle e s = Inr (EchoRun s') \<Longrightarrow> \<exists>l. ep_log s' = ep_log s @ l \<and> paired l \<and> length (ep_buf s') = length (ep_buf s)"
  by (auto simp: ep_handle_def ep_accept_def ep_read_def Let_def bind_err_eq_Inr dest!: echo_back_log split: if_splits option.splits)

lemma ep_round_log:
  "ep_round es s = Inr (EchoRun s') \<Longrightarrow> \<exists>l. ep_log s' = ep_log s @ l \<and> paired l \<and> length (ep_buf s') = length (ep_buf s)"
proof (induction es arbitrary: s)
  case Nil then show ?case by auto
next
  case (Cons e es)
  obtain f where f: "ep_handle e s = Inr f" using Cons.prems by (auto simp: bind_err_eq_Inr)
  then obtain s1 where s1: "f = EchoRun s1" "ep_round es s1 = Inr (EchoRun s')" using Cons.prems by (cases f) auto
  obtain l1 where "ep_log s1 = ep_log s @ l1" "paired l1" "length (ep_buf s1) = length (ep_buf s)"
    using ep_handle_log [of e s s1] f s1 by blast
  then show ?case using Cons.IH [OF s1(2)] paired_append by auto
qed

interpretation ep: echo_server "ep_init lfd" ep_step ep_log ep_buf
  by unfold_locales (auto simp: ep_new_def ep_step_def dest: ep_initD intro: ep_round_log)

section \<open>Properties of the three servers\<close>

text \<open>
  C22. The echo contract of the three servers, for every sequence of rounds and whatever \<open>read\<close> and \<open>write\<close>
  answer: every read is followed at once by a \<open>write\<close> of the same bytes, out of the buffer, to the
  same connection, so that on every descriptor the bytes offered are the bytes read, in order. The
  bytes the connection has taken are all of them exactly when none of the writes to it was short
  or failed; the servers ignore the result of \<open>write\<close>, and what one call leaves is never sent.
\<close>

theorem echo_servers_echo:
  assumes "reachable (sel_init lfd) sel_step s" "reachable (pl_init lfd) pl_step p" "reachable (ep_init lfd) ep_step e"
  shows "paired (sl_log s) \<and> offered f (sl_log s) = received f (sl_log s) \<and>
      (written f (sl_log s) = received f (sl_log s) \<longleftrightarrow> complete f (sl_log s)) \<and>
    paired (pl_log p) \<and> offered f (pl_log p) = received f (pl_log p) \<and>
      (written f (pl_log p) = received f (pl_log p) \<longleftrightarrow> complete f (pl_log p)) \<and>
    paired (ep_log e) \<and> offered f (ep_log e) = received f (ep_log e) \<and>
      (written f (ep_log e) = received f (ep_log e) \<longleftrightarrow> complete f (ep_log e))"
  using sel.echo [OF assms(1)] sel.log_paired [OF assms(1)] pl.echo [OF assms(2)] pl.log_paired [OF assms(2)]
    ep.echo [OF assms(3)] ep.log_paired [OF assms(3)] by blast

text \<open>
  A run of each server: client 4 is accepted; then it sends two bytes, of which the select server
  gets one written back, the poll server both, and the epoll server none.
\<close>

definition first_round :: echo_answers where
  "first_round = quiet_answers\<lparr>an_ready := {3}, an_accept := 4, an_nready := 1\<rparr>"

definition second_round :: "int \<Rightarrow> echo_answers" where
  "second_round n = quiet_answers\<lparr>an_ready := {4}, an_read := (\<lambda>_. RecvBytes [104, 105]), an_write := (\<lambda>_. n), an_nready := 1\<rparr>"

definition accept_event :: "int \<Rightarrow> ep_event" where
  "accept_event fd = \<lparr>ee_fd = 3, ee_mask = EPOLLIN, ee_accept = fd, ee_errno = 0, ee_read = RecvError 0, ee_write = -1\<rparr>"

definition data_event :: "int \<Rightarrow> recv_res \<Rightarrow> ep_event" where
  "data_event fd r = \<lparr>ee_fd = fd, ee_mask = EPOLLIN, ee_accept = 0, ee_errno = 0, ee_read = r, ee_write = -1\<rparr>"

lemma read_hi: "read_bytes (RecvBytes [104, 105]) = Some [104, 105]"
  by (simp add: read_bytes_def BUFFER_LENGTH_def)

lemma ep_run_reachable:
  assumes "ep_round es (ep_new lfd zero_buffer) = Inr (EchoRun s)" "lfd \<noteq> -1"
  shows "reachable (ep_init lfd) ep_step s"
proof (rule reach_step)
  show "reachable (ep_init lfd) ep_step (ep_new lfd zero_buffer)"
    by (rule reach_init) (use assms(2) in \<open>auto simp: ep_init_def ep_setup_def intro!: exI [of _ zero_buffer]\<close>)
  show "ep_step (ep_new lfd zero_buffer) s" unfolding ep_step_def using assms(1) by blast
qed

definition hi_buffer :: bytes where
  "hi_buffer = [104, 105] @ drop 2 zero_buffer"

lemma echo_back_hi: "echo_back 4 [104, 105] n zero_buffer = Inr (hi_buffer, [Rd 4 [104, 105], Wr 4 [104, 105] n])"
  by (simp add: echo_back_def mem_write_def mem_read_def hi_buffer_def BUFFER_LENGTH_def numeral_2_eq_2)

lemma sel_sample: "\<exists>s. reachable (sel_init 3) sel_step s \<and> sl_log s = [Ac 4, Rd 4 [104, 105], Wr 4 [104, 105] 1]"
proof -
  have s1: "reachable (sel_init 3) sel_step (sel_with 1)" by (rule sel_with_reachable) simp
  let ?s = "(sel_with 1)\<lparr>sl_buf := hi_buffer, sl_log := [Ac 4, Rd 4 [104, 105], Wr 4 [104, 105] 1]\<rparr>"
  have "sel_round (second_round 1) (sel_with 1) = Inr (EchoRun ?s)"
    by (simp add: sel_round_def second_round_def quiet_answers_def echo_round_def sel_with_def mem_get_def
        sel_serve_def in_fd_set_def FD_SETSIZE_def read_hi echo_back_hi Let_def upt_rec)
  then have "sel_step (sel_with 1) ?s" unfolding sel_step_def by blast
  then show ?thesis using reach_step [OF s1] by fastforce
qed

lemma pl_sample: "\<exists>s. reachable (pl_init 3) pl_step s \<and> pl_log s = [Ac 4, Rd 4 [104, 105], Wr 4 [104, 105] 2]"
proof -
  let ?e = "\<lparr>p_fd = -1, p_events = False, p_revents = None\<rparr>"
  define tl where "tl = replicate 4094 ?e"
  have new: "pl_new 3 zero_buffer = \<lparr>pl_client = \<lparr>p_fd = 3, p_events = True, p_revents = None\<rparr> # ?e # tl,
      pl_maxfd = 3, pl_maxidx = 0, pl_listen = 3, pl_buf = zero_buffer, pl_log = []\<rparr>"
    by (simp add: pl_new_def MAX_POLL_SIZE_def tl_def numeral_eq_Suc)
  have r0: "reachable (pl_init 3) pl_step (pl_new 3 zero_buffer)"
    by (rule reach_init) (auto simp: pl_init_def pl_setup_def intro!: exI [of _ zero_buffer])
  let ?s1 = "\<lparr>pl_client = \<lparr>p_fd = 3, p_events = True, p_revents = Some True\<rparr> # \<lparr>p_fd = 4, p_events = True, p_revents = None\<rparr> # tl,
      pl_maxfd = 4, pl_maxidx = 1, pl_listen = 3, pl_buf = zero_buffer, pl_log = [Ac 4]\<rparr>"
  have "pl_round first_round (pl_new 3 zero_buffer) = Inr (EchoRun ?s1)"
    by (simp add: new pl_round_def pl_poll_def first_round_def quiet_answers_def echo_round_def pl_accept_def mem_get_def MAX_POLL_SIZE_def Let_def)
  then have "pl_step (pl_new 3 zero_buffer) ?s1" unfolding pl_step_def by blast
  then have r1: "reachable (pl_init 3) pl_step ?s1" by (rule reach_step [OF r0])
  let ?s2 = "?s1\<lparr>pl_client := \<lparr>p_fd = 3, p_events = True, p_revents = Some False\<rparr> # \<lparr>p_fd = 4, p_events = True, p_revents = Some True\<rparr> # tl,
      pl_buf := hi_buffer, pl_log := [Ac 4, Rd 4 [104, 105], Wr 4 [104, 105] 2]\<rparr>"
  have "pl_round (second_round 2) ?s1 = Inr (EchoRun ?s2)"
    by (simp add: pl_round_def pl_poll_def second_round_def quiet_answers_def echo_round_def mem_get_def pl_serve_def read_hi echo_back_hi Let_def upt_rec)
  then have "pl_step ?s1 ?s2" unfolding pl_step_def by blast
  then show ?thesis using reach_step [OF r1] by fastforce
qed

lemma ep_sample: "\<exists>s. reachable (ep_init 3) ep_step s \<and> ep_log s = [Ac 4, Rd 4 [104, 105], Wr 4 [104, 105] (-1)]"
proof -
  let ?s = "\<lparr>ep_interest = {4, 3}, ep_open = {4, 3}, ep_connfd = Some 4, ep_listen = 3, ep_buf = hi_buffer,
    ep_log = [Ac 4, Rd 4 [104, 105], Wr 4 [104, 105] (-1)]\<rparr>"
  have "ep_round [accept_event 4, data_event 4 (RecvBytes [104, 105])] (ep_new 3 zero_buffer) = Inr (EchoRun ?s)"
    by (simp add: ep_handle_def ep_accept_def ep_read_def accept_event_def data_event_def ep_new_def read_hi echo_back_hi Let_def)
  then have "reachable (ep_init 3) ep_step ?s" by (rule ep_run_reachable) simp
  then show ?thesis by fastforce
qed

theorem echo_servers_echo_witness:
  "\<exists>s p e. reachable (sel_init 3) sel_step s \<and> reachable (pl_init 3) pl_step p \<and> reachable (ep_init 3) ep_step e \<and>
     received 4 (sl_log s) = [104, 105] \<and> offered 4 (sl_log s) = [104, 105] \<and> written 4 (sl_log s) = [104] \<and>
     received 4 (pl_log p) = [104, 105] \<and> offered 4 (pl_log p) = [104, 105] \<and> written 4 (pl_log p) = [104, 105] \<and>
     received 4 (ep_log e) = [104, 105] \<and> offered 4 (ep_log e) = [104, 105] \<and> written 4 (ep_log e) = []"
proof -
  obtain s p e where r: "reachable (sel_init 3) sel_step s" "reachable (pl_init 3) pl_step p" "reachable (ep_init 3) ep_step e"
    and l: "sl_log s = [Ac 4, Rd 4 [104, 105], Wr 4 [104, 105] 1]" "pl_log p = [Ac 4, Rd 4 [104, 105], Wr 4 [104, 105] 2]"
      "ep_log e = [Ac 4, Rd 4 [104, 105], Wr 4 [104, 105] (-1)]"
    using sel_sample pl_sample ep_sample by blast
  from echo_servers_echo [OF r, of 4] show ?thesis using r l
    by (intro exI [of _ s] exI [of _ p] exI [of _ e]) (simp add: numeral_2_eq_2)
qed

text \<open>
  The server with \<open>epoll\<close> forgets a client: when a connection ends while another one was
  accepted after it, the other one is taken out of the interest list although it stays open, so
  that it is never served again; \<open>EPOLL_CTL_DEL\<close> names \<open>connfd\<close> instead of \<open>sockfd\<close>.
\<close>

theorem epoll_server_forgets:
  assumes "reachable (ep_init lfd) ep_step s" "f \<in> ep_open s" "f \<noteq> ep_listen s" "0 \<le> f"
    and "ep_connfd s = Some g" "g \<noteq> f" "g \<in> ep_open s" "read_bytes r = None"
  shows "\<exists>s'. ep_handle (data_event f r) s = Inr (EchoRun s') \<and> f \<notin> ep_open s' \<and> g \<in> ep_open s' \<and> g \<notin> ep_interest s'"
  using assms by (auto simp: ep_handle_def ep_read_def data_event_def Let_def)

theorem epoll_server_forgets_witness:
  "\<exists>s s'. reachable (ep_init 3) ep_step s \<and> 5 \<in> ep_interest s \<and>
     ep_handle (data_event 4 (RecvBytes [])) s = Inr (EchoRun s') \<and> 5 \<in> ep_open s' \<and> 5 \<notin> ep_interest s'"
proof -
  let ?s = "\<lparr>ep_interest = {5, 4, 3}, ep_open = {5, 4, 3}, ep_connfd = Some 5, ep_listen = 3, ep_buf = zero_buffer, ep_log = [Ac 4, Ac 5]\<rparr>"
  have "ep_round [accept_event 4, accept_event 5] (ep_new 3 zero_buffer) = Inr (EchoRun ?s)"
    by (simp add: ep_handle_def ep_accept_def accept_event_def ep_new_def Let_def)
  then have r: "reachable (ep_init 3) ep_step ?s"
    by (rule ep_run_reachable) simp
  have "\<exists>s'. ep_handle (data_event 4 (RecvBytes [])) ?s = Inr (EchoRun s') \<and> 4 \<notin> ep_open s' \<and> 5 \<in> ep_open s' \<and> 5 \<notin> ep_interest s'"
    by (rule epoll_server_forgets [OF r]) (simp_all add: read_bytes_def)
  then obtain s' where "ep_handle (data_event 4 (RecvBytes [])) ?s = Inr (EchoRun s')" "5 \<in> ep_open s'" "5 \<notin> ep_interest s'"
    by blast
  then show ?thesis using r by (intro exI [of _ ?s] exI [of _ s']) simp
qed

end
