(* ===== verification/LibevEcho.thy ===== *)
theory LibevEcho
  imports EchoServers
begin

text \<open>
  The echo server and client over libev, \<open>src/libev/demo1_echo_server.cpp\<close> and
  \<open>demo1_echo_client.cpp\<close>. Of libev the model uses the documented effect of \<open>ev_io_init\<close>,
  \<open>ev_io_set\<close>, \<open>ev_io_start\<close> and \<open>ev_io_stop\<close>: which watcher is active, on which descriptor and for
  which events; a callback gets events of its watcher. Watchers, buffers and the buffered data
  are objects of a heap; \<open>mok\<close> decides which call of \<open>malloc\<close> succeeds, as in \<open>Reactor\<close>.
\<close>

section \<open>The server\<close>

definition BUFFER_SIZE :: nat where "BUFFER_SIZE = 1024"
definition EV_READ :: u32 where "EV_READ = 1"
definition EV_WRITE :: u32 where "EV_WRITE = 2"
definition EV_ERROR :: u32 where "EV_ERROR = 0x80000000"

lemma ev_flags [simp]:
  "EV_ERROR AND EV_READ = 0" "EV_ERROR AND EV_WRITE = 0" "EV_READ AND EV_WRITE = 0" "EV_WRITE AND EV_READ = 0"
  "EV_READ \<noteq> 0" "EV_WRITE \<noteq> 0" "EV_READ \<noteq> EV_WRITE" "EV_WRITE \<noteq> EV_READ"
  by (simp_all add: EV_READ_def EV_WRITE_def EV_ERROR_def)

record watcher =
  w_fd :: int
  w_events :: u32
  w_active :: bool
  w_data :: "nat option"

record io_buf =
  b_data :: "nat option"
  b_len :: nat

record ev_server =
  lv_watchers :: "nat \<Rightarrow> watcher option"
  lv_bufs :: "nat \<Rightarrow> io_buf option"
  lv_data :: "nat \<Rightarrow> bytes option"
  lv_next :: nat
  lv_open :: "int set"
  total_clients :: int
  lv_log :: "echo_io list"

definition ev_malloc :: "(nat \<Rightarrow> bool) \<Rightarrow> ev_server \<Rightarrow> nat option \<times> ev_server" where
  "ev_malloc mok s = (if mok (lv_next s) then Some (lv_next s) else None, s\<lparr>lv_next := lv_next s + 1\<rparr>)"

text \<open>\<open>set_nonblocking\<close>, from the answer of \<open>ioctl\<close>.\<close>

definition set_nonblocking :: "int \<Rightarrow> int" where
  "set_nonblocking ioctl_res = (if ioctl_res = -1 then -1 else 0)"

text \<open>\<open>accept_cb\<close>, from the answers of \<open>accept\<close> and \<open>ioctl\<close>. Uninitialised members are zero here.\<close>

definition accept_cb :: "(nat \<Rightarrow> bool) \<Rightarrow> u32 \<Rightarrow> int \<Rightarrow> int \<Rightarrow> ev_server \<Rightarrow> ev_server c_res" where
  "accept_cb mok revents clientfd ioctl_res s =
     (let (w, s1) = ev_malloc mok s;
          s2 = (case w of None \<Rightarrow> s1
                | Some a \<Rightarrow> s1\<lparr>lv_watchers := (lv_watchers s1)(a \<mapsto> \<lparr>w_fd = 0, w_events = 0, w_active = False, w_data = None\<rparr>)\<rparr>) in
      if EV_ERROR AND revents \<noteq> 0 then Inr s2
      else if clientfd < 0 then Inr s2
      else
        let s3 = s2\<lparr>lv_open := insert clientfd (lv_open s2)\<rparr> in
        if set_nonblocking ioctl_res < 0 then Inr s3
        else
          let s4 = s3\<lparr>total_clients := total_clients s3 + 1, lv_log := lv_log s3 @ [Ac clientfd]\<rparr>;
              (b, s5) = ev_malloc mok s4;
              (d, s6) = ev_malloc mok s5 in
          case (w, b, d) of
            (Some w, Some b, Some d) \<Rightarrow>
              Inr (s6\<lparr>lv_data := (lv_data s6)(d \<mapsto> replicate BUFFER_SIZE 0),
                      lv_bufs := (lv_bufs s6)(b \<mapsto> \<lparr>b_data = Some d, b_len = 0\<rparr>),
                      lv_watchers := (lv_watchers s6)(w \<mapsto>
                        \<lparr>w_fd = clientfd, w_events = EV_READ, w_active = True, w_data = Some b\<rparr>)\<rparr>)
          | _ \<Rightarrow> Inl NullDeref)"

text \<open>The reads through the pointers of a watcher.\<close>

definition get_watcher :: "nat \<Rightarrow> ev_server \<Rightarrow> watcher c_res" where
  "get_watcher w s = (case lv_watchers s w of None \<Rightarrow> Inl (OutOfBounds w) | Some x \<Rightarrow> Inr x)"

definition get_iobuf :: "nat option \<Rightarrow> ev_server \<Rightarrow> (nat \<times> io_buf) c_res" where
  "get_iobuf p s = (case p of None \<Rightarrow> Inl NullDeref
     | Some b \<Rightarrow> (case lv_bufs s b of None \<Rightarrow> Inl (OutOfBounds b) | Some x \<Rightarrow> Inr (b, x)))"

definition get_data :: "nat option \<Rightarrow> ev_server \<Rightarrow> (nat \<times> bytes) c_res" where
  "get_data p s = (case p of None \<Rightarrow> Inl NullDeref
     | Some d \<Rightarrow> (case lv_data s d of None \<Rightarrow> Inl (OutOfBounds d) | Some x \<Rightarrow> Inr (d, x)))"

text \<open>\<open>ev_io_stop\<close>, \<open>ev_io_set\<close> and \<open>ev_io_start\<close> in a row.\<close>

definition rearm :: "nat \<Rightarrow> u32 \<Rightarrow> ev_server \<Rightarrow> ev_server" where
  "rearm w ev s = (case lv_watchers s w of None \<Rightarrow> s
     | Some x \<Rightarrow> s\<lparr>lv_watchers := (lv_watchers s)(w \<mapsto> x\<lparr>w_events := ev, w_active := True\<rparr>)\<rparr>)"

text \<open>The end of a connection: the descriptor is not closed.\<close>

definition io_eof :: "nat \<Rightarrow> nat \<Rightarrow> nat \<Rightarrow> ev_server \<Rightarrow> ev_server" where
  "io_eof w b d s = s\<lparr>lv_data := (lv_data s)(d := None), lv_bufs := (lv_bufs s)(b := None),
     lv_watchers := (lv_watchers s)(w := None), total_clients := total_clients s - 1\<rparr>"

text \<open>
  \<open>io_cb\<close>, from the answers of \<open>read\<close> and \<open>write\<close>. The descriptor does not block, so \<open>write\<close> may take fewer bytes
  or none; the buffer is cleared whatever it returned.
\<close>

definition io_cb :: "nat \<Rightarrow> u32 \<Rightarrow> recv_res \<Rightarrow> int \<Rightarrow> ev_server \<Rightarrow> ev_server c_res" where
  "io_cb w revents res wr s =
     (if EV_ERROR AND revents \<noteq> 0 then Inr s
      else
        bind_err (get_watcher w s) (\<lambda>x.
        if EV_READ AND revents \<noteq> 0 then
          bind_err (get_iobuf (w_data x) s) (\<lambda>(b, buf).
          bind_err (get_data (b_data buf) s) (\<lambda>(d, y).
          case res of
            RecvError _ \<Rightarrow> Inr s
          | RecvBytes avail \<Rightarrow>
              let bs = take BUFFER_SIZE avail in
              if bs = [] then Inr (io_eof w b d s)
              else
                bind_err (mem_write y 0 bs) (\<lambda>y'.
                bind_err (c_strlen y') (\<lambda>_.
                  Inr (rearm w EV_WRITE
                    (s\<lparr>lv_data := (lv_data s)(d \<mapsto> y'), lv_bufs := (lv_bufs s)(b \<mapsto> buf\<lparr>b_len := length bs\<rparr>),
                       lv_log := lv_log s @ [Rd (w_fd x) bs]\<rparr>))))))
        else if EV_WRITE AND revents \<noteq> 0 then
          bind_err (get_iobuf (w_data x) s) (\<lambda>(b, buf).
          bind_err (get_data (b_data buf) s) (\<lambda>(d, y).
            if b_len buf > 0 then
              bind_err (mem_read y 0 (b_len buf)) (\<lambda>bs.
                Inr (rearm w EV_READ
                  (s\<lparr>lv_data := (lv_data s)(d \<mapsto> replicate BUFFER_SIZE 0), lv_bufs := (lv_bufs s)(b \<mapsto> buf\<lparr>b_len := 0\<rparr>),
                     lv_log := lv_log s @ [Wr (w_fd x) bs wr]\<rparr>)))
            else Inr (rearm w EV_READ s)))
        else Inr s))"

definition ev_server_new :: "int \<Rightarrow> ev_server" where
  "ev_server_new listenfd = \<lparr>lv_watchers = (\<lambda>_. None), lv_bufs = (\<lambda>_. None), lv_data = (\<lambda>_. None), lv_next = 0,
     lv_open = {listenfd}, total_clients = 0, lv_log = []\<rparr>"

text \<open>\<open>main\<close> up to \<open>ev_run\<close>: the exit code or the first state.\<close>

definition ev_server_main :: "int \<Rightarrow> int \<Rightarrow> int \<Rightarrow> int \<Rightarrow> int \<Rightarrow> int + ev_server" where
  "ev_server_main listenfd ioctl_res sockopt bound listening =
     (if listenfd < 0 then Inl (-1)
      else if set_nonblocking ioctl_res < 0 then Inl (-1)
      else if sockopt < 0 then Inl 1
      else if bound \<noteq> 0 then Inl (-1)
      else if listening < 0 then Inl (-1)
      else Inr (ev_server_new listenfd))"

text \<open>
  What libev and the kernel can do: accept a connection on a descriptor that is not open, or
  report to an active watcher the event it waits for.
\<close>

inductive ev_step :: "(nat \<Rightarrow> bool) \<Rightarrow> ev_server \<Rightarrow> ev_server \<Rightarrow> bool" for mok where
  ev_accept: "accept_cb mok revents fd nb s = Inr s' \<Longrightarrow> fd < 0 \<or> fd \<notin> lv_open s \<Longrightarrow> ev_step mok s s'"
| ev_io: "lv_watchers s w = Some x \<Longrightarrow> w_active x \<Longrightarrow>
    revents = w_events x \<or> EV_ERROR AND revents \<noteq> 0 \<Longrightarrow> io_cb w revents res wr s = Inr s' \<Longrightarrow> ev_step mok s s'"

lemma ev_server_main_new: "ev_server_main l i so b li = Inr s \<Longrightarrow> 0 \<le> l \<and> s = ev_server_new l"
  by (simp add: ev_server_main_def split: if_splits)

definition ev_init :: "int \<Rightarrow> ev_server \<Rightarrow> bool" where
  "ev_init lfd s \<longleftrightarrow> s = ev_server_new lfd"

section \<open>Invariant of the server\<close>

definition active :: "ev_server \<Rightarrow> nat \<Rightarrow> bool" where
  "active s w \<longleftrightarrow> (case lv_watchers s w of None \<Rightarrow> False | Some x \<Rightarrow> w_active x)"

text \<open>
  A connection: the watcher, its buffer and its data were allocated in a row; the bytes received
  and not yet offered are in the buffer; in the reading state there are none and the buffer is zero.
\<close>

definition conn :: "ev_server \<Rightarrow> nat \<Rightarrow> watcher \<Rightarrow> bool" where
  "conn s w x \<longleftrightarrow> w_data x = Some (w + 1) \<and> w + 2 < lv_next s \<and> w_fd x \<in> lv_open s \<and> 0 \<le> w_fd x \<and>
     (w_events x = EV_READ \<or> w_events x = EV_WRITE) \<and>
     (\<exists>l y. lv_bufs s (w + 1) = Some \<lparr>b_data = Some (w + 2), b_len = l\<rparr> \<and> lv_data s (w + 2) = Some y \<and>
        length y = BUFFER_SIZE \<and> l \<le> BUFFER_SIZE \<and> (if w_events x = EV_READ then l = 0 \<and> y = replicate BUFFER_SIZE 0 else 0 < l) \<and>
        received (w_fd x) (lv_log s) = offered (w_fd x) (lv_log s) @ take l y)"

definition ev_inv :: "ev_server \<Rightarrow> bool" where
  "ev_inv s \<longleftrightarrow>
     (\<forall>w x. lv_watchers s w = Some x \<longrightarrow> w_active x \<longrightarrow> conn s w x) \<and>
     (\<forall>w\<ge>lv_next s. lv_watchers s w = None) \<and>
     (\<forall>w w' x x'. lv_watchers s w = Some x \<longrightarrow> w_active x \<longrightarrow> lv_watchers s w' = Some x' \<longrightarrow> w_active x' \<longrightarrow>
        w_fd x = w_fd x' \<longrightarrow> w = w') \<and>
     finite {w. active s w} \<and> total_clients s = int (card {w. active s w}) \<and>
     dom (lv_bufs s) = (\<lambda>w. w + 1) ` {w. active s w} \<and> dom (lv_data s) = (\<lambda>w. w + 2) ` {w. active s w} \<and>
     (\<forall>f. f \<notin> lv_open s \<longrightarrow> received f (lv_log s) = [] \<and> offered f (lv_log s) = [])"

lemma ev_inv_new: "ev_inv (ev_server_new lfd)"
  by (simp add: ev_inv_def ev_server_new_def active_def)


lemma active_fun: "active s = (\<lambda>w. case lv_watchers s w of None \<Rightarrow> False | Some x \<Rightarrow> w_active x)"
  by (simp add: fun_eq_iff active_def)

lemma activeD: "active s w \<Longrightarrow> \<exists>x. lv_watchers s w = Some x \<and> w_active x"
  by (auto simp: active_def split: option.splits)

text \<open>\<open>accept_cb\<close> either leaves one inactive watcher and perhaps an open descriptor behind, or adds a connection.\<close>

lemma accept_cb_cases:
  assumes "accept_cb mok revents fd nb s = Inr s'"
  obtains (left) ws os where "s' = s\<lparr>lv_next := lv_next s + 1, lv_watchers := ws, lv_open := os\<rparr>" "lv_open s \<subseteq> os"
      "ws = lv_watchers s \<or> ws = (lv_watchers s)(lv_next s \<mapsto> \<lparr>w_fd = 0, w_events = 0, w_active = False, w_data = None\<rparr>)"
  | (conn) "0 \<le> fd"
      "s' = s\<lparr>lv_watchers := (lv_watchers s)(lv_next s \<mapsto>
                \<lparr>w_fd = fd, w_events = EV_READ, w_active = True, w_data = Some (lv_next s + 1)\<rparr>),
              lv_bufs := (lv_bufs s)(lv_next s + 1 \<mapsto> \<lparr>b_data = Some (lv_next s + 2), b_len = 0\<rparr>),
              lv_data := (lv_data s)(lv_next s + 2 \<mapsto> replicate BUFFER_SIZE 0),
              lv_next := lv_next s + 3, lv_open := insert fd (lv_open s),
              total_clients := total_clients s + 1, lv_log := lv_log s @ [Ac fd]\<rparr>"
proof -
  let ?n = "lv_next s"
  let ?w = "if mok ?n then (lv_watchers s)(?n \<mapsto> \<lparr>w_fd = 0, w_events = 0, w_active = False, w_data = None\<rparr>) else lv_watchers s"
  consider "EV_ERROR AND revents \<noteq> 0 \<or> fd < 0" | "EV_ERROR AND revents = 0" "0 \<le> fd" "set_nonblocking nb < 0"
    | "EV_ERROR AND revents = 0" "0 \<le> fd" "0 \<le> set_nonblocking nb" by force
  then show thesis
  proof cases
    case 1
    then have "s' = s\<lparr>lv_next := ?n + 1, lv_watchers := ?w, lv_open := lv_open s\<rparr>"
      using assms by (cases s; cases "EV_ERROR AND revents = 0"; cases "mok ?n"; auto simp: accept_cb_def ev_malloc_def Let_def)
    then show thesis by (rule left) auto
  next
    case 2
    then have "s' = s\<lparr>lv_next := ?n + 1, lv_watchers := ?w, lv_open := insert fd (lv_open s)\<rparr>"
      using assms by (auto simp: accept_cb_def ev_malloc_def Let_def)
    then show thesis by (rule left) auto
  next
    case 3
    show thesis
      by (rule conn [OF 3(2)]) (use assms 3 in \<open>auto simp: accept_cb_def ev_malloc_def Let_def numeral_3_eq_3 split: if_splits\<close>)
  qed
qed

lemma conn_mono:
  assumes "conn s w x" "lv_next s \<le> lv_next s'" "lv_open s \<subseteq> lv_open s'"
    "lv_bufs s' (w + 1) = lv_bufs s (w + 1)" "lv_data s' (w + 2) = lv_data s (w + 2)"
    "received (w_fd x) (lv_log s') = received (w_fd x) (lv_log s)" "offered (w_fd x) (lv_log s') = offered (w_fd x) (lv_log s)"
  shows "conn s' w x"
  using assms unfolding conn_def by auto

lemma ev_invD:
  assumes "ev_inv s"
  shows "lv_watchers s w = Some x \<Longrightarrow> w_active x \<Longrightarrow> conn s w x" "lv_next s \<le> w \<Longrightarrow> lv_watchers s w = None"
    "lv_watchers s w = Some x \<Longrightarrow> w_active x \<Longrightarrow> lv_watchers s w' = Some x' \<Longrightarrow> w_active x' \<Longrightarrow> w_fd x = w_fd x' \<Longrightarrow> w = w'"
    "finite {w. active s w}" "total_clients s = int (card {w. active s w})"
    "dom (lv_bufs s) = (\<lambda>w. w + 1) ` {w. active s w}" "dom (lv_data s) = (\<lambda>w. w + 2) ` {w. active s w}"
    "f \<notin> lv_open s \<Longrightarrow> received f (lv_log s) = [] \<and> offered f (lv_log s) = []"
  subgoal using assms unfolding ev_inv_def by (elim conjE) metis
  subgoal using assms unfolding ev_inv_def by (elim conjE) metis
  subgoal using assms unfolding ev_inv_def by (elim conjE) metis
  subgoal using assms unfolding ev_inv_def by (elim conjE)
  subgoal using assms unfolding ev_inv_def by (elim conjE)
  subgoal using assms unfolding ev_inv_def by (elim conjE)
  subgoal using assms unfolding ev_inv_def by (elim conjE)
  subgoal using assms unfolding ev_inv_def by (elim conjE) metis
  done

lemma ev_invI:
  assumes "\<And>w x. lv_watchers s w = Some x \<Longrightarrow> w_active x \<Longrightarrow> conn s w x" "\<And>w. lv_next s \<le> w \<Longrightarrow> lv_watchers s w = None"
    "\<And>w w' x x'. lv_watchers s w = Some x \<Longrightarrow> w_active x \<Longrightarrow> lv_watchers s w' = Some x' \<Longrightarrow> w_active x' \<Longrightarrow> w_fd x = w_fd x' \<Longrightarrow> w = w'"
    "finite {w. active s w}" "total_clients s = int (card {w. active s w})"
    "dom (lv_bufs s) = (\<lambda>w. w + 1) ` {w. active s w}" "dom (lv_data s) = (\<lambda>w. w + 2) ` {w. active s w}"
    "\<And>f. f \<notin> lv_open s \<Longrightarrow> received f (lv_log s) = [] \<and> offered f (lv_log s) = []"
  shows "ev_inv s"
  unfolding ev_inv_def
  apply (intro conjI)
  subgoal using assms(1) by blast
  subgoal using assms(2) by blast
  subgoal using assms(3) by metis
  subgoal by (rule assms(4))
  subgoal by (rule assms(5))
  subgoal by (rule assms(6))
  subgoal by (rule assms(7))
  subgoal using assms(8) by simp
  done

lemma ev_inv_left:
  assumes inv: "ev_inv s"
    and left: "s' = s\<lparr>lv_next := lv_next s + 1, lv_watchers := ws, lv_open := os\<rparr>" "lv_open s \<subseteq> os"
      "ws = lv_watchers s \<or> ws = (lv_watchers s)(lv_next s \<mapsto> \<lparr>w_fd = 0, w_events = 0, w_active = False, w_data = None\<rparr>)"
  shows "ev_inv s'"
proof -
  have n: "lv_watchers s (lv_next s) = None" by (rule ev_invD(2) [OF inv]) simp
  have act: "active s' = active s" using left n by (auto simp: active_fun intro!: ext split: if_splits option.splits)
  have w: "lv_watchers s w = Some x" if "lv_watchers s' w = Some x" "w_active x" for w x
    using left n that by (auto split: if_splits)
  show ?thesis
  proof (rule ev_invI, goal_cases)
    case (1 w x) then show ?case
      using ev_invD(1) [OF inv w [OF 1] 1(2)] left by - (rule conn_mono [of s], auto)
  next
    case (2 w) then show ?case using left ev_invD(2) [OF inv, of w] by auto
  next
    case (3 a b x y) show ?case using ev_invD(3) [OF inv w [OF 3(1,2)] 3(2) w [OF 3(3,4)] 3(4,5)] by simp
  next
    case (8 f) then show ?case using left ev_invD(8) [OF inv, of f] by auto
  qed (use act ev_invD(4-7) [OF inv] left in simp_all)
qed

lemma ev_inv_conn:
  assumes inv: "ev_inv s" and fd: "fd \<notin> lv_open s"
    and conn: "0 \<le> fd" "s' = s\<lparr>lv_watchers := (lv_watchers s)(lv_next s \<mapsto>
                \<lparr>w_fd = fd, w_events = EV_READ, w_active = True, w_data = Some (lv_next s + 1)\<rparr>),
              lv_bufs := (lv_bufs s)(lv_next s + 1 \<mapsto> \<lparr>b_data = Some (lv_next s + 2), b_len = 0\<rparr>),
              lv_data := (lv_data s)(lv_next s + 2 \<mapsto> replicate BUFFER_SIZE 0),
              lv_next := lv_next s + 3, lv_open := insert fd (lv_open s),
              total_clients := total_clients s + 1, lv_log := lv_log s @ [Ac fd]\<rparr>"
  shows "ev_inv s'"
proof -
  let ?n = "lv_next s"
  have lt: "w + 2 < ?n" "w_fd x \<noteq> fd" if "lv_watchers s w = Some x" "w_active x" for w x
    using ev_invD(1) [OF inv that] fd by (auto simp: conn_def)
  have A: "{w. active s' w} = insert ?n {w. active s w}" using conn by (auto simp: active_fun split: if_splits)
  have na: "\<not> active s ?n" using ev_invD(2) [OF inv, of ?n] by (simp add: active_def)
  have old: "w = ?n \<and> x = \<lparr>w_fd = fd, w_events = EV_READ, w_active = True, w_data = Some (?n + 1)\<rparr> \<or>
      w \<noteq> ?n \<and> lv_watchers s w = Some x" if "lv_watchers s' w = Some x" for w x
    using conn that by (auto split: if_splits)
  show ?thesis
  proof (rule ev_invI, goal_cases)
    case (1 w x)
    show ?case
    proof (cases "w = ?n")
      case True
      then show ?thesis using old [OF 1(1)] conn ev_invD(8) [OF inv fd] by (simp add: conn_def)
    next
      case False
      then have o: "lv_watchers s w = Some x" using old [OF 1(1)] by blast
      show ?thesis using ev_invD(1) [OF inv o 1(2)] lt [OF o 1(2)] conn by - (rule conn_mono [of s], auto)
    qed
  next
    case (2 w) then show ?case using conn ev_invD(2) [OF inv, of w] by auto
  next
    case (3 a b x y) then show ?case
      using old [OF 3(1)] old [OF 3(3)] lt(2) [of a x] lt(2) [of b y] ev_invD(3) [OF inv, of a x b y] by auto
  next
    case 4 then show ?case using A ev_invD(4) [OF inv] by simp
  next
    case 5 then show ?case using A na ev_invD(4,5) [OF inv] conn by simp
  next
    case 6 then show ?case using A ev_invD(6) [OF inv] conn by simp
  next
    case 7 then show ?case using A ev_invD(7) [OF inv] conn by simp
  next
    case (8 f) then show ?case using conn ev_invD(8) [OF inv, of f] by auto
  qed
qed

lemma ev_inv_accept:
  assumes "ev_inv s" "accept_cb mok revents fd nb s = Inr s'" "fd < 0 \<or> fd \<notin> lv_open s"
  shows "ev_inv s'"
  using assms(2)
proof (cases rule: accept_cb_cases)
  case (left ws os)
  then show ?thesis by (rule ev_inv_left [OF assms(1)])
next
  case conn
  then show ?thesis using assms(3) by (intro ev_inv_conn [OF assms(1) _ conn]) simp
qed

text \<open>\<open>io_cb\<close> on an active watcher, branch by branch.\<close>

lemma io_cb_error: "EV_ERROR AND revents \<noteq> 0 \<Longrightarrow> io_cb w revents res wr s = Inr s"
  by (simp add: io_cb_def)

definition conn_at :: "ev_server \<Rightarrow> nat \<Rightarrow> watcher \<Rightarrow> nat \<Rightarrow> bytes \<Rightarrow> bool" where
  "conn_at s w x l y \<longleftrightarrow> lv_watchers s w = Some x \<and> w_data x = Some (w + 1) \<and>
     lv_bufs s (w + 1) = Some \<lparr>b_data = Some (w + 2), b_len = l\<rparr> \<and> lv_data s (w + 2) = Some y \<and>
     length y = BUFFER_SIZE \<and> l \<le> BUFFER_SIZE \<and> (if w_events x = EV_READ then l = 0 \<and> y = replicate BUFFER_SIZE 0 else 0 < l) \<and>
     received (w_fd x) (lv_log s) = offered (w_fd x) (lv_log s) @ take l y"

lemma conn_atE:
  assumes "ev_inv s" "lv_watchers s w = Some x" "w_active x"
  obtains l y where "conn_at s w x l y"
  using ev_invD(1) [OF assms] assms(2) by (auto simp: conn_def conn_at_def)

lemma io_cb_ptrs:
  assumes "conn_at s w x l y"
  shows "get_watcher w s = Inr x" "get_iobuf (w_data x) s = Inr (w + 1, \<lparr>b_data = Some (w + 2), b_len = l\<rparr>)"
    "get_data (Some (w + 2)) s = Inr (w + 2, y)"
  using assms by (simp_all add: conn_at_def get_watcher_def get_iobuf_def get_data_def)

lemma rearm_conn:
  assumes "conn_at s w x l y"
  shows "rearm w ev (s\<lparr>lv_data := d, lv_bufs := b, lv_log := lg\<rparr>) =
     s\<lparr>lv_watchers := (lv_watchers s)(w \<mapsto> x\<lparr>w_events := ev, w_active := True\<rparr>), lv_bufs := b, lv_data := d, lv_log := lg\<rparr>"
    "rearm w ev s = s\<lparr>lv_watchers := (lv_watchers s)(w \<mapsto> x\<lparr>w_events := ev, w_active := True\<rparr>)\<rparr>"
  using assms by (simp_all add: conn_at_def rearm_def)

lemma io_cb_read:
  assumes c: "conn_at s w x l y"
  shows "io_cb w EV_READ (RecvError e) wr s = Inr s"
    "take BUFFER_SIZE avail = [] \<Longrightarrow> io_cb w EV_READ (RecvBytes avail) wr s = Inr (io_eof w (w + 1) (w + 2) s)"
    "bs = take BUFFER_SIZE avail \<Longrightarrow> bs \<noteq> [] \<Longrightarrow> y' = bs @ drop (length bs) y \<Longrightarrow> 0 \<in> set y' \<Longrightarrow>
     io_cb w EV_READ (RecvBytes avail) wr s =
       Inr (s\<lparr>lv_watchers := (lv_watchers s)(w \<mapsto> x\<lparr>w_events := EV_WRITE, w_active := True\<rparr>),
              lv_bufs := (lv_bufs s)(w + 1 \<mapsto> \<lparr>b_data = Some (w + 2), b_len = length bs\<rparr>),
              lv_data := (lv_data s)(w + 2 \<mapsto> y'), lv_log := lv_log s @ [Rd (w_fd x) bs]\<rparr>)"
    "bs = take BUFFER_SIZE avail \<Longrightarrow> bs \<noteq> [] \<Longrightarrow> y' = bs @ drop (length bs) y \<Longrightarrow> 0 \<notin> set y' \<Longrightarrow>
     io_cb w EV_READ (RecvBytes avail) wr s = Inl (OutOfBounds BUFFER_SIZE)"
proof -
  note sm = io_cb_def io_cb_ptrs [OF c] rearm_conn [OF c]
  have len: "length y = BUFFER_SIZE" using c by (simp add: conn_at_def)
  show "io_cb w EV_READ (RecvError e) wr s = Inr s" by (simp add: sm del: add_2_eq_Suc' One_nat_def)
  show "io_cb w EV_READ (RecvBytes avail) wr s = Inr (io_eof w (w + 1) (w + 2) s)" if "take BUFFER_SIZE avail = []"
    using that by (simp add: sm Let_def del: take_eq_Nil add_2_eq_Suc' One_nat_def)
  assume bs: "bs = take BUFFER_SIZE avail" "bs \<noteq> []" "y' = bs @ drop (length bs) y"
  have mw: "mem_write y 0 bs = Inr y'" using bs len by (simp add: mem_write_def)
  have ly: "length y' = BUFFER_SIZE" using mem_write_length [OF mw] len by simp
  show "io_cb w EV_READ (RecvBytes avail) wr s =
       Inr (s\<lparr>lv_watchers := (lv_watchers s)(w \<mapsto> x\<lparr>w_events := EV_WRITE, w_active := True\<rparr>),
              lv_bufs := (lv_bufs s)(w + 1 \<mapsto> \<lparr>b_data = Some (w + 2), b_len = length bs\<rparr>),
              lv_data := (lv_data s)(w + 2 \<mapsto> y'), lv_log := lv_log s @ [Rd (w_fd x) bs]\<rparr>)" if z: "0 \<in> set y'"
    using bs(2) mw z by (simp add: sm Let_def bs(1) [symmetric] c_strlen_if del: take_eq_Nil add_2_eq_Suc' One_nat_def)
  show "io_cb w EV_READ (RecvBytes avail) wr s = Inl (OutOfBounds BUFFER_SIZE)" if z: "0 \<notin> set y'"
    using bs(2) mw z ly by (simp add: sm Let_def bs(1) [symmetric] c_strlen_if del: take_eq_Nil add_2_eq_Suc' One_nat_def)
qed

lemma io_cb_write:
  assumes c: "conn_at s w x l y"
  shows "0 < l \<Longrightarrow> io_cb w EV_WRITE res wr s =
       Inr (s\<lparr>lv_watchers := (lv_watchers s)(w \<mapsto> x\<lparr>w_events := EV_READ, w_active := True\<rparr>),
              lv_bufs := (lv_bufs s)(w + 1 \<mapsto> \<lparr>b_data = Some (w + 2), b_len = 0\<rparr>),
              lv_data := (lv_data s)(w + 2 \<mapsto> replicate BUFFER_SIZE 0), lv_log := lv_log s @ [Wr (w_fd x) (take l y) wr]\<rparr>)"
    "l = 0 \<Longrightarrow> io_cb w EV_WRITE res wr s = Inr (s\<lparr>lv_watchers := (lv_watchers s)(w \<mapsto> x\<lparr>w_events := EV_READ, w_active := True\<rparr>)\<rparr>)"
proof -
  note sm = io_cb_def io_cb_ptrs [OF c] rearm_conn [OF c]
  have len: "mem_read y 0 l = Inr (take l y)" using c by (simp add: conn_at_def mem_read_def)
  show "io_cb w EV_WRITE res wr s =
       Inr (s\<lparr>lv_watchers := (lv_watchers s)(w \<mapsto> x\<lparr>w_events := EV_READ, w_active := True\<rparr>),
              lv_bufs := (lv_bufs s)(w + 1 \<mapsto> \<lparr>b_data = Some (w + 2), b_len = 0\<rparr>),
              lv_data := (lv_data s)(w + 2 \<mapsto> replicate BUFFER_SIZE 0), lv_log := lv_log s @ [Wr (w_fd x) (take l y) wr]\<rparr>)"
    if "0 < l" using that len by (simp add: sm del: add_2_eq_Suc' One_nat_def)
  show "io_cb w EV_WRITE res wr s = Inr (s\<lparr>lv_watchers := (lv_watchers s)(w \<mapsto> x\<lparr>w_events := EV_READ, w_active := True\<rparr>)\<rparr>)"
    if "l = 0" using that by (simp add: sm del: add_2_eq_Suc' One_nat_def)
qed

lemma ev_inv_update:
  assumes inv: "ev_inv s" and w: "lv_watchers s w = Some x" "w_active x"
    and s': "s' = s\<lparr>lv_watchers := (lv_watchers s)(w \<mapsto> x'), lv_bufs := (lv_bufs s)(w + 1 \<mapsto> b), lv_data := (lv_data s)(w + 2 \<mapsto> y), lv_log := lg\<rparr>"
    and x': "w_active x'" "w_fd x' = w_fd x" and c: "conn s' w x'"
    and lg: "\<And>f. f \<noteq> w_fd x \<Longrightarrow> received f lg = received f (lv_log s) \<and> offered f lg = offered f (lv_log s)"
  shows "ev_inv s'"
proof -
  have A: "active s' = active s" using w x' by (simp add: s' active_fun fun_eq_iff)
  have aw: "active s w" using w by (simp add: active_def)
  have fd: "w_fd x \<in> lv_open s" using ev_invD(1) [OF inv w] by (simp add: conn_def)
  have old: "lv_watchers s v = Some z" if "lv_watchers s' v = Some z" "v \<noteq> w" for v z using that by (simp add: s')
  have ne: "w_fd z \<noteq> w_fd x" if "lv_watchers s' v = Some z" "w_active z" "v \<noteq> w" for v z
    using ev_invD(3) [OF inv old [OF that(1,3)] that(2) w] that(3) by blast
  show ?thesis
  proof (rule ev_invI, goal_cases)
    case (1 v z)
    show ?case
    proof (cases "v = w")
      case True then show ?thesis using 1 c by (simp add: s')
    next
      case False
      show ?thesis using ev_invD(1) [OF inv old [OF 1(1) False] 1(2)] ne [OF 1 False] lg False
        by - (rule conn_mono [of s], simp_all add: s')
    qed
  next
    case (2 v) then show ?case using ev_invD(1) [OF inv w] ev_invD(2) [OF inv, of v] by (auto simp: s' conn_def)
  next
    case (3 a b z z')
    show ?case
      using 3 ne [OF 3(1,2)] ne [OF 3(3,4)] old [OF 3(1)] old [OF 3(3)] ev_invD(3) [OF inv, of a z b z'] x'(2)
      by (cases "a = w"; cases "b = w") (auto simp: s')
  next
    case (8 f) then show ?case using ev_invD(8) [OF inv, of f] lg [of f] fd by (cases "f = w_fd x") (auto simp: s')
  qed (use A aw ev_invD(4-7) [OF inv] in \<open>auto simp: s'\<close>)
qed

lemma ev_inv_eof:
  assumes inv: "ev_inv s" and w: "lv_watchers s w = Some x" "w_active x"
  shows "ev_inv (io_eof w (w + 1) (w + 2) s)"
proof -
  let ?s = "io_eof w (w + 1) (w + 2) s"
  have A: "{v. active ?s v} = {v. active s v} - {w}" by (auto simp: io_eof_def active_fun split: if_splits)
  have aw: "w \<in> {v. active s v}" using w by (simp add: active_def)
  have old: "v \<noteq> w \<and> lv_watchers s v = Some z" if "lv_watchers ?s v = Some z" for v z
    using that by (auto simp: io_eof_def split: if_splits)
  show ?thesis
  proof (rule ev_invI, goal_cases)
    case (1 v z)
    then show ?case using ev_invD(1) [OF inv, of v z] old [OF 1(1)] by - (rule conn_mono [of s], auto simp: io_eof_def)
  next
    case (2 v) then show ?case using ev_invD(2) [OF inv, of v] by (simp add: io_eof_def)
  next
    case (3 a b z z') then show ?case using ev_invD(3) [OF inv, of a z b z'] old by blast
  next
    case 4 show ?case using A ev_invD(4) [OF inv] by simp
  next
    case 5 
    have "0 < card {v. active s v}" using ev_invD(4) [OF inv] aw card_gt_0_iff by blast
    then show ?case using A ev_invD(4,5) [OF inv] aw by (simp add: io_eof_def card_Diff_singleton of_nat_diff)
  next
    case 6 show ?case unfolding A using ev_invD(6) [OF inv] by (auto simp: io_eof_def)
  next
    case 7 show ?case unfolding A using ev_invD(7) [OF inv] by (auto simp: io_eof_def)
  next
    case (8 f) then show ?case using ev_invD(8) [OF inv, of f] by (simp add: io_eof_def)
  qed
qed


lemma conn_at_conn:
  assumes "conn s w x" "conn_at s' w x' l y" "w_fd x' = w_fd x" "lv_next s' = lv_next s" "lv_open s' = lv_open s"
    "w_events x' = EV_READ \<or> w_events x' = EV_WRITE"
  shows "conn s' w x'"
  using assms unfolding conn_def conn_at_def by auto

lemma ev_inv_read:
  assumes inv: "ev_inv s" and w: "lv_watchers s w = Some x" "w_active x" and at: "conn_at s w x l y"
    and ev: "w_events x = EV_READ" and io: "io_cb w EV_READ res wr s = Inr s'"
  shows "ev_inv s'"
proof (cases res)
  case (RecvError e) then show ?thesis using io inv io_cb_read(1) [OF at] ev by simp
next
  case (RecvBytes avail)
  define bs where bs: "bs = take BUFFER_SIZE avail"
  define y' where y': "y' = bs @ drop (length bs) y"
  have lbs: "length bs \<le> BUFFER_SIZE" by (simp add: bs)
  consider "bs = []" | "bs \<noteq> []" "0 \<in> set y'" | "bs \<noteq> []" "0 \<notin> set y'" by blast
  then show ?thesis
  proof cases
    case 1
    then show ?thesis using io io_cb_read(2) [OF at, of avail wr] ev RecvBytes ev_inv_eof [OF inv w] by (simp add: bs)
  next
    case 2
    let ?x = "x\<lparr>w_events := EV_WRITE, w_active := True\<rparr>"
    let ?s = "s\<lparr>lv_watchers := (lv_watchers s)(w \<mapsto> ?x),
          lv_bufs := (lv_bufs s)(w + 1 \<mapsto> \<lparr>b_data = Some (w + 2), b_len = length bs\<rparr>),
          lv_data := (lv_data s)(w + 2 \<mapsto> y'), lv_log := lv_log s @ [Rd (w_fd x) bs]\<rparr>"
    have s': "s' = ?s" using io io_cb_read(3) [OF at bs 2(1) y' 2(2)] ev RecvBytes by simp
    have len: "length y = BUFFER_SIZE" using at by (simp add: conn_at_def)
    have "conn_at ?s w ?x (length bs) y'" using at len ev 2(1) lbs by (simp add: conn_at_def y')
    then have "conn ?s w ?x" by (rule conn_at_conn [OF ev_invD(1) [OF inv w]]) simp_all
    then show ?thesis unfolding s' by (intro ev_inv_update [OF inv w refl]) simp_all
  next
    case 3 then show ?thesis using io io_cb_read(4) [OF at bs _ y'] ev RecvBytes by simp
  qed
qed

lemma ev_inv_write:
  assumes inv: "ev_inv s" and w: "lv_watchers s w = Some x" "w_active x" and at: "conn_at s w x l y"
    and ev: "w_events x = EV_WRITE" and io: "io_cb w EV_WRITE res wr s = Inr s'"
  shows "ev_inv s'"
proof -
  let ?x = "x\<lparr>w_events := EV_READ, w_active := True\<rparr>"
  let ?s = "s\<lparr>lv_watchers := (lv_watchers s)(w \<mapsto> ?x),
        lv_bufs := (lv_bufs s)(w + 1 \<mapsto> \<lparr>b_data = Some (w + 2), b_len = 0\<rparr>),
        lv_data := (lv_data s)(w + 2 \<mapsto> replicate BUFFER_SIZE 0), lv_log := lv_log s @ [Wr (w_fd x) (take l y) wr]\<rparr>"
  have len: "length y = BUFFER_SIZE" "l \<le> BUFFER_SIZE" and l: "0 < l" using at ev by (simp_all add: conn_at_def)
  have s': "s' = ?s" using io io_cb_write(1) [OF at l] ev by simp
  have "conn_at ?s w ?x 0 (replicate BUFFER_SIZE 0)" using at len by (simp add: conn_at_def)
  then have "conn ?s w ?x" by (rule conn_at_conn [OF ev_invD(1) [OF inv w]]) simp_all
  then show ?thesis unfolding s' by (intro ev_inv_update [OF inv w refl]) simp_all
qed

lemma ev_inv_io:
  assumes inv: "ev_inv s" and w: "lv_watchers s w = Some x" "w_active x"
    and ev: "revents = w_events x \<or> EV_ERROR AND revents \<noteq> 0" and io: "io_cb w revents res wr s = Inr s'"
  shows "ev_inv s'"
proof -
  have c: "conn s w x" by (rule ev_invD(1) [OF inv w])
  obtain l y where at: "conn_at s w x l y" by (rule conn_atE [OF inv w])
  consider "EV_ERROR AND revents \<noteq> 0" | "w_events x = EV_READ" "revents = EV_READ" | "w_events x = EV_WRITE" "revents = EV_WRITE"
    using ev c by (auto simp: conn_def)
  then show ?thesis
  proof cases
    case 1 then show ?thesis using io inv by (simp add: io_cb_error)
  next
    case 2 then show ?thesis using ev_inv_read [OF inv w at] io by simp
  next
    case 3 then show ?thesis using ev_inv_write [OF inv w at] io by simp
  qed
qed

lemma ev_inv_reachable:
  assumes "reachable (ev_init lfd) (ev_step mok) s"
  shows "ev_inv s"
  using assms
proof (rule reachable_invariant)
  fix s assume "ev_init lfd s" then show "ev_inv s" by (simp add: ev_init_def ev_inv_new)
next
  fix s s' assume "reachable (ev_init lfd) (ev_step mok) s" "ev_inv s" "ev_step mok s s'"
  from this(3,2) show "ev_inv s'" by (cases rule: ev_step.cases) (auto intro: ev_inv_accept ev_inv_io)
qed

text \<open>A concrete run: a connection on descriptor 4 is accepted and \<open>hi\<close> arrives on it.\<close>

definition ev_one :: ev_server where
  "ev_one = \<lparr>lv_watchers = [0 \<mapsto> \<lparr>w_fd = 4, w_events = EV_READ, w_active = True, w_data = Some 1\<rparr>],
     lv_bufs = [1 \<mapsto> \<lparr>b_data = Some 2, b_len = 0\<rparr>], lv_data = [2 \<mapsto> replicate BUFFER_SIZE 0], lv_next = 3,
     lv_open = {4, 3}, total_clients = 1, lv_log = [Ac 4]\<rparr>"

definition ev_two :: ev_server where
  "ev_two = \<lparr>lv_watchers = [0 \<mapsto> \<lparr>w_fd = 4, w_events = EV_WRITE, w_active = True, w_data = Some 1\<rparr>],
     lv_bufs = [1 \<mapsto> \<lparr>b_data = Some 2, b_len = 2\<rparr>], lv_data = [2 \<mapsto> [104, 105] @ replicate 1022 0], lv_next = 3,
     lv_open = {4, 3}, total_clients = 1, lv_log = [Ac 4, Rd 4 [104, 105]]\<rparr>"

lemma ev_one_reachable: "reachable (ev_init 3) (ev_step (\<lambda>_. True)) ev_one"
proof (rule reach_step)
  show "reachable (ev_init 3) (ev_step (\<lambda>_. True)) (ev_server_new 3)" by (rule reach_init) (simp add: ev_init_def)
  show "ev_step (\<lambda>_. True) (ev_server_new 3) ev_one"
    by (rule ev_accept [of _ EV_READ 4 0])
      (simp_all add: accept_cb_def set_nonblocking_def ev_malloc_def ev_server_new_def ev_one_def Let_def numeral_2_eq_2 numeral_3_eq_3)
qed

lemma ev_one_at: "conn_at ev_one 0 \<lparr>w_fd = 4, w_events = EV_READ, w_active = True, w_data = Some 1\<rparr> 0 (replicate BUFFER_SIZE 0)"
  by (simp add: conn_at_def ev_one_def)

lemma ev_two_reachable: "reachable (ev_init 3) (ev_step (\<lambda>_. True)) ev_two"
proof (rule reach_step [OF ev_one_reachable], rule ev_io)
  show "lv_watchers ev_one 0 = Some \<lparr>w_fd = 4, w_events = EV_READ, w_active = True, w_data = Some 1\<rparr>" by (simp add: ev_one_def)
  show "io_cb 0 EV_READ (RecvBytes [104, 105]) 0 ev_one = Inr ev_two"
    by (subst io_cb_read(3) [OF ev_one_at, of "[104, 105]" _ "[104, 105] @ replicate 1022 0"])
      (simp_all add: BUFFER_SIZE_def ev_one_def ev_two_def fun_eq_iff)
qed simp_all

section \<open>Properties of the server\<close>

text \<open>
  C23. In every reachable state of the libev server, for every active watcher: the bytes received
  on its connection are the bytes passed to \<open>write\<close> followed by the bytes its buffer holds, and
  while it waits for input it holds none. Then the connection has taken everything received
  exactly when no \<open>write\<close> to it was short or failed; the server ignores the result, clears the buffer, and what one
  call leaves is never sent. \<open>total_clients\<close> is the number of active watchers, and exactly their buffers are allocated.
\<close>

theorem libev_server_echo:
  assumes "reachable (ev_init lfd) (ev_step mok) s" "lv_watchers s w = Some x" "w_active x"
  shows "(\<exists>b d l y. w_data x = Some b \<and> lv_bufs s b = Some \<lparr>b_data = Some d, b_len = l\<rparr> \<and> lv_data s d = Some y \<and> length y = 1024 \<and>
      l \<le> 1024 \<and> received (w_fd x) (lv_log s) = offered (w_fd x) (lv_log s) @ take l y) \<and>
    (w_events x = EV_READ \<longrightarrow> offered (w_fd x) (lv_log s) = received (w_fd x) (lv_log s) \<and>
      (written (w_fd x) (lv_log s) = received (w_fd x) (lv_log s) \<longleftrightarrow> complete (w_fd x) (lv_log s))) \<and>
    total_clients s = int (card {v. active s v}) \<and>
    dom (lv_bufs s) = {v + 1 |v. active s v} \<and> dom (lv_data s) = {v + 2 |v. active s v}"
proof -
  have inv: "ev_inv s" by (rule ev_inv_reachable [OF assms(1)])
  obtain l y where at: "conn_at s w x l y" by (rule conn_atE [OF inv assms(2,3)])
  show ?thesis
    using at ev_invD(5-7) [OF inv] written_iff_complete [of "w_fd x" "lv_log s"] by (auto simp: conn_at_def BUFFER_SIZE_def)
qed

text \<open>The run goes on: \<open>write\<close> takes one of the two bytes, and the buffer is empty.\<close>

definition ev_three :: ev_server where
  "ev_three = \<lparr>lv_watchers = [0 \<mapsto> \<lparr>w_fd = 4, w_events = EV_READ, w_active = True, w_data = Some 1\<rparr>],
     lv_bufs = [1 \<mapsto> \<lparr>b_data = Some 2, b_len = 0\<rparr>], lv_data = [2 \<mapsto> replicate BUFFER_SIZE 0], lv_next = 3,
     lv_open = {4, 3}, total_clients = 1, lv_log = [Ac 4, Rd 4 [104, 105], Wr 4 [104, 105] 1]\<rparr>"

lemma ev_two_at: "conn_at ev_two 0 \<lparr>w_fd = 4, w_events = EV_WRITE, w_active = True, w_data = Some 1\<rparr> 2 ([104, 105] @ replicate 1022 0)"
  by (simp add: conn_at_def ev_two_def BUFFER_SIZE_def)

lemma ev_three_reachable: "reachable (ev_init 3) (ev_step (\<lambda>_. True)) ev_three"
proof (rule reach_step [OF ev_two_reachable], rule ev_io)
  show "lv_watchers ev_two 0 = Some \<lparr>w_fd = 4, w_events = EV_WRITE, w_active = True, w_data = Some 1\<rparr>" by (simp add: ev_two_def)
  show "io_cb 0 EV_WRITE (RecvBytes []) 1 ev_two = Inr ev_three"
    by (subst io_cb_write(1) [OF ev_two_at]) (simp_all add: ev_two_def ev_three_def fun_eq_iff numeral_2_eq_2)
qed simp_all

theorem libev_server_echo_witness:
  "received 4 (lv_log ev_two) = offered 4 (lv_log ev_two) @ take 2 (the (lv_data ev_two 2)) \<and>
   reachable (ev_init 3) (ev_step (\<lambda>_. True)) ev_three \<and> received 4 (lv_log ev_three) = [104, 105] \<and>
   offered 4 (lv_log ev_three) = received 4 (lv_log ev_three) \<and> written 4 (lv_log ev_three) = [104] \<and>
   total_clients ev_three = int (card {v. active ev_three v})"
  using libev_server_echo [OF ev_two_reachable, of 0 "\<lparr>w_fd = 4, w_events = EV_WRITE, w_active = True, w_data = Some 1\<rparr>"]
    libev_server_echo [OF ev_three_reachable, of 0 "\<lparr>w_fd = 4, w_events = EV_READ, w_active = True, w_data = Some 1\<rparr>"]
    ev_three_reachable by (simp add: ev_two_def ev_three_def)

text \<open>
  In every reachable state, the callback of an active watcher on the event it waits for
  follows no null or dangling pointer and stays in its buffer; the only failure is the \<open>printf\<close> of
  the received message, exactly when 1024 bytes without a zero byte arrive at once.
\<close>

theorem libev_io_safe:
  assumes "reachable (ev_init lfd) (ev_step mok) s" "lv_watchers s w = Some x" "w_active x"
  shows "(\<exists>s'. io_cb w (w_events x) res wr s = Inr s') \<longleftrightarrow>
    \<not> (\<exists>avail. w_events x = EV_READ \<and> res = RecvBytes avail \<and> 1024 \<le> length avail \<and> 0 \<notin> set (take 1024 avail))"
proof -
  have inv: "ev_inv s" by (rule ev_inv_reachable [OF assms(1)])
  obtain l y where at: "conn_at s w x l y" by (rule conn_atE [OF inv assms(2,3)])
  have "w_events x = EV_READ \<or> w_events x = EV_WRITE"
    using ev_invD(1) [OF inv assms(2,3)] by (simp add: conn_def)
  then show ?thesis
  proof
    assume e: "w_events x = EV_WRITE"
    then have "0 < l" using at by (simp add: conn_at_def)
    then show ?thesis using io_cb_write(1) [OF at, of res wr] e by simp
  next
    assume e: "w_events x = EV_READ"
    then have y: "y = replicate BUFFER_SIZE 0" using at by (simp add: conn_at_def)
    show ?thesis
    proof (cases res)
      case (RecvError v) then show ?thesis using io_cb_read(1) [OF at] e by simp
    next
      case (RecvBytes avail)
      define bs where bs: "bs = take BUFFER_SIZE avail"
      define y' where y': "y' = bs @ drop (length bs) y"
      have z: "0 \<in> set y' \<longleftrightarrow> \<not> (1024 \<le> length avail \<and> 0 \<notin> set (take 1024 avail))"
        by (auto simp: y' y bs BUFFER_SIZE_def)
      have nz: "0 \<in> set y'" if "bs = []" using that by (simp add: y' y BUFFER_SIZE_def)
      show ?thesis
        using e z nz RecvBytes io_cb_read(2) [OF at, of avail wr] io_cb_read(3,4) [OF at bs _ y'] bs
        by (cases "bs = []"; cases "0 \<in> set y'") auto
    qed
  qed
qed

theorem libev_io_safe_witness:
  "(\<exists>s'. io_cb 0 EV_READ (RecvBytes [104, 105]) 0 ev_one = Inr s') \<and>
   \<not> (\<exists>s'. io_cb 0 EV_READ (RecvBytes (replicate 2000 65)) 0 ev_one = Inr s')"
  using libev_io_safe [OF ev_one_reachable, of 0 "\<lparr>w_fd = 4, w_events = EV_READ, w_active = True, w_data = Some 1\<rparr>" "RecvBytes [104, 105]"]
    libev_io_safe [OF ev_one_reachable, of 0 "\<lparr>w_fd = 4, w_events = EV_READ, w_active = True, w_data = Some 1\<rparr>" "RecvBytes (replicate 2000 65)"]
  by (simp add: ev_one_def)

text \<open>
  The libev server never closes a descriptor: no step removes one from the open ones, and the
  end of a connection frees its watcher and its buffers and forgets its descriptor, which stays open.
\<close>

theorem libev_never_closes:
  assumes "reachable (ev_init lfd) (ev_step mok) s" "ev_step mok s s'"
  shows "lv_open s \<subseteq> lv_open s' \<and>
    (\<forall>w x. lv_watchers s w = Some x \<and> w_active x \<and> io_cb w EV_READ (RecvBytes []) wr s = Inr s' \<longrightarrow>
       w_fd x \<in> lv_open s' \<and> (\<nexists>v z. lv_watchers s' v = Some z \<and> w_active z \<and> w_fd z = w_fd x))"
proof -
  have inv: "ev_inv s" by (rule ev_inv_reachable [OF assms(1)])
  have mono: "lv_open s \<subseteq> lv_open s'" using assms(2)
  proof (cases rule: ev_step.cases)
    case (ev_accept revents fd nb)
    from ev_accept(1) show ?thesis by (cases rule: accept_cb_cases) auto
  next
    case (ev_io w x revents res wr)
    then show ?thesis
      by (cases res) (auto simp: io_cb_def io_eof_def rearm_def bind_err_eq_Inr Let_def split: if_splits option.splits prod.splits)
  qed
  moreover have "w_fd x \<in> lv_open s' \<and> (\<nexists>v z. lv_watchers s' v = Some z \<and> w_active z \<and> w_fd z = w_fd x)"
    if w: "lv_watchers s w = Some x" "w_active x" and io: "io_cb w EV_READ (RecvBytes []) wr s = Inr s'" for w x
  proof -
    obtain l y where at: "conn_at s w x l y" by (rule conn_atE [OF inv w])
    have s': "s' = io_eof w (w + 1) (w + 2) s" using io io_cb_read(2) [OF at, of "[]" wr] by simp
    have fd: "w_fd x \<in> lv_open s" using ev_invD(1) [OF inv w] by (simp add: conn_def)
    have "w_fd z \<noteq> w_fd x" if "lv_watchers s' v = Some z" "w_active z" for v z
    proof
      assume eq: "w_fd z = w_fd x"
      have "lv_watchers s v = Some z" "v \<noteq> w" using that(1) by (auto simp: s' io_eof_def split: if_splits)
      then show False using ev_invD(3) [OF inv _ that(2) w eq] by blast
    qed
    then show ?thesis using fd mono by auto
  qed
  ultimately show ?thesis by blast
qed

theorem libev_never_closes_witness:
  "\<exists>s'. io_cb 0 EV_READ (RecvBytes []) 0 ev_one = Inr s' \<and> 4 \<in> lv_open s' \<and>
     \<not> (\<exists>v z. lv_watchers s' v = Some z \<and> w_active z \<and> w_fd z = 4)"
proof -
  let ?x = "\<lparr>w_fd = 4, w_events = EV_READ, w_active = True, w_data = Some 1\<rparr>"
  let ?s = "io_eof 0 1 2 ev_one"
  have w: "lv_watchers ev_one 0 = Some ?x" by (simp add: ev_one_def)
  have io: "io_cb 0 EV_READ (RecvBytes []) 0 ev_one = Inr ?s" using io_cb_read(2) [OF ev_one_at, of "[]" 0] by (simp add: numeral_2_eq_2)
  have "ev_step (\<lambda>_. True) ev_one ?s" by (rule ev_io [OF w _ _ io]) simp_all
  then show ?thesis using libev_never_closes [OF ev_one_reachable, of ?s] w io
    by (intro exI [of _ ?s]) (metis watcher.select_convs(1,3))
qed

section \<open>The client\<close>

text \<open>
  Both watchers share one buffer. \<open>ec_log\<close> records reads and writes with their descriptor,
  \<open>Cl\<close> the \<open>close\<close> of the connection.
\<close>

definition STDIN_FILENO :: int where "STDIN_FILENO = 0"
definition STDOUT_FILENO :: int where "STDOUT_FILENO = 1"
definition EV_EAGAIN :: int where "EV_EAGAIN = 11"

record ev_client =
  ec_stdin :: bool
  ec_socket :: bool
  ec_connfd :: int
  ec_buf :: bytes
  ec_log :: "echo_io list"

definition ev_client_new :: "int \<Rightarrow> ev_client" where
  "ev_client_new connfd = \<lparr>ec_stdin = True, ec_socket = True, ec_connfd = connfd,
     ec_buf = replicate BUFFER_SIZE 0, ec_log = []\<rparr>"

text \<open>\<open>main\<close> up to \<open>ev_run\<close>, from the answers of \<open>socket\<close> and \<open>connect\<close>.\<close>

definition EV_EINPROGRESS :: int where "EV_EINPROGRESS = 115"

definition ev_client_main :: "int \<Rightarrow> int \<Rightarrow> int \<Rightarrow> int + ev_client" where
  "ev_client_main connfd connected errno =
     (if connfd < 0 then Inl (-1)
      else if connected < 0 \<and> errno \<noteq> EV_EINPROGRESS then Inl (-1)
      else Inr (ev_client_new connfd))"

text \<open>\<open>wr\<close> is what \<open>write\<close> returns.\<close>

definition forward :: "int \<Rightarrow> int \<Rightarrow> bytes \<Rightarrow> int \<Rightarrow> ev_client \<Rightarrow> ev_client c_res" where
  "forward from to bs wr s =
     bind_err (mem_write (ec_buf s) 0 bs) (\<lambda>buf.
     bind_err (mem_read buf 0 (length bs)) (\<lambda>out.
       Inr (s\<lparr>ec_buf := replicate BUFFER_SIZE 0, ec_log := ec_log s @ [Rd from bs, Wr to out wr]\<rparr>)))"

definition stdin_cb :: "u32 \<Rightarrow> recv_res \<Rightarrow> int \<Rightarrow> ev_client \<Rightarrow> ev_client c_res" where
  "stdin_cb revents res wr s =
     (if EV_READ AND revents \<noteq> 0 then
        case res of RecvError _ \<Rightarrow> Inr s
        | RecvBytes avail \<Rightarrow> forward STDIN_FILENO (ec_connfd s) (take BUFFER_SIZE avail) wr s
      else Inr s)"

definition conn_close :: "ev_client \<Rightarrow> ev_client" where
  "conn_close s = s\<lparr>ec_socket := False, ec_log := ec_log s @ [Cl (ec_connfd s)]\<rparr>"

definition conn_cb :: "u32 \<Rightarrow> recv_res \<Rightarrow> int \<Rightarrow> ev_client \<Rightarrow> ev_client c_res" where
  "conn_cb revents res wr s =
     (if EV_READ AND revents \<noteq> 0 then
        case res of
          RecvError errno \<Rightarrow> Inr (if errno \<noteq> EV_EAGAIN then conn_close s else s)
        | RecvBytes avail \<Rightarrow>
            if take BUFFER_SIZE avail = [] then Inr (conn_close s)
            else forward (ec_connfd s) STDOUT_FILENO (take BUFFER_SIZE avail) wr s
      else Inr s)"

inductive ec_step :: "ev_client \<Rightarrow> ev_client \<Rightarrow> bool" where
  ec_stdin_ready: "ec_stdin s \<Longrightarrow> stdin_cb revents res wr s = Inr s' \<Longrightarrow> ec_step s s'"
| ec_socket_ready: "ec_socket s \<Longrightarrow> conn_cb revents res wr s = Inr s' \<Longrightarrow> ec_step s s'"

definition ec_inv :: "int \<Rightarrow> ev_client \<Rightarrow> bool" where
  "ec_inv c s \<longleftrightarrow> ec_buf s = replicate BUFFER_SIZE 0 \<and> ec_connfd s = c \<and> ec_stdin s \<and>
     offered c (ec_log s) = received STDIN_FILENO (ec_log s) \<and>
     offered STDOUT_FILENO (ec_log s) = received c (ec_log s) \<and> (ec_socket s \<longleftrightarrow> Cl c \<notin> set (ec_log s))"

lemma forward_zero:
  "ec_buf s = replicate BUFFER_SIZE 0 \<Longrightarrow> length bs \<le> BUFFER_SIZE \<Longrightarrow>
   forward f g bs wr s = Inr (s\<lparr>ec_buf := replicate BUFFER_SIZE 0, ec_log := ec_log s @ [Rd f bs, Wr g bs wr]\<rparr>)"
  by (simp add: forward_def mem_write_def mem_read_def)

lemma ec_inv_cb:
  assumes "ec_inv c s" "c \<noteq> STDIN_FILENO" "c \<noteq> STDOUT_FILENO"
  shows "\<exists>s'. stdin_cb revents res wr s = Inr s' \<and> ec_inv c s'"
    "ec_socket s \<Longrightarrow> \<exists>s'. conn_cb revents res wr s = Inr s' \<and> ec_inv c s'"
  using assms
  by (cases res; auto simp: ec_inv_def stdin_cb_def conn_cb_def conn_close_def forward_zero STDIN_FILENO_def STDOUT_FILENO_def)+

lemma ec_inv_reachable:
  assumes "reachable (\<lambda>s. s = ev_client_new c) ec_step s" "c \<noteq> STDIN_FILENO" "c \<noteq> STDOUT_FILENO"
  shows "ec_inv c s"
  using assms(1)
proof (rule reachable_invariant)
  fix s assume "s = ev_client_new c" then show "ec_inv c s" by (simp add: ec_inv_def ev_client_new_def)
next
  fix s s' assume "ec_inv c s" "ec_step s s'"
  from this(2,1) show "ec_inv c s'"
  proof (cases rule: ec_step.cases)
    case (ec_stdin_ready revents res wr)
    assume "ec_inv c s" from ec_inv_cb(1) [OF this assms(2,3), of revents res wr] ec_stdin_ready(2) show ?thesis by auto
  next
    case (ec_socket_ready revents res wr)
    assume "ec_inv c s" from ec_inv_cb(2) [OF this assms(2,3), of revents res wr] ec_socket_ready show ?thesis by auto
  qed
qed

text \<open>
  The libev client relays: in every reachable state what it passed to \<open>write\<close> for the connection is
  what it read from the standard input, what it passed to \<open>write\<close> for the standard output is what it read from
  the connection, all of it was taken exactly when no \<open>write\<close> was short, and both callbacks stay in the shared buffer. The standard input is still
  watched after the connection is closed, and a line read then is written to the closed
  descriptor.
\<close>

theorem libev_client_relays:
  assumes "reachable (\<lambda>s. s = ev_client_new c) ec_step s" "c \<noteq> STDIN_FILENO" "c \<noteq> STDOUT_FILENO"
  shows "offered c (ec_log s) = received STDIN_FILENO (ec_log s) \<and>
    offered STDOUT_FILENO (ec_log s) = received c (ec_log s) \<and>
    (written c (ec_log s) = received STDIN_FILENO (ec_log s) \<longleftrightarrow> complete c (ec_log s)) \<and>
    (written STDOUT_FILENO (ec_log s) = received c (ec_log s) \<longleftrightarrow> complete STDOUT_FILENO (ec_log s)) \<and>
    (\<exists>s'. stdin_cb revents res wr s = Inr s') \<and> (\<exists>s'. conn_cb revents res wr s = Inr s') \<and>
    (ec_socket s \<longleftrightarrow> Cl c \<notin> set (ec_log s)) \<and> ec_stdin s \<and>
    (\<exists>s'. stdin_cb EV_READ (RecvBytes [97]) wr s = Inr s' \<and> ec_log s' = ec_log s @ [Rd STDIN_FILENO [97], Wr c [97] wr])"
proof -
  have inv: "ec_inv c s" by (rule ec_inv_reachable [OF assms])
  then have "\<exists>s'. conn_cb revents res wr s = Inr s'"
    by (cases res) (auto simp: ec_inv_def conn_cb_def forward_zero)
  moreover have "\<exists>s'. stdin_cb revents res wr s = Inr s'" using ec_inv_cb(1) [OF inv assms(2,3)] by blast
  moreover have "\<exists>s'. stdin_cb EV_READ (RecvBytes [97]) wr s = Inr s' \<and> ec_log s' = ec_log s @ [Rd STDIN_FILENO [97], Wr c [97] wr]"
    using inv by (simp add: ec_inv_def stdin_cb_def forward_zero BUFFER_SIZE_def)
  ultimately show ?thesis using inv written_iff_complete [of c "ec_log s"] written_iff_complete [of STDOUT_FILENO "ec_log s"]
    by (simp add: ec_inv_def)
qed

theorem libev_client_relays_witness:
  "\<exists>s s'. reachable (\<lambda>s. s = ev_client_new 5) ec_step s \<and> Cl 5 \<in> set (ec_log s) \<and> \<not> ec_socket s \<and>
     stdin_cb EV_READ (RecvBytes [97]) 1 s = Inr s' \<and> ec_log s' = [Cl 5, Rd STDIN_FILENO [97], Wr 5 [97] 1]"
proof -
  let ?s = "conn_close (ev_client_new 5)"
  have r: "reachable (\<lambda>s. s = ev_client_new 5) ec_step ?s"
  proof (rule reach_step)
    show "reachable (\<lambda>s. s = ev_client_new 5) ec_step (ev_client_new 5)" by (rule reach_init) (rule refl)
    show "ec_step (ev_client_new 5) ?s"
      by (rule ec_socket_ready [of _ EV_READ "RecvBytes []"]) (simp_all add: ev_client_new_def conn_cb_def)
  qed
  from libev_client_relays [OF r, of 0 "RecvBytes []" 1] obtain s' where
    "stdin_cb EV_READ (RecvBytes [97]) 1 ?s = Inr s'" "ec_log s' = ec_log ?s @ [Rd STDIN_FILENO [97], Wr 5 [97] 1]"
    by (auto simp: STDIN_FILENO_def STDOUT_FILENO_def)
  then show ?thesis using r by (intro exI [of _ ?s] exI [of _ s']) (simp add: conn_close_def ev_client_new_def)
qed

end
