(* ===== verification/Errors.thy ===== *)
theory Errors
  imports Prelude
begin

text \<open>
  The error functions of \<open>src/basic_lib/error.c\<close>. The text that \<open>vsnprintf\<close> makes of the format
  and its arguments is the argument \<open>msg\<close>, the text of \<open>strerror\<close> is \<open>strerr\<close>, both without
  their terminating zero; \<open>junk\<close> is the indeterminate content of the local array. The
  configuration has \<open>HAVE_VSNPRINTF\<close>.
\<close>

definition MAXLINE :: nat where "MAXLINE = 4096"

definition newline :: byte where "newline = 10"

lemma newline_nonzero [simp]: "newline \<noteq> 0"
  by (simp add: newline_def)

lemmas newline_nonzero_sym [simp] = newline_nonzero [symmetric]

text \<open>\<open>snprintf(buf + off, sz, "%s", text)\<close> and \<open>strcat(buf, text)\<close>.\<close>

definition c_snprintf :: "bytes \<Rightarrow> nat \<Rightarrow> nat \<Rightarrow> bytes \<Rightarrow> bytes c_res" where
  "c_snprintf buf off sz text = (if sz = 0 then Inr buf else mem_write buf off (take (sz - 1) text @ [0]))"

definition c_strcat :: "bytes \<Rightarrow> bytes \<Rightarrow> bytes c_res" where
  "c_strcat buf text = bind_err (c_strlen buf) (\<lambda>n. mem_write buf n (text @ [0]))"

lemma c_snprintf_ok:
  assumes "length pre = off" "0 < sz" "off + sz \<le> length buf" "take off buf = pre"
  shows "\<exists>rest. c_snprintf buf off sz text = Inr (pre @ take (sz - 1) text @ 0 # rest) \<and>
    length (pre @ take (sz - 1) text @ 0 # rest) = length buf"
  using assms by (auto simp: c_snprintf_def mem_write_def)

lemma c_strcat_ok:
  assumes "0 \<notin> set pre" "length text \<le> length rest"
  shows "\<exists>rest'. c_strcat (pre @ 0 # rest) text = Inr (pre @ text @ 0 # rest') \<and> length rest' = length rest - length text"
  using assms by (simp add: c_strcat_def c_strlen_mid mem_write_def)

text \<open>Sequencing of code over a state that may end the process.\<close>

definition bind_exit ::
    "('a exitable \<times> 's) c_res \<Rightarrow> ('a \<Rightarrow> 's \<Rightarrow> ('b exitable \<times> 's) c_res) \<Rightarrow> ('b exitable \<times> 's) c_res" where
  "bind_exit m f = bind_err m (\<lambda>(r, s). case r of Exited c \<Rightarrow> Inr (Exited c, s) | Returned a \<Rightarrow> f a s)"

lemma bind_exit_simps [simp, err_simps]:
  "bind_exit (Inl e) f = Inl e" "bind_exit (Inr (Exited c, s)) f = Inr (Exited c, s)"
  "bind_exit (Inr (Returned a, s)) f = f a s"
  by (simp_all add: bind_exit_def)

lemma bind_exit_cong [fundef_cong]:
  "m = m' \<Longrightarrow> (\<And>a s. m' = Inr (Returned a, s) \<Longrightarrow> f a s = g a s) \<Longrightarrow> bind_exit m f = bind_exit m' g"
  by (cases m') (auto simp: bind_exit_def split: exitable.splits prod.splits)

lemma bind_exit_eq_Returned:
  "bind_exit m f = Inr (Returned b, s') \<longleftrightarrow> (\<exists>a s. m = Inr (Returned a, s) \<and> f a s = Inr (Returned b, s'))"
  by (cases m) (auto simp: bind_exit_def split: exitable.splits prod.splits)

section \<open>Where a message goes\<close>

datatype err_out = ErrStderr bytes | ErrSyslog int bytes | ErrFlushStdout

definition LOG_ERR :: int where "LOG_ERR = 3"
definition LOG_INFO :: int where "LOG_INFO = 6"

definition err_doit :: "bytes \<Rightarrow> bool \<Rightarrow> bool \<Rightarrow> int \<Rightarrow> bytes \<Rightarrow> bytes \<Rightarrow> err_out list c_res" where
  "err_doit junk daemon_proc errnoflag level msg strerr =
     bind_err (c_snprintf junk 0 MAXLINE msg) (\<lambda>buf.
     bind_err (c_strlen buf) (\<lambda>n.
     bind_err (if errnoflag then c_snprintf buf n (MAXLINE - n) ([58, 32] @ strerr) else Inr buf) (\<lambda>buf.
     bind_err (c_strcat buf [newline]) (\<lambda>buf.
     bind_err (c_strlen buf) (\<lambda>m.
       Inr (if daemon_proc then [ErrSyslog level (take m buf)]
            else [ErrFlushStdout, ErrStderr (take m buf)]))))))"

text \<open>\<open>abort\<close> is written as the exit code 134 that the shell sees for it.\<close>

definition err_ret :: "bytes \<Rightarrow> bool \<Rightarrow> bytes \<Rightarrow> bytes \<Rightarrow> (unit exitable \<times> err_out list) c_res" where
  "err_ret junk daemon_proc msg strerr =
     bind_err (err_doit junk daemon_proc True LOG_INFO msg strerr) (\<lambda>out. Inr (Returned (), out))"

definition err_sys :: "bytes \<Rightarrow> bool \<Rightarrow> bytes \<Rightarrow> bytes \<Rightarrow> (unit exitable \<times> err_out list) c_res" where
  "err_sys junk daemon_proc msg strerr =
     bind_err (err_doit junk daemon_proc True LOG_ERR msg strerr) (\<lambda>out. Inr (Exited 1, out))"

definition err_dump :: "bytes \<Rightarrow> bool \<Rightarrow> bytes \<Rightarrow> bytes \<Rightarrow> (unit exitable \<times> err_out list) c_res" where
  "err_dump junk daemon_proc msg strerr =
     bind_err (err_doit junk daemon_proc True LOG_ERR msg strerr) (\<lambda>out. Inr (Exited 134, out))"

definition err_msg :: "bytes \<Rightarrow> bool \<Rightarrow> bytes \<Rightarrow> bytes \<Rightarrow> (unit exitable \<times> err_out list) c_res" where
  "err_msg junk daemon_proc msg strerr =
     bind_err (err_doit junk daemon_proc False LOG_INFO msg strerr) (\<lambda>out. Inr (Returned (), out))"

definition err_quit :: "bytes \<Rightarrow> bool \<Rightarrow> bytes \<Rightarrow> bytes \<Rightarrow> (unit exitable \<times> err_out list) c_res" where
  "err_quit junk daemon_proc msg strerr =
     bind_err (err_doit junk daemon_proc False LOG_ERR msg strerr) (\<lambda>out. Inr (Exited 1, out))"

text \<open>The line that is printed.\<close>

definition err_line :: "bool \<Rightarrow> bytes \<Rightarrow> bytes \<Rightarrow> bytes" where
  "err_line errnoflag msg strerr = take (MAXLINE - 1) (msg @ (if errnoflag then [58, 32] @ strerr else [])) @ [newline]"

lemma err_doit_line:
  assumes z: "0 \<notin> set msg" "0 \<notin> set strerr" and junk: "length junk = MAXLINE + 1"
  shows "err_doit junk daemon errnoflag level msg strerr =
    Inr (if daemon then [ErrSyslog level (err_line errnoflag msg strerr)]
         else [ErrFlushStdout, ErrStderr (err_line errnoflag msg strerr)])"
proof -
  let ?m = "take (MAXLINE - 1) msg" and ?n = "min (length msg) (MAXLINE - 1)"
  let ?t = "take (MAXLINE - 1) (msg @ (if errnoflag then [58, 32] @ strerr else []))"
  have M: "0 < MAXLINE" "?n < MAXLINE" by (simp_all add: MAXLINE_def)
  have zm: "0 \<notin> set ?m" using z by (auto dest: in_set_takeD)
  obtain r1 where r1: "c_snprintf junk 0 MAXLINE msg = Inr (?m @ 0 # r1)" "length (?m @ 0 # r1) = length junk"
    using c_snprintf_ok [of "[]" 0 MAXLINE junk msg] M junk by auto
  have n: "c_strlen (?m @ 0 # r1) = Inr ?n" using zm by (simp add: c_strlen_mid)
  have "\<exists>r2. (if errnoflag then c_snprintf (?m @ 0 # r1) ?n (MAXLINE - ?n) ([58, 32] @ strerr) else Inr (?m @ 0 # r1)) =
      Inr (?t @ 0 # r2) \<and> length (?t @ 0 # r2) = length junk"
  proof (cases errnoflag)
    case True
    have "\<exists>rest. c_snprintf (?m @ 0 # r1) ?n (MAXLINE - ?n) ([58, 32] @ strerr) =
        Inr (?m @ take (MAXLINE - ?n - 1) ([58, 32] @ strerr) @ 0 # rest) \<and>
        length (?m @ take (MAXLINE - ?n - 1) ([58, 32] @ strerr) @ 0 # rest) = length (?m @ 0 # r1)"
      by (rule c_snprintf_ok) (use M r1(2) junk in \<open>simp_all add: min_def\<close>)
    moreover have "?m @ take (MAXLINE - ?n - 1) ([58, 32] @ strerr) = ?t"
      using True by (simp add: min_def MAXLINE_def)
    ultimately show ?thesis using True r1(2) by (simp only: if_True append_assoc [symmetric])
  next
    case False then show ?thesis using r1(2) by simp
  qed
  then obtain r2 where r2: "(if errnoflag then c_snprintf (?m @ 0 # r1) ?n (MAXLINE - ?n) ([58, 32] @ strerr) else Inr (?m @ 0 # r1)) =
      Inr (?t @ 0 # r2)" "length (?t @ 0 # r2) = length junk" by blast
  have zt: "0 \<notin> set ?t" using z by (auto dest!: in_set_takeD)
  have "1 \<le> length r2" using r2(2) junk by (simp add: MAXLINE_def min_def split: if_splits)
  then obtain r3 where r3: "c_strcat (?t @ 0 # r2) [newline] = Inr (?t @ [newline] @ 0 # r3)"
    using c_strcat_ok [OF zt, of "[newline]" r2] by auto
  define l where l: "l = ?t @ [newline]"
  have sl: "c_strlen (l @ 0 # r3) = Inr (length l)" by (rule c_strlen_mid) (use zt in \<open>simp add: l\<close>)
  have r3': "c_strcat (?t @ 0 # r2) [newline] = Inr (l @ 0 # r3)" using r3 by (simp add: l)
  have el: "err_line errnoflag msg strerr = l" by (simp add: err_line_def l)
  show ?thesis
    unfolding err_doit_def r1(1) bind_err_Inr n r2(1) r3' sl el by simp
qed

text \<open>
  The error functions never overflow their line buffer, whatever the length of the message
  and of the system's text: they print the first 4095 bytes of the message, with the system's
  text after a colon for \<open>err_ret\<close>, \<open>err_sys\<close> and \<open>err_dump\<close>, and a newline, to the standard error
  or, in a daemon, to the system log; \<open>err_ret\<close> and \<open>err_msg\<close> return and the others end the process.
\<close>

theorem err_functions_bounded:
  assumes "0 \<notin> set msg" "0 \<notin> set strerr" "length junk = 4097"
  shows "err_ret junk d msg strerr =
      Inr (Returned (), if d then [ErrSyslog LOG_INFO (err_line True msg strerr)] else [ErrFlushStdout, ErrStderr (err_line True msg strerr)]) \<and>
    err_sys junk d msg strerr =
      Inr (Exited 1, if d then [ErrSyslog LOG_ERR (err_line True msg strerr)] else [ErrFlushStdout, ErrStderr (err_line True msg strerr)]) \<and>
    err_dump junk d msg strerr =
      Inr (Exited 134, if d then [ErrSyslog LOG_ERR (err_line True msg strerr)] else [ErrFlushStdout, ErrStderr (err_line True msg strerr)]) \<and>
    err_msg junk d msg strerr =
      Inr (Returned (), if d then [ErrSyslog LOG_INFO (err_line False msg strerr)] else [ErrFlushStdout, ErrStderr (err_line False msg strerr)]) \<and>
    err_quit junk d msg strerr =
      Inr (Exited 1, if d then [ErrSyslog LOG_ERR (err_line False msg strerr)] else [ErrFlushStdout, ErrStderr (err_line False msg strerr)])"
  using assms
  by (simp_all add: err_ret_def err_sys_def err_dump_def err_msg_def err_quit_def err_doit_line MAXLINE_def)

theorem err_functions_bounded_witness:
  "err_sys (replicate 4097 7) False (replicate 5000 65) [66] =
     Inr (Exited 1, [ErrFlushStdout, ErrStderr (replicate 4095 65 @ [10])])"
  using err_functions_bounded [of "replicate 5000 65" "[66]" "replicate 4097 7" False]
  by (simp add: err_line_def MAXLINE_def newline_def)

end
