(* ===== verification/StreamIO.thy ===== *)
theory StreamIO
  imports Errors
begin

text \<open>
  Reading and writing streams: \<open>readn.c\<close>, \<open>writen.c\<close>, \<open>readline.c\<close>, \<open>str_echo.c\<close> and \<open>str_cli.c\<close>
  of \<open>src/basic_lib/\<close>, and the client and the per-connection function of
  \<open>src/network/echo/d1_echo_client.cpp\<close> and \<open>d1_multi_thread_echo_server.cpp\<close>.

  What arrives on a descriptor is the list of the answers the kernel has for \<open>read\<close>: chunks of
  bytes, of which a call takes at most what it asks for, the end of the file (an empty chunk,
  which stays), and errors. After the last answer there is the end of the file. What \<open>write\<close> accepts is a list as well: how many
  bytes a call takes, or an error; after the last one it takes all. So short reads and writes and
  interrupted calls are in the model, and all loops end.
\<close>

section \<open>Descriptors\<close>

type_synonym chan = "recv_res list"

definition EINTR :: int where "EINTR = 4"

definition ch_read :: "nat \<Rightarrow> chan \<Rightarrow> recv_res \<times> chan" where
  "ch_read n ch =
     (case ch of
        [] \<Rightarrow> (RecvBytes [], [])
      | RecvError e # r \<Rightarrow> (RecvError e, r)
      | RecvBytes bs # r \<Rightarrow>
          if bs = [] then (RecvBytes [], ch)
          else (RecvBytes (take n bs), if n < length bs then RecvBytes (drop n bs) # r else r))"

text \<open>The bytes that arrive before the end of the file or a true error, and whether no such error comes.\<close>

fun chan_data :: "chan \<Rightarrow> bytes" where
  "chan_data [] = []"
| "chan_data (RecvBytes bs # r) = (if bs = [] then [] else bs @ chan_data r)"
| "chan_data (RecvError e # r) = (if e = EINTR then chan_data r else [])"

fun chan_ok :: "chan \<Rightarrow> bool" where
  "chan_ok [] = True"
| "chan_ok (RecvBytes bs # r) \<longleftrightarrow> bs = [] \<or> chan_ok r"
| "chan_ok (RecvError e # r) \<longleftrightarrow> e = EINTR \<and> chan_ok r"

fun chan_size :: "chan \<Rightarrow> nat" where
  "chan_size [] = 0"
| "chan_size (RecvBytes bs # r) = length bs + 1 + chan_size r"
| "chan_size (RecvError e # r) = 1 + chan_size r"

lemma ch_read_size: "(r, ch') = ch_read n ch \<Longrightarrow> 0 < n \<Longrightarrow> r \<noteq> RecvBytes [] \<Longrightarrow> chan_size ch' < chan_size ch"
  by (cases ch rule: chan_data.cases) (auto simp: ch_read_def split: if_splits)

lemma ch_read_Nil [simp]: "ch_read n [] = (RecvBytes [], [])"
  by (simp add: ch_read_def)

text \<open>What a call of \<open>read\<close> does to the bytes that are still to come.\<close>

lemma ch_read_cases:
  assumes "ch_read n ch = (r, ch')" "0 < n" "chan_ok ch"
  obtains (intr) "r = RecvError EINTR" "chan_data ch' = chan_data ch" "chan_ok ch'" "chan_size ch' < chan_size ch"
  | (eof) "r = RecvBytes []" "chan_data ch = []" "ch' = ch"
  | (data) bs where "r = RecvBytes bs" "bs \<noteq> []" "length bs \<le> n" "chan_data ch = bs @ chan_data ch'" "chan_ok ch'"
      "chan_size ch' < chan_size ch"
proof (cases ch rule: chan_data.cases)
  case 1 then show thesis using assms eof by simp
next
  case (2 bs r')
  show thesis
  proof (cases "bs = []")
    case True then show thesis using 2 assms eof by (auto simp: ch_read_def)
  next
    case False
    then show thesis using 2 assms by (intro data [of "take n bs"]) (auto simp: ch_read_def)
  qed
next
  case (3 e r') then show thesis using assms by (intro intr) (auto simp: ch_read_def)
qed

datatype write_res = WriteTakes nat | WriteError int

type_synonym sink = "write_res list \<times> bytes"    \<comment> \<open>the answers to come and the bytes taken\<close>

definition sk_write :: "bytes \<Rightarrow> sink \<Rightarrow> int \<times> int \<times> sink" where
  "sk_write bs k =
     (case k of
        ([], out) \<Rightarrow> (int (length bs), 0, ([], out @ bs))
      | (WriteTakes m # r, out) \<Rightarrow> (int (length (take m bs)), 0, (r, out @ take m bs))
      | (WriteError e # r, out) \<Rightarrow> (-1, e, (r, out)))"

definition sink_ok :: "sink \<Rightarrow> bool" where
  "sink_ok k \<longleftrightarrow> list_all (\<lambda>w. case w of WriteTakes m \<Rightarrow> 0 < m | WriteError e \<Rightarrow> e = EINTR) (fst k)"

section \<open>readn and writen\<close>

text \<open>The loop of \<open>readn\<close>: the buffer, the offset of \<open>ptr\<close>, \<open>nleft\<close>.\<close>

function readn_loop :: "bytes \<Rightarrow> nat \<Rightarrow> nat \<Rightarrow> chan \<Rightarrow> ((bool \<times> nat) \<times> bytes \<times> chan) c_res" where
  "readn_loop buf p nleft ch =
     (if nleft = 0 then Inr ((True, nleft), buf, ch)
      else
        case ch_read nleft ch of
          (RecvError e, ch') \<Rightarrow>
            if e = EINTR then readn_loop buf p nleft ch' else Inr ((False, nleft), buf, ch')
        | (RecvBytes bs, ch') \<Rightarrow>
            if bs = [] then Inr ((True, nleft), buf, ch')
            else bind_err (mem_write buf p bs) (\<lambda>buf'. readn_loop buf' (p + length bs) (nleft - length bs) ch'))"
  by pat_completeness auto
termination
  by (relation "measure (\<lambda>(buf, p, nleft, ch). chan_size ch)") (auto dest: ch_read_size)

definition readn :: "bytes \<Rightarrow> nat \<Rightarrow> chan \<Rightarrow> (int \<times> bytes \<times> chan) c_res" where
  "readn buf n ch =
     bind_err (readn_loop buf 0 n ch) (\<lambda>((ok, nleft), buf', ch').
       Inr (if ok then int (n - nleft) else -1, buf', ch'))"

definition Readn :: "bytes \<Rightarrow> nat \<Rightarrow> chan \<Rightarrow> (int exitable \<times> bytes \<times> chan) c_res" where
  "Readn buf n ch = bind_err (readn buf n ch) (\<lambda>(r, buf', ch'). Inr (if r < 0 then Exited 1 else Returned r, buf', ch'))"

function writen_loop :: "bytes \<Rightarrow> nat \<Rightarrow> nat \<Rightarrow> sink \<Rightarrow> (bool \<times> sink) c_res" where
  "writen_loop buf p nleft k =
     (if nleft = 0 then Inr (True, k)
      else
        bind_err (mem_read buf p nleft) (\<lambda>bs.
          case sk_write bs k of
            (n, e, k') \<Rightarrow>
              if n \<le> 0 then
                if n < 0 \<and> e = EINTR then writen_loop buf p nleft k' else Inr (False, k')
              else writen_loop buf (p + nat n) (nleft - nat n) k'))"
  by pat_completeness auto
termination
proof (relation "measures [\<lambda>(buf, p, nleft, k). length (fst k), \<lambda>(buf, p, nleft, k). nleft]", goal_cases)
  case 1 then show ?case by simp
next
  case (2 buf p nleft k bs x e k')
  then show ?case by (auto simp: sk_write_def split: list.splits write_res.splits prod.splits)
next
  case (3 buf p nleft k bs x e k')
  then show ?case by (auto simp: sk_write_def mem_read_def split: list.splits write_res.splits prod.splits if_splits)
qed

definition writen :: "bytes \<Rightarrow> nat \<Rightarrow> sink \<Rightarrow> (int \<times> sink) c_res" where
  "writen buf n k = bind_err (writen_loop buf 0 n k) (\<lambda>(ok, k'). Inr (if ok then int n else -1, k'))"

definition Writen :: "bytes \<Rightarrow> nat \<Rightarrow> sink \<Rightarrow> (unit exitable \<times> sink) c_res" where
  "Writen buf n k = bind_err (writen buf n k) (\<lambda>(r, k'). Inr (if r \<noteq> int n then Exited 1 else Returned (), k'))"

declare readn_loop.simps [simp del] writen_loop.simps [simp del]

text \<open>
  On a channel without true errors, \<open>readn\<close> stores the next \<open>n\<close> bytes, or all that come before the
  end of the file.
\<close>

lemma readn_loop_ok:
  assumes "chan_ok ch" "p + nleft \<le> length buf"
  shows "\<exists>ch'. readn_loop buf p nleft ch =
      Inr ((True, nleft - length (chan_data ch)),
           take p buf @ take nleft (chan_data ch) @ drop (p + length (take nleft (chan_data ch))) buf, ch') \<and>
      chan_ok ch' \<and> chan_data ch' = drop nleft (chan_data ch)"
  using assms
proof (induction buf p nleft ch rule: readn_loop.induct)
  case (1 buf p nleft ch)
  show ?case
  proof (cases "nleft = 0")
    case True then show ?thesis using 1(3) by (simp add: readn_loop.simps)
  next
    case False
    then have pos: "0 < nleft" by simp
    obtain r ch' where rd: "ch_read nleft ch = (r, ch')" by (cases "ch_read nleft ch")
    note step = readn_loop.simps [of buf p nleft ch] rd False
    from rd pos 1(3) show ?thesis
    proof (cases rule: ch_read_cases)
      case intr
      then show ?thesis using 1(2) [OF False rd [symmetric] intr(1) refl intr(3) 1(4)] by (simp add: step)
    next
      case eof then show ?thesis using 1(3,4) by (simp add: step)
    next
      case (data bs)
      let ?buf = "take p buf @ bs @ drop (p + length bs) buf"
      have w: "mem_write buf p bs = Inr ?buf" using data(3) 1(4) by (simp add: mem_write_def)
      have len: "p + length bs + (nleft - length bs) \<le> length ?buf" using data(3) 1(4) by simp
      obtain ch2 where ih: "readn_loop ?buf (p + length bs) (nleft - length bs) ch' =
          Inr ((True, nleft - length bs - length (chan_data ch')),
           take (p + length bs) ?buf @ take (nleft - length bs) (chan_data ch') @
           drop (p + length bs + length (take (nleft - length bs) (chan_data ch'))) ?buf, ch2)"
        "chan_ok ch2" "chan_data ch2 = drop (nleft - length bs) (chan_data ch')"
        using 1(1) [OF False rd [symmetric] data(1,2) w data(5) len] by blast
      have e1: "take (p + length bs) ?buf = take p buf @ bs" using 1(4) data(3) by simp
      have e2: "drop (p + length bs + m) ?buf = drop (p + length bs + m) buf" for m using 1(4) data(3) by (simp add: add.commute)
      show ?thesis
        using ih data 1(4) unfolding e1 e2 by (simp add: step w add.assoc)
    qed
  qed
qed

lemma take_rest:
  "take m (take n (drop p buf)) @ take (n - min m n) (drop (p + min m n) buf) = take n (drop p buf)"
proof -
  have "take m (take n (drop p buf)) = take (min m n) (drop p buf)" by (simp add: min.commute)
  moreover have "drop (p + min m n) buf = drop (min m n) (drop p buf)" by (simp add: add.commute)
  ultimately show ?thesis using append_take_drop_id [of "min m n" "take n (drop p buf)"] by (simp add: drop_take)
qed

lemma writen_loop_ok:
  assumes "sink_ok k" "p + nleft \<le> length buf"
  shows "\<exists>r. writen_loop buf p nleft k = Inr (True, (r, snd k @ take nleft (drop p buf))) \<and> sink_ok (r, [])"
  using assms
proof (induction buf p nleft k rule: writen_loop.induct)
  case (1 buf p nleft k)
  obtain ws out where k: "k = (ws, out)" by (cases k)
  show ?case
  proof (cases "nleft = 0")
    case True then show ?thesis using 1(3) k by (simp add: writen_loop.simps sink_ok_def)
  next
    case False
    let ?bs = "take nleft (drop p buf)"
    have rd: "mem_read buf p nleft = Inr ?bs" using 1(4) by (simp add: mem_read_def)
    have len: "length ?bs = nleft" using 1(4) by simp
    have out: "snd k = out" using k by simp
    note step = writen_loop.simps [of buf p nleft k] rd False
    show ?thesis
    proof (cases ws)
      case Nil
      have w: "sk_write ?bs k = (int nleft, 0, ([], out @ ?bs))" using k Nil len by (simp add: sk_write_def)
      have "writen_loop buf (p + nleft) 0 ([], out @ ?bs) = Inr (True, ([], out @ ?bs))" by (simp add: writen_loop.simps)
      then show ?thesis using w by (simp add: step out sink_ok_def)
    next
      case (Cons w ws')
      show ?thesis
      proof (cases w)
        case (WriteError e)
        have w: "sk_write ?bs k = (-1, e, (ws', out))" using k Cons WriteError by (simp add: sk_write_def)
        have e: "e = EINTR" and ok: "sink_ok (ws', out)" using 1(3) k Cons WriteError by (simp_all add: sink_ok_def)
        show ?thesis using 1(1) [OF False rd w [symmetric] refl _ _ ok 1(4)] e w by (simp add: step out)
      next
        case (WriteTakes m)
        let ?n = "min m nleft"
        have w: "sk_write ?bs k = (int ?n, 0, (ws', out @ take m ?bs))"
          using k Cons WriteTakes len by (simp add: sk_write_def min.commute)
        have m: "0 < ?n" and ok: "sink_ok (ws', out @ take m ?bs)"
          using 1(3) k Cons WriteTakes False by (auto simp: sink_ok_def)
        have n: "nat (int ?n) = ?n" by simp
        obtain r where "writen_loop buf (p + ?n) (nleft - ?n) (ws', out @ take m ?bs) =
            Inr (True, (r, (out @ take m ?bs) @ take (nleft - ?n) (drop (p + ?n) buf)))" "sink_ok (r, [])"
          using 1(2) [OF False rd w [symmetric] refl] m ok 1(4) unfolding n by auto
        moreover note take_rest [of m nleft p buf]
        ultimately show ?thesis using w m n by (simp add: step out del: take_take)
      qed
    qed
  qed
qed

section \<open>readline\<close>

record readline_state =
  read_cnt :: int
  read_ptr :: nat
  read_buf :: bytes
  rl_chan :: chan

function refill :: "chan \<Rightarrow> recv_res \<times> chan" where
  "refill ch =
     (case ch_read MAXLINE ch of
        (RecvError e, ch') \<Rightarrow> if e = EINTR then refill ch' else (RecvError e, ch')
      | (RecvBytes bs, ch') \<Rightarrow> (RecvBytes bs, ch'))"
  by pat_completeness auto
termination
  by (relation "measure chan_size") (auto simp: MAXLINE_def dest: ch_read_size)

declare refill.simps [simp del]

definition next_byte :: "readline_state \<Rightarrow> (int \<times> byte \<times> readline_state) c_res" where
  "next_byte s = bind_err (mem_get (read_buf s) (read_ptr s)) (\<lambda>b.
     Inr (1, b, s\<lparr>read_cnt := read_cnt s - 1, read_ptr := read_ptr s + 1\<rparr>))"

text \<open>\<open>my_read\<close>: the first argument is the old value of the character, kept when nothing is read.\<close>

definition my_read :: "byte \<Rightarrow> readline_state \<Rightarrow> (int \<times> byte \<times> readline_state) c_res" where
  "my_read c s =
     (if read_cnt s \<le> 0 then
        case refill (rl_chan s) of
          (RecvError e, ch) \<Rightarrow> Inr (-1, c, s\<lparr>read_cnt := -1, rl_chan := ch\<rparr>)
        | (RecvBytes bs, ch) \<Rightarrow>
            bind_err (mem_write (read_buf s) 0 bs) (\<lambda>buf.
              if bs = [] then Inr (0, c, s\<lparr>read_cnt := 0, rl_chan := ch\<rparr>)
              else next_byte (s\<lparr>read_cnt := int (length bs), read_buf := buf, read_ptr := 0, rl_chan := ch\<rparr>))
      else next_byte s)"

text \<open>\<open>readline\<close> over the function that delivers the next byte.\<close>

function readline_loop ::
    "(byte \<Rightarrow> 's \<Rightarrow> (int \<times> byte \<times> 's) c_res) \<Rightarrow> nat \<Rightarrow> nat \<Rightarrow> bytes \<Rightarrow> byte \<Rightarrow> 's \<Rightarrow> (int \<times> bytes \<times> 's) c_res" where
  "readline_loop get maxlen n buf c s =
     (if n < maxlen then
        bind_err (get c s) (\<lambda>(rc, c', s').
          if rc = 1 then
            bind_err (mem_write buf (n - 1) [c']) (\<lambda>buf'.
              if c' = newline then bind_err (mem_write buf' n [0]) (\<lambda>buf''. Inr (int n, buf'', s'))
              else readline_loop get maxlen (n + 1) buf' c' s')
          else if rc = 0 then bind_err (mem_write buf (n - 1) [0]) (\<lambda>buf'. Inr (int n - 1, buf', s'))
          else Inr (-1, buf, s'))
      else bind_err (mem_write buf (n - 1) [0]) (\<lambda>buf'. Inr (int n, buf', s)))"
  by pat_completeness auto
termination
  by (relation "measure (\<lambda>(get, maxlen, n, buf, c, s). maxlen - n)") auto

declare readline_loop.simps [simp del]

definition readline :: "bytes \<Rightarrow> nat \<Rightarrow> readline_state \<Rightarrow> (int \<times> bytes \<times> readline_state) c_res" where
  "readline buf maxlen s = readline_loop my_read maxlen 1 buf 0 s"

definition readlinebuf :: "nat \<Rightarrow> readline_state \<Rightarrow> int \<times> nat" where
  "readlinebuf p s = (read_cnt s, if read_cnt s \<noteq> 0 then read_ptr s else p)"

definition Readline :: "bytes \<Rightarrow> nat \<Rightarrow> readline_state \<Rightarrow> (int exitable \<times> bytes \<times> readline_state) c_res" where
  "Readline buf maxlen s =
     bind_err (readline buf maxlen s) (\<lambda>(n, buf', s'). Inr (if n < 0 then Exited 1 else Returned n, buf', s'))"

text \<open>A line of at most \<open>m\<close> bytes: up to and with the first newline.\<close>

fun line_prefix :: "nat \<Rightarrow> bytes \<Rightarrow> bytes" where
  "line_prefix 0 bs = []"
| "line_prefix (Suc m) [] = []"
| "line_prefix (Suc m) (b # bs) = b # (if b = newline then [] else line_prefix m bs)"

lemma line_prefix_length: "length (line_prefix m bs) \<le> m" "length (line_prefix m bs) \<le> length bs"
  by (induction m bs rule: line_prefix.induct) auto

lemma line_prefix_take: "line_prefix m bs = take (length (line_prefix m bs)) bs"
  by (induction m bs rule: line_prefix.induct) auto

lemma line_prefix_append_drop [simp]: "line_prefix m bs @ drop (length (line_prefix m bs)) bs = bs"
  by (induction m bs rule: line_prefix.induct) auto

lemma line_prefix_Nil_iff: "0 < m \<Longrightarrow> line_prefix m bs = [] \<longleftrightarrow> bs = []"
  by (cases m; cases bs) auto

definition complete_line :: "bytes \<Rightarrow> bool" where
  "complete_line l \<longleftrightarrow> l \<noteq> [] \<and> last l = newline"

text \<open>The interface \<open>readline\<close> relies on: a function that delivers the bytes of a stream one by one.\<close>

locale byte_source =
  fixes get :: "byte \<Rightarrow> 's \<Rightarrow> (int \<times> byte \<times> 's) c_res" and good :: "'s \<Rightarrow> bool" and content :: "'s \<Rightarrow> bytes"
  assumes get_byte: "good s \<Longrightarrow> content s = b # bs \<Longrightarrow> \<exists>s'. get c s = Inr (1, b, s') \<and> good s' \<and> content s' = bs"
    and get_eof: "good s \<Longrightarrow> content s = [] \<Longrightarrow> \<exists>s'. get c s = Inr (0, c, s') \<and> good s' \<and> content s' = []"
begin

lemma readline_loop_ok:
  assumes "good s" "0 < n" "n \<le> maxlen" "maxlen \<le> length buf"
  shows "\<exists>buf' s'. readline_loop get maxlen n buf c s =
      Inr (int (n - 1 + length (line_prefix (maxlen - n) (content s))) +
             (if length (line_prefix (maxlen - n) (content s)) = maxlen - n \<and>
                 \<not> complete_line (line_prefix (maxlen - n) (content s)) then 1 else 0), buf', s') \<and>
      good s' \<and> content s' = drop (length (line_prefix (maxlen - n) (content s))) (content s) \<and>
      length buf' = length buf \<and>
      take (n + length (line_prefix (maxlen - n) (content s))) buf' =
        take (n - 1) buf @ line_prefix (maxlen - n) (content s) @ [0]"
  using assms
proof (induction "maxlen - n" arbitrary: n buf c s)
  case 0
  then have n: "n = maxlen" by simp
  have "mem_write buf (n - 1) [0] = Inr (take (n - 1) buf @ 0 # drop n buf)" using 0 by (simp add: mem_write_def)
  then show ?case using 0 by (simp add: readline_loop.simps [of get maxlen maxlen] n complete_line_def)
next
  case (Suc m)
  then have lt: "n < maxlen" and m: "maxlen - n = Suc m" by simp_all
  note step = readline_loop.simps [of get maxlen n buf c s]
  show ?case
  proof (cases "content s")
    case Nil
    obtain s' where "get c s = Inr (0, c, s')" "good s'" "content s' = []" using get_eof [OF Suc(3) Nil] by blast
    moreover have "mem_write buf (n - 1) [0] = Inr (take (n - 1) buf @ 0 # drop n buf)" using Suc by (simp add: mem_write_def)
    ultimately show ?thesis using Nil lt Suc(4,6) by (simp add: step m complete_line_def)
  next
    case (Cons b bs)
    obtain s' where g: "get c s = Inr (1, b, s')" "good s'" "content s' = bs" using get_byte [OF Suc(3) Cons] by blast
    let ?buf = "take (n - 1) buf @ b # drop n buf"
    have w: "mem_write buf (n - 1) [b] = Inr ?buf" using Suc by (simp add: mem_write_def)
    have lb: "length ?buf = length buf" using Suc by simp
    show ?thesis
    proof (cases "b = newline")
      case True
      have "mem_write ?buf n [0] = Inr (take n ?buf @ 0 # drop (n + 1) ?buf)" using lt Suc(6) lb by (simp add: mem_write_def)
      moreover have "take n ?buf = take (n - 1) buf @ [b]" using Suc(4) lt Suc(6) by (simp add: take_Cons')
      ultimately show ?thesis
        using True lt g w Cons Suc(4,6) lb by (simp add: step m complete_line_def)
    next
      case False
      define B where B: "B = ?buf"
      have lB: "length B = length buf" "take n B = take (n - 1) buf @ [b]"
        using lb Suc(4) lt Suc(6) by (simp_all add: B take_Cons')
      have e: "m = maxlen - (n + 1)" "n + 1 \<le> maxlen" "maxlen \<le> length B" using m lt Suc(6) lB by simp_all
      let ?l = "line_prefix m bs"
      obtain buf' s'' where ih: "readline_loop get maxlen (n + 1) B b s' =
          Inr (int (n + length ?l) + (if length ?l = m \<and> \<not> complete_line ?l then 1 else 0), buf', s'')"
        "good s''" "content s'' = drop (length ?l) bs" "length buf' = length B"
        "take (n + 1 + length ?l) buf' = (take (n - 1) buf @ [b]) @ ?l @ [0]"
        using Suc(1) [OF e(1) g(2) _ e(2,3), of b] unfolding e(1) [symmetric] g(3) add_diff_cancel_right' lB(2) by auto
      have cl: "complete_line (b # ?l) \<longleftrightarrow> complete_line ?l" using False by (simp add: complete_line_def)
      have wB: "mem_write buf (n - 1) [b] = Inr B" using w by (simp add: B)
      show ?thesis
        using ih False lt g wB Cons lB(1) Suc(4) by (simp add: step m cl)
    qed
  qed
qed

text \<open>
  What comes later does not matter for a line that is there: \<open>f\<close> adds it to the state. A line that is
  not there makes \<open>readline\<close> ask for it.
\<close>

lemma readline_loop_later:
  assumes f: "\<And>c s. good s \<Longrightarrow> content s \<noteq> [] \<Longrightarrow> get c (f s) = bind_err (get c s) (\<lambda>(rc, d, t). Inr (rc, d, f t))"
    and "good s" "0 < n" "n \<le> maxlen" "maxlen \<le> length buf" and l: "l = line_prefix (maxlen - n) (content s)"
  shows "(complete_line l \<or> length l = maxlen - n \<longrightarrow>
      readline_loop get maxlen n buf c (f s) = bind_err (readline_loop get maxlen n buf c s) (\<lambda>(r, b, t). Inr (r, b, f t))) \<and>
    (\<not> (complete_line l \<or> length l = maxlen - n) \<longrightarrow> (\<forall>c s. good s \<longrightarrow> content s = [] \<longrightarrow> (\<exists>t. get c (f s) = Inr (-1, c, t))) \<longrightarrow>
      (\<exists>b t. readline_loop get maxlen n buf c (f s) = Inr (-1, b, t)))"
  using assms(2-)
proof (induction "maxlen - n" arbitrary: n buf c s l)
  case 0
  then have "n = maxlen" by simp
  then show ?case using 0 by (cases "mem_write buf (n - 1) [0]") (simp_all add: readline_loop.simps [of get maxlen])
next
  case (Suc m)
  note step = readline_loop.simps [of get maxlen n buf c]
  note h = Suc(3-7)
  have lt: "n < maxlen" using Suc(2) by simp
  show ?case
  proof (cases "content s")
    case Nil
    have "l = []" unfolding h(5) Nil Suc(2) [symmetric] by simp
    then have "\<not> (complete_line l \<or> length l = maxlen - n)" unfolding Suc(2) [symmetric] by (simp add: complete_line_def)
    moreover have "\<exists>b t. readline_loop get maxlen n buf c (f s) = Inr (-1, b, t)" if "get c (f s) = Inr (-1, c, t)" for t
      using that lt by (simp add: step)
    ultimately show ?thesis using h(1) Nil by blast
  next
    case (Cons b bs)
    obtain s' where g: "get c s = Inr (1, b, s')" "good s'" "content s' = bs" using get_byte [OF h(1) Cons] by blast
    have fg: "get c (f s) = Inr (1, b, f s')" using f [OF h(1)] Cons g(1) by simp
    let ?buf = "take (n - 1) buf @ b # drop n buf"
    have w: "mem_write buf (n - 1) [b] = Inr ?buf" using h lt by (simp add: mem_write_def)
    have l: "l = b # (if b = newline then [] else line_prefix m bs)" unfolding h(5) Cons Suc(2) [symmetric] by simp
    show ?thesis
    proof (cases "b = newline")
      case True
      then show ?thesis using g fg w lt l by (cases "mem_write ?buf n [0]") (auto simp: step complete_line_def)
    next
      case False
      have m: "m = maxlen - (n + 1)" using Suc(2) by simp
      have e: "m = maxlen - (n + 1)" "0 < n + 1" "n + 1 \<le> maxlen" "maxlen \<le> length ?buf" "line_prefix m bs = line_prefix (maxlen - (n + 1)) (content s')"
        using lt h(2,4) g(3) by (simp_all add: m)
      have cl: "complete_line l \<or> length l = maxlen - n \<longleftrightarrow> complete_line (line_prefix m bs) \<or> length (line_prefix m bs) = maxlen - (n + 1)"
        using l False lt by (auto simp: complete_line_def)
      show ?thesis
        unfolding cl using Suc(1) [OF e(1) g(2) e(2-5), of b] g fg w lt False by (simp add: step)
    qed
  qed
qed

end

text \<open>\<open>my_read\<close> delivers what is buffered and then what is still to come.\<close>

definition rl_content :: "readline_state \<Rightarrow> bytes" where
  "rl_content s = take (nat (read_cnt s)) (drop (read_ptr s) (read_buf s)) @ chan_data (rl_chan s)"

definition rl_good :: "readline_state \<Rightarrow> bool" where
  "rl_good s \<longleftrightarrow> chan_ok (rl_chan s) \<and> length (read_buf s) = MAXLINE \<and>
     (0 < read_cnt s \<longrightarrow> int (read_ptr s) + read_cnt s \<le> int MAXLINE)"

lemma refill_ok:
  "chan_ok ch \<Longrightarrow> \<exists>bs ch'. refill ch = (RecvBytes bs, ch') \<and> chan_ok ch' \<and> length bs \<le> MAXLINE \<and>
     chan_data ch = bs @ chan_data ch' \<and> (bs = [] \<longleftrightarrow> chan_data ch = [])"
proof (induction ch rule: refill.induct)
  case (1 ch)
  obtain r ch' where rd: "ch_read MAXLINE ch = (r, ch')" by (cases "ch_read MAXLINE ch")
  have "0 < MAXLINE" by (simp add: MAXLINE_def)
  from rd this 1(2) show ?case
  proof (cases rule: ch_read_cases)
    case intr then show ?thesis using 1(1) [OF rd [symmetric]] rd by (simp add: refill.simps [of ch])
  next
    case eof then show ?thesis using rd 1(2) by (simp add: refill.simps)
  next
    case (data bs) then show ?thesis using rd by (simp add: refill.simps)
  qed
qed

lemma next_byte_ok:
  assumes "rl_good s" "0 < read_cnt s"
  shows "\<exists>b s'. next_byte s = Inr (1, b, s') \<and> rl_good s' \<and> rl_content s = b # rl_content s'"
proof -
  let ?p = "read_ptr s" and ?n = "nat (read_cnt s)"
  have p: "?p < length (read_buf s)" "?n = Suc (nat (read_cnt s - 1))" using assms by (auto simp: rl_good_def)
  have "take ?n (drop ?p (read_buf s)) = read_buf s ! ?p # take (nat (read_cnt s - 1)) (drop (?p + 1) (read_buf s))"
    using p by (simp add: Cons_nth_drop_Suc [symmetric])
  then show ?thesis
    using p assms by (simp add: next_byte_def mem_get_def rl_good_def rl_content_def)
qed

lemma my_read_refill:
  assumes "rl_good s" "read_cnt s \<le> 0"
  shows "chan_data (rl_chan s) = [] \<Longrightarrow> \<exists>s'. my_read c s = Inr (0, c, s') \<and> rl_good s' \<and> rl_content s' = []"
    "chan_data (rl_chan s) \<noteq> [] \<Longrightarrow> \<exists>t. my_read c s = next_byte t \<and> rl_good t \<and> 0 < read_cnt t \<and> rl_content t = rl_content s"
proof -
  obtain bs ch' where r: "refill (rl_chan s) = (RecvBytes bs, ch')" "chan_ok ch'" "length bs \<le> MAXLINE"
    "chan_data (rl_chan s) = bs @ chan_data ch'" "bs = [] \<longleftrightarrow> chan_data (rl_chan s) = []"
    using refill_ok [of "rl_chan s"] assms(1) by (auto simp: rl_good_def)
  have len: "length (read_buf s) = MAXLINE" using assms(1) by (simp add: rl_good_def)
  have w: "mem_write (read_buf s) 0 bs = Inr (bs @ drop (length bs) (read_buf s))"
    using r(3) len by (simp add: mem_write_def)
  show "\<exists>s'. my_read c s = Inr (0, c, s') \<and> rl_good s' \<and> rl_content s' = []" if "chan_data (rl_chan s) = []"
  proof -
    have "bs = []" "chan_data ch' = []" using that r(4) by simp_all
    then show ?thesis using r(1,2) len assms(2) w by (simp add: my_read_def rl_good_def rl_content_def)
  qed
  show "\<exists>t. my_read c s = next_byte t \<and> rl_good t \<and> 0 < read_cnt t \<and> rl_content t = rl_content s" if ne: "chan_data (rl_chan s) \<noteq> []"
  proof (intro exI conjI)
    let ?t = "s\<lparr>read_cnt := int (length bs), read_buf := bs @ drop (length bs) (read_buf s), read_ptr := 0, rl_chan := ch'\<rparr>"
    show "my_read c s = next_byte ?t" using ne r(1,5) assms(2) w by (simp add: my_read_def)
    show "rl_good ?t" using r(2,3) len by (simp add: rl_good_def)
    show "0 < read_cnt ?t" using ne r(5) by simp
    show "rl_content ?t = rl_content s" using r(4) assms(2) by (simp add: rl_content_def)
  qed
qed

interpretation rl: byte_source my_read rl_good rl_content
proof
  fix s b bs c assume g: "rl_good s" and c: "rl_content s = b # bs"
  show "\<exists>s'. my_read c s = Inr (1, b, s') \<and> rl_good s' \<and> rl_content s' = bs"
  proof (cases "0 < read_cnt s")
    case True then show ?thesis using next_byte_ok [OF g True] c by (auto simp: my_read_def)
  next
    case False
    then have "chan_data (rl_chan s) \<noteq> []" using c by (simp add: rl_content_def)
    then obtain t where t: "my_read c s = next_byte t" "rl_good t" "0 < read_cnt t" "rl_content t = rl_content s"
      using my_read_refill(2) [OF g, of c] False by auto
    then show ?thesis using next_byte_ok [OF t(2,3)] c by auto
  qed
next
  fix s :: readline_state and c assume g: "rl_good s" and c: "rl_content s = []"
  have "\<not> 0 < read_cnt s" using next_byte_ok [OF g] c by auto
  then show "\<exists>s'. my_read c s = Inr (0, c, s') \<and> rl_good s' \<and> rl_content s' = []"
    using my_read_refill(1) [OF g, of c] c by (simp add: rl_content_def)
qed

section \<open>The echo functions\<close>

text \<open>\<open>str_echo\<close> of the library.\<close>

function str_echo :: "chan \<Rightarrow> sink \<Rightarrow> (unit exitable \<times> chan \<times> sink) c_res" where
  "str_echo ch k =
     (case ch_read MAXLINE ch of
        (RecvError e, ch') \<Rightarrow> if e = EINTR then str_echo ch' k else Inr (Exited 1, ch', k)
      | (RecvBytes bs, ch') \<Rightarrow>
          if bs = [] then Inr (Returned (), ch', k)
          else bind_err (Writen bs (length bs) k) (\<lambda>(r, k').
            case r of Exited c \<Rightarrow> Inr (Exited c, ch', k') | Returned _ \<Rightarrow> str_echo ch' k'))"
  by pat_completeness auto
termination
  by (relation "measure (\<lambda>(ch, k). chan_size ch)") (auto simp: MAXLINE_def dest: ch_read_size)

declare str_echo.simps [simp del]

text \<open>\<open>str_echo\<close> of the multi-threaded server: one \<open>write\<close> per \<open>read\<close>, and the buffer printed as a string.\<close>

definition BUFFER_LENGTH :: nat where "BUFFER_LENGTH = 1024"

datatype echo_end = EchoClosed | EchoClosedMsg

function thread_str_echo :: "bytes \<Rightarrow> chan \<Rightarrow> sink \<Rightarrow> (echo_end \<times> chan \<times> sink) c_res" where
  "thread_str_echo buf ch k =
     (case ch_read BUFFER_LENGTH ch of
        (RecvError e, ch') \<Rightarrow> if e = EINTR then thread_str_echo buf ch' k else Inr (EchoClosedMsg, ch', k)
      | (RecvBytes bs, ch') \<Rightarrow>
          if bs = [] then Inr (EchoClosed, ch', k)
          else
            bind_err (mem_write buf 0 bs) (\<lambda>buf'.
            bind_err (mem_read buf' 0 (length bs)) (\<lambda>out.
            bind_err (c_strlen buf') (\<lambda>_.
              thread_str_echo buf' ch' (snd (snd (sk_write out k)))))))"
  by pat_completeness auto
termination
  by (relation "measure (\<lambda>(buf, ch, k). chan_size ch)") (auto simp: BUFFER_LENGTH_def dest: ch_read_size)

declare thread_str_echo.simps [simp del]

text \<open>\<open>d2_multi_process_echo_server.cpp\<close> has a copy of this function, which it never calls: its children call the one above.\<close>

definition unused_str_echo :: "bytes \<Rightarrow> chan \<Rightarrow> sink \<Rightarrow> (echo_end \<times> chan \<times> sink) c_res" where
  "unused_str_echo = thread_str_echo"

lemma Writen_ok:
  assumes "sink_ok k" "n \<le> length buf"
  shows "\<exists>r. Writen buf n k = Inr (Returned (), (r, snd k @ take n buf)) \<and> sink_ok (r, snd k @ take n buf)"
  using writen_loop_ok [of k 0 n buf] assms by (auto simp: Writen_def writen_def sink_ok_def)

lemma str_echo_ok:
  "chan_ok ch \<Longrightarrow> sink_ok k \<Longrightarrow>
   \<exists>ch' r. str_echo ch k = Inr (Returned (), ch', (r, snd k @ chan_data ch)) \<and> sink_ok (r, snd k @ chan_data ch)"
proof (induction ch k rule: str_echo.induct)
  case (1 ch k)
  obtain r ch' where rd: "ch_read MAXLINE ch = (r, ch')" by (cases "ch_read MAXLINE ch")
  have "0 < MAXLINE" by (simp add: MAXLINE_def)
  from rd this 1(3) show ?case
  proof (cases rule: ch_read_cases)
    case intr then show ?thesis using 1(2) [OF rd [symmetric]] 1(4) rd by (simp add: str_echo.simps [of ch])
  next
    case eof then show ?thesis using rd 1(4) by (cases k) (simp add: str_echo.simps)
  next
    case (data bs)
    obtain q where w: "Writen bs (length bs) k = Inr (Returned (), (q, snd k @ bs))" "sink_ok (q, snd k @ bs)"
      using Writen_ok [OF 1(4), of "length bs" bs] by auto
    show ?thesis
      using 1(1) [OF rd [symmetric] data(1,2) w(1) refl refl data(5) w(2)] rd data(1,2,4) w(1) by (simp add: str_echo.simps [of ch])
  qed
qed

text \<open>\<open>str_cli\<close>: a file of bytes that may end in an error, the standard output, and the line buffers.\<close>

record infile =
  fp_data :: bytes
  fp_err :: bool

definition Fgets :: "bytes \<Rightarrow> nat \<Rightarrow> infile \<Rightarrow> (bool exitable \<times> bytes \<times> infile) c_res" where
  "Fgets buf n fp =
     (let l = line_prefix (n - 1) (fp_data fp) in
      if l = [] then Inr (if fp_err fp then Exited 1 else Returned False, buf, fp)
      else bind_err (mem_write buf 0 (l @ [0])) (\<lambda>buf'.
        Inr (Returned True, buf', fp\<lparr>fp_data := drop (length l) (fp_data fp)\<rparr>)))"

definition Fputs :: "(bytes \<Rightarrow> bool) \<Rightarrow> bytes \<Rightarrow> bytes \<Rightarrow> (unit exitable \<times> bytes) c_res" where
  "Fputs fok buf out =
     bind_err (c_strlen buf) (\<lambda>n. Inr (if fok out then (Returned (), out @ take n buf) else (Exited 1, out)))"

record cli_state =
  cli_send :: bytes
  cli_recv :: bytes
  cli_fp :: infile
  cli_sink :: sink
  cli_rl :: readline_state
  cli_out :: bytes

definition cli_Fgets :: "nat \<Rightarrow> cli_state \<Rightarrow> (bool exitable \<times> cli_state) c_res" where
  "cli_Fgets n s = bind_err (Fgets (cli_send s) n (cli_fp s)) (\<lambda>(r, b, fp). Inr (r, s\<lparr>cli_send := b, cli_fp := fp\<rparr>))"

definition cli_Writen :: "nat \<Rightarrow> cli_state \<Rightarrow> (unit exitable \<times> cli_state) c_res" where
  "cli_Writen n s = bind_err (Writen (cli_send s) n (cli_sink s)) (\<lambda>(r, k). Inr (r, s\<lparr>cli_sink := k\<rparr>))"

definition cli_Readline :: "nat \<Rightarrow> cli_state \<Rightarrow> (int exitable \<times> cli_state) c_res" where
  "cli_Readline n s = bind_err (Readline (cli_recv s) n (cli_rl s)) (\<lambda>(r, b, rl). Inr (r, s\<lparr>cli_recv := b, cli_rl := rl\<rparr>))"

definition cli_Fputs :: "(bytes \<Rightarrow> bool) \<Rightarrow> cli_state \<Rightarrow> (unit exitable \<times> cli_state) c_res" where
  "cli_Fputs fok s = bind_err (Fputs fok (cli_recv s) (cli_out s)) (\<lambda>(r, out). Inr (r, s\<lparr>cli_out := out\<rparr>))"

text \<open>
  One round of the loop: the line that is sent, if there is one, and the answer that is read and printed. The
  result says whether there was a line.
\<close>

definition cli_request :: "nat \<Rightarrow> cli_state \<Rightarrow> (bool exitable \<times> cli_state) c_res" where
  "cli_request maxline s =
     bind_exit (cli_Fgets maxline s) (\<lambda>got s1.
       if \<not> got then Inr (Returned False, s1)
       else
         bind_err (c_strlen (cli_send s1)) (\<lambda>n.
         bind_exit (cli_Writen n s1) (\<lambda>_ s2. Inr (Returned True, s2))))"

definition cli_answer :: "(bytes \<Rightarrow> bool) \<Rightarrow> nat \<Rightarrow> cli_state \<Rightarrow> (unit exitable \<times> cli_state) c_res" where
  "cli_answer fok maxline s =
     bind_exit (cli_Readline maxline s) (\<lambda>m s3. if m = 0 then Inr (Exited 1, s3) else cli_Fputs fok s3)"

definition cli_round :: "(bytes \<Rightarrow> bool) \<Rightarrow> nat \<Rightarrow> cli_state \<Rightarrow> (bool exitable \<times> cli_state) c_res" where
  "cli_round fok maxline s =
     bind_exit (cli_request maxline s) (\<lambda>got s2.
       if \<not> got then Inr (Returned False, s2)
       else bind_exit (cli_answer fok maxline s2) (\<lambda>_ s4. Inr (Returned True, s4)))"

lemma cli_request_progress:
  assumes "cli_request maxline s = Inr (Returned True, s')"
  shows "length (fp_data (cli_fp s')) < length (fp_data (cli_fp s))"
proof -
  obtain s1 where s1: "cli_Fgets maxline s = Inr (Returned True, s1)" "cli_fp s' = cli_fp s1"
    using assms
    by (auto simp: cli_request_def bind_exit_eq_Returned bind_err_eq_Inr cli_Writen_def split: if_splits)
  then have "line_prefix (maxline - 1) (fp_data (cli_fp s)) \<noteq> []"
    "fp_data (cli_fp s1) = drop (length (line_prefix (maxline - 1) (fp_data (cli_fp s)))) (fp_data (cli_fp s))"
    by (auto simp: cli_Fgets_def Fgets_def Let_def bind_err_eq_Inr split: if_splits)
  then show ?thesis
    using s1(2) line_prefix_length(2) [of "maxline - 1" "fp_data (cli_fp s)"]
    by (cases "line_prefix (maxline - 1) (fp_data (cli_fp s))") simp_all
qed

lemma cli_answer_fp: "cli_answer fok maxline s = Inr (Returned (), s') \<Longrightarrow> cli_fp s' = cli_fp s"
  by (auto simp: cli_answer_def bind_exit_eq_Returned bind_err_eq_Inr cli_Readline_def cli_Fputs_def split: if_splits)

lemma cli_round_progress:
  assumes "cli_round fok maxline s = Inr (Returned True, s')"
  shows "length (fp_data (cli_fp s')) < length (fp_data (cli_fp s))"
  using assms cli_request_progress cli_answer_fp
  by (fastforce simp: cli_round_def bind_exit_eq_Returned split: if_splits)

function str_cli_loop :: "(bytes \<Rightarrow> bool) \<Rightarrow> nat \<Rightarrow> cli_state \<Rightarrow> (unit exitable \<times> cli_state) c_res" where
  "str_cli_loop fok maxline s =
     bind_exit (cli_round fok maxline s) (\<lambda>got s'.
       if got then str_cli_loop fok maxline s' else Inr (Returned (), s'))"
  by pat_completeness auto
termination
  by (relation "measure (\<lambda>(fok, maxline, s). length (fp_data (cli_fp s)))") (auto dest: cli_round_progress)

declare str_cli_loop.simps [simp del]

text \<open>\<open>str_cli\<close> of the library has lines of \<open>MAXLINE\<close> bytes, that of the echo client of \<open>BUFFER_LENGTH\<close>.\<close>

definition str_cli :: "(bytes \<Rightarrow> bool) \<Rightarrow> cli_state \<Rightarrow> (unit exitable \<times> cli_state) c_res" where
  "str_cli fok s = str_cli_loop fok MAXLINE s"

definition client_str_cli :: "(bytes \<Rightarrow> bool) \<Rightarrow> cli_state \<Rightarrow> (unit exitable \<times> cli_state) c_res" where
  "client_str_cli fok s = str_cli_loop fok BUFFER_LENGTH s"

text \<open>
  Client and server over a connection that stays open. \<open>EWAIT\<close> is not an error number: it marks the end of
  what has arrived on the connection, where a call of \<open>read\<close> waits. So \<open>waits\<close> says that the next \<open>Readline\<close> of the client
  does not return with what has arrived. In each round the client sends a line, the server's \<open>str_echo\<close>
  handles what has arrived, what it writes arrives at the client, and the client reads its
  answer, unless it waits. \<open>up\<close> and \<open>down\<close> say in which pieces the bytes of a round arrive.
\<close>

definition EWAIT :: int where "EWAIT = -1"

definition arrive :: "chan \<Rightarrow> readline_state \<Rightarrow> readline_state" where
  "arrive ch rl = rl\<lparr>rl_chan := rl_chan rl @ ch\<rparr>"

definition waits :: "nat \<Rightarrow> cli_state \<Rightarrow> bool" where
  "waits maxline s = (case readline (cli_recv s) maxline (arrive [RecvError EWAIT] (cli_rl s)) of
     Inl e \<Rightarrow> False | Inr (r, _) \<Rightarrow> r = -1)"

datatype session_end = SessDone | SessWaits | SessExit

function session :: "(nat \<Rightarrow> bytes \<Rightarrow> chan) \<Rightarrow> (nat \<Rightarrow> bytes \<Rightarrow> chan) \<Rightarrow> nat \<Rightarrow> nat \<Rightarrow> cli_state \<Rightarrow> sink \<Rightarrow>
    (session_end \<times> cli_state \<times> sink) c_res" where
  "session up down maxline i s k =
     bind_err (cli_request maxline s) (\<lambda>(r, s1).
       case r of
         Exited c \<Rightarrow> Inr (SessExit, s1, k)
       | Returned got \<Rightarrow>
           if \<not> got then Inr (SessDone, s1, k)
           else bind_err (str_echo (up i (drop (length (snd (cli_sink s))) (snd (cli_sink s1)))) k) (\<lambda>(r2, _, k1).
             case r2 of
               Exited c \<Rightarrow> Inr (SessExit, s1, k1)
             | Returned _ \<Rightarrow>
                 let s2 = s1\<lparr>cli_rl := arrive (down i (drop (length (snd k)) (snd k1))) (cli_rl s1)\<rparr> in
                 if waits maxline s2 then Inr (SessWaits, s2, k1)
                 else bind_err (cli_answer (\<lambda>_. True) maxline s2) (\<lambda>(r3, s3).
                   case r3 of
                     Exited c \<Rightarrow> Inr (SessExit, s3, k1)
                   | Returned _ \<Rightarrow> session up down maxline (i + 1) s3 k1)))"
  by pat_completeness auto
termination
  by (relation "measure (\<lambda>(up, down, maxline, i, s, k). length (fp_data (cli_fp s)))")
    (auto dest!: cli_request_progress cli_answer_fp)

declare session.simps [simp del]

section \<open>Properties\<close>

text \<open>
  C24. \<open>readn\<close> and \<open>writen\<close> move exactly \<open>n\<close> bytes through any short and interrupted calls: on a
  channel without true errors \<open>readn\<close> stores the next \<open>n\<close> bytes at the start of the buffer, all of
  them if the end of the file comes first, returns their number, leaves the rest of the buffer
  and of the stream alone; \<open>writen\<close> sends the first \<open>n\<close> bytes of its buffer and returns \<open>n\<close>.
\<close>

theorem readn_writen_exact:
  assumes "chan_ok ch" "sink_ok k" "n \<le> length buf"
  shows "(\<exists>ch'. readn buf n ch =
      Inr (int (length (take n (chan_data ch))), take n (chan_data ch) @ drop (length (take n (chan_data ch))) buf, ch') \<and>
      chan_ok ch' \<and> chan_data ch' = drop n (chan_data ch)) \<and>
    (\<exists>r. writen buf n k = Inr (int n, (r, snd k @ take n buf)))"
proof -
  have "n - (n - length (chan_data ch)) = length (take n (chan_data ch))" by (simp add: min_def)
  then show ?thesis
    using readn_loop_ok [OF assms(1), of 0 n buf] writen_loop_ok [OF assms(2), of 0 n buf] assms(3)
    by (auto simp: readn_def writen_def)
qed

theorem readn_writen_exact_witness:
  "(\<exists>ch'. readn [0, 0, 0, 0] 3 [RecvBytes [1], RecvError EINTR, RecvBytes [2, 3, 4]] = Inr (3, [1, 2, 3, 0], ch') \<and> chan_data ch' = [4]) \<and>
   (\<exists>r. writen [5, 6, 7, 8] 3 ([WriteTakes 1, WriteError EINTR], []) = Inr (3, (r, [5, 6, 7])))"
proof -
  have "chan_ok [RecvBytes [1], RecvError EINTR, RecvBytes [2, 3, 4]]" "sink_ok ([WriteTakes 1, WriteError EINTR], [])"
    by (simp_all add: sink_ok_def)
  from readn_writen_exact [OF this(1), of "([], [])" 3 "[0, 0, 0, 0]"] readn_writen_exact [OF this, of 3 "[5, 6, 7, 8]"]
  show ?thesis by (auto simp: sink_ok_def)
qed

lemma line_take_0:
  assumes "take (Suc (length l)) buf = l @ [0]"
  obtains rest where "buf = l @ 0 # rest"
  using assms append_take_drop_id [of "Suc (length l)" buf] by (metis append.assoc append_Cons append_Nil)

text \<open>
  C25. \<open>readline\<close> delivers a line: for a buffer of at least \<open>maxlen\<close> bytes and a stream without true
  errors it stores the bytes up to and with the next newline, at most \<open>maxlen - 1\<close>, and a zero
  byte, and the next call starts right after them. It returns the number of the bytes stored,
  except that a line cut at \<open>maxlen - 1\<close> bytes is reported one byte too long.
\<close>

theorem readline_correct:
  assumes "rl_good s" "0 < maxlen" "maxlen \<le> length buf" "l = line_prefix (maxlen - 1) (rl_content s)"
  shows "\<exists>buf' s'. readline buf maxlen s =
      Inr (int (length l) + (if length l = maxlen - 1 \<and> \<not> complete_line l then 1 else 0), buf', s') \<and>
      rl_good s' \<and> rl_content s = l @ rl_content s' \<and> length buf' = length buf \<and> take (length l + 1) buf' = l @ [0]"
proof -
  obtain buf' s' where r: "readline_loop my_read maxlen 1 buf 0 s =
      Inr (int (length l) + (if length l = maxlen - 1 \<and> \<not> complete_line l then 1 else 0), buf', s')" "rl_good s'"
    "rl_content s' = drop (length l) (rl_content s)" "length buf' = length buf" "take (1 + length l) buf' = l @ [0]"
    using rl.readline_loop_ok [OF assms(1), of 1 maxlen buf 0] assms(2,3) unfolding assms(4) by auto
  moreover have "rl_content s = l @ rl_content s'" unfolding r(3) assms(4) by simp
  ultimately show ?thesis by (auto simp: readline_def)
qed

theorem readline_correct_witness:
  "\<exists>buf' s'. readline (replicate 8 255) 8 \<lparr>read_cnt = 0, read_ptr = 0, read_buf = replicate MAXLINE 0, rl_chan = [RecvBytes [104], RecvBytes [105, newline, 33]]\<rparr> =
      Inr (3, buf', s') \<and> take 4 buf' = [104, 105, newline, 0] \<and> rl_content s' = [33]"
proof -
  let ?s = "\<lparr>read_cnt = 0, read_ptr = 0, read_buf = replicate MAXLINE 0, rl_chan = [RecvBytes [104], RecvBytes [105, newline, 33]]\<rparr>"
  have c: "rl_content ?s = [104, 105, newline, 33]" by (simp add: rl_content_def)
  have l: "[104, 105, newline] = line_prefix (8 - 1) (rl_content ?s)"
  proof -
    have "8 - 1 = Suc (Suc (Suc (4 :: nat)))" by simp
    then show ?thesis unfolding c by (simp only: line_prefix.simps) (simp add: newline_def)
  qed
  have "rl_good ?s" by (simp add: rl_good_def)
  from readline_correct [OF this _ _ l, of "replicate 8 255"] show ?thesis
    by (auto simp: c complete_line_def eval_nat_numeral)
qed

text \<open>A channel on which only data and interrupted calls come, and no end of the file.\<close>

definition chan_open :: "chan \<Rightarrow> bool" where
  "chan_open ch \<longleftrightarrow> chan_ok ch \<and> RecvBytes [] \<notin> set ch"

lemma chan_ok_append: "chan_open a \<Longrightarrow> chan_ok (a @ b) \<longleftrightarrow> chan_ok b"
  by (induction a rule: chan_ok.induct) (auto simp: chan_open_def)

lemma chan_data_append: "chan_open a \<Longrightarrow> chan_data (a @ b) = chan_data a @ chan_data b"
  by (induction a rule: chan_data.induct) (auto simp: chan_open_def)

lemma chan_open_append: "chan_open a \<Longrightarrow> chan_open b \<Longrightarrow> chan_open (a @ b)"
  using chan_ok_append [of a b] by (auto simp: chan_open_def)

text \<open>The server handles what arrives in pieces as it handles the whole: nothing it writes waits for the end of the file.\<close>

lemma ch_read_append: "ch \<noteq> [] \<Longrightarrow> RecvBytes [] \<notin> set ch \<Longrightarrow> ch_read n (ch @ b) = (fst (ch_read n ch), snd (ch_read n ch) @ b)"
  by (cases ch rule: chan_data.cases) (auto simp: ch_read_def)

lemma chan_open_read: "chan_open ch \<Longrightarrow> ch_read n ch = (r, ch') \<Longrightarrow> 0 < n \<Longrightarrow> chan_open ch'"
  by (cases ch rule: chan_data.cases) (auto simp: chan_open_def ch_read_def split: if_splits)

lemma str_echo_append:
  assumes "chan_open a" "sink_ok k"
  shows "\<exists>r. str_echo a k = Inr (Returned (), [], (r, snd k @ chan_data a)) \<and> str_echo (a @ b) k = str_echo b (r, snd k @ chan_data a)"
  using assms
proof (induction a k rule: str_echo.induct)
  case (1 a k)
  obtain r a' where rd: "ch_read MAXLINE a = (r, a')" by (cases "ch_read MAXLINE a")
  have m: "0 < MAXLINE" by (simp add: MAXLINE_def)
  have ok: "chan_ok a" "RecvBytes [] \<notin> set a" "chan_open a'"
    using 1(3) chan_open_read [OF 1(3) rd m] by (simp_all add: chan_open_def)
  show ?case
  proof (cases "a = []")
    case True then show ?thesis by (cases k) (simp add: str_echo.simps [of "[]"] ch_read_def)
  next
    case False
    have ap: "ch_read MAXLINE (a @ b) = (r, a' @ b)" using ch_read_append [OF False ok(2), of MAXLINE b] rd by simp
    from rd m ok(1) show ?thesis
    proof (cases rule: ch_read_cases)
      case intr then show ?thesis using 1(2) [OF rd [symmetric]] 1(4) ok(3) rd ap
        by (simp add: str_echo.simps [of a] str_echo.simps [of "a @ b"])
    next
      case eof then show ?thesis using False ok rd m by (cases a rule: chan_data.cases) (auto simp: ch_read_def split: if_splits)
    next
      case (data bs)
      obtain q where w: "Writen bs (length bs) k = Inr (Returned (), (q, snd k @ bs))" "sink_ok (q, snd k @ bs)"
        using Writen_ok [OF 1(4), of "length bs" bs] by auto
      show ?thesis using 1(1) [OF rd [symmetric] data(1,2) w(1) refl refl ok(3) w(2)] rd ap data(1,2,4) w(1)
        by (simp add: str_echo.simps [of a] str_echo.simps [of "a @ b"])
    qed
  qed
qed

lemma refill_later: "chan_open ch \<Longrightarrow> chan_data ch \<noteq> [] \<Longrightarrow> refill (ch @ b) = (fst (refill ch), snd (refill ch) @ b)"
proof (induction ch rule: refill.induct)
  case (1 ch)
  have ne: "ch \<noteq> []" "RecvBytes [] \<notin> set ch" using 1(2,3) by (auto simp: chan_open_def)
  obtain r ch' where rd: "ch_read MAXLINE ch = (r, ch')" by (cases "ch_read MAXLINE ch")
  have m: "0 < MAXLINE" by (simp add: MAXLINE_def)
  have "chan_ok ch" using 1(2) by (simp add: chan_open_def)
  from rd m this show ?case
  proof (cases rule: ch_read_cases)
    case intr
    then show ?thesis using 1(1) [OF rd [symmetric] _ _ chan_open_read [OF 1(2) rd m]] 1(3) rd ch_read_append [OF ne, of MAXLINE b]
      by (simp add: refill.simps [of ch] refill.simps [of "ch @ b"])
  next
    case eof then show ?thesis using 1(3) by simp
  next
    case (data bs)
    then show ?thesis using rd ch_read_append [OF ne, of MAXLINE b] by (simp add: refill.simps [of ch] refill.simps [of "ch @ b"])
  qed
qed

lemma refill_waits: "chan_open ch \<Longrightarrow> chan_data ch = [] \<Longrightarrow> refill (ch @ [RecvError EWAIT]) = (RecvError EWAIT, [])"
proof (induction ch)
  case Nil
  show ?case by (subst refill.simps) (simp add: ch_read_def EWAIT_def EINTR_def)
next
  case (Cons r ch)
  then have "r = RecvError EINTR" "chan_open ch" by (cases r; auto simp: chan_open_def split: if_splits)+
  then show ?case using Cons by (subst refill.simps) (simp add: ch_read_def)
qed

definition rl_open :: "readline_state \<Rightarrow> bool" where
  "rl_open s \<longleftrightarrow> rl_good s \<and> chan_open (rl_chan s)"

lemma refill_open: "chan_open ch \<Longrightarrow> chan_open (snd (refill ch))"
proof (induction ch rule: refill.induct)
  case (1 ch)
  obtain r ch' where rd: "ch_read MAXLINE ch = (r, ch')" by (cases "ch_read MAXLINE ch")
  have o: "chan_open ch'" by (rule chan_open_read [OF 1(2) rd]) (simp add: MAXLINE_def)
  show ?case using 1(1) [OF rd [symmetric] _ _ o] rd o by (cases r) (auto simp: refill.simps [of ch])
qed

lemma my_read_open:
  assumes "my_read c s = Inr (rc, d, s')" "chan_open (rl_chan s)"
  shows "chan_open (rl_chan s')"
  using assms refill_open [OF assms(2)]
  by (auto simp: my_read_def next_byte_def bind_err_eq_Inr split: if_splits prod.splits recv_res.splits)

text \<open>On an open connection \<open>my_read\<close> delivers the same bytes, and the channel stays open.\<close>

interpretation ro: byte_source my_read rl_open rl_content
proof
  fix s b bs c assume g: "rl_open s" and c: "rl_content s = b # bs"
  then obtain s' where s': "my_read c s = Inr (1, b, s')" "rl_good s'" "rl_content s' = bs"
    using rl.get_byte [of s b bs c] by (auto simp: rl_open_def)
  then show "\<exists>s'. my_read c s = Inr (1, b, s') \<and> rl_open s' \<and> rl_content s' = bs"
    using my_read_open [OF s'(1)] g by (auto simp: rl_open_def)
next
  fix s :: readline_state and c assume g: "rl_open s" and c: "rl_content s = []"
  then obtain s' where s': "my_read c s = Inr (0, c, s')" "rl_good s'" "rl_content s' = []"
    using rl.get_eof [of s c] by (auto simp: rl_open_def)
  then show "\<exists>s'. my_read c s = Inr (0, c, s') \<and> rl_open s' \<and> rl_content s' = []"
    using my_read_open [OF s'(1)] g by (auto simp: rl_open_def)
qed

lemma next_byte_arrive: "next_byte (arrive ch s) = bind_err (next_byte s) (\<lambda>(rc, d, t). Inr (rc, d, arrive ch t))"
  by (cases "mem_get (read_buf s) (read_ptr s)") (simp_all add: next_byte_def arrive_def)

lemma my_read_arrive:
  assumes "rl_open s" "rl_content s \<noteq> []"
  shows "my_read c (arrive ch s) = bind_err (my_read c s) (\<lambda>(rc, d, t). Inr (rc, d, arrive ch t))"
proof (cases "0 < read_cnt s")
  case True
  then show ?thesis using next_byte_arrive [of ch s] by (simp add: my_read_def arrive_def)
next
  case False
  then have d: "chan_data (rl_chan s) \<noteq> []" using assms(2) by (simp add: rl_content_def)
  have o: "chan_open (rl_chan s)" using assms(1) by (simp add: rl_open_def)
  obtain r ch' where r: "refill (rl_chan s) = (r, ch')" by (cases "refill (rl_chan s)")
  have l: "refill (rl_chan s @ ch) = (r, ch' @ ch)" using refill_later [OF o d, of ch] r by simp
  show ?thesis
  proof (cases r)
    case (RecvError e) then show ?thesis using False r l by (simp add: my_read_def arrive_def)
  next
    case (RecvBytes bs)
    let ?t = "\<lambda>buf. s\<lparr>read_cnt := int (length bs), read_buf := buf, read_ptr := 0, rl_chan := ch'\<rparr>"
    have n: "next_byte (s\<lparr>read_cnt := int (length bs), read_buf := buf, read_ptr := 0, rl_chan := ch' @ ch\<rparr>) =
        bind_err (next_byte (?t buf)) (\<lambda>(rc, d, t). Inr (rc, d, arrive ch t))" for buf
      using next_byte_arrive [of ch "?t buf"] by (simp add: arrive_def)
    then show ?thesis using False r l RecvBytes
      by (cases "mem_write (read_buf s) 0 bs") (auto simp: my_read_def arrive_def)
  qed
qed

lemma my_read_waits:
  assumes "rl_open s" "rl_content s = []"
  shows "\<exists>t. my_read c (arrive [RecvError EWAIT] s) = Inr (-1, c, t)"
proof -
  have "\<not> 0 < read_cnt s" using next_byte_ok [of s] assms by (auto simp: rl_open_def)
  moreover have "chan_data (rl_chan s) = []" using assms(2) by (simp add: rl_content_def)
  ultimately show ?thesis using refill_waits [of "rl_chan s"] assms(1) by (simp add: my_read_def arrive_def rl_open_def)
qed

text \<open>
  The client waits exactly when what has arrived is neither a whole line nor fills its buffer. Otherwise the
  answer does not depend on what arrives later.
\<close>

lemma waits_iff:
  assumes "rl_open (cli_rl s)" "0 < n" "n \<le> length (cli_recv s)" "l = line_prefix (n - 1) (rl_content (cli_rl s))"
  shows "waits n s \<longleftrightarrow> \<not> (complete_line l \<or> length l = n - 1)"
proof -
  let ?f = "arrive [RecvError EWAIT]"
  have later: "(complete_line l \<or> length l = n - 1 \<longrightarrow>
      readline_loop my_read n 1 (cli_recv s) 0 (?f (cli_rl s)) =
        bind_err (readline_loop my_read n 1 (cli_recv s) 0 (cli_rl s)) (\<lambda>(r, b, t). Inr (r, b, ?f t))) \<and>
    (\<not> (complete_line l \<or> length l = n - 1) \<longrightarrow> (\<forall>c s. rl_open s \<longrightarrow> rl_content s = [] \<longrightarrow> (\<exists>t. my_read c (?f s) = Inr (-1, c, t))) \<longrightarrow>
      (\<exists>b t. readline_loop my_read n 1 (cli_recv s) 0 (?f (cli_rl s)) = Inr (-1, b, t)))"
    using ro.readline_loop_later [of ?f "cli_rl s" 1 n "cli_recv s" l 0] my_read_arrive assms by simp
  show ?thesis
  proof (cases "complete_line l \<or> length l = n - 1")
    case True
    obtain r buf t where "readline_loop my_read n 1 (cli_recv s) 0 (cli_rl s) = Inr (r, buf, t)" "0 \<le> r"
      using ro.readline_loop_ok [of "cli_rl s" 1 n "cli_recv s" 0] assms by auto
    then show ?thesis using True later by (auto simp: waits_def readline_def)
  next
    case False
    then show ?thesis using later my_read_waits by (auto simp: waits_def readline_def)
  qed
qed

text \<open>The last piece of a text, when it is neither a whole line nor as long as the client's buffer allows.\<close>

function unterminated :: "nat \<Rightarrow> bytes \<Rightarrow> bytes" where
  "unterminated n msg =
     (let l = line_prefix (n - 1) msg in
      if l = [] \<or> \<not> (complete_line l \<or> length l = n - 1) then l else unterminated n (drop (length l) msg))"
  by pat_completeness auto
termination
proof (relation "measure (\<lambda>(n, msg). length msg)", goal_cases)
  case (2 n msg l)
  have "0 < length l" "length l \<le> length msg" using 2 line_prefix_length(2) [of "n - 1" msg] by auto
  then show ?case by (simp del: length_greater_0_conv)
qed simp

declare unterminated.simps [simp del]

lemma line_prefix_idem: "line_prefix m (line_prefix m bs) = line_prefix m bs"
  by (induction m bs rule: line_prefix.induct) auto

lemma line_prefix_ends: "length (line_prefix m bs) < m \<Longrightarrow> \<not> complete_line (line_prefix m bs) \<Longrightarrow> line_prefix m bs = bs"
  by (induction m bs rule: line_prefix.induct) (auto simp: complete_line_def split: if_splits)

lemma line_prefix_more:
  "complete_line (line_prefix m bs) \<or> length (line_prefix m bs) = m \<Longrightarrow> line_prefix m (bs @ later) = line_prefix m bs"
  by (induction m bs rule: line_prefix.induct) (auto simp: complete_line_def split: if_splits)

lemma unterminated_newline: "2 \<le> n \<Longrightarrow> msg = [] \<or> last msg = newline \<Longrightarrow> unterminated n msg = []"
proof (induction n msg rule: unterminated.induct)
  case (1 n msg)
  let ?l = "line_prefix (n - 1) msg"
  show ?case
  proof (cases "?l = []")
    case True then show ?thesis by (subst unterminated.simps) simp
  next
    case False
    have ne: "msg \<noteq> []" using False line_prefix_Nil_iff [of "n - 1" msg] 1(2) by auto
    have full: "complete_line ?l \<or> length ?l = n - 1"
    proof (rule ccontr)
      assume a: "\<not> ?thesis"
      then have "?l = msg" using line_prefix_ends [of "n - 1" msg] line_prefix_length(1) [of "n - 1" msg] by simp
      then show False using a ne 1(3) by (simp add: complete_line_def)
    qed
    have "drop (length ?l) msg = [] \<or> last (drop (length ?l) msg) = newline"
      using 1(3) ne by (cases "length ?l < length msg") (simp_all add: last_drop)
    then have "unterminated n (drop (length ?l) msg) = []" using 1(1) [OF refl _ 1(2)] False full by simp
    then show ?thesis unfolding unterminated.simps [of n msg] Let_def using False full by simp
  qed
qed

definition cli_good :: "nat \<Rightarrow> cli_state \<Rightarrow> bool" where
  "cli_good maxline s \<longleftrightarrow> length (cli_send s) = maxline \<and> length (cli_recv s) = maxline \<and> 2 \<le> maxline \<and>
     sink_ok (cli_sink s) \<and> rl_good (cli_rl s) \<and> \<not> fp_err (cli_fp s) \<and> 0 \<notin> set (fp_data (cli_fp s))"

lemma cli_request_ok:
  assumes ok: "cli_good maxline s" and l: "l = line_prefix (maxline - 1) (fp_data (cli_fp s))"
  shows "l = [] \<Longrightarrow> cli_request maxline s = Inr (Returned False, s)"
    "l \<noteq> [] \<Longrightarrow> \<exists>s'. cli_request maxline s = Inr (Returned True, s') \<and> cli_good maxline s' \<and> fp_data (cli_fp s) = l @ fp_data (cli_fp s') \<and>
       snd (cli_sink s') = snd (cli_sink s) @ l \<and> cli_out s' = cli_out s \<and> cli_rl s' = cli_rl s"
proof -
  show "cli_request maxline s = Inr (Returned False, s)" if "l = []"
    using ok that l by (cases s) (auto simp: cli_request_def cli_Fgets_def Fgets_def cli_good_def)
  assume ne: "l \<noteq> []"
  let ?fp = "cli_fp s"
  have d: "fp_data ?fp = l @ drop (length l) (fp_data ?fp)" by (simp add: l)
  have z: "0 \<notin> set l" "0 \<notin> set (drop (length l) (fp_data ?fp))" using ok d by (metis cli_good_def UnCI set_append)+
  have len: "length l < maxline" using line_prefix_length(1) [of "maxline - 1" "fp_data ?fp"] ok by (auto simp: l cli_good_def)
  obtain send where send: "mem_write (cli_send s) 0 (l @ [0]) = Inr (l @ 0 # send)" "length (l @ 0 # send) = maxline"
    using ok len by (simp add: mem_write_def cli_good_def)
  let ?s1 = "s\<lparr>cli_send := l @ 0 # send, cli_fp := ?fp\<lparr>fp_data := drop (length l) (fp_data ?fp)\<rparr>\<rparr>"
  have s1: "cli_Fgets maxline s = Inr (Returned True, ?s1)"
    unfolding cli_Fgets_def Fgets_def Let_def l [symmetric] using send ne by simp
  obtain r where w: "Writen (l @ 0 # send) (length l) (cli_sink s) = Inr (Returned (), (r, snd (cli_sink s) @ l))"
    "sink_ok (r, snd (cli_sink s) @ l)"
    using Writen_ok [of "cli_sink s" "length l" "l @ 0 # send"] ok by (auto simp: cli_good_def)
  let ?s2 = "?s1\<lparr>cli_sink := (r, snd (cli_sink s) @ l)\<rparr>"
  have "cli_request maxline s = Inr (Returned True, ?s2)"
    using s1 w(1) z(1) by (simp add: cli_request_def cli_Writen_def c_strlen_mid)
  moreover have "cli_good maxline ?s2" using ok send(2) w(2) z(2) by (simp add: cli_good_def)
  ultimately show "\<exists>s'. cli_request maxline s = Inr (Returned True, s') \<and> cli_good maxline s' \<and> fp_data (cli_fp s) = l @ fp_data (cli_fp s') \<and>
       snd (cli_sink s') = snd (cli_sink s) @ l \<and> cli_out s' = cli_out s \<and> cli_rl s' = cli_rl s"
    using d by (intro exI [of _ ?s2]) simp
qed

lemma cli_answer_ok:
  assumes ok: "cli_good maxline s" and l: "l = line_prefix (maxline - 1) (rl_content (cli_rl s))" "l \<noteq> []" "0 \<notin> set l"
  shows "\<exists>s'. cli_answer (\<lambda>_. True) maxline s = Inr (Returned (), s') \<and> cli_good maxline s' \<and> rl_content (cli_rl s) = l @ rl_content (cli_rl s') \<and>
    cli_out s' = cli_out s @ l \<and> cli_fp s' = cli_fp s \<and> cli_sink s' = cli_sink s \<and> (rl_open (cli_rl s) \<longrightarrow> rl_open (cli_rl s'))"
proof -
  obtain recv rl m where rl: "readline (cli_recv s) maxline (cli_rl s) = Inr (int (length l) + m, recv, rl)" "0 \<le> m"
    "rl_good rl" "rl_content (cli_rl s) = l @ rl_content rl" "length recv = maxline" "take (Suc (length l)) recv = l @ [0]"
    "rl_open (cli_rl s) \<longrightarrow> rl_open rl"
  proof -
    have r: "rl_good (cli_rl s)" "length (cli_recv s) = maxline" "2 \<le> maxline" using ok by (simp_all add: cli_good_def)
    obtain buf' s' where b: "readline_loop my_read maxline 1 (cli_recv s) 0 (cli_rl s) =
        Inr (int (length l) + (if length l = maxline - 1 \<and> \<not> complete_line l then 1 else 0), buf', s')"
      "rl_good s'" "rl_content s' = drop (length l) (rl_content (cli_rl s))" "length buf' = maxline" "take (1 + length l) buf' = l @ [0]"
      using rl.readline_loop_ok [OF r(1), of 1 maxline "cli_recv s" 0] r unfolding l(1) by auto
    have "rl_open s'" if "rl_open (cli_rl s)"
      using ro.readline_loop_ok [OF that, of 1 maxline "cli_recv s" 0] r b(1) by auto
    then show thesis using b l(1) by (intro that [of _ buf' s']) (auto simp: readline_def)
  qed
  obtain rest where rest: "recv = l @ 0 # rest" using rl(6) by (rule line_take_0)
  let ?s = "s\<lparr>cli_recv := recv, cli_rl := rl, cli_out := cli_out s @ l\<rparr>"
  have m0: "int (length l) + m \<noteq> 0" using l(2) rl(2) by (cases l) simp_all
  have "cli_answer (\<lambda>_. True) maxline s = Inr (Returned (), ?s)"
    using rl(1) m0 rl(2) l(3)
    by (simp add: cli_answer_def cli_Readline_def Readline_def cli_Fputs_def Fputs_def rest c_strlen_mid)
  then show ?thesis using ok rl(3-5,7) by (intro exI [of _ ?s]) (simp add: cli_good_def)
qed

lemma str_cli_loop_ok:
  "cli_good maxline s \<Longrightarrow> unterminated maxline (fp_data (cli_fp s)) = [] \<Longrightarrow> rl_content (cli_rl s) = fp_data (cli_fp s) @ later \<Longrightarrow>
   \<exists>s'. str_cli_loop (\<lambda>_. True) maxline s = Inr (Returned (), s') \<and> snd (cli_sink s') = snd (cli_sink s) @ fp_data (cli_fp s) \<and>
     cli_out s' = cli_out s @ fp_data (cli_fp s)"
proof (induction "length (fp_data (cli_fp s))" arbitrary: s rule: less_induct)
  case less
  let ?msg = "fp_data (cli_fp s)"
  let ?l = "line_prefix (maxline - 1) ?msg"
  note step = str_cli_loop.simps [of "\<lambda>_. True" maxline s] cli_round_def
  show ?case
  proof (cases "?l = []")
    case True
    then have "?msg = []" using less(2) line_prefix_Nil_iff [of "maxline - 1" ?msg] by (auto simp: cli_good_def)
    then show ?thesis using cli_request_ok(1) [OF less(2) refl True] by (simp add: step)
  next
    case False
    obtain s1 where s1: "cli_request maxline s = Inr (Returned True, s1)" "cli_good maxline s1" "?msg = ?l @ fp_data (cli_fp s1)"
      "snd (cli_sink s1) = snd (cli_sink s) @ ?l" "cli_out s1 = cli_out s" "cli_rl s1 = cli_rl s"
      using cli_request_ok(2) [OF less(2) refl False] by blast
    have dr: "drop (length ?l) ?msg = fp_data (cli_fp s1)" using s1(3) by (metis append_eq_conv_conj)
    have full: "complete_line ?l \<or> length ?l = maxline - 1" and u: "unterminated maxline (fp_data (cli_fp s1)) = []"
      using less(3) False unfolding unterminated.simps [of maxline ?msg] Let_def dr by (auto split: if_splits)
    have lp: "?l = line_prefix (maxline - 1) (rl_content (cli_rl s1))" using line_prefix_more [OF full] less(4) s1(6) by simp
    have "0 \<notin> set ?l" using less(2) s1(3) by (metis UnCI cli_good_def set_append)
    from cli_answer_ok [OF s1(2) lp False this] obtain s2 where s2: "cli_answer (\<lambda>_. True) maxline s1 = Inr (Returned (), s2)"
      "cli_good maxline s2" "rl_content (cli_rl s1) = ?l @ rl_content (cli_rl s2)" "cli_out s2 = cli_out s1 @ ?l"
      "cli_fp s2 = cli_fp s1" "cli_sink s2 = cli_sink s1" by blast
    have "rl_content (cli_rl s2) = fp_data (cli_fp s2) @ later"
      using s2(3,5) s1(6) less(4) s1(3) by (metis append.assoc same_append_eq)
    then obtain s' where "str_cli_loop (\<lambda>_. True) maxline s2 = Inr (Returned (), s')"
      "snd (cli_sink s') = snd (cli_sink s2) @ fp_data (cli_fp s2)" "cli_out s' = cli_out s2 @ fp_data (cli_fp s2)"
      using less(1) [of s2] cli_request_progress [OF s1(1)] s2(2,5) u by auto
    then show ?thesis using s1(1,4,5) s2 arg_cong [OF s1(3), of "\<lambda>x. xs @ x" for xs] by (auto simp: step)
  qed
qed

lemma session_ok:
  assumes up: "\<And>i bs. chan_open (up i bs) \<and> chan_data (up i bs) = bs"
    and down: "\<And>i bs. chan_open (down i bs) \<and> chan_data (down i bs) = bs"
  shows "cli_good maxline s \<Longrightarrow> rl_open (cli_rl s) \<Longrightarrow> rl_content (cli_rl s) = [] \<Longrightarrow> sink_ok k \<Longrightarrow> msg = fp_data (cli_fp s) \<Longrightarrow>
   \<exists>s' k'. session up down maxline i s k = Inr (if unterminated maxline msg = [] then SessDone else SessWaits, s', k') \<and>
     snd (cli_sink s') = snd (cli_sink s) @ msg \<and> snd k' = snd k @ msg \<and> cli_out s' @ unterminated maxline msg = cli_out s @ msg"
proof (induction "length msg" arbitrary: i s k msg rule: less_induct)
  case less
  let ?l = "line_prefix (maxline - 1) msg"
  note step = session.simps [of up down maxline i s k]
  show ?case
  proof (cases "?l = []")
    case True
    then have "msg = []" using less(2) line_prefix_Nil_iff [of "maxline - 1" msg] by (auto simp: cli_good_def)
    then show ?thesis using cli_request_ok(1) [OF less(2), of "[]"] True less(6)
      by (simp add: step unterminated.simps [of maxline "[]"])
  next
    case False
    obtain s1 where s1: "cli_request maxline s = Inr (Returned True, s1)" "cli_good maxline s1" "msg = ?l @ fp_data (cli_fp s1)"
      "snd (cli_sink s1) = snd (cli_sink s) @ ?l" "cli_out s1 = cli_out s" "cli_rl s1 = cli_rl s"
      using cli_request_ok(2) [OF less(2), of ?l] False less(6) by auto
    have ul: "chan_ok (up i ?l)" "chan_data (up i ?l) = ?l" using up [of i ?l] by (auto simp: chan_open_def)
    obtain ch r where e: "str_echo (up i ?l) k = Inr (Returned (), ch, (r, snd k @ ?l))" "sink_ok (r, snd k @ ?l)"
      using str_echo_ok [OF ul(1) less(5)] ul(2) by auto
    let ?k = "(r, snd k @ ?l)" and ?s2 = "s1\<lparr>cli_rl := arrive (down i ?l) (cli_rl s)\<rparr>"
    have rc: "\<not> 0 < read_cnt (cli_rl s)" "chan_data (rl_chan (cli_rl s)) = []"
      using next_byte_ok [of "cli_rl s"] less(3,4) by (auto simp: rl_open_def rl_content_def)
    have o2: "rl_open (cli_rl ?s2)" "rl_content (cli_rl ?s2) = ?l"
      using less(3) rc down [of i ?l] chan_open_append [of "rl_chan (cli_rl s)" "down i ?l"] chan_data_append [of "rl_chan (cli_rl s)" "down i ?l"]
      by (auto simp: rl_open_def rl_good_def arrive_def rl_content_def chan_open_def)
    have g2: "cli_good maxline ?s2" using s1(2) o2(1) by (simp add: cli_good_def rl_open_def)
    have w: "waits maxline ?s2 \<longleftrightarrow> \<not> (complete_line ?l \<or> length ?l = maxline - 1)"
      by (rule waits_iff) (use o2 g2 in \<open>auto simp: cli_good_def line_prefix_idem\<close>)
    show ?thesis
    proof (cases "complete_line ?l \<or> length ?l = maxline - 1")
      case full: False
      have "?l = msg" using line_prefix_ends [of "maxline - 1" msg] line_prefix_length(1) [of "maxline - 1" msg] full by simp
      moreover have "unterminated maxline msg = ?l" using full by (subst unterminated.simps) simp
      ultimately show ?thesis using s1(1,4,5,6) e(1) w full False by (simp add: step Let_def)
    next
      case full: True
      have dr: "drop (length ?l) msg = fp_data (cli_fp s1)" using s1(3) by (metis append_eq_conv_conj)
      have u: "unterminated maxline msg = unterminated maxline (fp_data (cli_fp s1))"
        using full False unfolding unterminated.simps [of maxline msg] Let_def dr by simp
      have "0 \<notin> set ?l" using less(2,6) s1(3) by (metis UnCI cli_good_def set_append)
      from cli_answer_ok [OF g2 _ False this] o2(2) obtain s3 where s3: "cli_answer (\<lambda>_. True) maxline ?s2 = Inr (Returned (), s3)"
        "cli_good maxline s3" "rl_content (cli_rl s3) = []" "cli_out s3 = cli_out s1 @ ?l" "cli_fp s3 = cli_fp s1"
        "cli_sink s3 = cli_sink s1" "rl_open (cli_rl s3)"
        using o2(1) by (auto simp: line_prefix_idem)
      have lt: "length (fp_data (cli_fp s3)) < length msg" using cli_request_progress [OF s1(1)] s3(5) less(6) by simp
      obtain s' k' where "session up down maxline (i + 1) s3 ?k =
          Inr (if unterminated maxline msg = [] then SessDone else SessWaits, s', k')"
        "snd (cli_sink s') = snd (cli_sink s3) @ fp_data (cli_fp s3)" "snd k' = (snd k @ ?l) @ fp_data (cli_fp s3)"
        "cli_out s' @ unterminated maxline msg = cli_out s3 @ fp_data (cli_fp s3)"
        using less(1) [OF lt s3(2,7,3) e(2) refl, of "i + 1"] u s3(5) by auto
      moreover have "session up down maxline i s k = session up down maxline (i + 1) s3 ?k"
        using s1(1,4,6) e(1) w full s3(1) by (auto simp: step Let_def)
      moreover have "?l @ fp_data (cli_fp s3) = msg" using s1(3) s3(5) by simp
      ultimately show ?thesis using s1(4,5) s3(4,6) by (metis append.assoc)
    qed
  qed
qed

text \<open>
  C26. Client and server of the echo protocol over a connection that stays open, for lines of both
  lengths the clients use and however the bytes are cut on the way, with interrupted calls in between. The
  client sends its whole file of bytes other than zero, and the server sends exactly that back. When the last
  line ends in a newline (or fills the client's buffer), the client prints exactly its file and its loop ends. Otherwise
  it has printed all but the last piece and waits for ever for the rest of the line, since the server closes
  only after the client. In the first case \<open>str_cli\<close> and the client's own version of it need nothing but the echo of the file:
  they return with the file printed, whatever comes after it.
\<close>

theorem echo_session_correct:
  assumes "\<And>i bs. chan_open (up i bs) \<and> chan_data (up i bs) = bs" "\<And>i bs. chan_open (down i bs) \<and> chan_data (down i bs) = bs"
    and "n = 4096 \<or> n = 1024" "cli_good n s" "rl_open (cli_rl s)" "rl_content (cli_rl s) = []" "sink_ok k" "fp_data (cli_fp s) = msg"
    and "rl_good rl" "rl_content rl = msg @ later"
  shows "(\<exists>s' k'. session up down n 0 s k = Inr (if unterminated n msg = [] then SessDone else SessWaits, s', k') \<and>
      snd (cli_sink s') = snd (cli_sink s) @ msg \<and> snd k' = snd k @ msg \<and> cli_out s' @ unterminated n msg = cli_out s @ msg) \<and>
    (msg = [] \<or> last msg = newline \<longrightarrow> unterminated n msg = []) \<and>
    (unterminated n msg = [] \<longrightarrow> (\<exists>s'. (if n = 4096 then str_cli else client_str_cli) (\<lambda>_. True) (s\<lparr>cli_rl := rl\<rparr>) =
        Inr (Returned (), s') \<and> snd (cli_sink s') = snd (cli_sink s) @ msg \<and> cli_out s' = cli_out s @ msg))"
proof (intro conjI impI)
  show "\<exists>s' k'. session up down n 0 s k = Inr (if unterminated n msg = [] then SessDone else SessWaits, s', k') \<and>
      snd (cli_sink s') = snd (cli_sink s) @ msg \<and> snd k' = snd k @ msg \<and> cli_out s' @ unterminated n msg = cli_out s @ msg"
    by (rule session_ok [OF assms(1,2,4-7)]) (simp add: assms(8))
  show "unterminated n msg = []" if "msg = [] \<or> last msg = newline"
    using unterminated_newline [OF _ that] assms(3) by auto
  assume u: "unterminated n msg = []"
  have "cli_good n (s\<lparr>cli_rl := rl\<rparr>)" using assms(4,9) by (simp add: cli_good_def)
  from str_cli_loop_ok [OF this, of later] u assms(3,8,10)
  show "\<exists>s'. (if n = 4096 then str_cli else client_str_cli) (\<lambda>_. True) (s\<lparr>cli_rl := rl\<rparr>) =
      Inr (Returned (), s') \<and> snd (cli_sink s') = snd (cli_sink s) @ msg \<and> cli_out s' = cli_out s @ msg"
    by (auto simp: str_cli_def client_str_cli_def MAXLINE_def BUFFER_LENGTH_def)
qed

text \<open>Every byte arrives alone, after an interrupted call. A file of a line and one without newline at its end.\<close>

definition bytewise :: "nat \<Rightarrow> bytes \<Rightarrow> chan" where
  "bytewise i bs = concat (map (\<lambda>b. [RecvError EINTR, RecvBytes [b]]) bs)"

lemma bytewise_ok: "chan_open (bytewise i bs) \<and> chan_data (bytewise i bs) = bs"
  by (induction bs) (auto simp: bytewise_def chan_open_def)

definition fresh_rl :: "chan \<Rightarrow> readline_state" where
  "fresh_rl ch = \<lparr>read_cnt = 0, read_ptr = 0, read_buf = replicate MAXLINE 0, rl_chan = ch\<rparr>"

definition fresh_cli :: "bytes \<Rightarrow> cli_state" where
  "fresh_cli msg = \<lparr>cli_send = replicate 1024 0, cli_recv = replicate 1024 0, cli_fp = \<lparr>fp_data = msg, fp_err = False\<rparr>,
     cli_sink = ([WriteTakes 1], []), cli_rl = fresh_rl [], cli_out = []\<rparr>"

lemma fresh_cli_good: "0 \<notin> set msg \<Longrightarrow> cli_good 1024 (fresh_cli msg)" "rl_open (cli_rl (fresh_cli msg))"
    "rl_content (cli_rl (fresh_cli msg)) = []" "fp_data (cli_fp (fresh_cli msg)) = msg"
  by (simp_all add: fresh_cli_def fresh_rl_def cli_good_def sink_ok_def rl_open_def rl_good_def chan_open_def rl_content_def)

lemma fresh_cli_out: "cli_out (fresh_cli msg) = []" "cli_sink (fresh_cli msg) = ([WriteTakes 1], [])"
  by (simp_all add: fresh_cli_def)

lemma unterminated_sample: "unterminated 1024 [104, newline, 105] = [105]"
proof -
  have m: "1024 - 1 = Suc (Suc (1021 :: nat))" by simp
  have p: "line_prefix (1024 - 1) [104, newline, 105] = [104, newline]" "line_prefix (1024 - 1) [105] = [105]"
    unfolding m line_prefix.simps by (simp_all add: newline_def)
  have "unterminated 1024 [105] = [105]"
    unfolding unterminated.simps [of 1024 "[105]"] p(2) Let_def by (simp add: complete_line_def newline_def)
  then show ?thesis
    unfolding unterminated.simps [of 1024 "[104, newline, 105]"] p(1) Let_def by (simp add: complete_line_def)
qed

theorem echo_session_correct_witness:
  "\<exists>s k t k'. session bytewise bytewise 1024 0 (fresh_cli [104, newline]) ([], []) = Inr (SessDone, s, k) \<and> cli_out s = [104, newline] \<and>
     snd k = [104, newline] \<and>
     session bytewise bytewise 1024 0 (fresh_cli [104, newline, 105]) ([], []) = Inr (SessWaits, t, k') \<and> cli_out t = [104, newline] \<and>
     snd k' = [104, newline, 105]"
proof -
  have z: "0 \<notin> set [104, newline, 105]" "0 \<notin> set [104, newline]" by (simp_all add: newline_def)
  have k: "sink_ok ([], [])" by (simp add: sink_ok_def)
  have r: "rl_good (fresh_rl [RecvBytes t])" "t \<noteq> [] \<Longrightarrow> rl_content (fresh_rl [RecvBytes t]) = t @ []" for t
    by (simp_all add: fresh_rl_def rl_good_def rl_content_def)
  note g = echo_session_correct [of bytewise bytewise 1024, OF bytewise_ok bytewise_ok _ fresh_cli_good(1) fresh_cli_good(2,3) k fresh_cli_good(4) r]
  have u: "unterminated 1024 [104, newline] = []" using g [OF _ z(2)] by simp
  obtain s k where "session bytewise bytewise 1024 0 (fresh_cli [104, newline]) ([], []) = Inr (SessDone, s, k)" "cli_out s = [104, newline]"
    "snd k = [104, newline]"
    using g [OF _ z(2)] u by (auto simp: fresh_cli_out)
  moreover obtain t k' where "session bytewise bytewise 1024 0 (fresh_cli [104, newline, 105]) ([], []) = Inr (SessWaits, t, k')"
    "cli_out t = [104, newline]" "snd k' = [104, newline, 105]"
    using g [OF _ z(1)] unterminated_sample by (auto simp: fresh_cli_out)
  ultimately show ?thesis by blast
qed

end
