(* ===== verification/EchoClients.thy ===== *)
theory EchoClients
  imports StreamIO EchoServers
begin

text \<open>
  The clients of \<open>src/network/echo/\<close> that wait for the standard input and the connection at
  once, with \<open>select\<close> (\<open>d3_select_echo_client.cpp\<close>), \<open>poll\<close> (\<open>d4_poll_echo_client.cpp\<close>) and \<open>epoll\<close>
  (\<open>d5_epoll_echo_client.cpp\<close>). One round of a loop
  is one step, from the answers of the kernel in that round.
\<close>

section \<open>The clients\<close>

text \<open>
  The two buffers, what was read from the standard input and the connection, what was written
  to the connection (\<open>cc_sink\<close>), and the calls of \<open>write\<close> for the standard output with their results (\<open>cc_log\<close>), which
  the programs ignore. \<open>cc_reg\<close> says whether the standard input is
  still waited for: \<open>stdineof == 0\<close> for \<open>select\<close>, \<open>fds[0].fd\<close> for \<open>poll\<close>, the registration for \<open>epoll\<close>.
\<close>

record client_state =
  cc_stdineof :: bool
  cc_reg :: bool
  cc_shutdown :: bool
  cc_in :: bytes
  cc_sink :: sink
  cc_got :: bytes
  cc_wbuf :: bytes
  cc_rbuf :: bytes
  cc_log :: "echo_io list"

datatype client_flow = CliRun client_state | CliReturn client_state | CliExit client_state

record client_answers =
  ca_sock :: bool                \<comment> \<open>the connection is reported ready\<close>
  ca_stdin :: bool               \<comment> \<open>the standard input is reported ready\<close>
  ca_read_sock :: recv_res
  ca_read_stdin :: recv_res
  ca_write_out :: int            \<comment> \<open>what \<open>write\<close> returns for the standard output\<close>

text \<open>The buffers have any contents at first.\<close>

definition client_new :: "bytes \<Rightarrow> bytes \<Rightarrow> write_res list \<Rightarrow> client_state" where
  "client_new wbuf rbuf ws = \<lparr>cc_stdineof = False, cc_reg = True, cc_shutdown = False, cc_in = [], cc_sink = (ws, []), cc_got = [],
     cc_wbuf = wbuf, cc_rbuf = rbuf, cc_log = []\<rparr>"

definition STDOUT :: int where "STDOUT = 1"

text \<open>The two handlers, the same in the three programs.\<close>

definition on_sock :: "recv_res \<Rightarrow> int \<Rightarrow> client_state \<Rightarrow> client_flow c_res" where
  "on_sock r wr s =
     (case read_bytes r of
        None \<Rightarrow> Inr (if cc_stdineof s then CliReturn s else CliExit s)
      | Some bs \<Rightarrow>
          bind_err (mem_write (cc_rbuf s) 0 bs) (\<lambda>buf.
          bind_err (mem_read buf 0 (length bs)) (\<lambda>out.
            Inr (CliRun (s\<lparr>cc_rbuf := buf, cc_got := cc_got s @ bs, cc_log := cc_log s @ [Wr STDOUT out wr]\<rparr>)))))"

definition on_stdin :: "recv_res \<Rightarrow> client_state \<Rightarrow> client_flow c_res" where
  "on_stdin r s =
     (case read_bytes r of
        None \<Rightarrow> Inr (CliRun (s\<lparr>cc_stdineof := True, cc_reg := False, cc_shutdown := True\<rparr>))
      | Some bs \<Rightarrow>
          bind_err (mem_write (cc_wbuf s) 0 bs) (\<lambda>buf.
          bind_err (Writen buf (length bs) (cc_sink s)) (\<lambda>(w, k).
            Inr (case w of
                   Exited c \<Rightarrow> CliExit (s\<lparr>cc_wbuf := buf, cc_in := cc_in s @ bs, cc_sink := k\<rparr>)
                 | Returned _ \<Rightarrow> CliRun (s\<lparr>cc_wbuf := buf, cc_in := cc_in s @ bs, cc_sink := k\<rparr>)))))"

text \<open>The round of \<open>select\<close>: the standard input is in the set only while \<open>stdineof\<close> is 0.\<close>

definition select_round :: "client_answers \<Rightarrow> client_state \<Rightarrow> client_flow c_res" where
  "select_round a s =
     bind_err (if ca_sock a then on_sock (ca_read_sock a) (ca_write_out a) s else Inr (CliRun s)) (\<lambda>f.
       case f of
         CliRun s1 \<Rightarrow> if ca_stdin a \<and> \<not> cc_stdineof s then on_stdin (ca_read_stdin a) s1 else Inr (CliRun s1)
       | _ \<Rightarrow> Inr f)"

text \<open>The round of \<open>poll\<close>: an entry with a negative descriptor reports nothing.\<close>

definition poll_round :: "client_answers \<Rightarrow> client_state \<Rightarrow> client_flow c_res" where
  "poll_round a s =
     bind_err (if ca_sock a then on_sock (ca_read_sock a) (ca_write_out a) s else Inr (CliRun s)) (\<lambda>f.
       case f of
         CliRun s1 \<Rightarrow> if ca_stdin a \<and> cc_reg s then on_stdin (ca_read_stdin a) s1 else Inr (CliRun s1)
       | _ \<Rightarrow> Inr f)"

text \<open>The events of \<open>epoll\<close>, one at a time: whether it is the connection, and the answers of \<open>read\<close> and of \<open>write\<close> for the standard output.\<close>

fun epoll_round :: "(bool \<times> recv_res \<times> int) list \<Rightarrow> client_state \<Rightarrow> client_flow c_res" where
  "epoll_round [] s = Inr (CliRun s)"
| "epoll_round ((sock, r, wr) # es) s =
     bind_err (if sock then on_sock r wr s else on_stdin r s) (\<lambda>f.
       case f of CliRun s1 \<Rightarrow> epoll_round es s1 | _ \<Rightarrow> Inr f)"

definition select_cstep :: "client_state \<Rightarrow> client_state \<Rightarrow> bool" where
  "select_cstep s s' \<longleftrightarrow> (\<exists>a. select_round a s = Inr (CliRun s'))"

definition poll_cstep :: "client_state \<Rightarrow> client_state \<Rightarrow> bool" where
  "poll_cstep s s' \<longleftrightarrow> (\<exists>a. poll_round a s = Inr (CliRun s'))"

text \<open>\<open>epoll_wait\<close> reports only what is registered, the standard input at most once.\<close>

definition epoll_reports :: "(bool \<times> recv_res \<times> int) list \<Rightarrow> client_state \<Rightarrow> bool" where
  "epoll_reports es s \<longleftrightarrow> length (filter (Not \<circ> fst) es) \<le> (if cc_reg s then 1 else 0)"

definition epoll_cstep :: "client_state \<Rightarrow> client_state \<Rightarrow> bool" where
  "epoll_cstep s s' \<longleftrightarrow> (\<exists>es. epoll_reports es s \<and> epoll_round es s = Inr (CliRun s'))"

text \<open>\<open>main\<close> of the clients up to \<open>str_cli\<close>: the number of arguments and the answers of \<open>socket\<close> and \<open>connect\<close>.\<close>

definition client_main :: "int \<Rightarrow> int \<Rightarrow> int \<Rightarrow> bytes \<Rightarrow> bytes \<Rightarrow> write_res list \<Rightarrow> client_state exitable" where
  "client_main argc sockfd connected wbuf rbuf ws =
     (if argc \<noteq> 3 then Exited 1
      else if sockfd = -1 then Exited (-1)
      else if connected < 0 then Exited 1
      else Returned (client_new wbuf rbuf ws))"

text \<open>The others have textual copies of it; \<open>d1_echo_client.cpp\<close> goes on with \<open>client_str_cli\<close> of \<open>StreamIO\<close>.\<close>

definition d1_client_main :: "int \<Rightarrow> int \<Rightarrow> int \<Rightarrow> unit exitable" where
  "d1_client_main argc sockfd connected =
     (if argc \<noteq> 3 then Exited 1
      else if sockfd = -1 then Exited (-1)
      else if connected < 0 then Exited 1
      else Returned ())"

definition d4_client_main :: "int \<Rightarrow> int \<Rightarrow> int \<Rightarrow> bytes \<Rightarrow> bytes \<Rightarrow> write_res list \<Rightarrow> client_state exitable" where
  "d4_client_main = client_main"

definition d5_client_main :: "int \<Rightarrow> int \<Rightarrow> int \<Rightarrow> bytes \<Rightarrow> bytes \<Rightarrow> write_res list \<Rightarrow> client_state exitable" where
  "d5_client_main = client_main"

text \<open>
  What the three promise alike: a step reads and passes on the same bytes in both directions, those for the
  standard output to \<open>write\<close>.
\<close>

locale relay_client =
  fixes init :: "'s \<Rightarrow> bool" and step :: "'s \<Rightarrow> 's \<Rightarrow> bool" and good :: "'s \<Rightarrow> bool"
    and inn :: "'s \<Rightarrow> bytes" and sent :: "'s \<Rightarrow> bytes" and got :: "'s \<Rightarrow> bytes" and log :: "'s \<Rightarrow> echo_io list"
  assumes init_empty: "init s \<Longrightarrow> good s \<and> inn s = [] \<and> sent s = [] \<and> got s = [] \<and> log s = []"
    and step_good: "good s \<Longrightarrow> step s s' \<Longrightarrow> good s'"
    and step_relays: "good s \<Longrightarrow> step s s' \<Longrightarrow>
      \<exists>a l. inn s' = inn s @ a \<and> sent s' = sent s @ a \<and> got s' = got s @ offered STDOUT l \<and> log s' = log s @ l"
begin

lemma relays: "reachable init step s \<Longrightarrow> good s \<and> sent s = inn s \<and> offered STDOUT (log s) = got s"
proof (induction rule: reachable.induct)
  case (reach_init s) then show ?case using init_empty by simp
next
  case (reach_step s s') then show ?case using step_relays [of s s'] step_good [of s s'] by auto
qed

end

text \<open>A handler that goes on has read and passed on the same bytes.\<close>

definition coherent :: "client_state \<Rightarrow> bool" where
  "coherent s \<longleftrightarrow> (cc_shutdown s \<longleftrightarrow> cc_stdineof s) \<and> (cc_reg s \<longleftrightarrow> \<not> cc_stdineof s) \<and>
     length (cc_wbuf s) = BUFFER_LENGTH \<and> length (cc_rbuf s) = BUFFER_LENGTH"

definition relayed :: "client_state \<Rightarrow> client_state \<Rightarrow> bool" where
  "relayed s s' \<longleftrightarrow> (\<exists>a l. cc_in s' = cc_in s @ a \<and> snd (cc_sink s') = snd (cc_sink s) @ a \<and>
     cc_got s' = cc_got s @ offered STDOUT l \<and> cc_log s' = cc_log s @ l) \<and> coherent s'"

lemma relayed_trans:
  assumes "relayed s s1" "relayed s1 s2" shows "relayed s s2"
proof -
  obtain a l where "cc_in s1 = cc_in s @ a" "snd (cc_sink s1) = snd (cc_sink s) @ a"
    "cc_got s1 = cc_got s @ offered STDOUT l" "cc_log s1 = cc_log s @ l" using assms(1) by (auto simp: relayed_def)
  moreover obtain b m where "cc_in s2 = cc_in s1 @ b" "snd (cc_sink s2) = snd (cc_sink s1) @ b"
    "cc_got s2 = cc_got s1 @ offered STDOUT m" "cc_log s2 = cc_log s1 @ m" "coherent s2" using assms(2) by (auto simp: relayed_def)
  ultimately show ?thesis unfolding relayed_def by (intro conjI exI [of _ "a @ b"] exI [of _ "l @ m"]) simp_all
qed

lemma relayed_refl: "coherent s \<Longrightarrow> relayed s s"
  by (auto simp: relayed_def intro!: exI [of _ "[]"])

lemma relayed_coherent: "relayed s s' \<Longrightarrow> coherent s'"
  by (simp add: relayed_def)

text \<open>What a handler or a round promises of its outcome.\<close>

fun flow_ok :: "client_state \<Rightarrow> client_flow \<Rightarrow> bool" where
  "flow_ok s (CliRun s') \<longleftrightarrow> relayed s s'"
| "flow_ok s (CliReturn s') \<longleftrightarrow> relayed s s' \<and> cc_shutdown s'"
| "flow_ok s (CliExit s') \<longleftrightarrow> True"

lemma flow_ok_trans: "relayed s s1 \<Longrightarrow> flow_ok s1 f \<Longrightarrow> flow_ok s f"
  by (cases f) (auto intro: relayed_trans)

lemma on_sock_cases:
  assumes "on_sock r wr s = Inr f"
  obtains "f = CliReturn s" "cc_stdineof s" | "f = CliExit s" "\<not> cc_stdineof s"
  | bs buf where "f = CliRun (s\<lparr>cc_rbuf := buf, cc_got := cc_got s @ bs, cc_log := cc_log s @ [Wr STDOUT bs wr]\<rparr>)"
      "length buf = length (cc_rbuf s)"
proof (cases "read_bytes r")
  case None then show thesis using assms that by (auto simp: on_sock_def split: if_splits)
next
  case (Some bs)
  then obtain buf out where b: "mem_write (cc_rbuf s) 0 bs = Inr buf" "mem_read buf 0 (length bs) = Inr out"
    and f: "f = CliRun (s\<lparr>cc_rbuf := buf, cc_got := cc_got s @ bs, cc_log := cc_log s @ [Wr STDOUT out wr]\<rparr>)"
    using assms by (auto simp: on_sock_def bind_err_eq_Inr)
  then show thesis using that(3) [of bs buf] mem_write_read [OF b(1)] mem_write_length [OF b(1)] by simp
qed

lemma on_sock_ok:
  assumes "on_sock r wr s = Inr f" "coherent s" shows "flow_ok s f"
  using assms(1)
proof (cases rule: on_sock_cases)
  case (3 bs buf)
  then show ?thesis using assms(2)
    by (auto simp: relayed_def coherent_def intro!: exI [of _ "[]"] exI [of _ "[Wr STDOUT bs wr]"])
qed (use assms(2) relayed_refl in \<open>auto simp: coherent_def\<close>)

lemma on_sock_keeps: "on_sock r wr s = Inr (CliRun s') \<Longrightarrow> cc_stdineof s' = cc_stdineof s"
  by (erule on_sock_cases) auto

lemma on_sock_total: "coherent s \<Longrightarrow> \<exists>f. on_sock r wr s = Inr f"
proof (cases "read_bytes r")
  case (Some bs)
  assume "coherent s"
  then obtain buf where b: "mem_write (cc_rbuf s) 0 bs = Inr buf"
    using mem_write_defined [of 0 bs "cc_rbuf s"] read_bytes_le [OF Some] by (auto simp: coherent_def)
  then show ?thesis using mem_write_read [OF b] Some by (simp add: on_sock_def)
qed (simp add: on_sock_def)

lemma writen_loop_sent:
  "writen_loop buf p nleft k = Inr (True, k') \<Longrightarrow> snd k' = snd k @ take nleft (drop p buf)"
proof (induction buf p nleft k arbitrary: k' rule: writen_loop.induct)
  case (1 buf p nleft k)
  show ?case
  proof (cases "nleft = 0")
    case True then show ?thesis using 1(3) by (simp add: writen_loop.simps)
  next
    case False
    let ?bs = "take nleft (drop p buf)"
    have len: "p + nleft \<le> length buf" and rd: "mem_read buf p nleft = Inr ?bs"
      using 1(3) False by (auto simp: writen_loop.simps [of buf p nleft k] mem_read_def split: if_splits)
    obtain n e k1 where w: "sk_write ?bs k = (n, e, k1)" by (metis prod_cases3)
    note step = writen_loop.simps [of buf p nleft k] False rd w
    show ?thesis
    proof (cases "n \<le> 0")
      case True
      have "snd k1 = snd k" "n < 0 \<and> e = EINTR"
        using w True 1(3) by (auto simp: step sk_write_def split: list.splits write_res.splits prod.splits if_splits)
      then show ?thesis using 1(1) [OF False rd w [symmetric] refl True, of k'] 1(3) True by (simp add: step)
    next
      case pos: False
      have n: "nat n \<le> nleft" "snd k1 = snd k @ take (nat n) ?bs"
        using w pos len by (auto simp: sk_write_def split: list.splits write_res.splits prod.splits)
      have "snd k' = snd k1 @ take (nleft - nat n) (drop (p + nat n) buf)"
        using 1(2) [OF False rd w [symmetric] refl pos, of k'] 1(3) pos by (simp add: step)
      moreover have "take (nat n) ?bs @ take (nleft - nat n) (drop (p + nat n) buf) = ?bs"
      proof -
        have "drop (p + nat n) buf = drop (nat n) (drop p buf)" by (simp add: add.commute)
        then show ?thesis using append_take_drop_id [of "nat n" ?bs] n(1) by (simp add: drop_take)
      qed
      ultimately show ?thesis using n(2) by simp
    qed
  qed
qed

lemma Writen_sent:
  assumes "Writen buf n k = Inr (Returned (), k')"
  shows "snd k' = snd k @ take n buf"
proof -
  have "writen_loop buf 0 n k = Inr (True, k')"
    using assms by (auto simp: Writen_def writen_def bind_err_eq_Inr split: if_splits)
  then show ?thesis using writen_loop_sent [of buf 0 n k k'] by simp
qed

lemma writen_loop_total: "p + nleft \<le> length buf \<Longrightarrow> \<exists>r. writen_loop buf p nleft k = Inr r"
proof (induction buf p nleft k rule: writen_loop.induct)
  case (1 buf p nleft k)
  show ?case
  proof (cases "nleft = 0")
    case True then show ?thesis by (intro exI [of _ "(True, k)"]) (simp add: writen_loop.simps)
  next
    case False
    let ?bs = "take nleft (drop p buf)"
    have rd: "mem_read buf p nleft = Inr ?bs" using 1(3) by (simp add: mem_read_def)
    obtain n e k1 where w: "sk_write ?bs k = (n, e, k1)" by (metis prod_cases3)
    have n: "nat n \<le> nleft" using w by (auto simp: sk_write_def split: list.splits write_res.splits prod.splits)
    note IH = 1(1) [OF False rd w [symmetric] refl] 1(2) [OF False rd w [symmetric] refl]
    show ?thesis using IH n 1(3) False rd w by (cases "n \<le> 0") (auto simp: writen_loop.simps [of buf p nleft k])
  qed
qed

lemma Writen_total: "n \<le> length buf \<Longrightarrow> \<exists>r. Writen buf n k = Inr r"
  using writen_loop_total [of 0 n buf k] by (auto simp: Writen_def writen_def)

lemma on_stdin_ok:
  assumes "on_stdin r s = Inr f" "coherent s" "\<not> cc_stdineof s"
  shows "flow_ok s f"
proof (cases "read_bytes r")
  case None then show ?thesis using assms by (auto simp: on_stdin_def relayed_def coherent_def intro!: exI [of _ "[]"])
next
  case (Some bs)
  then obtain buf w k where b: "mem_write (cc_wbuf s) 0 bs = Inr buf" and w: "Writen buf (length bs) (cc_sink s) = Inr (w, k)"
    and f: "f = (case w of Exited c \<Rightarrow> CliExit (s\<lparr>cc_wbuf := buf, cc_in := cc_in s @ bs, cc_sink := k\<rparr>)
                        | Returned _ \<Rightarrow> CliRun (s\<lparr>cc_wbuf := buf, cc_in := cc_in s @ bs, cc_sink := k\<rparr>))"
    using assms(1) by (auto simp: on_stdin_def bind_err_eq_Inr)
  have t: "take (length bs) buf = bs" using mem_write_read [OF b] by (auto simp: mem_read_def split: if_splits)
  show ?thesis
  proof (cases w)
    case (Returned u)
    then show ?thesis using w f t mem_write_length [OF b] assms(2,3) Writen_sent [of buf "length bs" "cc_sink s" k]
      by (auto simp: relayed_def coherent_def intro!: exI [of _ "[]"])
  qed (simp add: f)
qed

lemma on_stdin_total: "coherent s \<Longrightarrow> \<exists>f. on_stdin r s = Inr f"
proof (cases "read_bytes r")
  case (Some bs)
  assume "coherent s"
  then have l: "length bs \<le> length (cc_wbuf s)" using read_bytes_le [OF Some] by (simp add: coherent_def)
  then obtain buf where b: "mem_write (cc_wbuf s) 0 bs = Inr buf" using mem_write_defined [of 0 bs "cc_wbuf s"] by auto
  then show ?thesis using Writen_total [of "length bs" buf "cc_sink s"] l mem_write_length [OF b] Some by (auto simp: on_stdin_def)
qed (simp add: on_stdin_def)

text \<open>The first half of a round.\<close>

lemma sock_first:
  assumes "(if ready then on_sock r wr s else Inr (CliRun s)) = Inr f1" "coherent s"
  shows "flow_ok s f1 \<and> (\<forall>s1. f1 = CliRun s1 \<longrightarrow> relayed s s1 \<and> cc_stdineof s1 = cc_stdineof s)"
proof (cases ready)
  case True
  then have o: "on_sock r wr s = Inr f1" using assms(1) by simp
  have "relayed s s1 \<and> cc_stdineof s1 = cc_stdineof s" if "f1 = CliRun s1" for s1
    using on_sock_ok [OF o assms(2)] on_sock_keeps o that by fastforce
  then show ?thesis using on_sock_ok [OF o assms(2)] by blast
next
  case False then show ?thesis using assms(1) relayed_refl [OF assms(2)] by auto
qed

lemma select_round_ok:
  assumes "select_round a s = Inr f" "coherent s" shows "flow_ok s f"
proof -
  obtain f1 where f1: "(if ca_sock a then on_sock (ca_read_sock a) (ca_write_out a) s else Inr (CliRun s)) = Inr f1"
    and f: "(case f1 of CliRun s1 \<Rightarrow> if ca_stdin a \<and> \<not> cc_stdineof s then on_stdin (ca_read_stdin a) s1 else Inr (CliRun s1) | _ \<Rightarrow> Inr f1) = Inr f"
    using assms(1) by (auto simp: select_round_def bind_err_eq_Inr)
  note ok = sock_first [OF f1 assms(2)]
  show ?thesis
  proof (cases f1)
    case (CliRun s1)
    then have r: "relayed s s1" and e: "cc_stdineof s1 = cc_stdineof s" using ok by auto
    show ?thesis using f CliRun r e on_stdin_ok [OF _ relayed_coherent [OF r], of "ca_read_stdin a" f]
      by (auto intro: flow_ok_trans split: if_splits)
  qed (use f ok in auto)
qed

lemma select_round_total: "coherent s \<Longrightarrow> \<exists>f. select_round a s = Inr f"
proof -
  assume c: "coherent s"
  then obtain f1 where f1: "(if ca_sock a then on_sock (ca_read_sock a) (ca_write_out a) s else Inr (CliRun s)) = Inr f1"
    using on_sock_total [OF c] by (metis (full_types))
  show ?thesis
  proof (cases f1)
    case (CliRun s1)
    then have "coherent s1" using sock_first [OF f1 c] relayed_coherent by blast
    then show ?thesis using on_stdin_total [of s1 "ca_read_stdin a"] f1 CliRun by (auto simp: select_round_def)
  qed (use f1 in \<open>simp_all add: select_round_def\<close>)
qed

text \<open>On the states that occur, \<open>select\<close> and \<open>poll\<close> behave alike.\<close>

lemma poll_round_eq: "coherent s \<Longrightarrow> poll_round a s = select_round a s"
  unfolding poll_round_def select_round_def coherent_def by (elim conjE) (simp only:)

lemma epoll_round_ok:
  "epoll_round es s = Inr f \<Longrightarrow> coherent s \<Longrightarrow> epoll_reports es s \<Longrightarrow> flow_ok s f"
proof (induction es s rule: epoll_round.induct)
  case (1 s) then show ?case by (auto intro: relayed_refl)
next
  case (2 sock r wr es s)
  obtain f1 where f1: "(if sock then on_sock r wr s else on_stdin r s) = Inr f1"
    and f: "(case f1 of CliRun s1 \<Rightarrow> epoll_round es s1 | _ \<Rightarrow> Inr f1) = Inr f"
    using 2(2) by (auto simp: bind_err_eq_Inr)
  have eof: "\<not> sock \<Longrightarrow> \<not> cc_stdineof s" using 2(3,4) by (auto simp: epoll_reports_def coherent_def split: if_splits)
  have ok: "flow_ok s f1"
    using f1 on_sock_ok [OF _ 2(3), of r wr f1] on_stdin_ok [of r s f1] 2(3) eof by (cases sock) auto
  show ?case
  proof (cases f1)
    case (CliRun s1)
    have r: "relayed s s1" using ok CliRun by simp
    have "epoll_reports es s1"
      using 2(3,4) f1 CliRun on_sock_keeps [of r wr s s1] relayed_coherent [OF r]
      by (cases sock) (auto simp: epoll_reports_def coherent_def split: if_splits)
    then show ?thesis using 2(1) [OF f1 CliRun] f CliRun relayed_coherent [OF r] r by (auto intro: flow_ok_trans)
  qed (use f ok in auto)
qed

definition client_started :: "client_state \<Rightarrow> bool" where
  "client_started s \<longleftrightarrow> (\<exists>wbuf rbuf ws. length wbuf = BUFFER_LENGTH \<and> length rbuf = BUFFER_LENGTH \<and> s = client_new wbuf rbuf ws)"

lemma client_started_relays:
  "client_started s \<Longrightarrow> coherent s \<and> cc_in s = [] \<and> snd (cc_sink s) = [] \<and> cc_got s = [] \<and> cc_log s = []"
  by (auto simp: client_started_def client_new_def coherent_def)

lemma relayedD:
  "relayed s s' \<Longrightarrow> \<exists>a l. cc_in s' = cc_in s @ a \<and> snd (cc_sink s') = snd (cc_sink s) @ a \<and>
     cc_got s' = cc_got s @ offered STDOUT l \<and> cc_log s' = cc_log s @ l"
  by (simp add: relayed_def)

lemma select_cstep_relayed: "coherent s \<Longrightarrow> select_cstep s s' \<Longrightarrow> relayed s s'"
  by (auto simp: select_cstep_def dest: select_round_ok)

lemma poll_cstep_relayed: "coherent s \<Longrightarrow> poll_cstep s s' \<Longrightarrow> relayed s s'"
  by (auto simp: poll_cstep_def poll_round_eq dest: select_round_ok)

lemma epoll_cstep_relayed: "coherent s \<Longrightarrow> epoll_cstep s s' \<Longrightarrow> relayed s s'"
  by (auto simp: epoll_cstep_def dest: epoll_round_ok)

interpretation sc: relay_client client_started select_cstep coherent cc_in "\<lambda>s. snd (cc_sink s)" cc_got cc_log
  by unfold_locales (fact client_started_relays,
    blast dest: select_cstep_relayed relayed_coherent, blast dest: select_cstep_relayed relayedD)

interpretation pc: relay_client client_started poll_cstep coherent cc_in "\<lambda>s. snd (cc_sink s)" cc_got cc_log
  by unfold_locales (fact client_started_relays,
    blast dest: poll_cstep_relayed relayed_coherent, blast dest: poll_cstep_relayed relayedD)

interpretation ec: relay_client client_started epoll_cstep coherent cc_in "\<lambda>s. snd (cc_sink s)" cc_got cc_log
  by unfold_locales (fact client_started_relays,
    blast dest: epoll_cstep_relayed relayed_coherent, blast dest: epoll_cstep_relayed relayedD)

lemma flow_ok_return:
  assumes "flow_ok s (CliReturn t)" "snd (cc_sink s) = cc_in s" "offered STDOUT (cc_log s) = cc_got s"
  shows "cc_shutdown t \<and> snd (cc_sink t) = cc_in t \<and> offered STDOUT (cc_log t) = cc_got t"
  using assms by (auto simp: relayed_def)

text \<open>
  C33. In every state one of the three clients reaches, whatever \<open>read\<close> and \<open>write\<close> answer, the connection has been sent
  exactly what was read from the standard input, and the bytes passed to \<open>write\<close> for the standard output are
  exactly those read from the connection; the standard output has taken them all exactly when none of these writes was short
  or failed, since the clients ignore the result. The sending side is shut down exactly when the
  standard input has ended; the client returns only after that, with everything passed on. No round leaves a buffer. On
  these states the rounds with \<open>select\<close> and \<open>poll\<close> are the same function.
\<close>

theorem echo_clients_relay:
  assumes "reachable client_started select_cstep s \<or> reachable client_started poll_cstep s \<or> reachable client_started epoll_cstep s"
  shows "snd (cc_sink s) = cc_in s \<and> offered STDOUT (cc_log s) = cc_got s \<and>
    (written STDOUT (cc_log s) = cc_got s \<longleftrightarrow> complete STDOUT (cc_log s)) \<and> (cc_shutdown s \<longleftrightarrow> cc_stdineof s) \<and>
    (\<exists>f. select_round a s = Inr f) \<and> poll_round a s = select_round a s \<and>
    (select_round a s = Inr (CliReturn t) \<or> epoll_reports es s \<and> epoll_round es s = Inr (CliReturn t) \<longrightarrow>
       cc_shutdown t \<and> snd (cc_sink t) = cc_in t \<and> offered STDOUT (cc_log t) = cc_got t)"
proof -
  have s: "coherent s" "snd (cc_sink s) = cc_in s" "offered STDOUT (cc_log s) = cc_got s"
    using assms sc.relays pc.relays ec.relays by blast+
  have "cc_shutdown t \<and> snd (cc_sink t) = cc_in t \<and> offered STDOUT (cc_log t) = cc_got t"
    if "select_round a s = Inr (CliReturn t) \<or> epoll_reports es s \<and> epoll_round es s = Inr (CliReturn t)"
    using that s(1) flow_ok_return [OF _ s(2,3)] select_round_ok epoll_round_ok by blast
  then show ?thesis using s poll_round_eq [OF s(1), of a] select_round_total [OF s(1), of a] written_iff_complete [of STDOUT "cc_log s"]
    by (auto simp: coherent_def)
qed

text \<open>A run with two bytes in each direction, of which the standard output takes one, up to the end of the input.\<close>

definition client_demo :: client_state where
  "client_demo = \<lparr>cc_stdineof = True, cc_reg = False, cc_shutdown = True, cc_in = [104, 105], cc_sink = ([], [104, 105]),
     cc_got = [104, 105], cc_wbuf = hi_buffer, cc_rbuf = hi_buffer, cc_log = [Wr STDOUT [104, 105] 1]\<rparr>"

lemma select_reach:
  "reachable client_started select_cstep s \<Longrightarrow> select_round a s = Inr (CliRun s') \<Longrightarrow> reachable client_started select_cstep s'"
  by (rule reach_step) (auto simp: select_cstep_def)

lemma hi_buffer_write: "mem_write zero_buffer 0 [104, 105] = Inr hi_buffer" "mem_read hi_buffer 0 2 = Inr [104, 105]"
  by (simp_all add: mem_write_def mem_read_def hi_buffer_def BUFFER_LENGTH_def numeral_2_eq_2)

lemma hi_buffer_Writen: "Writen hi_buffer 2 ([], []) = Inr (Returned (), ([], [104, 105]))"
  by (simp add: Writen_def writen_def writen_loop.simps hi_buffer_write(2) sk_write_def)

lemma client_demo_reached: "reachable client_started select_cstep client_demo"
proof -
  let ?s0 = "client_new zero_buffer zero_buffer []"
  let ?s1 = "?s0\<lparr>cc_wbuf := hi_buffer, cc_in := [104, 105], cc_sink := ([], [104, 105])\<rparr>"
  let ?s2 = "?s1\<lparr>cc_rbuf := hi_buffer, cc_got := [104, 105], cc_log := [Wr STDOUT [104, 105] 1]\<rparr>"
  have "reachable client_started select_cstep ?s0"
    by (rule reach_init) (auto simp: client_started_def intro!: exI [of _ zero_buffer])
  moreover have "select_round \<lparr>ca_sock = False, ca_stdin = True, ca_read_sock = RecvBytes [], ca_read_stdin = RecvBytes [104, 105], ca_write_out = 0\<rparr>
      ?s0 = Inr (CliRun ?s1)"
    using hi_buffer_write(1) hi_buffer_Writen by (simp add: select_round_def on_stdin_def read_hi client_new_def numeral_2_eq_2)
  moreover have "select_round \<lparr>ca_sock = True, ca_stdin = False, ca_read_sock = RecvBytes [104, 105], ca_read_stdin = RecvBytes [], ca_write_out = 1\<rparr>
      ?s1 = Inr (CliRun ?s2)"
    using hi_buffer_write by (simp add: select_round_def on_sock_def read_hi client_new_def numeral_2_eq_2)
  moreover have "select_round \<lparr>ca_sock = False, ca_stdin = True, ca_read_sock = RecvBytes [], ca_read_stdin = RecvBytes [], ca_write_out = 0\<rparr>
      ?s2 = Inr (CliRun client_demo)"
    by (simp add: select_round_def on_stdin_def read_bytes_def client_new_def client_demo_def)
  ultimately show ?thesis by (blast intro: select_reach)
qed

theorem echo_clients_relay_witness:
  "select_round \<lparr>ca_sock = True, ca_stdin = False, ca_read_sock = RecvBytes [], ca_read_stdin = RecvBytes [], ca_write_out = 0\<rparr> client_demo
     = Inr (CliReturn client_demo) \<and> snd (cc_sink client_demo) = cc_in client_demo \<and> cc_in client_demo = [104, 105] \<and> cc_shutdown client_demo \<and>
   offered STDOUT (cc_log client_demo) = cc_got client_demo \<and> written STDOUT (cc_log client_demo) = [104]"
  using echo_clients_relay [of client_demo
      "\<lparr>ca_sock = True, ca_stdin = False, ca_read_sock = RecvBytes [], ca_read_stdin = RecvBytes [], ca_write_out = 0\<rparr>"
      client_demo "[]"] client_demo_reached
  by (simp add: select_round_def on_sock_def read_bytes_def client_demo_def)

end
