(* ===== verification/ConnServers.thy ===== *)
theory ConnServers
  imports StreamIO Monitor "HOL-Library.Multiset"
begin

text \<open>
  The servers of \<open>src/network/echo/\<close> with a thread (\<open>d1_multi_thread_echo_server.cpp\<close>) and with a
  process (\<open>d2_multi_process_echo_server.cpp\<close>) per connection. The scheduler chooses among the
  steps of \<open>main\<close>, of the threads or child processes, and the delivery of signals.
\<close>

datatype accept_res = AcceptFd int | AcceptError int

section \<open>A thread per connection\<close>

text \<open>
  \<open>mt_cell\<close> is the variable \<open>clientfd\<close> of the loop, one stack slot for all rounds, whose address
  every thread gets. \<open>mt_created\<close> threads exist that have not read it yet; \<open>mt_serving\<close> are the
  descriptors the others read and write, \<open>mt_closed\<close> those that threads have closed.
\<close>

record mt_state =
  mt_cell :: int
  mt_accepted :: "int list"
  mt_dropped :: "int list"
  mt_created :: nat
  mt_serving :: "int list"
  mt_closed :: "int list"

definition mt_new :: mt_state where
  "mt_new = \<lparr>mt_cell = 0, mt_accepted = [], mt_dropped = [], mt_created = 0, mt_serving = [], mt_closed = []\<rparr>"

definition mt_setup :: "int \<Rightarrow> int \<Rightarrow> int + mt_state" where
  "mt_setup listenfd bound = (if listenfd = -1 then Inl (-1) else if bound = -1 then Inl (-2) else Inr mt_new)"

text \<open>One round of \<open>main\<close>; the result of \<open>pthread_create\<close> is ignored by the code.\<close>

definition mt_accept :: "accept_res \<Rightarrow> bool \<Rightarrow> mt_state \<Rightarrow> mt_state exitable" where
  "mt_accept a created s =
     (case a of
        AcceptError e \<Rightarrow> if e = EINTR then Returned (s\<lparr>mt_cell := -1\<rparr>) else Exited 1
      | AcceptFd fd \<Rightarrow>
          let s1 = s\<lparr>mt_cell := fd, mt_accepted := mt_accepted s @ [fd]\<rparr> in
          Returned (if created then s1\<lparr>mt_created := mt_created s1 + 1\<rparr> else s1\<lparr>mt_dropped := mt_dropped s1 @ [fd]\<rparr>))"

text \<open>A thread starts: \<open>int clientfd = *(int *) args\<close>.\<close>

definition mt_start :: "mt_state \<Rightarrow> mt_state option" where
  "mt_start s =
     (if mt_created s = 0 then None
      else Some (s\<lparr>mt_created := mt_created s - 1, mt_serving := mt_serving s @ [mt_cell s]\<rparr>))"

text \<open>The echo loop of thread \<open>i\<close> (\<open>thread_str_echo\<close>) has ended: it closes its descriptor.\<close>

definition mt_finish :: "nat \<Rightarrow> mt_state \<Rightarrow> mt_state option" where
  "mt_finish i s =
     (if i < length (mt_serving s)
      then Some (s\<lparr>mt_serving := take i (mt_serving s) @ drop (Suc i) (mt_serving s), mt_closed := mt_closed s @ [mt_serving s ! i]\<rparr>)
      else None)"

inductive mt_step :: "mt_state \<Rightarrow> mt_state \<Rightarrow> bool" where
  mt_accepts: "mt_accept a c s = Returned s' \<Longrightarrow> mt_step s s'"
| mt_starts: "mt_start s = Some s' \<Longrightarrow> mt_step s s'"
| mt_finishes: "mt_finish i s = Some s' \<Longrightarrow> mt_step s s'"

inductive_cases mt_stepE: "mt_step s s'"

text \<open>The schedules in which \<open>main\<close> stores a new value only after every thread has read its own.\<close>

definition mt_prompt_step :: "mt_state \<Rightarrow> mt_state \<Rightarrow> bool" where
  "mt_prompt_step s s' \<longleftrightarrow> mt_step s s' \<and> (mt_cell s' \<noteq> mt_cell s \<or> mt_accepted s' \<noteq> mt_accepted s \<longrightarrow> mt_created s = 0)"

definition mt_init :: "mt_state \<Rightarrow> bool" where
  "mt_init s \<longleftrightarrow> s = mt_new"

definition mt_waiting :: "mt_state \<Rightarrow> int list" where
  "mt_waiting s = replicate (mt_created s) (mt_cell s)"

definition mt_balanced :: "mt_state \<Rightarrow> bool" where
  "mt_balanced s \<longleftrightarrow> mt_created s \<le> 1 \<and>
     mset (mt_accepted s) = mset (mt_dropped s) + mset (mt_waiting s) + mset (mt_serving s) + mset (mt_closed s)"

lemma mset_take_nth_drop: "i < length xs \<Longrightarrow> mset xs = mset (take i xs @ drop (Suc i) xs) + {#xs ! i#}"
  using id_take_nth_drop [of i xs] by (metis (no_types, lifting) add_mset_add_single mset.simps(2) mset_append union_mset_add_mset_right)

lemma mt_balanced_step: "mt_balanced s \<Longrightarrow> mt_prompt_step s s' \<Longrightarrow> mt_balanced s'"
proof -
  assume b: "mt_balanced s" and st: "mt_prompt_step s s'"
  have "mt_step s s'" using st by (simp add: mt_prompt_step_def)
  then show ?thesis
  proof (cases rule: mt_step.cases)
    case (mt_accepts a c)
    then show ?thesis using b st
      by (cases "mt_created s")
        (auto simp: mt_accept_def mt_balanced_def mt_waiting_def mt_prompt_step_def Let_def split: accept_res.splits if_splits)
  next
    case mt_starts
    then have "mt_created s = 1" "s' = s\<lparr>mt_created := 0, mt_serving := mt_serving s @ [mt_cell s]\<rparr>"
      using b by (auto simp: mt_start_def mt_balanced_def split: if_splits)
    then show ?thesis using b by (simp add: mt_balanced_def mt_waiting_def)
  next
    case (mt_finishes i)
    then have i: "i < length (mt_serving s)" by (auto simp: mt_finish_def split: if_splits)
    then show ?thesis using mt_finishes b mset_take_nth_drop [OF i]
      by (auto simp: mt_finish_def mt_balanced_def mt_waiting_def)
  qed
qed

lemma mt_prompt_balanced: "reachable mt_init mt_prompt_step s \<Longrightarrow> mt_balanced s"
proof (erule reachable_invariant)
  show "mt_balanced s" if "mt_init s" for s
    using that by (simp add: mt_init_def mt_new_def mt_balanced_def mt_waiting_def)
qed (rule mt_balanced_step)

text \<open>
  C34. If every thread of the multi-threaded server reads its argument before \<open>main\<close> accepts
  again, each accepted connection is served by exactly one thread, was closed by it once, or was
  dropped because no thread could be created. The code does not wait for that: after two
  connections in quick succession both threads can serve the second one and none the first.
\<close>

theorem thread_server_shared_cell:
  "(reachable mt_init mt_prompt_step s \<and> mt_created s = 0 \<longrightarrow>
      mset (mt_accepted s) = mset (mt_dropped s) + mset (mt_serving s) + mset (mt_closed s)) \<and>
   (\<exists>t. reachable mt_init mt_step t \<and> mt_created t = 0 \<and> mt_accepted t = [fd, fd'] \<and> mt_serving t = [fd', fd'] \<and> mt_dropped t = [])"
proof -
  have one: "mset (mt_accepted s) = mset (mt_dropped s) + mset (mt_serving s) + mset (mt_closed s)"
    if "reachable mt_init mt_prompt_step s" "mt_created s = 0"
    using mt_prompt_balanced [OF that(1)] that(2) by (simp add: mt_balanced_def mt_waiting_def)
  let ?s1 = "mt_new\<lparr>mt_cell := fd, mt_accepted := [fd], mt_created := 1\<rparr>"
  let ?s2 = "mt_new\<lparr>mt_cell := fd', mt_accepted := [fd, fd'], mt_created := 2\<rparr>"
  let ?s3 = "?s2\<lparr>mt_created := 1, mt_serving := [fd']\<rparr>" and ?s4 = "?s2\<lparr>mt_created := 0, mt_serving := [fd', fd']\<rparr>"
  have "mt_step mt_new ?s1" "mt_step ?s1 ?s2"
    by (rule mt_accepts [of "AcceptFd fd" True] mt_accepts [of "AcceptFd fd'" True], simp add: mt_accept_def mt_new_def)+
  moreover have "mt_step ?s2 ?s3" "mt_step ?s3 ?s4"
    by (rule mt_starts, simp add: mt_start_def mt_new_def)+
  moreover have "reachable mt_init mt_step mt_new" by (rule reach_init) (simp add: mt_init_def)
  ultimately have "reachable mt_init mt_step ?s4" by (blast intro: reach_step)
  then have "\<exists>t. reachable mt_init mt_step t \<and> mt_created t = 0 \<and> mt_accepted t = [fd, fd'] \<and> mt_serving t = [fd', fd'] \<and> mt_dropped t = []"
    by (intro exI [of _ ?s4]) (simp add: mt_new_def)
  then show ?thesis using one by blast
qed

lemma mt_new_reached: "reachable mt_init mt_prompt_step mt_new"
  by (rule reach_init) (simp add: mt_init_def)

theorem thread_server_shared_cell_witness:
  "mset (mt_accepted mt_new) = mset (mt_dropped mt_new) + mset (mt_serving mt_new) + mset (mt_closed mt_new) \<and>
   (\<exists>t. reachable mt_init mt_step t \<and> mt_accepted t = [4, 5] \<and> mt_serving t = [5, 5])"
  using thread_server_shared_cell [of mt_new 4 5] mt_new_reached by (auto simp: mt_new_def)

section \<open>A process per connection\<close>

text \<open>
  A connection is its descriptor, what the client sends on it and how much the writes take. A
  child process serves one connection with \<open>str_echo\<close> of the library: of the two functions of this
  name in scope, the call with an \<open>int\<close> resolves to it. \<open>mp_sigchld\<close> says that a \<open>SIGCHLD\<close> is
  pending; the signals of several children are merged into one.
\<close>

record conn =
  cn_fd :: int
  cn_chan :: chan
  cn_writes :: "write_res list"

record child =
  ch_pid :: int
  ch_conn :: conn

record mp_state =
  mp_open :: "int list"           \<comment> \<open>connections the parent has open\<close>
  mp_accepted :: "conn list"
  mp_dropped :: "conn list"
  mp_children :: "child list"
  mp_zombies :: "int list"
  mp_reaped :: "int list"         \<comment> \<open>the pids printed by the handler\<close>
  mp_sigchld :: bool
  mp_done :: "(conn \<times> bytes) list" \<comment> \<open>ended connections with what was sent on them\<close>

definition mp_new :: mp_state where
  "mp_new = \<lparr>mp_open = [], mp_accepted = [], mp_dropped = [], mp_children = [], mp_zombies = [], mp_reaped = [],
     mp_sigchld = False, mp_done = []\<rparr>"

definition mp_setup :: "int \<Rightarrow> int \<Rightarrow> int + mp_state" where
  "mp_setup listenfd bound = (if listenfd = -1 then Inl (-1) else if bound = -1 then Inl (-2) else Inr mp_new)"

definition close_fd :: "int \<Rightarrow> mp_state \<Rightarrow> mp_state" where
  "close_fd fd s = s\<lparr>mp_open := remove1 fd (mp_open s)\<rparr>"

text \<open>
  One round of \<open>main\<close>: \<open>Inl\<close> an error number of \<open>accept\<close>, and the answer of \<open>fork\<close>. The parent
  closes the connection whether there is a child or not.
\<close>

definition mp_fork :: "conn \<Rightarrow> int \<Rightarrow> mp_state \<Rightarrow> mp_state" where
  "mp_fork c pid s =
     (let s1 = s\<lparr>mp_open := mp_open s @ [cn_fd c], mp_accepted := mp_accepted s @ [c]\<rparr>;
          s2 = (if pid > 0 then s1\<lparr>mp_children := mp_children s1 @ [\<lparr>ch_pid = pid, ch_conn = c\<rparr>]\<rparr>
                else s1\<lparr>mp_dropped := mp_dropped s1 @ [c]\<rparr>)
      in close_fd (cn_fd c) s2)"

definition mp_accept :: "int + conn \<Rightarrow> int \<Rightarrow> mp_state \<Rightarrow> mp_state exitable" where
  "mp_accept a pid s =
     (case a of
        Inl e \<Rightarrow> if e = EINTR then Returned s else Exited 1
      | Inr c \<Rightarrow> Returned (mp_fork c pid s))"

text \<open>A child process: it serves its connection to the end and exits.\<close>

definition mp_child :: "nat \<Rightarrow> mp_state \<Rightarrow> mp_state c_res option" where
  "mp_child i s =
     (if i < length (mp_children s) then
        let p = mp_children s ! i in
        Some (bind_err (str_echo (cn_chan (ch_conn p)) (cn_writes (ch_conn p), [])) (\<lambda>(r, ch, k).
          Inr (s\<lparr>mp_children := take i (mp_children s) @ drop (Suc i) (mp_children s), mp_zombies := mp_zombies s @ [ch_pid p],
                 mp_sigchld := True, mp_done := mp_done s @ [(ch_conn p, snd k)]\<rparr>)))
      else None)"

text \<open>\<open>waitpid\<close> with \<open>WNOHANG\<close>: a child that has exited, 0 when there are only running ones, -1 when there is none.\<close>

definition waitpid_nohang :: "mp_state \<Rightarrow> int \<times> mp_state" where
  "waitpid_nohang s =
     (case mp_zombies s of
        z # zs \<Rightarrow> (z, s\<lparr>mp_zombies := zs\<rparr>)
      | [] \<Rightarrow> (if mp_children s = [] then -1 else 0, s))"

function sig_chld :: "mp_state \<Rightarrow> mp_state" where
  "sig_chld s =
     (case waitpid_nohang s of (pid, s1) \<Rightarrow>
        if pid > 0 then sig_chld (s1\<lparr>mp_reaped := mp_reaped s1 @ [pid]\<rparr>) else s1)"
  by pat_completeness auto
termination
  by (relation "measure (\<lambda>s. length (mp_zombies s))") (auto simp: waitpid_nohang_def split: list.splits if_splits)

declare sig_chld.simps [simp del]

text \<open>The delivery of the pending signal.\<close>

definition mp_deliver :: "mp_state \<Rightarrow> mp_state option" where
  "mp_deliver s = (if mp_sigchld s then Some (sig_chld (s\<lparr>mp_sigchld := False\<rparr>)) else None)"

inductive mp_step :: "mp_state \<Rightarrow> mp_state \<Rightarrow> bool" where
  mp_accepts: "mp_accept a pid s = Returned s' \<Longrightarrow> mp_step s s'"
| mp_exits: "mp_child i s = Some (Inr s') \<Longrightarrow> mp_step s s'"
| mp_delivers: "mp_deliver s = Some s' \<Longrightarrow> mp_step s s'"

definition mp_init :: "mp_state \<Rightarrow> bool" where
  "mp_init s \<longleftrightarrow> s = mp_new"

text \<open>One call of the handler reaps every child that has exited.\<close>

lemma sig_chld_reaps:
  "mp_zombies s = zs \<Longrightarrow> \<forall>z\<in>set zs. 0 < z \<Longrightarrow> sig_chld s = s\<lparr>mp_reaped := mp_reaped s @ zs, mp_zombies := []\<rparr>"
proof (induction zs arbitrary: s)
  case Nil
  have "s\<lparr>mp_reaped := mp_reaped s, mp_zombies := []\<rparr> = s" using Nil(1) by (cases s) simp
  then show ?case using Nil(1) by (subst sig_chld.simps) (simp add: waitpid_nohang_def)
next
  case (Cons z zs)
  let ?s1 = "s\<lparr>mp_zombies := zs, mp_reaped := mp_reaped s @ [z]\<rparr>"
  have "sig_chld s = sig_chld ?s1" using Cons(2,3) by (subst sig_chld.simps) (simp add: waitpid_nohang_def)
  also have "\<dots> = ?s1\<lparr>mp_reaped := mp_reaped ?s1 @ zs, mp_zombies := []\<rparr>" using Cons(1) [of ?s1] Cons(3) by simp
  finally show ?case by simp
qed

definition mp_inv :: "mp_state \<Rightarrow> bool" where
  "mp_inv s \<longleftrightarrow> mp_open s = [] \<and> (mp_zombies s \<noteq> [] \<longrightarrow> mp_sigchld s) \<and>
     (\<forall>z\<in>set (mp_zombies s) \<union> ch_pid ` set (mp_children s). 0 < z) \<and>
     mset (mp_accepted s) = mset (mp_dropped s) + mset (map ch_conn (mp_children s)) + mset (map fst (mp_done s)) \<and>
     length (mp_done s) = length (mp_zombies s) + length (mp_reaped s) \<and>
     (\<forall>(c, out)\<in>set (mp_done s). chan_ok (cn_chan c) \<and> sink_ok (cn_writes c, []) \<longrightarrow> out = chan_data (cn_chan c))"

lemma mp_inv_fork: "mp_inv s \<Longrightarrow> mp_inv (mp_fork c pid s)"
  by (auto simp: mp_inv_def mp_fork_def close_fd_def Let_def)

lemma mp_inv_accept: "mp_inv s \<Longrightarrow> mp_accept a pid s = Returned s' \<Longrightarrow> mp_inv s'"
  by (auto simp: mp_accept_def intro: mp_inv_fork split: sum.splits if_splits)

lemma mp_inv_deliver:
  assumes "mp_inv s" "mp_deliver s = Some s'" shows "mp_inv s'"
proof -
  have "s' = sig_chld (s\<lparr>mp_sigchld := False\<rparr>)" using assms(2) by (simp add: mp_deliver_def split: if_splits)
  also have "\<dots> = s\<lparr>mp_sigchld := False, mp_reaped := mp_reaped s @ mp_zombies s, mp_zombies := []\<rparr>"
    using sig_chld_reaps [of "s\<lparr>mp_sigchld := False\<rparr>" "mp_zombies s"] assms(1) by (simp add: mp_inv_def)
  finally show ?thesis using assms(1) by (simp add: mp_inv_def)
qed

lemma mp_inv_child:
  assumes "mp_inv s" "mp_child i s = Some (Inr s')" shows "mp_inv s'"
proof -
  let ?p = "mp_children s ! i" and ?cs = "take i (mp_children s) @ drop (Suc i) (mp_children s)"
  let ?c = "ch_conn ?p"
  have i: "i < length (mp_children s)" using assms(2) by (auto simp: mp_child_def split: if_splits)
  obtain r ch k where e: "str_echo (cn_chan ?c) (cn_writes ?c, []) = Inr (r, ch, k)"
    and s': "s' = s\<lparr>mp_children := ?cs, mp_zombies := mp_zombies s @ [ch_pid ?p], mp_sigchld := True, mp_done := mp_done s @ [(?c, snd k)]\<rparr>"
    using assms(2) i by (auto simp: mp_child_def Let_def bind_err_eq_Inr)
  have out: "snd k = chan_data (cn_chan ?c)" if "chan_ok (cn_chan ?c)" "sink_ok (cn_writes ?c, [])"
    using str_echo_ok [OF that] e by auto
  have p: "?p \<in> set (mp_children s)" "set ?cs \<subseteq> set (mp_children s)"
    using i by (auto dest: in_set_takeD in_set_dropD)
  have m: "mset (map ch_conn (mp_children s)) = mset (map ch_conn ?cs) + {#?c#}"
    using mset_take_nth_drop [OF i] by (metis mset_map image_mset_union image_mset_single)
  show ?thesis unfolding mp_inv_def
  proof (intro conjI)
    show "\<forall>z\<in>set (mp_zombies s') \<union> ch_pid ` set (mp_children s'). 0 < z"
      using assms(1) p by (auto simp: s' mp_inv_def)
    show "mset (mp_accepted s') = mset (mp_dropped s') + mset (map ch_conn (mp_children s')) + mset (map fst (mp_done s'))"
      using assms(1) m by (simp add: s' mp_inv_def)
    show "\<forall>(c, out)\<in>set (mp_done s'). chan_ok (cn_chan c) \<and> sink_ok (cn_writes c, []) \<longrightarrow> out = chan_data (cn_chan c)"
      using assms(1) out by (auto simp: s' mp_inv_def)
  qed (use assms(1) in \<open>auto simp: s' mp_inv_def\<close>)
qed

lemma mp_reachable_inv: "reachable mp_init mp_step s \<Longrightarrow> mp_inv s"
proof (erule reachable_invariant)
  show "mp_inv s" if "mp_init s" for s using that by (simp add: mp_init_def mp_new_def mp_inv_def)
  show "mp_inv s'" if "mp_inv s" "mp_step s s'" for s s'
    using that(2,1) by cases (blast intro: mp_inv_accept mp_inv_child mp_inv_deliver)+
qed

text \<open>
  C35. In every reachable state of the multi-process server the parent has no connection open,
  every accepted connection is with exactly one child, has ended, or was dropped because \<open>fork\<close>
  failed; on an ended connection without errors exactly the received bytes were sent back. One
  call of \<open>sig_chld\<close> reaps every child that has exited, so that no zombie stays behind when no
  signal is pending, although the signals of several children are merged.
\<close>

theorem process_server_correct:
  assumes "reachable mp_init mp_step s"
  shows "mp_open s = [] \<and>
    mset (mp_accepted s) = mset (mp_dropped s) + mset (map ch_conn (mp_children s)) + mset (map fst (mp_done s)) \<and>
    ((c, out) \<in> set (mp_done s) \<and> chan_ok (cn_chan c) \<and> sink_ok (cn_writes c, []) \<longrightarrow> out = chan_data (cn_chan c)) \<and>
    mp_zombies (sig_chld s) = [] \<and> mp_reaped (sig_chld s) = mp_reaped s @ mp_zombies s \<and>
    (\<not> mp_sigchld s \<longrightarrow> mp_zombies s = [] \<and> length (mp_reaped s) = length (mp_done s))"
proof -
  have inv: "mp_inv s" by (rule mp_reachable_inv [OF assms])
  then have "sig_chld s = s\<lparr>mp_reaped := mp_reaped s @ mp_zombies s, mp_zombies := []\<rparr>"
    by (intro sig_chld_reaps) (auto simp: mp_inv_def)
  then show ?thesis using inv by (auto simp: mp_inv_def)
qed

definition mp_demo_conn :: conn where
  "mp_demo_conn = \<lparr>cn_fd = 4, cn_chan = [], cn_writes = []\<rparr>"

definition mp_demo :: mp_state where
  "mp_demo = mp_new\<lparr>mp_accepted := [mp_demo_conn], mp_zombies := [77], mp_sigchld := True, mp_done := [(mp_demo_conn, [])]\<rparr>"

lemma mp_demo_reached: "reachable mp_init mp_step mp_demo"
proof -
  let ?s1 = "mp_new\<lparr>mp_accepted := [mp_demo_conn], mp_children := [\<lparr>ch_pid = 77, ch_conn = mp_demo_conn\<rparr>]\<rparr>"
  have "reachable mp_init mp_step mp_new" by (rule reach_init) (simp add: mp_init_def)
  moreover have "mp_step mp_new ?s1"
    by (rule mp_accepts [of "Inr mp_demo_conn" 77]) (simp add: mp_accept_def mp_fork_def close_fd_def mp_new_def)
  moreover have "mp_step ?s1 mp_demo"
    by (rule mp_exits [of 0]) (simp add: mp_child_def mp_demo_def mp_demo_conn_def mp_new_def str_echo.simps)
  ultimately show ?thesis by (blast intro: reach_step)
qed

theorem process_server_correct_witness:
  "mp_zombies mp_demo = [77] \<and> mp_zombies (sig_chld mp_demo) = [] \<and> mp_reaped (sig_chld mp_demo) = [77] \<and> mp_open mp_demo = []"
  using process_server_correct [OF mp_demo_reached, of mp_demo_conn "[]"] by (simp add: mp_demo_def mp_new_def)

end
