(* ===== verification/UdpEcho.thy ===== *)
theory UdpEcho
  imports ConnServers
begin

text \<open>
  The programs of \<open>src/network/udp/\<close>: the datagram echo server and client
  (\<open>d6_udp_echo_server.cpp\<close>, \<open>d6_udp_echo_client.cpp\<close>) and the server for both protocols
  (\<open>d7_udp_tcp_select_echo_server.cpp\<close>), with the wrappers of \<open>wrapsock.c\<close> and \<open>wrapunix.c\<close> they call.
  Addresses are only passed on, so their type is a parameter.
\<close>

section \<open>Wrappers\<close>

datatype 'a dg_res = DgFrom 'a bytes | DgError int

text \<open>\<open>recvfrom\<close> cuts a datagram that is longer than the buffer.\<close>

definition Recvfrom :: "nat \<Rightarrow> 'a dg_res \<Rightarrow> ('a \<times> bytes) exitable" where
  "Recvfrom nbytes r = (case r of DgError e \<Rightarrow> Exited 1 | DgFrom a bs \<Rightarrow> Returned (a, take nbytes bs))"

definition Sendto :: "nat \<Rightarrow> int \<Rightarrow> unit exitable" where
  "Sendto nbytes sent = (if sent \<noteq> int nbytes then Exited 1 else Returned ())"

definition EPROTO :: int where "EPROTO = 71"
definition ECONNABORTED :: int where "ECONNABORTED = 103"

text \<open>\<open>Accept\<close> over the answers of \<open>accept\<close>; \<open>None\<close> when it waits for a further connection.\<close>

fun Accept :: "(int + 'c) list \<Rightarrow> 'c exitable option" where
  "Accept [] = None"
| "Accept (Inl e # as) = (if e = EPROTO \<or> e = ECONNABORTED then Accept as else Some (Exited 1))"
| "Accept (Inr c # as) = Some (Returned c)"

definition Fork :: "int \<Rightarrow> int exitable" where
  "Fork pid = (if pid = -1 then Exited 1 else Returned pid)"

section \<open>The datagram server\<close>

text \<open>
  The loop over the answers of the kernel, each a datagram or an error and the number of bytes
  \<open>sendto\<close> reports; \<open>Returned\<close> means that the server waits for the next datagram. The log has the
  datagrams sent.
\<close>

fun dg_echo :: "bytes \<Rightarrow> ('a dg_res \<times> int) list \<Rightarrow> ('a \<times> bytes) list \<Rightarrow> (unit exitable \<times> ('a \<times> bytes) list) c_res" where
  "dg_echo mesg [] log = Inr (Returned (), log)"
| "dg_echo mesg ((r, sent) # as) log =
     (case Recvfrom MAXLINE r of
        Exited c \<Rightarrow> Inr (Exited c, log)
      | Returned (a, bs) \<Rightarrow>
          bind_err (mem_write mesg 0 bs) (\<lambda>mesg'.
          bind_err (mem_read mesg' 0 (length bs)) (\<lambda>out.
            case Sendto (length bs) sent of
              Exited c \<Rightarrow> Inr (Exited c, log)
            | Returned _ \<Rightarrow> dg_echo mesg' as (log @ [(a, out)]))))"

lemma dg_echo_ok:
  "length mesg = MAXLINE \<Longrightarrow> \<forall>(a, bs)\<in>set ds. length bs \<le> MAXLINE \<Longrightarrow>
   dg_echo mesg (map (\<lambda>(a, bs). (DgFrom a bs, int (length bs))) ds) log = Inr (Returned (), log @ ds)"
proof (induction ds arbitrary: mesg log)
  case (Cons d ds)
  obtain a bs where d: "d = (a, bs)" by fastforce
  obtain mesg' where m: "mem_write mesg 0 bs = Inr mesg'" using mem_write_defined [of 0 bs mesg] Cons(2,3) d by auto
  then have "mem_read mesg' 0 (length bs) = Inr bs" "length mesg' = MAXLINE"
    using mem_write_read [OF m] mem_write_length [OF m] Cons(2) by simp_all
  then show ?case using Cons m d by (simp add: Recvfrom_def Sendto_def)
qed simp

section \<open>The datagram client\<close>

record dg_cli_state =
  dc_send :: bytes
  dc_recv :: bytes
  dc_fp :: infile
  dc_sent :: "bytes list"
  dc_out :: bytes

text \<open>A line read and sent; the answer of \<open>sendto\<close> depends on the datagram.\<close>

definition dg_send_line :: "(bytes \<Rightarrow> int) \<Rightarrow> dg_cli_state \<Rightarrow> (bool exitable \<times> dg_cli_state) c_res" where
  "dg_send_line sendto s =
     bind_err (Fgets (dc_send s) MAXLINE (dc_fp s)) (\<lambda>(r, b, fp).
       let s1 = s\<lparr>dc_send := b, dc_fp := fp\<rparr> in
       case r of
         Exited c \<Rightarrow> Inr (Exited c, s1)
       | Returned got \<Rightarrow>
           if \<not> got then Inr (Returned False, s1)
           else
             bind_err (c_strlen b) (\<lambda>n.
             bind_err (mem_read b 0 n) (\<lambda>d.
               Inr (case Sendto n (sendto d) of
                      Exited c \<Rightarrow> (Exited c, s1)
                    | Returned _ \<Rightarrow> (Returned True, s1\<lparr>dc_sent := dc_sent s1 @ [d]\<rparr>)))))"

text \<open>A datagram received, terminated and printed.\<close>

definition dg_reply :: "(bytes \<Rightarrow> bool) \<Rightarrow> 'a dg_res \<Rightarrow> dg_cli_state \<Rightarrow> (unit exitable \<times> dg_cli_state) c_res" where
  "dg_reply fok r s =
     (case Recvfrom MAXLINE r of
        Exited c \<Rightarrow> Inr (Exited c, s)
      | Returned (a, bs) \<Rightarrow>
          bind_err (mem_write (dc_recv s) 0 bs) (\<lambda>b.
          bind_err (mem_write b (length bs) [0]) (\<lambda>b'.
          bind_err (Fputs fok b' (dc_out s)) (\<lambda>(r, out). Inr (r, s\<lparr>dc_recv := b', dc_out := out\<rparr>)))))"

text \<open>
  The loop over the datagrams that arrive. \<open>None\<close> is a client that waits in \<open>Recvfrom\<close> for a
  datagram that never comes.
\<close>

function dg_cli :: "(bytes \<Rightarrow> int) \<Rightarrow> (bytes \<Rightarrow> bool) \<Rightarrow> 'a dg_res list \<Rightarrow> dg_cli_state \<Rightarrow>
    (unit exitable option \<times> dg_cli_state) c_res" where
  "dg_cli sendto fok ins s =
     bind_err (dg_send_line sendto s) (\<lambda>(r, s1).
       case r of
         Exited c \<Rightarrow> Inr (Some (Exited c), s1)
       | Returned got \<Rightarrow>
           if \<not> got then Inr (Some (Returned ()), s1)
           else
             (case ins of
                [] \<Rightarrow> Inr (None, s1)
              | i # ins' \<Rightarrow>
                  bind_err (dg_reply fok i s1) (\<lambda>(r, s2).
                    case r of
                      Exited c \<Rightarrow> Inr (Some (Exited c), s2)
                    | Returned _ \<Rightarrow> dg_cli sendto fok ins' s2)))"
  by pat_completeness auto
termination by (relation "measure (\<lambda>(sendto, fok, ins, s). length ins)") auto

declare dg_cli.simps [simp del]

text \<open>
  \<open>dg_cli_with_connect\<close>: \<open>Write\<close> and \<open>Read\<close> in place of \<open>Sendto\<close> and \<open>Recvfrom\<close>. On a connected
  socket the kernel delivers only the datagrams of the peer, and errors.
\<close>

definition from_peer :: "'a \<Rightarrow> 'a dg_res \<Rightarrow> bool" where
  "from_peer peer r = (case r of DgFrom a _ \<Rightarrow> a = peer | DgError _ \<Rightarrow> True)"

definition dg_cli_with_connect :: "int \<Rightarrow> (bytes \<Rightarrow> int) \<Rightarrow> (bytes \<Rightarrow> bool) \<Rightarrow> 'a \<Rightarrow> 'a dg_res list \<Rightarrow> dg_cli_state \<Rightarrow>
    (unit exitable option \<times> dg_cli_state) c_res" where
  "dg_cli_with_connect connected write fok peer ins s =
     (if connected < 0 then Inr (Some (Exited 1), s)
      else dg_cli write fok (filter (from_peer peer) ins) s)"

text \<open>The lines of a text as \<open>fgets\<close> cuts it.\<close>

function text_lines :: "bytes \<Rightarrow> bytes list" where
  "text_lines bs = (let l = line_prefix (MAXLINE - 1) bs in if l = [] then [] else l # text_lines (drop (length l) bs))"
  by pat_completeness auto
termination
proof (relation "measure length")
  fix bs l :: bytes
  assume "l = line_prefix (MAXLINE - 1) bs" "l \<noteq> []"
  then show "(drop (length l) bs, bs) \<in> measure length"
    using line_prefix_length(2) [of "MAXLINE - 1" bs] length_greater_0_conv [of l] by (simp del: length_greater_0_conv)
qed simp

declare text_lines.simps [simp del]

lemma concat_text_lines [simp]: "concat (text_lines bs) = bs"
proof (induction bs rule: text_lines.induct)
  case (1 bs)
  show ?case
  proof (cases "line_prefix (MAXLINE - 1) bs = []")
    case True
    then have "bs = []" using line_prefix_Nil_iff [of "MAXLINE - 1" bs] by (simp add: MAXLINE_def)
    then show ?thesis using True by (simp add: text_lines.simps)
  next
    case False then show ?thesis using 1 by (simp add: text_lines.simps [of bs] Let_def)
  qed
qed

lemma text_lines_short: "l \<in> set (text_lines bs) \<Longrightarrow> length l < MAXLINE"
proof (induction bs rule: text_lines.induct)
  case (1 bs)
  have "length (line_prefix (MAXLINE - 1) bs) < MAXLINE"
    using line_prefix_length(1) [of "MAXLINE - 1" bs] by (simp add: MAXLINE_def)
  then show ?case using 1 by (auto simp: text_lines.simps [of bs] Let_def split: if_splits)
qed

definition dg_ok :: "dg_cli_state \<Rightarrow> bool" where
  "dg_ok s \<longleftrightarrow> length (dc_send s) = MAXLINE \<and> length (dc_recv s) = MAXLINE + 1 \<and> \<not> fp_err (dc_fp s) \<and> 0 \<notin> set (fp_data (dc_fp s))"

lemma dg_send_line_end:
  assumes "dg_ok s" "text_lines (fp_data (dc_fp s)) = []"
  shows "dg_send_line sendto s = Inr (Returned False, s)"
proof -
  have "fp_data (dc_fp s) = []" using concat_text_lines [of "fp_data (dc_fp s)"] assms(2) by simp
  then have "Fgets (dc_send s) MAXLINE (dc_fp s) = Inr (Returned False, dc_send s, dc_fp s)"
    using assms(1) by (simp add: Fgets_def dg_ok_def MAXLINE_def numeral_eq_Suc)
  then show ?thesis by (simp add: dg_send_line_def)
qed

lemma dg_send_line_ok:
  assumes ok: "dg_ok s" and l: "text_lines (fp_data (dc_fp s)) = l # ls" and send: "\<And>d. sendto d = int (length d)"
  shows "\<exists>s'. dg_send_line sendto s = Inr (Returned True, s') \<and> dg_ok s' \<and> text_lines (fp_data (dc_fp s')) = ls \<and>
    dc_sent s' = dc_sent s @ [l] \<and> dc_out s' = dc_out s \<and> 0 \<notin> set l \<and> length l < MAXLINE"
proof -
  let ?bs = "fp_data (dc_fp s)"
  have l': "l = line_prefix (MAXLINE - 1) ?bs" "l \<noteq> []" "ls = text_lines (drop (length l) ?bs)"
    using l by (auto simp: text_lines.simps [of ?bs] Let_def split: if_splits)
  have len: "length l < MAXLINE" using text_lines_short [of l ?bs] l by simp
  have "?bs = l @ drop (length l) ?bs" using l'(1) by simp
  then have z: "0 \<notin> set l" "0 \<notin> set (drop (length l) ?bs)" using ok by (metis dg_ok_def UnCI set_append)+
  obtain b where b: "mem_write (dc_send s) 0 (l @ [0]) = Inr (l @ 0 # b)" "length (l @ 0 # b) = MAXLINE"
    using ok len by (simp add: mem_write_def dg_ok_def)
  have "mem_read (l @ 0 # b) 0 (length l) = Inr l" using mem_read_mid [of "length l" l "[]" "0 # b"] by simp
  moreover have "Fgets (dc_send s) MAXLINE (dc_fp s) =
      Inr (Returned True, l @ 0 # b, (dc_fp s)\<lparr>fp_data := drop (length l) ?bs\<rparr>)"
    unfolding Fgets_def Let_def l'(1) [symmetric] using b(1) l'(2) by simp
  ultimately show ?thesis
    using z b(2) ok len l'(3) send by (simp add: dg_send_line_def c_strlen_mid Sendto_def dg_ok_def)
qed

lemma dg_reply_ok:
  assumes ok: "dg_ok s" and l: "0 \<notin> set l" "length l < MAXLINE"
  shows "\<exists>s'. dg_reply (\<lambda>_. True) (DgFrom a l) s = Inr (Returned (), s') \<and> dg_ok s' \<and> dc_fp s' = dc_fp s \<and>
    dc_sent s' = dc_sent s \<and> dc_out s' = dc_out s @ l"
proof -
  have "mem_write (dc_recv s) 0 l = Inr (l @ drop (length l) (dc_recv s))" using ok l(2) by (simp add: mem_write_def dg_ok_def)
  moreover have "mem_write (l @ drop (length l) (dc_recv s)) (length l) [0] = Inr (l @ 0 # drop (Suc (length l)) (dc_recv s))"
    using ok l(2) by (simp add: mem_write_def dg_ok_def drop_Suc drop_tl)
  ultimately show ?thesis using ok l by (auto simp: dg_reply_def Recvfrom_def Fputs_def c_strlen_mid dg_ok_def)
qed

text \<open>The client with the first \<open>k\<close> replies: it prints them and waits for the next if there is one to come.\<close>

lemma dg_cli_ok:
  assumes send: "\<And>d. sendto d = int (length d)"
  shows "dg_ok s \<Longrightarrow> text_lines (fp_data (dc_fp s)) = ls \<Longrightarrow>
    \<exists>s'. dg_cli sendto (\<lambda>_. True) (map (DgFrom a) (take k ls)) s = Inr (if k < length ls then None else Some (Returned ()), s') \<and>
      dc_sent s' = dc_sent s @ take (Suc k) ls \<and> dc_out s' = dc_out s @ concat (take k ls)"
proof (induction ls arbitrary: s k)
  case Nil then show ?case using dg_send_line_end [OF Nil, of sendto] by (subst dg_cli.simps) auto
next
  case (Cons l ls)
  obtain s1 where s1: "dg_send_line sendto s = Inr (Returned True, s1)" "dg_ok s1" "text_lines (fp_data (dc_fp s1)) = ls"
    "dc_sent s1 = dc_sent s @ [l]" "dc_out s1 = dc_out s" "0 \<notin> set l" "length l < MAXLINE"
    using dg_send_line_ok [OF Cons(2,3) send] by blast
  show ?case
  proof (cases k)
    case 0 show ?thesis using s1(1,4,5) 0 by (subst dg_cli.simps) auto
  next
    case (Suc j)
    obtain s2 where s2: "dg_reply (\<lambda>_. True) (DgFrom a l) s1 = Inr (Returned (), s2)" "dg_ok s2" "dc_fp s2 = dc_fp s1"
      "dc_sent s2 = dc_sent s1" "dc_out s2 = dc_out s1 @ l"
      using dg_reply_ok [OF s1(2,6,7), of a] by blast
    obtain s' where "dg_cli sendto (\<lambda>_. True) (map (DgFrom a) (take j ls)) s2 = Inr (if j < length ls then None else Some (Returned ()), s')"
      "dc_sent s' = dc_sent s2 @ take (Suc j) ls" "dc_out s' = dc_out s2 @ concat (take j ls)"
      using Cons(1) [OF s2(2), of j] s1(3) s2(3) by auto
    then show ?thesis using s1(1,4,5) s2(1,4,5) Suc by (subst dg_cli.simps) auto
  qed
qed

text \<open>
  C36. Client and server of the datagram echo together. The client sends the text line by line, one
  datagram per line; the server sends every datagram back to where it came from. If the first \<open>k\<close>
  replies arrive, the client has printed exactly the first \<open>k\<close> lines: with all of them it has
  printed the text and returns, and if the next one is lost it waits for ever. The connected
  client behaves the same, whatever other datagrams reach its port.
\<close>

theorem udp_echo_session:
  fixes cli srv :: 'a
  assumes ok: "dg_ok s" and mesg: "length mesg = MAXLINE" and send: "\<And>d. sendto d = int (length d)"
    and ls: "ls = text_lines (fp_data (dc_fp s))"
    and peer: "filter (from_peer srv) ins = map (DgFrom srv) (take k ls)"
  shows "concat ls = fp_data (dc_fp s) \<and>
    dg_echo mesg (map (\<lambda>l. (DgFrom cli l, int (length l))) ls) [] = Inr (Returned (), map (Pair cli) ls) \<and>
    (\<exists>s'. dg_cli sendto (\<lambda>_. True) (map (DgFrom srv) (take k ls)) s = Inr (if k < length ls then None else Some (Returned ()), s') \<and>
       dg_cli_with_connect 0 sendto (\<lambda>_. True) srv ins s = Inr (if k < length ls then None else Some (Returned ()), s') \<and>
       dc_sent s' = dc_sent s @ take (Suc k) ls \<and> dc_out s' = dc_out s @ concat (take k ls))"
proof -
  have "\<forall>(a, bs)\<in>set (map (Pair cli) ls). length bs \<le> MAXLINE"
    by (auto simp: ls intro: less_imp_le text_lines_short)
  then have "dg_echo mesg (map (\<lambda>l. (DgFrom cli l, int (length l))) ls) [] = Inr (Returned (), map (Pair cli) ls)"
    using dg_echo_ok [OF mesg, of "map (Pair cli) ls" "[]"] by (simp add: comp_def)
  then show ?thesis
    using dg_cli_ok [of sendto s ls srv k] ok send ls peer by (simp add: dg_cli_with_connect_def)
qed

theorem udp_echo_session_witness:
  "\<exists>s'. dg_cli (\<lambda>d. int (length d)) (\<lambda>_. True) [DgFrom True [104, newline]]
      \<lparr>dc_send = replicate MAXLINE 0, dc_recv = replicate (MAXLINE + 1) 0,
       dc_fp = \<lparr>fp_data = [104, newline], fp_err = False\<rparr>, dc_sent = [], dc_out = []\<rparr> =
      Inr (Some (Returned ()), s') \<and> dc_out s' = [104, newline]"
proof -
  define s where "s = \<lparr>dc_send = replicate MAXLINE 0, dc_recv = replicate (MAXLINE + 1) 0,
    dc_fp = \<lparr>fp_data = [104, newline], fp_err = False\<rparr>, dc_sent = [], dc_out = []\<rparr>"
  have ok: "dg_ok s" by (simp add: s_def dg_ok_def newline_def)
  have m: "MAXLINE - 1 = Suc (Suc 4093)" by (simp add: MAXLINE_def)
  have p: "line_prefix (MAXLINE - 1) [104, newline] = [104, newline]" unfolding m line_prefix.simps by (simp add: newline_def)
  have e: "text_lines [] = []" by (subst text_lines.simps) (simp only: m line_prefix.simps Let_def, simp)
  have ls: "[[104, newline]] = text_lines (fp_data (dc_fp s))"
    by (subst text_lines.simps) (simp add: s_def p [simplified] e Let_def)
  have len: "length (replicate MAXLINE 0 :: bytes) = MAXLINE" by simp
  have "filter (from_peer True) [DgFrom False [0], DgFrom True [104, newline]] = map (DgFrom True) (take 1 [[104, newline]])"
    by (simp add: from_peer_def)
  from udp_echo_session [OF ok len _ ls this, of "\<lambda>d. int (length d)" False] show ?thesis by (auto simp: s_def)
qed

section \<open>The server for both protocols\<close>

record 'a d7_state =
  d7_mp :: mp_state
  d7_mesg :: bytes
  d7_recv :: "('a \<times> bytes) list"    \<comment> \<open>datagrams received\<close>
  d7_sent :: "('a \<times> bytes) list"    \<comment> \<open>datagrams sent\<close>

definition d7_new :: "'a d7_state" where
  "d7_new = \<lparr>d7_mp = mp_new, d7_mesg = replicate MAXLINE 0, d7_recv = [], d7_sent = []\<rparr>"

text \<open>\<open>main\<close> up to the loop: the answers of \<open>socket\<close>, \<open>setsockopt\<close>, \<open>bind\<close> and \<open>listen\<close>, any error ends the process.\<close>

definition d7_setup :: "int list \<Rightarrow> 'a d7_state exitable" where
  "d7_setup answers = (if list_ex (\<lambda>a. a < 0) answers then Exited 1 else Returned d7_new)"

text \<open>What the kernel answers in a round; \<open>None\<close> of a round is a server that waits in \<open>Accept\<close>.\<close>

record 'a d7_answers =
  da_select :: "int option"          \<comment> \<open>the error number of \<open>select\<close>\<close>
  da_tcp :: bool
  da_udp :: bool
  da_accept :: "(int + conn) list"
  da_fork :: int
  da_dgram :: "'a dg_res"
  da_sendto :: int

definition d7_tcp :: "(int + conn) list \<Rightarrow> int \<Rightarrow> mp_state \<Rightarrow> mp_state exitable option" where
  "d7_tcp as pid s =
     (case Accept as of
        None \<Rightarrow> None
      | Some (Exited c) \<Rightarrow> Some (Exited c)
      | Some (Returned cn) \<Rightarrow>
          Some (case Fork pid of Exited c \<Rightarrow> Exited c | Returned p \<Rightarrow> Returned (mp_fork cn p s)))"

definition d7_udp :: "'a dg_res \<Rightarrow> int \<Rightarrow> 'a d7_state \<Rightarrow> 'a d7_state exitable c_res" where
  "d7_udp r sent s =
     (case Recvfrom MAXLINE r of
        Exited c \<Rightarrow> Inr (Exited c)
      | Returned (a, bs) \<Rightarrow>
          bind_err (mem_write (d7_mesg s) 0 bs) (\<lambda>mesg.
          bind_err (mem_read mesg 0 (length bs)) (\<lambda>out.
            Inr (case Sendto (length bs) sent of
                   Exited c \<Rightarrow> Exited c
                 | Returned _ \<Rightarrow> Returned (s\<lparr>d7_mesg := mesg, d7_recv := d7_recv s @ [(a, bs)], d7_sent := d7_sent s @ [(a, out)]\<rparr>)))))"

definition d7_round :: "'a d7_answers \<Rightarrow> 'a d7_state \<Rightarrow> 'a d7_state exitable option c_res" where
  "d7_round a s =
     (case da_select a of
        Some e \<Rightarrow> Inr (Some (if e = EINTR then Returned s else Exited 1))
      | None \<Rightarrow>
          (case if da_tcp a then d7_tcp (da_accept a) (da_fork a) (d7_mp s) else Some (Returned (d7_mp s)) of
             None \<Rightarrow> Inr None
           | Some (Exited c) \<Rightarrow> Inr (Some (Exited c))
           | Some (Returned mp) \<Rightarrow>
               if da_udp a then bind_err (d7_udp (da_dgram a) (da_sendto a) (s\<lparr>d7_mp := mp\<rparr>)) (\<lambda>r. Inr (Some r))
               else Inr (Some (Returned (s\<lparr>d7_mp := mp\<rparr>)))))"

text \<open>The handler of \<open>SIGCHLD\<close> is the one of the multi-process server, and runs when the pending signal is delivered.\<close>

definition d7_sig_chld :: "mp_state \<Rightarrow> mp_state" where
  "d7_sig_chld s = sig_chld s"

definition d7_deliver :: "mp_state \<Rightarrow> mp_state option" where
  "d7_deliver s = (if mp_sigchld s then Some (d7_sig_chld (s\<lparr>mp_sigchld := False\<rparr>)) else None)"

lemma d7_deliver_eq: "d7_deliver = mp_deliver"
  by (simp add: fun_eq_iff d7_deliver_def d7_sig_chld_def mp_deliver_def)

inductive d7_step :: "'a d7_state \<Rightarrow> 'a d7_state \<Rightarrow> bool" where
  d7_rounds: "d7_round a s = Inr (Some (Returned s')) \<Longrightarrow> d7_step s s'"
| d7_exits: "mp_child i (d7_mp s) = Some (Inr mp) \<Longrightarrow> d7_step s (s\<lparr>d7_mp := mp\<rparr>)"
| d7_delivers: "d7_deliver (d7_mp s) = Some mp \<Longrightarrow> d7_step s (s\<lparr>d7_mp := mp\<rparr>)"

definition d7_init :: "'a d7_state \<Rightarrow> bool" where
  "d7_init s \<longleftrightarrow> s = d7_new"

definition d7_inv :: "'a d7_state \<Rightarrow> bool" where
  "d7_inv s \<longleftrightarrow> mp_inv (d7_mp s) \<and> length (d7_mesg s) = MAXLINE \<and> d7_sent s = d7_recv s"

lemma d7_udp_ok:
  assumes "length (d7_mesg s) = MAXLINE"
  shows "\<exists>r. d7_udp d sent s = Inr r \<and> (\<forall>s'. r = Returned s' \<longrightarrow>
    length (d7_mesg s') = MAXLINE \<and> d7_mp s' = d7_mp s \<and> (\<exists>x. d7_recv s' = d7_recv s @ [x] \<and> d7_sent s' = d7_sent s @ [x]))"
proof (cases d)
  case (DgFrom a bs)
  obtain mesg where m: "mem_write (d7_mesg s) 0 (take MAXLINE bs) = Inr mesg"
    using mem_write_defined [of 0 "take MAXLINE bs" "d7_mesg s"] assms by auto
  have "length mesg = MAXLINE" using mem_write_length [OF m] assms by simp
  then show ?thesis using DgFrom m mem_write_read [OF m] by (auto simp: d7_udp_def Recvfrom_def Sendto_def)
qed (simp add: d7_udp_def Recvfrom_def)

lemma d7_tcp_inv: "d7_tcp as pid s = Some (Returned s') \<Longrightarrow> mp_inv s \<Longrightarrow> mp_inv s'"
  by (auto simp: d7_tcp_def intro: mp_inv_fork split: option.splits exitable.splits)

lemma d7_round_ok:
  assumes "d7_inv s" shows "\<exists>r. d7_round a s = Inr r \<and> (\<forall>s'. r = Some (Returned s') \<longrightarrow> d7_inv s')"
proof (cases "da_select a")
  case None
  let ?t = "if da_tcp a then d7_tcp (da_accept a) (da_fork a) (d7_mp s) else Some (Returned (d7_mp s))"
  show ?thesis
  proof (cases ?t)
    case (Some r)
    show ?thesis
    proof (cases r)
      case (Returned mp)
      have mp: "mp_inv mp" using Some Returned assms d7_tcp_inv by (auto simp: d7_inv_def split: if_splits)
      obtain u where "d7_udp (da_dgram a) (da_sendto a) (s\<lparr>d7_mp := mp\<rparr>) = Inr u"
        and u: "\<forall>s'. u = Returned s' \<longrightarrow> length (d7_mesg s') = MAXLINE \<and> d7_mp s' = mp \<and>
          (\<exists>x. d7_recv s' = d7_recv s @ [x] \<and> d7_sent s' = d7_sent s @ [x])"
        using d7_udp_ok [of "s\<lparr>d7_mp := mp\<rparr>" "da_dgram a" "da_sendto a"] assms by (auto simp: d7_inv_def)
      then show ?thesis using None Some Returned mp assms by (auto simp: d7_round_def d7_inv_def)
    qed (use None Some in \<open>simp add: d7_round_def\<close>)
  qed (use None in \<open>simp add: d7_round_def\<close>)
qed (use assms in \<open>simp add: d7_round_def\<close>)

lemma d7_reachable_inv: "reachable d7_init d7_step s \<Longrightarrow> d7_inv s"
proof (erule reachable_invariant)
  show "d7_inv s" if "d7_init s" for s :: "'a d7_state"
    using that by (simp add: d7_init_def d7_new_def d7_inv_def mp_new_def mp_inv_def)
  show "d7_inv s'" if "d7_inv s" "d7_step s s'" for s s' :: "'a d7_state"
    using that(2,1)
  proof cases
    case (d7_rounds a) then show ?thesis using d7_round_ok [OF that(1), of a] by auto
  qed (auto simp: d7_inv_def d7_deliver_eq intro: mp_inv_child mp_inv_deliver)
qed

text \<open>
  C37. In every reachable state of the server for both protocols every datagram received has been
  sent back, unchanged and to its sender, in order; every accepted connection is with exactly one
  child, has ended or was never forked; the parent holds no connection open; and a round never
  leaves the message buffer. When the only connection that woke \<open>select\<close> is aborted before
  \<open>Accept\<close>, the round waits there, although a datagram is ready.
\<close>

theorem d7_server_correct:
  assumes "reachable d7_init d7_step s"
  shows "d7_sent s = d7_recv s \<and> mp_open (d7_mp s) = [] \<and>
    mset (mp_accepted (d7_mp s)) =
      mset (mp_dropped (d7_mp s)) + mset (map ch_conn (mp_children (d7_mp s))) + mset (map fst (mp_done (d7_mp s))) \<and>
    (\<exists>r. d7_round a s = Inr r) \<and>
    (da_select a = None \<and> da_tcp a \<and> da_accept a = [Inl ECONNABORTED] \<longrightarrow> d7_round a s = Inr None)"
proof -
  have inv: "d7_inv s" by (rule d7_reachable_inv [OF assms])
  have "d7_round a s = Inr None" if "da_select a = None" "da_tcp a" "da_accept a = [Inl ECONNABORTED]"
    using that by (simp add: d7_round_def d7_tcp_def)
  then show ?thesis using inv d7_round_ok [OF inv, of a] by (auto simp: d7_inv_def mp_inv_def)
qed

theorem d7_server_correct_witness:
  "\<exists>s :: bool d7_state. reachable d7_init d7_step s \<and> d7_recv s = [(True, [7])] \<and> d7_sent s = d7_recv s"
proof -
  define a :: "bool d7_answers" where "a = \<lparr>da_select = None, da_tcp = False, da_udp = True, da_accept = [], da_fork = 1,
    da_dgram = DgFrom True [7], da_sendto = 1\<rparr>"
  have r: "reachable d7_init d7_step (d7_new :: bool d7_state)" by (rule reach_init) (simp add: d7_init_def)
  obtain mesg where m: "mem_write (replicate MAXLINE 0) 0 [7 :: byte] = Inr mesg"
    using mem_write_defined [of 0 "[7 :: byte]" "replicate MAXLINE 0"] by (auto simp: MAXLINE_def)
  have t: "take MAXLINE [7 :: byte] = [7]" by (simp add: MAXLINE_def)
  let ?s = "d7_new\<lparr>d7_mesg := mesg, d7_recv := [(True, [7])], d7_sent := [(True, [7])]\<rparr>"
  have "d7_round a d7_new = Inr (Some (Returned ?s))"
    using m mem_write_read [OF m] t by (simp add: a_def d7_round_def d7_udp_def Recvfrom_def Sendto_def d7_new_def)
  then have s: "reachable d7_init d7_step ?s" using r by (blast intro: reach_step d7_rounds)
  show ?thesis using d7_server_correct [OF s] s by (intro exI [of _ ?s]) (simp add: d7_new_def)
qed

end
