(* ===== verification/ProcUtil.thy ===== *)
theory ProcUtil
  imports UdpEcho
begin

text \<open>
  Process utilities of \<open>src/basic_lib/\<close>: passing a descriptor over a socket (\<open>write_fd.c\<close>,
  \<open>read_fd.c\<close>, as configured with \<open>msg_control\<close>), becoming a daemon (\<open>daemon_init.c\<close>,
  \<open>daemon_inetd.c\<close>), installing signal handlers (\<open>signal.c\<close>, \<open>signal_intr.c\<close>) and \<open>pselect.c\<close>.
\<close>

section \<open>Passing descriptors\<close>

text \<open>Control data: its length, level and type, and the descriptor. \<open>CMSG_LEN\<close> counts a header of 16 bytes.\<close>

record cmsg =
  cmsg_len :: nat
  cmsg_level :: int
  cmsg_type :: int
  cmsg_fd :: int

definition CMSG_LEN :: "nat \<Rightarrow> nat" where "CMSG_LEN n = 16 + n"
definition SOL_SOCKET :: int where "SOL_SOCKET = 1"
definition SCM_RIGHTS :: int where "SCM_RIGHTS = 1"

text \<open>What \<open>write_fd\<close> passes to \<open>sendmsg\<close>, whose result it returns.\<close>

definition write_fd :: "bytes \<Rightarrow> nat \<Rightarrow> int \<Rightarrow> (bytes \<times> cmsg option) c_res" where
  "write_fd buf nbytes sendfd =
     bind_err (mem_read buf 0 nbytes) (\<lambda>bs.
       Inr (bs, Some \<lparr>cmsg_len = CMSG_LEN 4, cmsg_level = SOL_SOCKET, cmsg_type = SCM_RIGHTS, cmsg_fd = sendfd\<rparr>))"

definition Write_fd :: "int \<Rightarrow> int exitable" where
  "Write_fd n = (if n < 0 then Exited 1 else Returned n)"

text \<open>
  \<open>recvmsg\<close>: an error, or bytes and control data. The result of \<open>read_fd\<close> is its value, the buffer
  and the descriptor stored, none when \<open>recvmsg\<close> returned no data.
\<close>

definition read_fd :: "int + bytes \<times> cmsg option \<Rightarrow> bytes \<Rightarrow> nat \<Rightarrow> ((int \<times> int option) exitable \<times> bytes) c_res" where
  "read_fd r buf nbytes =
     (case r of
        Inl e \<Rightarrow> Inr (Returned (-1, None), buf)
      | Inr (d, c) \<Rightarrow>
          let bs = take nbytes d in
          if bs = [] then Inr (Returned (0, None), buf)
          else
            bind_err (mem_write buf 0 bs) (\<lambda>buf'.
              case c of
                Some cm \<Rightarrow>
                  if cmsg_len cm = CMSG_LEN 4 then
                    if cmsg_level cm \<noteq> SOL_SOCKET then Inr (Exited 1, buf')
                    else if cmsg_type cm \<noteq> SCM_RIGHTS then Inr (Exited 1, buf')
                    else Inr (Returned (int (length bs), Some (cmsg_fd cm)), buf')
                  else Inr (Returned (int (length bs), Some (-1)), buf')
              | None \<Rightarrow> Inr (Returned (int (length bs), Some (-1)), buf')))"

definition Read_fd :: "(int \<times> int option) exitable \<Rightarrow> (int \<times> int option) exitable" where
  "Read_fd r = (case r of Returned (n, fd) \<Rightarrow> if n < 0 then Exited 1 else Returned (n, fd) | Exited c \<Rightarrow> Exited c)"

text \<open>The kernel gives the receiver a descriptor of its own for the one sent.\<close>

definition deliver :: "(int \<Rightarrow> int) \<Rightarrow> bytes \<times> cmsg option \<Rightarrow> bytes \<times> cmsg option" where
  "deliver dupfd m = (fst m, map_option (\<lambda>c. c\<lparr>cmsg_fd := dupfd (cmsg_fd c)\<rparr>) (snd m))"

text \<open>
  C39. A descriptor sent with \<open>write_fd\<close> together with at least one byte arrives at \<open>read_fd\<close>: it
  stores the bytes, as many as its buffer takes, and the receiver's duplicate of that descriptor.
  Bytes that come without control data give the descriptor -1, and control data of the right length but another level
  or type ends the process. Without a byte nothing is stored for the descriptor.
\<close>

theorem fd_passing_roundtrip:
  assumes "0 < nbytes" "nbytes \<le> length buf" "0 < n" "n \<le> length rbuf"
  shows "(\<exists>m. write_fd buf nbytes fd = Inr m \<and>
      read_fd (Inr (deliver dupfd m)) rbuf n =
        Inr (Returned (int (min n nbytes), Some (dupfd fd)), take (min n nbytes) buf @ drop (min n nbytes) rbuf)) \<and>
    (\<exists>b. read_fd (Inr (take nbytes buf, None)) rbuf n = Inr (Returned (int (min n nbytes), Some (-1)), b)) \<and>
    (cmsg_len c = CMSG_LEN 4 \<and> (cmsg_level c \<noteq> SOL_SOCKET \<or> cmsg_type c \<noteq> SCM_RIGHTS) \<longrightarrow>
       (\<exists>b. read_fd (Inr (take nbytes buf, Some c)) rbuf n = Inr (Exited 1, b))) \<and>
    (\<exists>m. write_fd buf 0 fd = Inr m \<and> read_fd (Inr (deliver dupfd m)) rbuf n = Inr (Returned (0, None), rbuf))"
proof -
  have "take n (take nbytes buf) = take (min n nbytes) buf" by simp
  moreover have "take (min n nbytes) buf \<noteq> []" using assms by auto
  moreover have "mem_write rbuf 0 (take (min n nbytes) buf) = Inr (take (min n nbytes) buf @ drop (min n nbytes) rbuf)"
    using assms by (simp add: mem_write_def)
  moreover have "length (take (min n nbytes) buf) = min n nbytes" using assms by simp
  ultimately show ?thesis
    using assms(2) by (simp add: write_fd_def read_fd_def deliver_def mem_read_def Let_def)
qed

theorem fd_passing_roundtrip_witness:
  "\<exists>m. write_fd [7] 1 5 = Inr m \<and> read_fd (Inr (deliver (\<lambda>_. 9) m)) [0, 0] 2 = Inr (Returned (1, Some 9), [7, 0])"
  using fd_passing_roundtrip [of 1 "[7]" 2 "[0, 0]" 5 "\<lambda>_. 9" c for c] by auto

section \<open>Daemons\<close>

text \<open>What a process has that \<open>daemon_init\<close> changes.\<close>

record proc =
  pr_fds :: "nat \<rightharpoonup> bytes"      \<comment> \<open>open descriptors and what they refer to\<close>
  pr_cwd :: bytes
  pr_session :: bool           \<comment> \<open>leader of a session of its own\<close>
  pr_sighup :: bool            \<comment> \<open>\<open>SIGHUP\<close> is ignored\<close>
  pr_daemon :: bool            \<comment> \<open>\<open>daemon_proc\<close>\<close>
  pr_log :: "bytes option"

definition MAXFD :: nat where "MAXFD = 64"
definition dev_null :: bytes where "dev_null = map of_char ''/dev/null''"

text \<open>\<open>open\<close> takes the lowest free descriptor; some of the first 64 is free when it is called here.\<close>

definition lowest_free :: "(nat \<rightharpoonup> bytes) \<Rightarrow> nat option" where
  "lowest_free fds = find (\<lambda>i. fds i = None) [0..<MAXFD]"

definition open_null :: "proc \<Rightarrow> proc" where
  "open_null p = (case lowest_free (pr_fds p) of None \<Rightarrow> p | Some i \<Rightarrow> p\<lparr>pr_fds := (pr_fds p)(i \<mapsto> dev_null)\<rparr>)"

definition pr_close :: "nat \<Rightarrow> proc \<Rightarrow> proc" where
  "pr_close i p = p\<lparr>pr_fds := (pr_fds p)(i := None)\<rparr>"

definition close_all :: "proc \<Rightarrow> proc" where
  "close_all p = fold pr_close [0..<MAXFD] p"

text \<open>
  \<open>daemon_init\<close> as the process that returns sees it: \<open>fork1\<close> and \<open>fork2\<close> are the answers of \<open>fork\<close>
  (0 in the child, which goes on; the parent ends with 0), \<open>sid\<close> that of \<open>setsid\<close>. \<open>chdir\<close> is taken to succeed.
\<close>

definition daemon_init :: "int \<Rightarrow> int \<Rightarrow> int \<Rightarrow> bytes \<Rightarrow> proc \<Rightarrow> int exitable \<times> proc" where
  "daemon_init fork1 sid fork2 pname p =
     (case Fork fork1 of
        Exited c \<Rightarrow> (Exited c, p)
      | Returned pid1 \<Rightarrow>
          if pid1 < 0 then (Returned (-1), p)
          else if pid1 \<noteq> 0 then (Exited 0, p)
          else if sid < 0 then (Returned (-1), p)
          else
            let p1 = p\<lparr>pr_session := True, pr_sighup := True\<rparr> in
            (case Fork fork2 of
               Exited c \<Rightarrow> (Exited c, p1)
             | Returned pid2 \<Rightarrow>
                 if pid2 < 0 then (Returned (-1), p1)
                 else if pid2 \<noteq> 0 then (Exited 0, p1)
                 else
                   let p2 = p1\<lparr>pr_session := False, pr_daemon := True, pr_cwd := [47]\<rparr>;
                       p3 = open_null (open_null (open_null (close_all p2)))
                   in (Returned 0, p3\<lparr>pr_log := Some pname\<rparr>)))"

definition daemon_inetd :: "bytes \<Rightarrow> proc \<Rightarrow> proc" where
  "daemon_inetd pname p = p\<lparr>pr_daemon := True, pr_log := Some pname\<rparr>"

lemma close_all_fds: "close_all p = p\<lparr>pr_fds := (\<lambda>i. if i < MAXFD then None else pr_fds p i)\<rparr>"
proof -
  have "fold pr_close [0..<n] p = p\<lparr>pr_fds := (\<lambda>i. if i < n then None else pr_fds p i)\<rparr>" for n
  proof (induction n)
    case (Suc n)
    have "(\<lambda>i. if i < n then None else pr_fds p i)(n := None) = (\<lambda>i. if i < Suc n then None else pr_fds p i)"
      by (auto simp: fun_eq_iff)
    then have "pr_close n (p\<lparr>pr_fds := (\<lambda>i. if i < n then None else pr_fds p i)\<rparr>) = p\<lparr>pr_fds := (\<lambda>i. if i < Suc n then None else pr_fds p i)\<rparr>"
      unfolding pr_close_def by simp
    then show ?case using Suc by simp
  qed simp
  then show ?thesis by (simp add: close_all_def)
qed

lemma lowest_free_at: "i < MAXFD \<Longrightarrow> fds i = None \<Longrightarrow> (\<And>j. j < i \<Longrightarrow> fds j \<noteq> None) \<Longrightarrow> lowest_free fds = Some i"
  unfolding lowest_free_def find_Some_iff by (rule exI [of _ i]) auto

text \<open>
  When \<open>daemon_init\<close> returns 0, the process is the grandchild: it is not a session leader, it
  ignores \<open>SIGHUP\<close>, works in the root directory, reports errors to the log, and its descriptors 0, 1 and 2 are
  \<open>/dev/null\<close> and those up to 63 closed. A descriptor from 64 on stays open, and when a
  \<open>fork\<close> fails the process ends, so that -1 is returned only for \<open>setsid\<close>.
\<close>

theorem daemon_init_correct:
  "(fst (daemon_init fork1 sid fork2 pname p) = Returned 0 \<longleftrightarrow> fork1 = 0 \<and> 0 \<le> sid \<and> fork2 = 0) \<and>
   snd (daemon_init 0 0 0 pname p) =
     p\<lparr>pr_fds := (\<lambda>i. if i < 3 then Some dev_null else if i < 64 then None else pr_fds p i),
       pr_cwd := [47], pr_session := False, pr_sighup := True, pr_daemon := True, pr_log := Some pname\<rparr> \<and>
   fst (daemon_init (-1) sid fork2 pname p) = Exited 1"
proof -
  let ?f = "\<lambda>n i. if i < n then Some dev_null else if i < 64 then None else pr_fds p i"
  have o: "open_null (q\<lparr>pr_fds := ?f n\<rparr>) = q\<lparr>pr_fds := ?f (Suc n)\<rparr>" if "n < 3" for q n
  proof -
    have "lowest_free (?f n) = Some n" by (rule lowest_free_at) (use that in \<open>simp_all add: MAXFD_def\<close>)
    moreover have "(?f n)(n \<mapsto> dev_null) = ?f (Suc n)" by (auto simp: fun_eq_iff)
    ultimately show ?thesis by (simp add: open_null_def)
  qed
  have c: "close_all q = q\<lparr>pr_fds := ?f 0\<rparr>" if "pr_fds q = pr_fds p" for q unfolding close_all_fds that MAXFD_def by simp
  have e: "fst (daemon_init fork1 sid fork2 pname p) = Returned 0 \<longleftrightarrow> fork1 = 0 \<and> 0 \<le> sid \<and> fork2 = 0"
    by (auto simp: daemon_init_def Fork_def Let_def split: if_splits)
  have s: "snd (daemon_init 0 0 0 pname p) =
     p\<lparr>pr_fds := (\<lambda>i. if i < 3 then Some dev_null else if i < 64 then None else pr_fds p i),
       pr_cwd := [47], pr_session := False, pr_sighup := True, pr_daemon := True, pr_log := Some pname\<rparr>"
    using o [of 0] o [of 1] o [of 2] by (simp add: daemon_init_def Fork_def c numeral_3_eq_3 numeral_2_eq_2)
  show ?thesis using e s by (simp add: daemon_init_def Fork_def)
qed

section \<open>Signals\<close>

definition SIGALRM :: int where "SIGALRM = 14"
datatype sa_flag = SA_INTERRUPT | SA_RESTART

text \<open>
  \<open>signal\<close>, \<open>signal_intr\<close>: the handler and flags given to \<open>sigaction\<close>, and the old handler or \<open>SIG_ERR\<close>
  (\<open>None\<close>); \<open>intr\<close> and \<open>restart\<close> say which of the flags the system has.
\<close>

type_synonym 'h sigtable = "int \<Rightarrow> 'h \<times> sa_flag list"

definition c_signal :: "bool \<Rightarrow> bool \<Rightarrow> bool \<Rightarrow> int \<Rightarrow> 'h \<Rightarrow> 'h sigtable \<Rightarrow> 'h option \<times> 'h sigtable" where
  "c_signal intr restart ok signo func t =
     (let flags = (if signo = SIGALRM then (if intr then [SA_INTERRUPT] else []) else (if restart then [SA_RESTART] else [])) in
      if \<not> ok then (None, t) else (Some (fst (t signo)), t(signo := (func, flags))))"

definition signal_intr :: "bool \<Rightarrow> bool \<Rightarrow> int \<Rightarrow> 'h \<Rightarrow> 'h sigtable \<Rightarrow> 'h option \<times> 'h sigtable" where
  "signal_intr intr ok signo func t =
     (if \<not> ok then (None, t) else (Some (fst (t signo)), t(signo := (func, if intr then [SA_INTERRUPT] else []))))"

definition Signal :: "'h option \<times> 'h sigtable \<Rightarrow> 'h exitable \<times> 'h sigtable" where
  "Signal r = (case fst r of None \<Rightarrow> Exited 1 | Some h \<Rightarrow> Returned h, snd r)"

definition Signal_intr :: "bool \<Rightarrow> bool \<Rightarrow> int \<Rightarrow> 'h \<Rightarrow> 'h sigtable \<Rightarrow> 'h exitable \<times> 'h sigtable" where
  "Signal_intr intr ok signo func t =
     (let (sigfunc, t') = signal_intr intr ok signo func t in
      (case sigfunc of None \<Rightarrow> Exited 1 | Some h \<Rightarrow> Returned h, t'))"

text \<open>\<open>pselect\<close>: the time-out in microseconds, and the signal mask before, during and after \<open>select\<close>.\<close>

definition pselect :: "((int \<times> int) option \<Rightarrow> 'm \<Rightarrow> int) \<Rightarrow> (int \<times> int) option \<Rightarrow> 'm \<Rightarrow> 'm \<Rightarrow> int \<times> 'm" where
  "pselect sel ts sigmask m =
     (let tv = map_option (\<lambda>(sec, nsec). (sec, nsec div 1000)) ts; savemask = m; n = sel tv sigmask in (n, savemask))"

text \<open>
  A call that \<open>signal\<close> interrupts is restarted for every signal but \<open>SIGALRM\<close>, which is what the
  functions with a time-out rely on; the handler set is the one installed, only for that signal.
\<close>

lemma signal_restarts:
  assumes "c_signal intr True True signo func t = (r, t')"
  shows "r = Some (fst (t signo)) \<and> fst (t' signo) = func \<and> (SA_RESTART \<in> set (snd (t' signo)) \<longleftrightarrow> signo \<noteq> SIGALRM) \<and>
    (\<forall>s. s \<noteq> signo \<longrightarrow> t' s = t s)"
  using assms by (auto simp: c_signal_def Let_def split: if_splits)

end
