(* ===== verification/Replacements.thy ===== *)
theory Replacements
  imports Errors
begin

text \<open>
  The functions of \<open>src/basic_lib/\<close> for systems that lack them, and what the programs get from them:
  \<open>snprintf.c\<close>, \<open>sockatmark.c\<close>, the placeholders \<open>if_nametoindex.c\<close>, \<open>if_indextoname.c\<close> and
  \<open>if_nameindex.c\<close>, and \<open>my_addrs.c\<close>. A call of \<open>err_quit\<close> or \<open>err_sys\<close> ends the process with 1.
\<close>

section \<open>snprintf\<close>

text \<open>
  \<open>out\<close> is the text the format expands to, without a zero byte, and \<open>buf\<close> the whole array. \<open>vsprintf\<close>
  writes the text and its zero byte first; only then is the length compared with \<open>size\<close>.
\<close>

definition repl_snprintf :: "bytes \<Rightarrow> nat \<Rightarrow> bytes \<Rightarrow> (nat \<times> bytes) exitable c_res" where
  "repl_snprintf buf size_arg out =
     bind_err (mem_write buf 0 (out @ [0])) (\<lambda>buf'.
     bind_err (c_strlen buf') (\<lambda>n.
       Inr (if n \<ge> size_arg then Exited 1 else Returned (n, buf'))))"

text \<open>What the function of the library does with an array of at least \<open>size\<close> bytes.\<close>

definition std_snprintf :: "bytes \<Rightarrow> nat \<Rightarrow> bytes \<Rightarrow> nat \<times> bytes" where
  "std_snprintf buf n out =
     (length out, if n = 0 then buf else take (n - 1) out @ 0 # drop (length (take (n - 1) out) + 1) buf)"

text \<open>
  A text that fits gives exactly what the library gives. One that does not fit never comes back cut: the
  process ends if the array is larger than the size passed, by enough for the text, and else the array is left before
  the test is made.
\<close>

theorem repl_snprintf_correct:
  assumes "0 \<notin> set out" "n \<le> length buf"
  shows "repl_snprintf buf n out =
    (if length out < n then Inr (Returned (std_snprintf buf n out))
     else if length out < length buf then Inr (Exited 1)
     else Inl (OutOfBounds (length out + 1)))"
  using assms by (auto simp: repl_snprintf_def std_snprintf_def mem_write_def c_strlen_mid)

section \<open>sockatmark\<close>

text \<open>From the answer of \<open>ioctl(SIOCATMARK)\<close> and the flag it stored.\<close>

definition sockatmark :: "int \<Rightarrow> int \<Rightarrow> int" where
  "sockatmark ret flag = (if ret < 0 then -1 else if flag \<noteq> 0 then 1 else 0)"

lemma sockatmark_range: "sockatmark ret flag \<in> {-1, 0, 1}" "sockatmark ret flag = 1 \<longleftrightarrow> 0 \<le> ret \<and> flag \<noteq> 0"
  by (auto simp: sockatmark_def)

section \<open>Interfaces by number\<close>

text \<open>The placeholders know no interface; the capitalised functions end the process when none is found.\<close>

definition if_nametoindex :: "string \<Rightarrow> nat" where
  "if_nametoindex name = 0"

definition If_nametoindex :: "string \<Rightarrow> nat exitable" where
  "If_nametoindex name = (let index = if_nametoindex name in if index = 0 then Exited 1 else Returned index)"

definition if_indextoname :: "nat \<Rightarrow> bytes \<Rightarrow> bytes option" where
  "if_indextoname index name = None"

definition If_indextoname :: "nat \<Rightarrow> bytes \<Rightarrow> bytes exitable" where
  "If_indextoname index name = (case if_indextoname index name of None \<Rightarrow> Exited 1 | Some p \<Rightarrow> Returned p)"

definition if_nameindex :: "(nat \<times> string) list option" where
  "if_nameindex = None"

definition If_nameindex :: "(nat \<times> string) list exitable" where
  "If_nameindex = (case if_nameindex of None \<Rightarrow> Exited 1 | Some p \<Rightarrow> Returned p)"

text \<open>So a program that asks for an interface through them always ends.\<close>

lemma If_placeholders: "If_nametoindex name = Exited 1 \<and> If_indextoname i buf = Exited 1 \<and> If_nameindex = Exited 1"
  by (simp add: If_nametoindex_def if_nametoindex_def If_indextoname_def if_indextoname_def If_nameindex_def if_nameindex_def Let_def)

section \<open>Addresses of the host\<close>

text \<open>
  From the answer of \<open>uname\<close> with the name it stored and the answers of \<open>gethostbyname\<close>: family and
  address list. The family is stored for the caller only on success.
\<close>

definition my_addrs :: "int \<Rightarrow> string \<Rightarrow> (string \<Rightarrow> (int \<times> bytes list) option) \<Rightarrow> int \<Rightarrow> bytes list option \<times> int" where
  "my_addrs ret nodename gethostbyname addrtype =
     (if ret < 0 then (None, addrtype)
      else case gethostbyname nodename of
             None \<Rightarrow> (None, addrtype)
           | Some (fam, addrs) \<Rightarrow> (Some addrs, fam))"

definition My_addrs :: "int \<Rightarrow> string \<Rightarrow> (string \<Rightarrow> (int \<times> bytes list) option) \<Rightarrow> int \<Rightarrow> (bytes list \<times> int) exitable" where
  "My_addrs ret nodename gethostbyname pfamily =
     (case my_addrs ret nodename gethostbyname pfamily of
        (None, _) \<Rightarrow> Exited 1
      | (Some pptr, fam) \<Rightarrow> Returned (pptr, fam))"

lemma My_addrs_iff:
  "My_addrs ret nodename ghbn pf = Returned (addrs, fam) \<longleftrightarrow> 0 \<le> ret \<and> ghbn nodename = Some (fam, addrs)"
  by (auto simp: My_addrs_def my_addrs_def split: option.splits)

end
