(* ===== verification/DemoServers.thy ===== *)
theory DemoServers
  imports ConnServers
begin

text \<open>
  The first servers of \<open>src/network/\<close>: \<open>demo1_socket.cpp\<close> (a thread per connection),
  \<open>demo2_select.cpp\<close> and \<open>demo3_epoll.cpp\<close> (one buffer for all connections). One round of a loop
  is one step, from the answers of the kernel in that round.
\<close>

section \<open>demo1: a thread per connection\<close>

definition DEMO_LENGTH :: nat where "DEMO_LENGTH = 128"

text \<open>The start of \<open>main\<close>, from the answers of \<open>socket\<close> and \<open>bind\<close>; that of \<open>listen\<close> is not looked at.\<close>

definition demo1_setup :: "int \<Rightarrow> int \<Rightarrow> int + mt_state" where
  "demo1_setup listenfd bound = (if listenfd = -1 then Inl (-1) else if bound = -1 then Inl (-2) else Inr mt_new)"

text \<open>The result of \<open>accept\<close> is not tested: a thread is created for -1 too.\<close>

definition demo1_accept :: "int \<Rightarrow> bool \<Rightarrow> mt_state \<Rightarrow> mt_state" where
  "demo1_accept fd created s =
     (let s1 = s\<lparr>mt_cell := fd, mt_accepted := mt_accepted s @ (if fd < 0 then [] else [fd])\<rparr> in
      if created then s1\<lparr>mt_created := mt_created s1 + 1\<rparr> else s1)"

text \<open>
  \<open>routine\<close>: a fresh zeroed buffer per round, printed as a string, and \<open>ret\<close> bytes of it sent; for a
  failed \<open>recv\<close> that is -1 as an unsigned length, beyond any buffer. The result is whether the
  descriptor was closed.
\<close>

function demo1_routine :: "chan \<Rightarrow> sink \<Rightarrow> (bool \<times> sink) c_res" where
  "demo1_routine ch k =
     (case ch_read DEMO_LENGTH ch of
        (RecvError e, ch') \<Rightarrow> Inl (OutOfBounds DEMO_LENGTH)
      | (RecvBytes bs, ch') \<Rightarrow>
          if bs = [] then Inr (True, k)
          else
            bind_err (mem_write (replicate DEMO_LENGTH 0) 0 bs) (\<lambda>buf.
            bind_err (c_strlen buf) (\<lambda>_.
            bind_err (mem_read buf 0 (length bs)) (\<lambda>out.
              demo1_routine ch' (snd (snd (sk_write out k)))))))"
  by pat_completeness auto
termination
  by (relation "measure (\<lambda>(ch, k). chan_size ch)") (auto simp: DEMO_LENGTH_def dest: ch_read_size)

declare demo1_routine.simps [simp del]

section \<open>demo2: select and one buffer\<close>

datatype demo_event = DmRecv int bytes | DmSend int bytes | DmClose int

record demo2_state =
  d2_rfds :: "int set"       \<comment> \<open>\<open>rfds_in\<close>\<close>
  d2_wfds :: "int set"       \<comment> \<open>\<open>wfds_in\<close>\<close>
  d2_lastfd :: int
  d2_buffer :: bytes
  d2_ret :: int
  d2_log :: "demo_event list"

record demo2_answers =
  d2a_r :: "int set"         \<comment> \<open>\<open>rfds_out\<close> after \<open>select\<close>\<close>
  d2a_w :: "int set"
  d2a_accept :: int
  d2a_recv :: "int \<Rightarrow> recv_res"
  d2a_send :: "int \<Rightarrow> nat \<Rightarrow> int"

definition FD_MAX :: int where "FD_MAX = 1024"

definition fd_set :: "int \<Rightarrow> int set \<Rightarrow> int set c_res" where
  "fd_set fd S = (if 0 \<le> fd \<and> fd < FD_MAX then Inr (insert fd S) else Inl (OutOfBounds (nat fd)))"

definition demo2_new :: "int \<Rightarrow> demo2_state" where
  "demo2_new listenfd = \<lparr>d2_rfds = {listenfd}, d2_wfds = {}, d2_lastfd = listenfd, d2_buffer = replicate DEMO_LENGTH 0, d2_ret = 0, d2_log = []\<rparr>"

definition demo2_setup :: "int \<Rightarrow> int \<Rightarrow> int + demo2_state" where
  "demo2_setup listenfd bound = (if listenfd = -1 then Inl (-1) else if bound = -1 then Inl (-2) else Inr (demo2_new listenfd))"

definition demo2_accept :: "int \<Rightarrow> demo2_state \<Rightarrow> demo2_state c_res" where
  "demo2_accept clientfd s =
     bind_err (fd_set clientfd (d2_rfds s)) (\<lambda>r.
       Inr (s\<lparr>d2_rfds := r, d2_lastfd := max clientfd (d2_lastfd s)\<rparr>))"

definition demo2_read :: "int \<Rightarrow> recv_res \<Rightarrow> demo2_state \<Rightarrow> demo2_state c_res" where
  "demo2_read fd r s =
     (case r of
        RecvError e \<Rightarrow> Inr (s\<lparr>d2_ret := -1\<rparr>)
      | RecvBytes b \<Rightarrow>
          let bs = take DEMO_LENGTH b in
          if bs = [] then Inr (s\<lparr>d2_ret := 0, d2_rfds := d2_rfds s - {fd}, d2_log := d2_log s @ [DmClose fd]\<rparr>)
          else
            bind_err (mem_write (d2_buffer s) 0 bs) (\<lambda>buf.
            bind_err (c_strlen buf) (\<lambda>_.
            bind_err (fd_set fd (d2_wfds s)) (\<lambda>w.
              Inr (s\<lparr>d2_buffer := buf, d2_ret := int (length bs), d2_wfds := w, d2_log := d2_log s @ [DmRecv fd bs]\<rparr>)))))"

text \<open>A negative \<open>ret\<close> is a length beyond any buffer.\<close>

definition demo2_write :: "int \<Rightarrow> (nat \<Rightarrow> int) \<Rightarrow> demo2_state \<Rightarrow> demo2_state c_res" where
  "demo2_write fd sent s =
     (if d2_ret s < 0 then Inl (OutOfBounds DEMO_LENGTH)
      else
        bind_err (mem_read (d2_buffer s) 0 (nat (d2_ret s))) (\<lambda>bs.
          Inr (s\<lparr>d2_ret := sent (length bs), d2_wfds := d2_wfds s - {fd}, d2_rfds := insert fd (d2_rfds s),
                 d2_log := d2_log s @ [DmSend fd (take (nat (sent (length bs))) bs)]\<rparr>)))"

fun demo2_clients :: "demo2_answers \<Rightarrow> int list \<Rightarrow> demo2_state \<Rightarrow> demo2_state c_res" where
  "demo2_clients a [] s = Inr s"
| "demo2_clients a (fd # fds) s =
     bind_err (if fd \<in> d2a_r a then demo2_read fd (d2a_recv a fd) s
               else if fd \<in> d2a_w a then demo2_write fd (d2a_send a fd) s
               else Inr s)
       (demo2_clients a fds)"

definition demo2_round :: "int \<Rightarrow> demo2_answers \<Rightarrow> demo2_state \<Rightarrow> demo2_state c_res" where
  "demo2_round listenfd a s =
     bind_err (if listenfd \<in> d2a_r a then demo2_accept (d2a_accept a) s else Inr s) (\<lambda>s1.
       demo2_clients a [listenfd + 1 .. d2_lastfd s1] s1)"

text \<open>The answers \<open>select\<close> can give in a state.\<close>

definition demo2_possible :: "demo2_answers \<Rightarrow> demo2_state \<Rightarrow> bool" where
  "demo2_possible a s \<longleftrightarrow> d2a_r a \<subseteq> d2_rfds s \<and> d2a_w a \<subseteq> d2_wfds s \<and> (\<forall>fd n. d2a_send a fd n \<le> int n)"

section \<open>demo3: epoll and one pair of buffers\<close>

definition DEMO3_LENGTH :: nat where "DEMO3_LENGTH = 8192"

record demo3_state =
  d3_rbuffer :: bytes
  d3_wbuffer :: bytes
  d3_interest :: "int \<rightharpoonup> u32"
  d3_log :: "demo_event list"

datatype demo3_event = D3Accept int | D3In int recv_res | D3Out int | D3Other int

definition demo3_new :: "int \<Rightarrow> demo3_state" where
  "demo3_new listenfd = \<lparr>d3_rbuffer = replicate DEMO3_LENGTH 0, d3_wbuffer = replicate DEMO3_LENGTH 0,
     d3_interest = [listenfd \<mapsto> EPOLLIN], d3_log = []\<rparr>"

definition demo3_setup :: "int \<Rightarrow> int \<Rightarrow> int + demo3_state" where
  "demo3_setup listenfd bound = (if listenfd = -1 then Inl (-1) else if bound = -1 then Inl (-2) else Inr (demo3_new listenfd))"

definition EPOLLET :: u32 where "EPOLLET = 0x80000000"

text \<open>One event; the flag says that the inner loop is left by \<open>break\<close>.\<close>

definition demo3_handle :: "demo3_event \<Rightarrow> demo3_state \<Rightarrow> (bool \<times> demo3_state) c_res" where
  "demo3_handle e s =
     (case e of
        D3Accept clientfd \<Rightarrow>
          if clientfd = -1 then Inr (True, s)
          else Inr (False, s\<lparr>d3_interest := (d3_interest s)(clientfd \<mapsto> EPOLLIN OR EPOLLET)\<rparr>)
      | D3In fd r \<Rightarrow>
          (case r of
             RecvError _ \<Rightarrow> Inr (False, s)
           | RecvBytes b \<Rightarrow>
               let bs = take DEMO3_LENGTH b in
               if bs = [] then Inr (False, s)
               else
                 bind_err (mem_write (d3_rbuffer s) 0 bs) (\<lambda>rb.
                 bind_err (c_strlen rb) (\<lambda>_.
                   Inr (False, s\<lparr>d3_rbuffer := rb, d3_wbuffer := rb, d3_interest := (d3_interest s)(fd \<mapsto> EPOLLOUT),
                                 d3_log := d3_log s @ [DmRecv fd bs]\<rparr>))))
      | D3Out fd \<Rightarrow>
          Inr (False, s\<lparr>d3_interest := (d3_interest s)(fd \<mapsto> EPOLLIN), d3_log := d3_log s @ [DmSend fd (d3_wbuffer s)]\<rparr>)
      | D3Other fd \<Rightarrow> Inr (False, s))"

fun demo3_round :: "demo3_event list \<Rightarrow> demo3_state \<Rightarrow> demo3_state c_res" where
  "demo3_round [] s = Inr s"
| "demo3_round (e # es) s =
     bind_err (demo3_handle e s) (\<lambda>(stop, s1). if stop then Inr s1 else demo3_round es s1)"

section \<open>Properties\<close>

lemma c_strlen_has_zero: "0 \<in> set buf \<Longrightarrow> \<exists>n. c_strlen buf = Inr n"
  by (simp add: c_strlen_if)

lemma demo1_piece:
  assumes "bs \<noteq> []" "length bs < DEMO_LENGTH"
  shows "demo1_routine (RecvBytes bs # ch) ([], out) = demo1_routine ch ([], out @ bs)"
proof -
  let ?buf = "bs @ replicate (DEMO_LENGTH - length bs) 0"
  have w: "mem_write (replicate DEMO_LENGTH 0) 0 bs = Inr ?buf" using assms(2) by (simp add: mem_write_def)
  have "0 \<in> set ?buf" using assms(2) by simp
  then obtain n where "c_strlen ?buf = Inr n" using c_strlen_has_zero by blast
  then show ?thesis
    using assms w mem_write_read [OF w]
    by (subst demo1_routine.simps) (simp add: ch_read_def sk_write_def)
qed

text \<open>
  A thread of the first server echoes its connection exactly and closes it at the end, as long as
  each read returns fewer than 128 bytes; a failed read makes it send from beyond its
  buffer, and a failed \<open>accept\<close> gives a thread the descriptor -1.
\<close>

theorem demo1_echo:
  assumes "list_all (\<lambda>bs. bs \<noteq> [] \<and> length bs < DEMO_LENGTH) bss"
  shows "demo1_routine (map RecvBytes bss) ([], out) = Inr (True, ([], out @ concat bss)) \<and>
    demo1_routine (map RecvBytes bss @ [RecvError e]) ([], out) = Inl (OutOfBounds DEMO_LENGTH) \<and>
    (\<exists>s'. mt_start (demo1_accept (-1) True mt_new) = Some s' \<and> mt_serving s' = [-1])"
proof -
  have "demo1_routine (map RecvBytes bss) ([], out) = Inr (True, ([], out @ concat bss)) \<and>
    demo1_routine (map RecvBytes bss @ [RecvError e]) ([], out) = Inl (OutOfBounds DEMO_LENGTH)"
    using assms
  proof (induction bss arbitrary: out)
    case Nil then show ?case by (simp add: demo1_routine.simps ch_read_def)
  next
    case (Cons bs bss) then show ?case by (simp add: demo1_piece)
  qed
  then show ?thesis by (simp add: mt_start_def demo1_accept_def mt_new_def)
qed

theorem demo1_echo_witness:
  "demo1_routine [RecvBytes [1, 2], RecvBytes [3]] ([], []) = Inr (True, ([], [1, 2, 3]))"
  using demo1_echo [of "[[1, 2], [3]]" "[]" 0] by (simp add: DEMO_LENGTH_def)

definition d2_ready :: "int set \<Rightarrow> int set \<Rightarrow> (int \<Rightarrow> recv_res) \<Rightarrow> demo2_answers" where
  "d2_ready r w recv = \<lparr>d2a_r = r, d2a_w = w, d2a_accept = -1, d2a_recv = recv, d2a_send = (\<lambda>_. int)\<rparr>"

lemma demo2_clients_skip:
  "set fds \<inter> (d2a_r a \<union> d2a_w a) = {} \<Longrightarrow> demo2_clients a fds = Inr"
  by (induction fds) (auto intro!: ext)

lemma demo2_clients_append:
  "demo2_clients a (xs @ ys) s = bind_err (demo2_clients a xs s) (demo2_clients a ys)"
proof (induction xs arbitrary: s)
  case (Cons x xs)
  show ?case
    by (cases "if x \<in> d2a_r a then demo2_read x (d2a_recv a x) s else if x \<in> d2a_w a then demo2_write x (d2a_send a x) s else Inr s")
      (simp_all add: Cons)
qed simp

lemma demo2_round_one:
  assumes "l < fd" "fd \<le> d2_lastfd s"
  shows "demo2_round l (d2_ready {fd} {} recv) s = demo2_read fd (recv fd) s"
    and "demo2_round l (d2_ready {} {fd} recv) s = demo2_write fd int s"
proof -
  have u: "[l + 1 .. d2_lastfd s] = [l + 1 .. fd - 1] @ fd # [fd + 1 .. d2_lastfd s]" using assms by (intro upto_split3) simp_all
  have k: "demo2_clients a [l + 1 .. fd - 1] = Inr" "demo2_clients a [fd + 1 .. d2_lastfd s] = Inr" if "d2a_r a \<union> d2a_w a = {fd}" for a
    by (rule demo2_clients_skip, use that in auto)+
  have b: "bind_err m Inr = m" for m :: "demo2_state c_res" by (cases m) simp_all
  show "demo2_round l (d2_ready {fd} {} recv) s = demo2_read fd (recv fd) s"
    and "demo2_round l (d2_ready {} {fd} recv) s = demo2_write fd int s"
    using assms k [of "d2_ready {fd} {} recv"] k [of "d2_ready {} {fd} recv"] b
    by (simp_all add: demo2_round_def u demo2_clients_append d2_ready_def)
qed

lemma demo2_round_two:
  assumes "l < fd" "fd < fd'" "fd' \<le> d2_lastfd s"
  shows "demo2_round l (d2_ready {fd, fd'} {} recv) s = bind_err (demo2_read fd (recv fd) s) (demo2_read fd' (recv fd'))"
    and "demo2_round l (d2_ready {} {fd, fd'} recv) s = bind_err (demo2_write fd int s) (demo2_write fd' int)"
proof -
  have "[l + 1 .. d2_lastfd s] = [l + 1 .. fd - 1] @ fd # [fd + 1 .. d2_lastfd s]"
    "[fd + 1 .. d2_lastfd s] = [fd + 1 .. fd' - 1] @ fd' # [fd' + 1 .. d2_lastfd s]"
    using assms by (intro upto_split3; simp)+
  then have u: "[l + 1 .. d2_lastfd s] = [l + 1 .. fd - 1] @ fd # [fd + 1 .. fd' - 1] @ fd' # [fd' + 1 .. d2_lastfd s]" by simp
  have k: "demo2_clients a [l + 1 .. fd - 1] = Inr" "demo2_clients a [fd + 1 .. fd' - 1] = Inr" "demo2_clients a [fd' + 1 .. d2_lastfd s] = Inr"
    if "d2a_r a \<union> d2a_w a = {fd, fd'}" for a
    by (rule demo2_clients_skip, use that assms(2) in auto)+
  have b: "bind_err m Inr = m" for m :: "demo2_state c_res" by (cases m) simp_all
  note d = demo2_round_def u demo2_clients_append d2_ready_def
  show "demo2_round l (d2_ready {fd, fd'} {} recv) s = bind_err (demo2_read fd (recv fd) s) (demo2_read fd' (recv fd'))"
    using assms k [of "d2_ready {fd, fd'} {} recv"] b by (cases "demo2_read fd (recv fd) s") (simp_all add: d)
  show "demo2_round l (d2_ready {} {fd, fd'} recv) s = bind_err (demo2_write fd int s) (demo2_write fd' int)"
    using assms k [of "d2_ready {} {fd, fd'} recv"] b by (cases "demo2_write fd int s") (simp_all add: d)
qed

lemma demo2_read_ok:
  assumes "bs \<noteq> []" "length bs \<le> DEMO_LENGTH" "length (d2_buffer s) = DEMO_LENGTH" "0 \<in> set (drop (length bs) (d2_buffer s))"
    and "0 \<le> fd" "fd < 1024"
  shows "demo2_read fd (RecvBytes bs) s = Inr (s\<lparr>d2_buffer := bs @ drop (length bs) (d2_buffer s), d2_ret := int (length bs),
    d2_wfds := insert fd (d2_wfds s), d2_log := d2_log s @ [DmRecv fd bs]\<rparr>)"
proof -
  have "mem_write (d2_buffer s) 0 bs = Inr (bs @ drop (length bs) (d2_buffer s))" using assms(2,3) by (simp add: mem_write_def)
  moreover obtain n where "c_strlen (bs @ drop (length bs) (d2_buffer s)) = Inr n"
    using c_strlen_has_zero [of "bs @ drop (length bs) (d2_buffer s)"] assms(4) by auto
  ultimately show ?thesis using assms(1,2,5,6) by (simp add: demo2_read_def fd_set_def FD_MAX_def)
qed

text \<open>
  The select server has one buffer for all clients. A client that is alone in two rounds, one
  read and one write, gets back exactly what it sent. When two clients are ready
  in the same rounds, the first one gets back what the second one sent.
\<close>

theorem demo2_shared_buffer:
  assumes "0 \<le> l" "l < fd" "fd < fd'" "fd' \<le> d2_lastfd s" "fd' < 1024" "length (d2_buffer s) = DEMO_LENGTH"
    and "bs \<noteq> []" "0 \<in> set (drop (length bs) (d2_buffer s))" "0 \<in> set (drop 1 (d2_buffer s))"
  shows "(\<exists>s1 s2. demo2_round l (d2_ready {fd} {} (\<lambda>_. RecvBytes bs)) s = Inr s1 \<and>
      demo2_round l (d2_ready {} {fd} r) s1 = Inr s2 \<and> d2_log s2 = d2_log s @ [DmRecv fd bs, DmSend fd bs]) \<and>
    (\<exists>s1 s2. demo2_round l (d2_ready {fd, fd'} {} (\<lambda>x. RecvBytes (if x = fd then [b] else [c]))) s = Inr s1 \<and>
      demo2_round l (d2_ready {} {fd, fd'} r) s1 = Inr s2 \<and>
      d2_log s2 = d2_log s @ [DmRecv fd [b], DmRecv fd' [c], DmSend fd [c], DmSend fd' [c]])"
proof -
  have len: "length bs \<le> DEMO_LENGTH" using assms(6,8) by (cases "length bs \<le> length (d2_buffer s)") auto
  have f: "0 \<le> fd" "fd \<le> d2_lastfd s" "fd < 1024" "0 \<le> fd'" using assms(1-5) by simp_all
  let ?s1 = "s\<lparr>d2_buffer := bs @ drop (length bs) (d2_buffer s), d2_ret := int (length bs),
    d2_wfds := insert fd (d2_wfds s), d2_log := d2_log s @ [DmRecv fd bs]\<rparr>"
  have r1: "demo2_round l (d2_ready {fd} {} (\<lambda>_. RecvBytes bs)) s = Inr ?s1"
    using demo2_round_one(1) [OF assms(2) f(2)] demo2_read_ok [OF assms(7) len assms(6,8) f(1,3)] by simp
  have "mem_read (bs @ drop (length bs) (d2_buffer s)) 0 (length bs) = Inr bs"
    using mem_read_mid [of "length bs" bs "[]" "drop (length bs) (d2_buffer s)"] by simp
  then have "\<exists>s2. demo2_round l (d2_ready {} {fd} r) ?s1 = Inr s2 \<and> d2_log s2 = d2_log s @ [DmRecv fd bs, DmSend fd bs]"
    using demo2_round_one(2) [OF assms(2), of ?s1 r] f(2) by (simp add: demo2_write_def)
  moreover have "\<exists>s1 s2. demo2_round l (d2_ready {fd, fd'} {} (\<lambda>x. RecvBytes (if x = fd then [b] else [c]))) s = Inr s1 \<and>
      demo2_round l (d2_ready {} {fd, fd'} r) s1 = Inr s2 \<and>
      d2_log s2 = d2_log s @ [DmRecv fd [b], DmRecv fd' [c], DmSend fd [c], DmSend fd' [c]]"
  proof -
    let ?t1 = "s\<lparr>d2_buffer := [b] @ drop 1 (d2_buffer s), d2_ret := 1, d2_wfds := insert fd (d2_wfds s), d2_log := d2_log s @ [DmRecv fd [b]]\<rparr>"
    let ?t2 = "?t1\<lparr>d2_buffer := [c] @ drop 1 (d2_buffer s), d2_ret := 1, d2_wfds := insert fd' (d2_wfds ?t1), d2_log := d2_log ?t1 @ [DmRecv fd' [c]]\<rparr>"
    have "demo2_read fd (RecvBytes [b]) s = Inr ?t1"
      using demo2_read_ok [of "[b]" s fd] assms(6,9) f(1,3) by (simp add: DEMO_LENGTH_def)
    moreover have "demo2_read fd' (RecvBytes [c]) ?t1 = Inr ?t2"
      using demo2_read_ok [of "[c]" ?t1 fd'] assms(5,6,9) f(4) by (simp add: DEMO_LENGTH_def)
    ultimately have "demo2_round l (d2_ready {fd, fd'} {} (\<lambda>x. RecvBytes (if x = fd then [b] else [c]))) s = Inr ?t2"
      using demo2_round_two(1) [OF assms(2-4)] assms(3) by simp
    moreover have "\<exists>s2. demo2_round l (d2_ready {} {fd, fd'} r) ?t2 = Inr s2 \<and>
        d2_log s2 = d2_log s @ [DmRecv fd [b], DmRecv fd' [c], DmSend fd [c], DmSend fd' [c]]"
      using demo2_round_two(2) [OF assms(2,3), of ?t2 r] assms(4,6) by (simp add: demo2_write_def mem_read_def DEMO_LENGTH_def)
    ultimately show ?thesis by blast
  qed
  ultimately show ?thesis using r1 by blast
qed

theorem demo2_shared_buffer_witness:
  "\<exists>s1 s2. demo2_round 3 (d2_ready {4, 5} {} (\<lambda>x. RecvBytes (if x = 4 then [1] else [2]))) ((demo2_new 3)\<lparr>d2_lastfd := 5\<rparr>) = Inr s1 \<and>
     demo2_round 3 (d2_ready {} {4, 5} (\<lambda>_. RecvBytes [])) s1 = Inr s2 \<and>
     d2_log s2 = [DmRecv 4 [1], DmRecv 5 [2], DmSend 4 [2], DmSend 5 [2]]"
  using demo2_shared_buffer [of 3 4 5 "(demo2_new 3)\<lparr>d2_lastfd := 5\<rparr>" "[1]" "\<lambda>_. RecvBytes []" 1 2]
  by (simp add: demo2_new_def DEMO_LENGTH_def)

text \<open>
  The epoll server sends its whole buffer of 8192 bytes, the received bytes and whatever was
  behind them, to the client whose write event comes next, whoever sent them; and the end of a
  connection changes nothing: the descriptor is neither closed nor deregistered.
\<close>

theorem demo3_shared_buffer:
  assumes "length (d3_rbuffer s) = DEMO3_LENGTH" "bs \<noteq> []" "0 \<in> set (drop (length bs) (d3_rbuffer s))"
  shows "(\<exists>s1. demo3_round [D3In fd (RecvBytes bs), D3Out fd'] s = Inr s1 \<and>
      d3_log s1 = d3_log s @ [DmRecv fd bs, DmSend fd' (bs @ drop (length bs) (d3_rbuffer s))] \<and>
      length (bs @ drop (length bs) (d3_rbuffer s)) = DEMO3_LENGTH) \<and>
    demo3_round [D3In fd (RecvBytes [])] s = Inr s \<and> demo3_round [D3In fd (RecvError e)] s = Inr s"
proof -
  have len: "length bs \<le> DEMO3_LENGTH" using assms(1,3) by (cases "length bs \<le> length (d3_rbuffer s)") auto
  have w: "mem_write (d3_rbuffer s) 0 bs = Inr (bs @ drop (length bs) (d3_rbuffer s))" using len assms(1) by (simp add: mem_write_def)
  obtain n where "c_strlen (bs @ drop (length bs) (d3_rbuffer s)) = Inr n"
    using c_strlen_has_zero [of "bs @ drop (length bs) (d3_rbuffer s)"] assms(3) by auto
  then show ?thesis using w len assms(1,2) by (simp add: demo3_handle_def DEMO3_LENGTH_def)
qed

theorem demo3_shared_buffer_witness:
  "\<exists>s1. demo3_round [D3In 5 (RecvBytes [1]), D3Out 6] (demo3_new 3) = Inr s1 \<and>
     d3_log s1 = [DmRecv 5 [1], DmSend 6 ([1] @ drop 1 (replicate DEMO3_LENGTH 0))]"
proof -
  have "length (d3_rbuffer (demo3_new 3)) = DEMO3_LENGTH" "0 \<in> set (drop 1 (d3_rbuffer (demo3_new 3)))"
    by (simp_all add: demo3_new_def DEMO3_LENGTH_def)
  from demo3_shared_buffer [of "demo3_new 3" "[1]" 5 6 0] this show ?thesis by (auto simp: demo3_new_def)
qed

end
