(* ===== verification/SockSetup.thy ===== *)
theory SockSetup
  imports Errors
begin

text \<open>
  Opening sockets: the loops over the addresses of \<open>getaddrinfo\<close> in \<open>tcp_connect.c\<close>,
  \<open>tcp_listen.c\<close>, \<open>udp_connect.c\<close>, \<open>udp_server.c\<close>, \<open>udp_client.c\<close> and \<open>host_serv.c\<close>, and connecting
  with a time limit in \<open>connect_nonb.c\<close>, \<open>connect_timeo.c\<close>, \<open>readable_timeo.c\<close> and
  \<open>writable_timeo.c\<close>, all of \<open>src/basic_lib/\<close>. The answers of the kernel to the calls made for
  the i-th address are functions of i; \<open>getaddrinfo\<close> gives an error code or a list.
\<close>

section \<open>Trying the addresses in turn\<close>

record addrinfo =
  ai_family :: int
  ai_socktype :: int
  ai_protocol :: int
  ai_addr :: bytes

record net_env =
  ne_socket :: "nat \<Rightarrow> int"
  ne_setopt :: "nat \<Rightarrow> int"
  ne_attempt :: "nat \<Rightarrow> int"      \<comment> \<open>\<open>connect\<close> or \<open>bind\<close>\<close>
  ne_close :: "nat \<Rightarrow> int"
  ne_listen :: int
  ne_malloc :: bool

datatype net_op = NSocket int addrinfo | NReuse int | NTry int bytes | NClose int | NListen int | NFreeaddrinfo

text \<open>
  The \<open>do ... while\<close> loop, shared by four functions; \<open>reuse\<close> is the call of \<open>Setsockopt\<close> that only
  \<open>tcp_listen\<close> makes. The result is the descriptor and the address at which the loop was left, or
  none; \<open>Setsockopt\<close> and \<open>Close\<close> end the process when they fail.
\<close>

fun try_addrs ::
    "bool \<Rightarrow> net_env \<Rightarrow> nat \<Rightarrow> addrinfo list \<Rightarrow> net_op list \<Rightarrow> (int \<times> addrinfo) option exitable \<times> net_op list" where
  "try_addrs reuse env i [] ops = (Returned None, ops)"
| "try_addrs reuse env i (a # as) ops =
     (let sockfd = ne_socket env i in
      if sockfd < 0 then try_addrs reuse env (i + 1) as ops
      else
        let ops1 = ops @ [NSocket sockfd a] @ (if reuse then [NReuse sockfd] else []) in
        if reuse \<and> ne_setopt env i < 0 then (Exited 1, ops1)
        else
          let ops2 = ops1 @ [NTry sockfd (ai_addr a)] in
          if ne_attempt env i = 0 then (Returned (Some (sockfd, a)), ops2)
          else if ne_close env i < 0 then (Exited 1, ops2)
          else try_addrs reuse env (i + 1) as (ops2 @ [NClose sockfd]))"

text \<open>Before and after the loop. The first round reads the first element, which is there by the contract of \<open>getaddrinfo\<close>.\<close>

definition search_addrs ::
    "bool \<Rightarrow> net_env \<Rightarrow> int + addrinfo list \<Rightarrow> ((int \<times> addrinfo) exitable \<times> net_op list) c_res" where
  "search_addrs reuse env gai =
     (case gai of
        Inl n \<Rightarrow> Inr (Exited 1, [])
      | Inr as \<Rightarrow>
          if as = [] then Inl NullDeref
          else
            case try_addrs reuse env 0 as [] of
              (Exited c, ops) \<Rightarrow> Inr (Exited c, ops)
            | (Returned None, ops) \<Rightarrow> Inr (Exited 1, ops)
            | (Returned (Some r), ops) \<Rightarrow> Inr (Returned r, ops))"

definition tcp_connect :: "net_env \<Rightarrow> int + addrinfo list \<Rightarrow> (int exitable \<times> net_op list) c_res" where
  "tcp_connect env gai = bind_exit (search_addrs False env gai) (\<lambda>(sockfd, a) ops. Inr (Returned sockfd, ops @ [NFreeaddrinfo]))"

definition udp_connect :: "net_env \<Rightarrow> int + addrinfo list \<Rightarrow> (int exitable \<times> net_op list) c_res" where
  "udp_connect env gai = bind_exit (search_addrs False env gai) (\<lambda>(sockfd, a) ops. Inr (Returned sockfd, ops @ [NFreeaddrinfo]))"

text \<open>
  The wrapper \<open>Tcp_connect\<close> only calls; \<open>Udp_connect\<close> ends the process on a negative descriptor, which
  \<open>udp_connect\<close> never returns.
\<close>

definition Tcp_connect :: "net_env \<Rightarrow> int + addrinfo list \<Rightarrow> (int exitable \<times> net_op list) c_res" where
  "Tcp_connect env gai = tcp_connect env gai"

definition Udp_connect :: "net_env \<Rightarrow> int + addrinfo list \<Rightarrow> (int exitable \<times> net_op list) c_res" where
  "Udp_connect env gai =
     bind_exit (udp_connect env gai) (\<lambda>n ops. if n < 0 then Inr (Exited 1, ops) else Inr (Returned n, ops))"

text \<open>The size of the address is returned as well.\<close>

definition tcp_listen :: "net_env \<Rightarrow> int + addrinfo list \<Rightarrow> ((int \<times> nat) exitable \<times> net_op list) c_res" where
  "tcp_listen env gai =
     bind_exit (search_addrs True env gai) (\<lambda>(listenfd, a) ops.
       if ne_listen env < 0 then Inr (Exited 1, ops @ [NListen listenfd])
       else Inr (Returned (listenfd, length (ai_addr a)), ops @ [NListen listenfd, NFreeaddrinfo]))"

definition udp_server :: "net_env \<Rightarrow> int + addrinfo list \<Rightarrow> ((int \<times> nat) exitable \<times> net_op list) c_res" where
  "udp_server env gai =
     bind_exit (search_addrs False env gai) (\<lambda>(sockfd, a) ops. Inr (Returned (sockfd, length (ai_addr a)), ops @ [NFreeaddrinfo]))"

definition Tcp_listen :: "net_env \<Rightarrow> int + addrinfo list \<Rightarrow> ((int \<times> nat) exitable \<times> net_op list) c_res" where
  "Tcp_listen env gai = tcp_listen env gai"

definition Udp_server :: "net_env \<Rightarrow> int + addrinfo list \<Rightarrow> ((int \<times> nat) exitable \<times> net_op list) c_res" where
  "Udp_server env gai = udp_server env gai"

text \<open>\<open>udp_client\<close> only opens a socket; it returns a copy of the address.\<close>

fun first_socket :: "net_env \<Rightarrow> nat \<Rightarrow> addrinfo list \<Rightarrow> (int \<times> addrinfo) option" where
  "first_socket env i [] = None"
| "first_socket env i (a # as) =
     (if 0 \<le> ne_socket env i then Some (ne_socket env i, a) else first_socket env (i + 1) as)"

definition udp_client :: "net_env \<Rightarrow> int + addrinfo list \<Rightarrow> ((int \<times> bytes) exitable \<times> net_op list) c_res" where
  "udp_client env gai =
     (case gai of
        Inl n \<Rightarrow> Inr (Exited 1, [])
      | Inr as \<Rightarrow>
          if as = [] then Inl NullDeref
          else
            case first_socket env 0 as of
              None \<Rightarrow> Inr (Exited 1, [])
            | Some (sockfd, a) \<Rightarrow>
                if \<not> ne_malloc env then Inr (Exited 1, [NSocket sockfd a])
                else Inr (Returned (sockfd, ai_addr a), [NSocket sockfd a, NFreeaddrinfo]))"

definition Udp_client :: "net_env \<Rightarrow> int + addrinfo list \<Rightarrow> ((int \<times> bytes) exitable \<times> net_op list) c_res" where
  "Udp_client env gai = udp_client env gai"

definition host_serv :: "int + addrinfo list \<Rightarrow> addrinfo list option" where
  "host_serv gai = (case gai of Inl n \<Rightarrow> None | Inr as \<Rightarrow> Some as)"

definition Host_serv :: "int + addrinfo list \<Rightarrow> addrinfo list exitable" where
  "Host_serv gai = (case gai of Inl n \<Rightarrow> Exited 1 | Inr as \<Rightarrow> Returned as)"

text \<open>The descriptors open after a sequence of operations.\<close>

fun open_after :: "net_op list \<Rightarrow> int set \<Rightarrow> int set" where
  "open_after [] F = F"
| "open_after (NSocket fd a # ops) F = open_after ops (insert fd F)"
| "open_after (NClose fd # ops) F = open_after ops (F - {fd})"
| "open_after (_ # ops) F = open_after ops F"

lemma open_after_append: "open_after (ops @ ops') F = open_after ops' (open_after ops F)"
  by (induction ops F rule: open_after.induct) auto

definition usable :: "net_env \<Rightarrow> nat \<Rightarrow> bool" where
  "usable env i \<longleftrightarrow> 0 \<le> ne_socket env i \<and> ne_attempt env i = 0"

fun first_usable :: "net_env \<Rightarrow> nat \<Rightarrow> addrinfo list \<Rightarrow> (nat \<times> addrinfo) option" where
  "first_usable env i [] = None"
| "first_usable env i (a # as) = (if usable env i then Some (i, a) else first_usable env (i + 1) as)"

lemma first_usable_least:
  "first_usable env i as = Some (j, a) \<Longrightarrow>
   i \<le> j \<and> j < i + length as \<and> a = as ! (j - i) \<and> usable env j \<and> (\<forall>k. i \<le> k \<and> k < j \<longrightarrow> \<not> usable env k)"
proof (induction env i as rule: first_usable.induct)
  case (1 env i) then show ?case by simp
next
  case (2 env i a' as)
  show ?case
  proof (cases "usable env i")
    case True then show ?thesis using 2(2) by auto
  next
    case False
    then have ih: "i + 1 \<le> j" "j < i + 1 + length as" "a = as ! (j - (i + 1))" "usable env j"
        "\<forall>k. i + 1 \<le> k \<and> k < j \<longrightarrow> \<not> usable env k" using 2 by auto
    then have "j - i = Suc (j - (i + 1))" by simp
    moreover have "\<not> usable env k" if "i \<le> k" "k < j" for k using ih(5) False that by (cases "k = i") auto
    ultimately show ?thesis using ih by simp
  qed
qed

definition calm :: "net_env \<Rightarrow> bool" where
  "calm env \<longleftrightarrow> (\<forall>i. 0 \<le> ne_setopt env i) \<and> (\<forall>i. 0 \<le> ne_close env i)"

text \<open>The loop leaves no negative descriptor, so that the test of \<open>Udp_connect\<close> never succeeds, whatever the system returns.\<close>

lemma try_addrs_nonneg: "try_addrs reuse env i as ops = (Returned (Some (fd, a)), ops') \<Longrightarrow> 0 \<le> fd"
  by (induction reuse env i as ops rule: try_addrs.induct) (auto simp: Let_def split: if_splits)

lemma Udp_connect_eq: "Udp_connect env gai = udp_connect env gai"
proof (cases "search_addrs False env gai")
  case (Inr p)
  have "0 \<le> fd" if "p = (Returned (fd, a), ops)" for fd a ops
    using Inr that
    by (auto simp: search_addrs_def split: sum.splits if_splits prod.splits exitable.splits option.splits
        dest: try_addrs_nonneg)
  then show ?thesis using Inr
    by (cases p; cases "fst p") (auto simp: Udp_connect_def udp_connect_def)
qed (simp add: Udp_connect_def udp_connect_def)

lemma try_addrs_ok:
  assumes "calm env"
  shows "\<exists>ops'. try_addrs reuse env i as ops =
      (Returned (case first_usable env i as of None \<Rightarrow> None | Some (j, a) \<Rightarrow> Some (ne_socket env j, a)), ops') \<and>
      (open_after ops F = {} \<longrightarrow> open_after ops' F =
        (case first_usable env i as of None \<Rightarrow> {} | Some (j, a) \<Rightarrow> {ne_socket env j}))"
proof (induction as arbitrary: i ops)
  case Nil then show ?case by simp
next
  case (Cons a as)
  have c: "\<not> ne_setopt env i < 0" "\<not> ne_close env i < 0" using assms by (simp_all add: calm_def not_less)
  let ?fd = "ne_socket env i"
  consider "?fd < 0" | "0 \<le> ?fd" "ne_attempt env i = 0" | "0 \<le> ?fd" "ne_attempt env i \<noteq> 0" by force
  then show ?case
  proof cases
    case 1 then show ?thesis using Cons [of "i + 1" ops] by (simp add: usable_def)
  next
    case 2 then show ?thesis using c by (simp add: usable_def Let_def open_after_append)
  next
    case 3
    let ?ops = "ops @ NSocket ?fd a # (if reuse then [NReuse ?fd] else []) @ [NTry ?fd (ai_addr a), NClose ?fd]"
    have "open_after ?ops F = {}" if "open_after ops F = {}" using that by (simp add: open_after_append)
    then show ?thesis using Cons [of "i + 1" ?ops] 3 c by (cases reuse) (auto simp: usable_def Let_def)
  qed
qed

text \<open>
  C27. The address loops of \<open>tcp_connect\<close>, \<open>udp_connect\<close>, \<open>tcp_listen\<close> and \<open>udp_server\<close>, on a
  non-empty list and with \<open>close\<close> and \<open>setsockopt\<close> succeeding: the first address for which a
  socket can be opened and connected (bound) is taken, its descriptor is returned and is the only
  one left open; when there is none, the process ends and no descriptor is left open.
\<close>

theorem address_search_correct:
  assumes "calm env" "as \<noteq> []" "0 \<le> ne_listen env"
  shows "case first_usable env 0 as of
      None \<Rightarrow>
        \<exists>ops opsl. tcp_connect env (Inr as) = Inr (Exited 1, ops) \<and> udp_connect env (Inr as) = Inr (Exited 1, ops) \<and>
          udp_server env (Inr as) = Inr (Exited 1, ops) \<and> tcp_listen env (Inr as) = Inr (Exited 1, opsl) \<and>
          open_after ops {} = {} \<and> open_after opsl {} = {}
    | Some (j, a) \<Rightarrow>
        \<exists>ops opsl. tcp_connect env (Inr as) = Inr (Returned (ne_socket env j), ops) \<and>
          udp_connect env (Inr as) = Inr (Returned (ne_socket env j), ops) \<and>
          udp_server env (Inr as) = Inr (Returned (ne_socket env j, length (ai_addr a)), ops) \<and>
          tcp_listen env (Inr as) = Inr (Returned (ne_socket env j, length (ai_addr a)), opsl) \<and>
          open_after ops {} = {ne_socket env j} \<and> open_after opsl {} = {ne_socket env j} \<and>
          usable env j \<and> a = as ! j \<and> (\<forall>k<j. \<not> usable env k)"
proof -
  obtain ops where o: "try_addrs False env 0 as [] =
      (Returned (case first_usable env 0 as of None \<Rightarrow> None | Some (j, a) \<Rightarrow> Some (ne_socket env j, a)), ops)"
    "open_after ops {} = (case first_usable env 0 as of None \<Rightarrow> {} | Some (j, a) \<Rightarrow> {ne_socket env j})"
    using try_addrs_ok [OF assms(1), of False 0 as "[]" "{}"] by auto
  obtain opsl where l: "try_addrs True env 0 as [] =
      (Returned (case first_usable env 0 as of None \<Rightarrow> None | Some (j, a) \<Rightarrow> Some (ne_socket env j, a)), opsl)"
    "open_after opsl {} = (case first_usable env 0 as of None \<Rightarrow> {} | Some (j, a) \<Rightarrow> {ne_socket env j})"
    using try_addrs_ok [OF assms(1), of True 0 as "[]" "{}"] by auto
  note defs = tcp_connect_def udp_connect_def udp_server_def tcp_listen_def search_addrs_def open_after_append
  show ?thesis
  proof (cases "first_usable env 0 as")
    case None then show ?thesis using o l assms(2) by (simp add: defs)
  next
    case (Some p)
    obtain j a where p: "p = (j, a)" by (cases p)
    have "usable env j \<and> a = as ! j \<and> (\<forall>k<j. \<not> usable env k)"
      using first_usable_least [of env 0 as j a] Some p by simp
    then show ?thesis using o l assms(2,3) Some p by (simp add: defs)
  qed
qed

definition net_demo :: net_env where
  "net_demo = \<lparr>ne_socket = (\<lambda>i. if i = 0 then -1 else int i + 3), ne_setopt = (\<lambda>_. 0), ne_attempt = (\<lambda>i. if i = 2 then 0 else -1),
     ne_close = (\<lambda>_. 0), ne_listen = 0, ne_malloc = True\<rparr>"

theorem address_search_correct_witness:
  "\<exists>ops. tcp_connect net_demo (Inr (replicate 3 \<lparr>ai_family = 2, ai_socktype = 1, ai_protocol = 0, ai_addr = [1]\<rparr>)) = Inr (Returned 5, ops) \<and>
     open_after ops {} = {5}"
proof -
  let ?as = "replicate 3 \<lparr>ai_family = 2, ai_socktype = 1, ai_protocol = 0, ai_addr = [1]\<rparr>"
  have f: "first_usable net_demo 0 ?as = Some (2, \<lparr>ai_family = 2, ai_socktype = 1, ai_protocol = 0, ai_addr = [1]\<rparr>)"
    by (simp add: numeral_3_eq_3 net_demo_def usable_def)
  have "calm net_demo" "?as \<noteq> []" "0 \<le> ne_listen net_demo" by (simp_all add: calm_def net_demo_def)
  from address_search_correct [OF this] f show ?thesis by (auto simp: net_demo_def)
qed

section \<open>Connecting with a time limit\<close>

definition ETIMEDOUT :: int where "ETIMEDOUT = 110"
definition EINPROGRESS :: int where "EINPROGRESS = 115"
definition NONBLOCK :: int where "NONBLOCK = 2048"

record nb_env =
  nb_getfl :: int            \<comment> \<open>the flags, or a negative error, of \<open>fcntl(F_GETFL)\<close>\<close>
  nb_setfl :: "nat \<Rightarrow> int"     \<comment> \<open>the answers of the calls of \<open>fcntl(F_SETFL)\<close>\<close>
  nb_connect :: int
  nb_errno :: int
  nb_select :: int
  nb_readable :: bool
  nb_writable :: bool
  nb_getopt :: int
  nb_soerror :: int

record nb_sock =
  so_flags :: int
  so_open :: bool
  so_errno :: int

text \<open>
  \<open>Fcntl\<close> and \<open>Select\<close> end the process when they fail. \<open>FD_SET\<close> does not check its descriptor: one that a
  \<open>fd_set\<close> has no bit for leaves the set.
\<close>

definition fd_set_bits :: int where "fd_set_bits = 1024"

definition connect_nonb :: "int \<Rightarrow> nb_env \<Rightarrow> nb_sock \<Rightarrow> (int exitable \<times> nb_sock) c_res" where
  "connect_nonb sockfd env s =
     (let flags = nb_getfl env in
      if flags < 0 then Inr (Exited 1, s)
      else if nb_setfl env 0 < 0 then Inr (Exited 1, s)
      else
        let s1 = s\<lparr>so_flags := flags OR NONBLOCK\<rparr>;
            n = nb_connect env in
        if n < 0 \<and> nb_errno env \<noteq> EINPROGRESS then Inr (Returned (-1), s1\<lparr>so_errno := nb_errno env\<rparr>)
        else
          let finish = (\<lambda>err s2.
                if nb_setfl env 1 < 0 then (Exited 1, s2)
                else
                  let s3 = s2\<lparr>so_flags := flags\<rparr> in
                  if err \<noteq> 0 then (Returned (-1), s3\<lparr>so_open := False, so_errno := err\<rparr>)
                  else (Returned 0, s3)) in
          if n = 0 then Inr (finish 0 s1)
          else if fd_set_bits \<le> sockfd then Inl (OutOfBounds (nat sockfd))
          else if nb_select env < 0 then Inr (Exited 1, s1)
          else if nb_select env = 0 then Inr (Returned (-1), s1\<lparr>so_open := False, so_errno := ETIMEDOUT\<rparr>)
          else if nb_readable env \<or> nb_writable env then
            Inr (if nb_getopt env < 0 then (Returned (-1), s1) else finish (nb_soerror env) s1)
          else Inr (Exited 1, s1))"

text \<open>\<open>connect_timeo\<close>: the handler of the alarm signal and the alarm are the state around \<open>connect\<close>.\<close>

record alarm_state =
  al_handler :: int
  al_seconds :: int
  al_msgs :: nat
  al_open :: bool
  al_errno :: int

definition EINTR_TIMEO :: int where "EINTR_TIMEO = 4"

definition connect_alarm_handler :: int where "connect_alarm_handler = 1"

definition connect_timeo :: "int \<Rightarrow> int \<Rightarrow> int \<Rightarrow> alarm_state \<Rightarrow> int \<times> alarm_state" where
  "connect_timeo connected errno nsec s =
     (let sigfunc = al_handler s;
          s1 = s\<lparr>al_handler := connect_alarm_handler, al_seconds := nsec,
                 al_msgs := al_msgs s + (if al_seconds s \<noteq> 0 then 1 else 0)\<rparr>;
          s2 = (if connected < 0
                then s1\<lparr>al_open := False, al_errno := (if errno = EINTR_TIMEO then ETIMEDOUT else errno)\<rparr>
                else s1) in
      (connected, s2\<lparr>al_seconds := 0, al_handler := sigfunc\<rparr>))"

definition Connect_timeo :: "int \<Rightarrow> int \<Rightarrow> int \<Rightarrow> alarm_state \<Rightarrow> unit exitable \<times> alarm_state" where
  "Connect_timeo connected errno nsec s =
     (case connect_timeo connected errno nsec s of (n, s') \<Rightarrow> (if n < 0 then Exited 1 else Returned (), s'))"

text \<open>Waiting on one descriptor: the arguments of \<open>select\<close> (width, read set, write set, seconds) and its answer.\<close>

definition readable_timeo :: "(nat \<Rightarrow> int set \<Rightarrow> int set \<Rightarrow> int \<Rightarrow> int) \<Rightarrow> int \<Rightarrow> int \<Rightarrow> int" where
  "readable_timeo select fd sec = select (nat (fd + 1)) {fd} {} sec"

definition Readable_timeo :: "(nat \<Rightarrow> int set \<Rightarrow> int set \<Rightarrow> int \<Rightarrow> int) \<Rightarrow> int \<Rightarrow> int \<Rightarrow> int exitable" where
  "Readable_timeo select fd sec = (let n = readable_timeo select fd sec in if n < 0 then Exited 1 else Returned n)"

definition writable_timeo :: "(nat \<Rightarrow> int set \<Rightarrow> int set \<Rightarrow> int \<Rightarrow> int) \<Rightarrow> int \<Rightarrow> int \<Rightarrow> int" where
  "writable_timeo select fd sec = select (nat (fd + 1)) {} {fd} sec"

definition Writable_timeo :: "(nat \<Rightarrow> int set \<Rightarrow> int set \<Rightarrow> int \<Rightarrow> int) \<Rightarrow> int \<Rightarrow> int \<Rightarrow> int exitable" where
  "Writable_timeo select fd sec = (let n = writable_timeo select fd sec in if n < 0 then Exited 1 else Returned n)"

text \<open>
  C28. \<open>connect_nonb\<close> on an open socket with flags \<open>fl\<close>: it returns 0 exactly when the connection
  was made, at once or in time and without a pending error, and then the flags are restored and
  the socket is open. When it returns -1 the error number is set; after a time-out or a pending
  error the socket is closed, but after an immediate failure of \<open>connect\<close> it is left open and
  non-blocking. The one other case is a descriptor of 1024 or more whose connection is in progress: \<open>FD_SET\<close> leaves the descriptor set.
\<close>

theorem connect_nonb_correct:
  assumes "nb_getfl env = fl" "0 \<le> fl" "\<forall>i. 0 \<le> nb_setfl env i" "so_open s" "so_flags s = fl" "0 \<le> nb_select env"
    and "nb_readable env \<or> nb_writable env \<longleftrightarrow> 0 < nb_select env" "0 \<le> nb_getopt env" "nb_connect env \<in> {-1, 0}"
  defines "made \<equiv> nb_connect env = 0 \<or> nb_errno env = EINPROGRESS \<and> 0 < nb_select env \<and> nb_soerror env = 0"
  shows "if nb_connect env = -1 \<and> nb_errno env = EINPROGRESS \<and> 1024 \<le> sockfd
    then connect_nonb sockfd env s = Inl (OutOfBounds (nat sockfd))
    else (\<exists>r t. connect_nonb sockfd env s = Inr (r, t) \<and>
      (r = Returned 0 \<longleftrightarrow> made) \<and> (r = Returned (-1) \<longleftrightarrow> \<not> made) \<and>
      (made \<longrightarrow> t = s) \<and>
      (\<not> made \<and> nb_errno env = EINPROGRESS \<longrightarrow> \<not> so_open t \<and>
         so_errno t = (if nb_select env = 0 then ETIMEDOUT else nb_soerror env)) \<and>
      (\<not> made \<and> nb_errno env \<noteq> EINPROGRESS \<longrightarrow> t = s\<lparr>so_flags := fl OR NONBLOCK, so_errno := nb_errno env\<rparr>))"
proof -
  have f: "\<not> nb_setfl env 0 < 0" "\<not> nb_setfl env 1 < 0" using assms(3) by (simp_all add: not_less)
  have s: "s\<lparr>so_flags := fl\<rparr> = s" using assms(5) by (cases s) simp
  consider "nb_connect env = 0" | "nb_connect env = -1" "nb_errno env \<noteq> EINPROGRESS"
    | "nb_connect env = -1" "nb_errno env = EINPROGRESS" "nb_select env = 0"
    | "nb_connect env = -1" "nb_errno env = EINPROGRESS" "0 < nb_select env" "nb_soerror env = 0"
    | "nb_connect env = -1" "nb_errno env = EINPROGRESS" "0 < nb_select env" "nb_soerror env \<noteq> 0"
    using assms(6,9) by force
  then show ?thesis
    by cases (use assms(1,2,4-8) f s in \<open>auto simp: connect_nonb_def made_def fd_set_bits_def Let_def\<close>)
qed

definition nb_demo :: nb_env where
  "nb_demo = \<lparr>nb_getfl = 2, nb_setfl = (\<lambda>_. 0), nb_connect = -1, nb_errno = EINPROGRESS, nb_select = 0, nb_readable = False,
     nb_writable = False, nb_getopt = 0, nb_soerror = 0\<rparr>"

theorem connect_nonb_correct_witness:
  "\<exists>t. connect_nonb 5 nb_demo \<lparr>so_flags = 2, so_open = True, so_errno = 0\<rparr> = Inr (Returned (-1), t) \<and> \<not> so_open t \<and> so_errno t = ETIMEDOUT"
proof -
  have "nb_getfl nb_demo = 2" "(0 :: int) \<le> 2" "\<forall>i. 0 \<le> nb_setfl nb_demo i" "so_open \<lparr>so_flags = 2, so_open = True, so_errno = 0\<rparr>"
    "so_flags \<lparr>so_flags = 2, so_open = True, so_errno = 0\<rparr> = 2" "0 \<le> nb_select nb_demo"
    "nb_readable nb_demo \<or> nb_writable nb_demo \<longleftrightarrow> 0 < nb_select nb_demo" "0 \<le> nb_getopt nb_demo" "nb_connect nb_demo \<in> {-1, 0}"
    by (simp_all add: nb_demo_def)
  from connect_nonb_correct [OF this, of 5] show ?thesis by (auto simp: nb_demo_def)
qed

text \<open>
  \<open>connect_timeo\<close> leaves the handler of the alarm signal as it found it and no alarm pending
  on every path, returns the answer of \<open>connect\<close>, and reports an interrupted \<open>connect\<close> as a time-out with
  the socket closed.
\<close>

theorem connect_timeo_restores:
  "fst (connect_timeo n e nsec s) = n \<and> al_handler (snd (connect_timeo n e nsec s)) = al_handler s \<and>
   al_seconds (snd (connect_timeo n e nsec s)) = 0 \<and>
   al_open (snd (connect_timeo n e nsec s)) = (al_open s \<and> 0 \<le> n) \<and>
   al_errno (snd (connect_timeo n e nsec s)) = (if 0 \<le> n then al_errno s else if e = EINTR_TIMEO then ETIMEDOUT else e)"
  by (simp add: connect_timeo_def Let_def)

end
