(* ===== verification/Rtt.thy ===== *)
theory Rtt
  imports Complex_Main Errors
begin

text \<open>
  The retransmission timer of \<open>src/basic_lib/rtt.c\<close> and \<open>unprtt.h\<close>, and the time functions
  \<open>tv_sub.c\<close> and \<open>gf_time.c\<close>. Floating-point values are rational numbers; \<open>fl\<close> and \<open>fd\<close> round to
  single and double precision after every operation that does so in C. Of rounding only what IEEE
  arithmetic guarantees within its range is used (\<open>rounding\<close>).
\<close>

section \<open>Rounding\<close>

definition rounding :: "(rat \<Rightarrow> rat) \<Rightarrow> bool" where
  "rounding f \<longleftrightarrow> (\<forall>x y. x \<le> y \<longrightarrow> f x \<le> f y) \<and> (\<forall>x. f (f x) = f x) \<and> (\<forall>x. f (- x) = - f x) \<and>
     (\<forall>x\<ge>0. f x \<le> 2 * x) \<and> (\<forall>x. f x = x \<longrightarrow> f (2 * x) = 2 * x) \<and> f 2 = 2 \<and> f 60 = 60 \<and> f (3 / 4) = 3 / 4 \<and> f 3 = 3"

definition roundings :: "(rat \<Rightarrow> rat) \<Rightarrow> (rat \<Rightarrow> rat) \<Rightarrow> bool" where
  "roundings fl fd \<longleftrightarrow> rounding fl \<and> rounding fd \<and> (\<forall>x. fl x = x \<longrightarrow> fd x = x)"

lemma roundingD:
  assumes "rounding f"
  shows "x \<le> y \<Longrightarrow> f x \<le> f y" "f (f x) = f x" "f (- x) = - f x" "0 \<le> x \<Longrightarrow> f x \<le> 2 * x" "f x = x \<Longrightarrow> f (2 * x) = 2 * x"
    "f 2 = 2" "f 60 = 60" "f (3 / 4) = 3 / 4" "f 3 = 3" "f 0 = 0" "0 \<le> x \<Longrightarrow> 0 \<le> f x" "x \<le> 0 \<Longrightarrow> f x \<le> 0"
proof -
  show m: "x \<le> y \<Longrightarrow> f x \<le> f y" for x y using assms by (simp add: rounding_def)
  show o: "f (- x) = - f x" for x using assms by (simp add: rounding_def)
  show z: "f 0 = 0" using o [of 0] by simp
  show "0 \<le> x \<Longrightarrow> 0 \<le> f x" using m [of 0 x] z by simp
  show "x \<le> 0 \<Longrightarrow> f x \<le> 0" using m [of x 0] z by simp
qed (use assms in \<open>simp_all add: rounding_def\<close>)

section \<open>The timer\<close>

definition RTT_RXTMIN :: rat where "RTT_RXTMIN = 2"
definition RTT_RXTMAX :: rat where "RTT_RXTMAX = 60"
definition RTT_MAXNREXMT :: int where "RTT_MAXNREXMT = 3"

record rtt_info =
  rtt_rtt :: rat
  rtt_srtt :: rat
  rtt_rttvar :: rat
  rtt_rto :: rat
  rtt_nrexmt :: int
  rtt_base :: u32

definition RTT_RTOCALC :: "(rat \<Rightarrow> rat) \<Rightarrow> rtt_info \<Rightarrow> rat" where
  "RTT_RTOCALC fd p = fd (rtt_srtt p + fd (4 * rtt_rttvar p))"

definition rtt_minmax :: "rat \<Rightarrow> rat" where
  "rtt_minmax rto = (if rto < RTT_RXTMIN then RTT_RXTMIN else if rto > RTT_RXTMAX then RTT_RXTMAX else rto)"

definition rtt_init :: "(rat \<Rightarrow> rat) \<Rightarrow> (rat \<Rightarrow> rat) \<Rightarrow> int \<Rightarrow> rtt_info \<Rightarrow> rtt_info" where
  "rtt_init fl fd tv_sec p =
     (let p1 = p\<lparr>rtt_base := word_of_int tv_sec, rtt_rtt := 0, rtt_srtt := 0, rtt_rttvar := fl (3 / 4)\<rparr> in
      p1\<lparr>rtt_rto := rtt_minmax (fl (RTT_RTOCALC fd p1))\<rparr>)"

text \<open>The time stamp: \<open>tv_sec\<close> is wider than 32 bits, the result is not.\<close>

definition rtt_ts :: "int \<Rightarrow> int \<Rightarrow> rtt_info \<Rightarrow> u32" where
  "rtt_ts tv_sec tv_usec p = word_of_int ((tv_sec - uint (rtt_base p)) * 1000 + tv_usec div 1000)"

definition rtt_newpack :: "rtt_info \<Rightarrow> rtt_info" where
  "rtt_newpack p = p\<lparr>rtt_nrexmt := 0\<rparr>"

definition rtt_start :: "(rat \<Rightarrow> rat) \<Rightarrow> rtt_info \<Rightarrow> int" where
  "rtt_start fd p = \<lfloor>fd (rtt_rto p + 1 / 2)\<rfloor>"

definition rtt_stop :: "(rat \<Rightarrow> rat) \<Rightarrow> (rat \<Rightarrow> rat) \<Rightarrow> u32 \<Rightarrow> rtt_info \<Rightarrow> rtt_info" where
  "rtt_stop fl fd ms p =
     (let rtt = fl (fd (of_int (uint ms) / 1000));
          delta = fl (rtt - rtt_srtt p);
          srtt = fl (fd (rtt_srtt p + fd (delta / 8)));
          delta' = (if delta < 0 then - delta else delta);
          rttvar = fl (fd (rtt_rttvar p + fd (fd (delta' - rtt_rttvar p) / 4)));
          p1 = p\<lparr>rtt_rtt := rtt, rtt_srtt := srtt, rtt_rttvar := rttvar\<rparr> in
      p1\<lparr>rtt_rto := rtt_minmax (fl (RTT_RTOCALC fd p1))\<rparr>)"

definition rtt_timeout :: "(rat \<Rightarrow> rat) \<Rightarrow> rtt_info \<Rightarrow> int \<times> rtt_info" where
  "rtt_timeout fl p =
     (let p1 = p\<lparr>rtt_rto := fl (rtt_rto p * 2), rtt_nrexmt := rtt_nrexmt p + 1\<rparr> in
      (if rtt_nrexmt p1 > RTT_MAXNREXMT then -1 else 0, p1))"

definition rtt_debug :: "int \<Rightarrow> rtt_info \<Rightarrow> (rat \<times> rat \<times> rat \<times> rat) option" where
  "rtt_debug rtt_d_flag p = (if rtt_d_flag = 0 then None else Some (rtt_rtt p, rtt_srtt p, rtt_rttvar p, rtt_rto p))"

text \<open>Repeated time-outs.\<close>

fun timeouts :: "(rat \<Rightarrow> rat) \<Rightarrow> nat \<Rightarrow> rtt_info \<Rightarrow> int list \<times> rtt_info" where
  "timeouts fl 0 p = ([], p)"
| "timeouts fl (Suc n) p = (case rtt_timeout fl p of (r, p1) \<Rightarrow> case timeouts fl n p1 of (rs, p2) \<Rightarrow> (r # rs, p2))"

section \<open>Properties of the timer\<close>

text \<open>The values are single-precision numbers and the estimators are not negative.\<close>

definition rtt_ok :: "(rat \<Rightarrow> rat) \<Rightarrow> rtt_info \<Rightarrow> bool" where
  "rtt_ok fl p \<longleftrightarrow> fl (rtt_srtt p) = rtt_srtt p \<and> fl (rtt_rttvar p) = rtt_rttvar p \<and> fl (rtt_rto p) = rtt_rto p \<and>
     0 \<le> rtt_srtt p \<and> 0 \<le> rtt_rttvar p \<and> 2 \<le> rtt_rto p"

lemma rtt_minmax_bounds: "2 \<le> rtt_minmax x \<and> rtt_minmax x \<le> 60"
  by (simp add: rtt_minmax_def RTT_RXTMIN_def RTT_RXTMAX_def)

lemma rtt_minmax_fl: "rounding fl \<Longrightarrow> fl (rtt_minmax (fl x)) = rtt_minmax (fl x)"
  by (simp add: rtt_minmax_def RTT_RXTMIN_def RTT_RXTMAX_def roundingD)

text \<open>The smoothed value moves towards the measured one and not past it.\<close>

lemma srtt_between:
  assumes r: "roundings fl fd" and s: "fl s = s" and m: "fl m = m"
  defines "s' \<equiv> fl (fd (s + fd (fl (m - s) / 8)))"
  shows "min s m \<le> s' \<and> s' \<le> max s m"
proof -
  have fl: "rounding fl" and fd: "rounding fd" and ex: "fd s = s" "fd m = m" using r s m by (simp_all add: roundings_def)
  note F = roundingD [OF fl] and D = roundingD [OF fd]
  show ?thesis
  proof (cases "s \<le> m")
    case True
    let ?d = "fl (m - s)"
    have d: "0 \<le> ?d" "?d \<le> 2 * (m - s)" using F(11) [of "m - s"] F(4) [of "m - s"] True by simp_all
    have e: "0 \<le> fd (?d / 8)" "fd (?d / 8) \<le> 2 * (?d / 8)" using D(11) [of "?d / 8"] D(4) [of "?d / 8"] d by simp_all
    have "s \<le> s + fd (?d / 8)" "s + fd (?d / 8) \<le> m" using d e True by simp_all
    then have "s \<le> fd (s + fd (?d / 8))" "fd (s + fd (?d / 8)) \<le> m" using D(1) ex by metis+
    then have "s \<le> s'" "s' \<le> m" unfolding s'_def using F(1) s m by metis+
    then show ?thesis using True by simp
  next
    case False
    let ?d = "fl (s - m)"
    have dd: "fl (m - s) = - ?d" using F(3) [of "s - m"] by simp
    have d: "0 \<le> ?d" "?d \<le> 2 * (s - m)" using F(11) [of "s - m"] F(4) [of "s - m"] False by simp_all
    have e: "0 \<le> fd (?d / 8)" "fd (?d / 8) \<le> 2 * (?d / 8)" using D(11) [of "?d / 8"] D(4) [of "?d / 8"] d by simp_all
    have n: "fd (fl (m - s) / 8) = - fd (?d / 8)" using D(3) [of "?d / 8"] by (simp add: dd)
    have "s + fd (fl (m - s) / 8) \<le> s" "m \<le> s + fd (fl (m - s) / 8)" using d e False n by simp_all
    then have "fd (s + fd (fl (m - s) / 8)) \<le> s" "m \<le> fd (s + fd (fl (m - s) / 8))" using D(1) ex by metis+
    then have "s' \<le> s" "m \<le> s'" unfolding s'_def using F(1) s m by metis+
    then show ?thesis using False by simp
  qed
qed

lemma rttvar_nonneg:
  assumes r: "roundings fl fd" and v: "0 \<le> v" "fl v = v" and d: "0 \<le> d"
  shows "0 \<le> fl (fd (v + fd (fd (d - v) / 4)))"
proof -
  have fl: "rounding fl" and fd: "rounding fd" using r by (simp_all add: roundings_def)
  note F = roundingD [OF fl] and D = roundingD [OF fd]
  have "- v \<le> fd (fd (d - v) / 4)"
  proof -
    have "- (2 * v) \<le> fd (d - v)"
      using D(1) [of "- v" "d - v"] D(3) [of v] D(4) [OF v(1)] d by simp
    then have "- (v / 2) \<le> fd (d - v) / 4" by simp
    then have "fd (- (v / 2)) \<le> fd (fd (d - v) / 4)" by (rule D(1))
    moreover have "- v \<le> fd (- (v / 2))" using D(3) [of "v / 2"] D(4) [of "v / 2"] v(1) by simp
    ultimately show ?thesis by simp
  qed
  then show ?thesis by (intro F(11) D(11)) simp
qed

text \<open>
  C29. A measured round trip keeps the timer sane, for every rounding of the arithmetic: after
  \<open>rtt_stop\<close> the smoothed round-trip time lies between its old value and the measured one, the
  deviation is not negative, the retransmission timeout is between 2 and 60 seconds, and a timer
  started then waits at least 2 whole seconds.
\<close>

theorem rtt_stop_correct:
  fixes ms :: u32
  assumes r: "roundings fl fd" and ok: "rtt_ok fl p"
  defines "m \<equiv> fl (fd (of_int (uint ms) / 1000))" and "p' \<equiv> rtt_stop fl fd ms p"
  shows "rtt_ok fl p' \<and> rtt_rto p' \<le> 60 \<and> rtt_rtt p' = m \<and> min (rtt_srtt p) m \<le> rtt_srtt p' \<and>
    rtt_srtt p' \<le> max (rtt_srtt p) m \<and> 2 \<le> rtt_start fd p'"
proof -
  have fl: "rounding fl" and fd: "rounding fd" using r by (simp_all add: roundings_def)
  note F = roundingD [OF fl] and D = roundingD [OF fd]
  have u: "0 \<le> (of_int (uint ms) :: rat) / 1000" 
    by (rule divide_nonneg_nonneg [OF of_int_0_le_iff [THEN iffD2, OF uint_ge_0]]) simp
  have m: "fl m = m" "0 \<le> m" using F(11) [OF D(11) [OF u]] by (simp_all add: m_def F(2))
  define d where "d = fl (m - rtt_srtt p)"
  define d' where "d' = (if d < 0 then - d else d)"
  define v where "v = fl (fd (rtt_rttvar p + fd (fd (d' - rtt_rttvar p) / 4)))"
  define s where "s = fl (fd (rtt_srtt p + fd (d / 8)))"
  define q where "q = p\<lparr>rtt_rtt := m, rtt_srtt := s, rtt_rttvar := v\<rparr>"
  have p': "p' = q\<lparr>rtt_rto := rtt_minmax (fl (RTT_RTOCALC fd q))\<rparr>"
    by (simp add: p'_def rtt_stop_def Let_def m_def d_def d'_def v_def s_def q_def)
  have s: "min (rtt_srtt p) m \<le> s \<and> s \<le> max (rtt_srtt p) m"
    unfolding s_def d_def by (rule srtt_between [OF r]) (use ok m in \<open>simp_all add: rtt_ok_def\<close>)
  have s0: "0 \<le> s" using s m(2) ok by (auto simp: rtt_ok_def min_def split: if_splits)
  have v0: "0 \<le> v" unfolding v_def by (rule rttvar_nonneg [OF r]) (use ok in \<open>auto simp: rtt_ok_def d'_def\<close>)
  have rto: "2 \<le> rtt_rto p'" "rtt_rto p' \<le> 60" "fl (rtt_rto p') = rtt_rto p'"
    using rtt_minmax_bounds rtt_minmax_fl [OF fl] by (simp_all add: p')
  have "rtt_ok fl p'" using rto s0 v0 by (simp add: rtt_ok_def p' q_def s_def v_def F(2))
  moreover have "2 \<le> rtt_start fd p'"
  proof -
    have "(2 :: rat) \<le> fd (rtt_rto p' + 1 / 2)" using D(1) [of 2 "rtt_rto p' + 1 / 2"] D(6) rto(1) by simp
    then show ?thesis by (simp add: rtt_start_def le_floor_iff)
  qed
  ultimately show ?thesis using rto s by (simp add: p' q_def)
qed

lemma rounding_id: "rounding (\<lambda>x. x)"
  by (simp add: rounding_def)

lemma roundings_id: "roundings (\<lambda>x. x) (\<lambda>x. x)"
  by (simp add: roundings_def rounding_id)

definition rtt_fresh :: rtt_info where
  "rtt_fresh = rtt_init (\<lambda>x. x) (\<lambda>x. x) 1000 \<lparr>rtt_rtt = 0, rtt_srtt = 0, rtt_rttvar = 0, rtt_rto = 0, rtt_nrexmt = 0, rtt_base = 0\<rparr>"

lemma rtt_init_ok:
  assumes r: "roundings fl fd"
  shows "rtt_ok fl (rtt_init fl fd sec p) \<and> rtt_rto (rtt_init fl fd sec p) = 3 \<and> rtt_base (rtt_init fl fd sec p) = word_of_int sec"
proof -
  have fl: "rounding fl" and fd: "rounding fd" and "fd 3 = 3" using r by (simp_all add: roundings_def roundingD(9))
  then show ?thesis
    by (simp add: rtt_init_def rtt_ok_def RTT_RTOCALC_def rtt_minmax_def RTT_RXTMIN_def RTT_RXTMAX_def roundingD)
qed

theorem rtt_stop_correct_witness:
  "rtt_ok (\<lambda>x. x) (rtt_stop (\<lambda>x. x) (\<lambda>x. x) 1500 rtt_fresh) \<and> rtt_rtt (rtt_stop (\<lambda>x. x) (\<lambda>x. x) 1500 rtt_fresh) = 3 / 2"
proof -
  have "rtt_ok (\<lambda>x. x) rtt_fresh" using rtt_init_ok [OF roundings_id] by (simp add: rtt_fresh_def)
  from rtt_stop_correct [OF roundings_id this, of 1500] show ?thesis by simp
qed

lemma timeouts_app:
  assumes fl: "rounding fl" and x: "fl (rtt_rto p) = rtt_rto p"
  shows "fst (timeouts fl n p) = map (\<lambda>i. if rtt_nrexmt p + 1 + int i > RTT_MAXNREXMT then -1 else 0) [0..<n] \<and>
    rtt_rto (snd (timeouts fl n p)) = 2 ^ n * rtt_rto p"
  using x
proof (induction n arbitrary: p)
  case 0 then show ?case by simp
next
  case (Suc n)
  let ?p = "p\<lparr>rtt_rto := fl (rtt_rto p * 2), rtt_nrexmt := rtt_nrexmt p + 1\<rparr>"
  have r: "fl (rtt_rto p * 2) = 2 * rtt_rto p" using roundingD(5) [OF fl Suc(2)] by (simp add: mult.commute)
  have "fl (rtt_rto ?p) = rtt_rto ?p" using roundingD(5) [OF fl Suc(2)] r by simp
  note ih = Suc(1) [OF this]
  have upt: "[0..<Suc n] = 0 # map Suc [0..<n]" by (simp add: map_Suc_upt upt_conv_Cons del: upt_Suc)
  show ?case
    unfolding upt using ih r
    by (simp add: rtt_timeout_def Let_def case_prod_unfold algebra_simps del: upt_Suc)
qed

text \<open>
  Time-outs of one packet: from a new packet on, the first three time-outs ask for a
  retransmission and the fourth gives up; the timeout doubles each time. The limit of 60 seconds
  is not applied to it: from 60 seconds the third retransmission waits 480.
\<close>

theorem rtt_backoff:
  assumes "rounding fl" "fl (rtt_rto p) = rtt_rto p"
  shows "fst (timeouts fl 4 (rtt_newpack p)) = [0, 0, 0, -1] \<and>
    rtt_rto (snd (timeouts fl n (rtt_newpack p))) = 2 ^ n * rtt_rto p \<and>
    (rtt_rto p = RTT_RXTMAX \<longrightarrow> rtt_rto (snd (timeouts fl 3 (rtt_newpack p))) = 480)"
proof -
  have "fl (rtt_rto (rtt_newpack p)) = rtt_rto (rtt_newpack p)" using assms(2) by (simp add: rtt_newpack_def)
  note t = timeouts_app [OF assms(1) this]
  have u: "[0..<4] = [0, 1, 2, 3 :: nat]" by (simp add: upt_rec)
  show ?thesis using t [of 4] t [of n] t [of 3] unfolding u by (simp add: rtt_newpack_def RTT_MAXNREXMT_def RTT_RXTMAX_def)
qed

theorem rtt_backoff_witness:
  "rtt_rto (snd (timeouts (\<lambda>x. x) 2 (rtt_newpack rtt_fresh))) = 12"
proof -
  have "rtt_rto rtt_fresh = 3" using rtt_init_ok [OF roundings_id] by (simp add: rtt_fresh_def)
  then show ?thesis using rtt_backoff [OF rounding_id, of rtt_fresh 2] by simp
qed

text \<open>
  Time stamps survive the wrap-around of their 32 bits: for any two times at most
  \<open>2 ^ 32 - 1\<close> milliseconds apart, the difference of their stamps is the number of milliseconds between them.
\<close>

theorem rtt_ts_elapsed:
  assumes "e = (s2 * 1000 + u2 div 1000) - (s1 * 1000 + u1 div 1000)" "0 \<le> e" "e < 2 ^ 32"
  shows "uint (rtt_ts s2 u2 p - rtt_ts s1 u1 p) = e"
proof -
  have "rtt_ts s2 u2 p - rtt_ts s1 u1 p = word_of_int e"
    by (simp add: rtt_ts_def assms(1) wi_hom_sub algebra_simps)
  then show ?thesis using assms(2,3) by (simp add: uint_word_of_int)
qed

theorem rtt_ts_elapsed_witness:
  "uint (rtt_ts 4294969 1000 rtt_fresh - rtt_ts 4294967 0 rtt_fresh) = 2001"
  using rtt_ts_elapsed [of 2001 4294969 1000 4294967 0 rtt_fresh] by simp

section \<open>Time values\<close>

record timeval =
  tv_sec :: int
  tv_usec :: int

definition tv_sub :: "timeval \<Rightarrow> timeval \<Rightarrow> timeval" where
  "tv_sub out inn =
     (let usec = tv_usec out - tv_usec inn;
          o1 = (if usec < 0 then out\<lparr>tv_usec := usec + 1000000, tv_sec := tv_sec out - 1\<rparr> else out\<lparr>tv_usec := usec\<rparr>) in
      o1\<lparr>tv_sec := tv_sec o1 - tv_sec inn\<rparr>)"

definition micros :: "timeval \<Rightarrow> int" where
  "micros t = tv_sec t * 1000000 + tv_usec t"

lemma tv_sub_micros:
  "micros (tv_sub out inn) = micros out - micros inn"
  by (simp add: tv_sub_def micros_def Let_def algebra_simps)

lemma tv_sub_normal:
  "0 \<le> tv_usec a \<Longrightarrow> tv_usec a < 1000000 \<Longrightarrow> 0 \<le> tv_usec b \<Longrightarrow> tv_usec b < 1000000 \<Longrightarrow>
   0 \<le> tv_usec (tv_sub a b) \<and> tv_usec (tv_sub a b) < 1000000"
  by (simp add: tv_sub_def Let_def)

text \<open>
  \<open>gf_time\<close>, from the string of \<open>ctime\<close> with its zero byte and the text of the fraction; \<open>str\<close> is the static
  array, \<open>None\<close> an error of \<open>gettimeofday\<close>.
\<close>

definition gf_time :: "bytes \<Rightarrow> (bytes \<times> bytes) option \<Rightarrow> (bytes exitable \<times> bytes) c_res" where
  "gf_time str now =
     (case now of
        None \<Rightarrow> Inr (Exited 1, str)
      | Some (ctime, fraction) \<Rightarrow>
          bind_err (c_strlen (drop 11 ctime)) (\<lambda>n.
          bind_err (mem_write str 0 (take (n + 1) (drop 11 ctime))) (\<lambda>str1.
          bind_err (c_snprintf str1 8 22 fraction) (\<lambda>str2.
          bind_err (c_strlen str2) (\<lambda>m. Inr (Returned (take m str2), str2))))))"

text \<open>
  The documented form of the string of \<open>ctime\<close>: 24 characters, a newline and the zero byte. The result is
  the time of day with its fraction, and the 30-byte array is not left.
\<close>

lemma gf_time_ok:
  assumes str: "length str = 30" and ct: "ctime = date @ tod @ year @ [newline, 0]"
    and len: "length date = 11" "length tod = 8" "length year = 5" "length fraction = 7"
    and z: "0 \<notin> set tod" "0 \<notin> set year" "0 \<notin> set fraction"
  shows "\<exists>str'. gf_time str (Some (ctime, fraction)) = Inr (Returned (tod @ fraction), str') \<and> length str' = 30"
proof -
  have d: "drop 11 ctime = (tod @ year @ [newline]) @ 0 # []" using ct len by simp
  have n: "c_strlen (drop 11 ctime) = Inr 14" unfolding d
    by (subst c_strlen_mid) (use z len in simp_all)
  have w: "mem_write str 0 (take (14 + 1) (drop 11 ctime)) = Inr (tod @ (year @ [newline, 0] @ drop 15 str))"
    unfolding d using str len by (simp add: mem_write_def)
  let ?s1 = "tod @ (year @ [newline, 0] @ drop 15 str)"
  obtain r where r: "c_snprintf ?s1 8 22 fraction = Inr (tod @ take (22 - 1) fraction @ 0 # r)"
      "length (tod @ take (22 - 1) fraction @ 0 # r) = length ?s1"
    using c_snprintf_ok [of tod 8 22 ?s1 fraction] len str by auto
  have m: "c_strlen ((tod @ fraction) @ 0 # r) = Inr (length (tod @ fraction))" by (rule c_strlen_mid) (use z in simp)
  have t: "tod @ take (22 - 1) fraction @ 0 # r = (tod @ fraction) @ 0 # r" using len by simp
  show ?thesis using r(2) len str unfolding gf_time_def option.case prod.case n w bind_err_Inr r(1) t m by simp
qed

end
