(* ===== verification/SockAddr.thy ===== *)
theory SockAddr
  imports Dns Errors
begin

text \<open>
  Socket addresses of any family: \<open>sock_ntop.c\<close>, \<open>sock_ntop_host.c\<close>, \<open>sock_cmp_addr.c\<close>,
  \<open>sock_cmp_port.c\<close>, \<open>sock_get_port.c\<close>, \<open>sock_set_addr.c\<close>, \<open>sock_set_port.c\<close>, \<open>sock_set_wild.c\<close>,
  \<open>sock_bind_wild.c\<close>, \<open>family_to_level.c\<close> and \<open>sockfd_to_family.c\<close> of \<open>src/basic_lib/\<close>, in the
  configuration of \<open>config.h\<close> (IPv6, no data-link addresses). Ports are 16-bit words in network
  order as the structures hold them. \<open>ntop\<close> stands for \<open>inet_ntop\<close>: the text without its zero byte.
\<close>

section \<open>Data\<close>

definition AF_UNIX :: int where "AF_UNIX = 1"
definition AF_INET :: int where "AF_INET = 2"
definition AF_INET6 :: int where "AF_INET6 = 10"
definition IPPROTO_IP :: int where "IPPROTO_IP = 0"
definition IPPROTO_IPV6 :: int where "IPPROTO_IPV6 = 41"

lemmas af_defs = AF_UNIX_def AF_INET_def AF_INET6_def IPPROTO_IP_def IPPROTO_IPV6_def

datatype sockaddr =
    Sin u16 bytes          \<comment> \<open>port and the 4 bytes of the address\<close>
  | Sin6 u16 bytes         \<comment> \<open>port and 16 bytes\<close>
  | Sun bytes              \<comment> \<open>the 108 bytes of \<open>sun_path\<close>\<close>
  | SaOther int bytes

fun sa_family :: "sockaddr \<Rightarrow> int" where
  "sa_family (Sin p a) = AF_INET"
| "sa_family (Sin6 p a) = AF_INET6"
| "sa_family (Sun path) = AF_UNIX"
| "sa_family (SaOther f d) = f"

fun wf_sa :: "sockaddr \<Rightarrow> bool" where
  "wf_sa (Sin p a) \<longleftrightarrow> length a = 4"
| "wf_sa (Sin6 p a) \<longleftrightarrow> length a = 16"
| "wf_sa (Sun path) \<longleftrightarrow> length path = 108"
| "wf_sa (SaOther f d) \<longleftrightarrow> f \<notin> {AF_UNIX, AF_INET, AF_INET6}"

section \<open>Printing\<close>

type_synonym ntop_fun = "int \<Rightarrow> bytes \<Rightarrow> bytes option"

definition dec_int :: "int \<Rightarrow> bytes" where
  "dec_int i = (if i < 0 then 45 # dec_digits (nat (- i)) else dec_digits (nat i))"

definition STRLEN :: nat where "STRLEN = 128"

definition no_pathname :: bytes where "no_pathname = bytes_of ''(no pathname bound)''"

text \<open>\<open>inet_ntop\<close> into \<open>str + off\<close> with the room that is left there: \<open>None\<close> for \<open>NULL\<close>.\<close>

definition ntop_into :: "ntop_fun \<Rightarrow> int \<Rightarrow> bytes \<Rightarrow> bytes \<Rightarrow> nat \<Rightarrow> bytes option c_res" where
  "ntop_into ntop af a str off =
     (case ntop af a of
        None \<Rightarrow> Inr None
      | Some t \<Rightarrow> if STRLEN - off < length t + 1 then Inr None
                  else bind_err (mem_write str off (t @ [0])) (\<lambda>str'. Inr (Some str')))"

text \<open>The text that starts at \<open>off\<close>.\<close>

definition text_at :: "bytes \<Rightarrow> nat \<Rightarrow> bytes c_res" where
  "text_at str off = bind_err (c_strlen (drop off str)) (\<lambda>n. Inr (take n (drop off str)))"

text \<open>The pathname of a Unix address.\<close>

definition unix_text :: "bytes \<Rightarrow> bytes \<Rightarrow> bytes c_res" where
  "unix_text str path =
     bind_err (mem_get path 0) (\<lambda>c.
       if c = 0 then bind_err (mem_write str 0 (no_pathname @ [0])) (\<lambda>str'. text_at str' 0)
       else
         bind_err (c_strlen path) (\<lambda>n.
         bind_err (c_snprintf str 0 STRLEN (take n path)) (\<lambda>str'. text_at str' 0)))"

definition add_port :: "bytes \<Rightarrow> bytes \<Rightarrow> bytes \<Rightarrow> nat \<Rightarrow> bytes c_res" where
  "add_port junk str text off =
     bind_err (c_snprintf junk 0 8 text) (\<lambda>portstr.
     bind_err (c_strlen portstr) (\<lambda>n.
     bind_err (c_strcat str (take n portstr)) (\<lambda>str'. text_at str' off)))"

text \<open>\<open>sock_ntop\<close>: \<open>str\<close> is the static array of 128 bytes, \<open>junk\<close> the 8 bytes of \<open>portstr\<close>.\<close>

definition sock_ntop :: "endian \<Rightarrow> ntop_fun \<Rightarrow> bytes \<Rightarrow> bytes \<Rightarrow> sockaddr \<Rightarrow> int \<Rightarrow> bytes option c_res" where
  "sock_ntop e ntop str junk sa salen =
     (case sa of
        Sin port a \<Rightarrow>
          bind_err (ntop_into ntop AF_INET a str 0) (\<lambda>r.
            case r of None \<Rightarrow> Inr None
            | Some str1 \<Rightarrow>
                if ntohs e port \<noteq> 0 then
                  bind_err (add_port junk str1 (58 # dec_digits (unat (ntohs e port))) 0) (\<lambda>t. Inr (Some t))
                else bind_err (text_at str1 0) (\<lambda>t. Inr (Some t)))
      | Sin6 port a \<Rightarrow>
          bind_err (mem_write str 0 [91]) (\<lambda>str0.
          bind_err (ntop_into ntop AF_INET6 a str0 1) (\<lambda>r.
            case r of None \<Rightarrow> Inr None
            | Some str1 \<Rightarrow>
                if ntohs e port \<noteq> 0 then
                  bind_err (add_port junk str1 (93 # 58 # dec_digits (unat (ntohs e port))) 0) (\<lambda>t. Inr (Some t))
                else bind_err (text_at str1 1) (\<lambda>t. Inr (Some t))))
      | Sun path \<Rightarrow> bind_err (unix_text str path) (\<lambda>t. Inr (Some t))
      | SaOther f d \<Rightarrow>
          bind_err (c_snprintf str 0 STRLEN
            (bytes_of ''sock_ntop: unknown AF_xxx: '' @ dec_int f @ bytes_of '', len '' @ dec_int salen)) (\<lambda>str1.
          bind_err (text_at str1 0) (\<lambda>t. Inr (Some t))))"

definition sock_ntop_host :: "ntop_fun \<Rightarrow> bytes \<Rightarrow> sockaddr \<Rightarrow> int \<Rightarrow> bytes option c_res" where
  "sock_ntop_host ntop str sa salen =
     (case sa of
        Sin port a \<Rightarrow>
          bind_err (ntop_into ntop AF_INET a str 0) (\<lambda>r.
            case r of None \<Rightarrow> Inr None | Some str1 \<Rightarrow> bind_err (text_at str1 0) (\<lambda>t. Inr (Some t)))
      | Sin6 port a \<Rightarrow>
          bind_err (ntop_into ntop AF_INET6 a str 0) (\<lambda>r.
            case r of None \<Rightarrow> Inr None | Some str1 \<Rightarrow> bind_err (text_at str1 0) (\<lambda>t. Inr (Some t)))
      | Sun path \<Rightarrow> bind_err (unix_text str path) (\<lambda>t. Inr (Some t))
      | SaOther f d \<Rightarrow>
          bind_err (c_snprintf str 0 STRLEN
            (bytes_of ''sock_ntop_host: unknown AF_xxx: '' @ dec_int f @ bytes_of '', len '' @ dec_int salen)) (\<lambda>str1.
          bind_err (text_at str1 0) (\<lambda>t. Inr (Some t))))"

definition Sock_ntop :: "endian \<Rightarrow> ntop_fun \<Rightarrow> bytes \<Rightarrow> bytes \<Rightarrow> sockaddr \<Rightarrow> int \<Rightarrow> bytes exitable c_res" where
  "Sock_ntop e ntop str junk sa salen =
     bind_err (sock_ntop e ntop str junk sa salen) (\<lambda>r. Inr (case r of None \<Rightarrow> Exited 1 | Some t \<Rightarrow> Returned t))"

definition Sock_ntop_host :: "ntop_fun \<Rightarrow> bytes \<Rightarrow> sockaddr \<Rightarrow> int \<Rightarrow> bytes exitable c_res" where
  "Sock_ntop_host ntop str sa salen =
     bind_err (sock_ntop_host ntop str sa salen) (\<lambda>r. Inr (case r of None \<Rightarrow> Exited 1 | Some t \<Rightarrow> Returned t))"

section \<open>Comparing and changing\<close>

fun c_memcmp :: "bytes \<Rightarrow> bytes \<Rightarrow> int" where
  "c_memcmp (a # as) (b # bs) = (if a = b then c_memcmp as bs else int (unat a) - int (unat b))"
| "c_memcmp _ _ = 0"

definition c_strcmp :: "bytes \<Rightarrow> bytes \<Rightarrow> int c_res" where
  "c_strcmp x y =
     bind_err (c_strlen x) (\<lambda>n. bind_err (c_strlen y) (\<lambda>m. Inr (c_memcmp (take n x @ [0]) (take m y @ [0]))))"

definition sock_cmp_addr :: "sockaddr \<Rightarrow> sockaddr \<Rightarrow> int c_res" where
  "sock_cmp_addr sa1 sa2 =
     (if sa_family sa1 \<noteq> sa_family sa2 then Inr (-1)
      else case (sa1, sa2) of
        (Sin _ a, Sin _ b) \<Rightarrow> Inr (c_memcmp a b)
      | (Sin6 _ a, Sin6 _ b) \<Rightarrow> Inr (c_memcmp a b)
      | (Sun p, Sun q) \<Rightarrow> c_strcmp p q
      | _ \<Rightarrow> Inr (-1))"

definition sock_cmp_port :: "sockaddr \<Rightarrow> sockaddr \<Rightarrow> int" where
  "sock_cmp_port sa1 sa2 =
     (if sa_family sa1 \<noteq> sa_family sa2 then -1
      else case (sa1, sa2) of
        (Sin p _, Sin q _) \<Rightarrow> if p = q then 1 else 0
      | (Sin6 p _, Sin6 q _) \<Rightarrow> if p = q then 1 else 0
      | _ \<Rightarrow> -1)"

definition sock_get_port :: "sockaddr \<Rightarrow> int" where
  "sock_get_port sa = (case sa of Sin p _ \<Rightarrow> uint p | Sin6 p _ \<Rightarrow> uint p | _ \<Rightarrow> -1)"

definition sock_set_port :: "sockaddr \<Rightarrow> int \<Rightarrow> sockaddr" where
  "sock_set_port sa port =
     (case sa of Sin _ a \<Rightarrow> Sin (word_of_int port) a | Sin6 _ a \<Rightarrow> Sin6 (word_of_int port) a | _ \<Rightarrow> sa)"

definition sock_set_addr :: "sockaddr \<Rightarrow> bytes \<Rightarrow> sockaddr c_res" where
  "sock_set_addr sa addr =
     (case sa of
        Sin p _ \<Rightarrow> bind_err (mem_read addr 0 4) (\<lambda>a. Inr (Sin p a))
      | Sin6 p _ \<Rightarrow> bind_err (mem_read addr 0 16) (\<lambda>a. Inr (Sin6 p a))
      | _ \<Rightarrow> Inr sa)"

definition sock_set_wild :: "sockaddr \<Rightarrow> sockaddr c_res" where
  "sock_set_wild sa =
     (case sa of
        Sin _ _ \<Rightarrow> sock_set_addr sa (replicate 4 0)
      | Sin6 _ _ \<Rightarrow> sock_set_addr sa (replicate 16 0)
      | _ \<Rightarrow> Inr sa)"

text \<open>\<open>sock_bind_wild\<close>, from the answers of \<open>bind\<close> and \<open>getsockname\<close> and the port the latter reports; with the address it binds.\<close>

definition sock_bind_wild :: "int \<Rightarrow> int \<Rightarrow> int \<Rightarrow> u16 \<Rightarrow> int \<times> sockaddr option" where
  "sock_bind_wild family bound name port =
     (if family = AF_INET then
        (if bound < 0 then -1 else if name < 0 then -1 else uint port, Some (Sin 0 (replicate 4 0)))
      else if family = AF_INET6 then
        (if bound < 0 then -1 else if name < 0 then -1 else uint port, Some (Sin6 0 (replicate 16 0)))
      else (-1, None))"

definition Sock_bind_wild :: "int \<Rightarrow> int \<Rightarrow> int \<Rightarrow> u16 \<Rightarrow> int exitable" where
  "Sock_bind_wild family bound name port =
     (let r = fst (sock_bind_wild family bound name port) in if r < 0 then Exited 1 else Returned r)"

definition family_to_level :: "int \<Rightarrow> int" where
  "family_to_level family = (if family = AF_INET then IPPROTO_IP else if family = AF_INET6 then IPPROTO_IPV6 else -1)"

definition Family_to_level :: "int \<Rightarrow> int exitable" where
  "Family_to_level family = (let rc = family_to_level family in if rc < 0 then Exited 1 else Returned rc)"

text \<open>\<open>sockfd_to_family\<close>, from what \<open>getsockname\<close> reports: the family, or an error.\<close>

definition sockfd_to_family :: "int option \<Rightarrow> int" where
  "sockfd_to_family name = (case name of None \<Rightarrow> -1 | Some f \<Rightarrow> f)"

definition Sockfd_to_family :: "int option \<Rightarrow> int exitable" where
  "Sockfd_to_family name = (let rc = sockfd_to_family name in if rc < 0 then Exited 1 else Returned rc)"

section \<open>Printed form\<close>

lemma digit_nonzero: "n < 10 \<Longrightarrow> of_nat (48 + n) \<noteq> (0 :: byte)"
  by (simp add: word_of_nat_eq_0_iff nat_dvd_not_less del: of_nat_add)

lemma dec_digits_props: "0 \<notin> set (dec_digits n) \<and> (n < 10 ^ k \<longrightarrow> 0 < k \<longrightarrow> length (dec_digits n) \<le> k)"
proof (induction n arbitrary: k rule: dec_digits.induct)
  case (1 n)
  show ?case
  proof (cases "n < 10")
    case True then show ?thesis using digit_nonzero [of n] by (simp add: dec_digits.simps [of n])
  next
    case False
    have "length (dec_digits n) \<le> k" if n: "n < 10 ^ k" and k: "0 < k"
    proof -
      have "k \<noteq> 1" using False n by auto
      then obtain j where j: "k = Suc j" "0 < j" using k by (cases k) auto
      then have "n div 10 < 10 ^ j" using n by (simp add: less_mult_imp_div_less mult.commute)
      then show ?thesis using 1 [OF False] j False by (subst dec_digits.simps) auto
    qed
    moreover have "0 \<notin> set (dec_digits n)"
      using 1 [OF False] False digit_nonzero [of "n mod 10"] by (subst dec_digits.simps) auto
    ultimately show ?thesis by simp
  qed
qed

lemma port_digits: "0 \<notin> set (dec_digits (unat (p :: u16)))" "length (dec_digits (unat (p :: u16))) \<le> 5"
proof -
  have "unat p < 2 ^ 16" using unsigned_less [of p, where 'a = nat] by simp
  then have "unat p < 10 ^ 5" by simp
  then show "0 \<notin> set (dec_digits (unat p))" "length (dec_digits (unat p)) \<le> 5" using dec_digits_props [of "unat p" 5] by simp_all
qed

lemma dec_int_nonzero: "0 \<notin> set (dec_int i)"
  using dec_digits_props by (simp add: dec_int_def)

lemma text_at_mid: "length pre = off \<Longrightarrow> 0 \<notin> set t \<Longrightarrow> text_at (pre @ t @ 0 # rest) off = Inr t"
  by (simp add: text_at_def c_strlen_mid)

definition ntop_spec :: "ntop_fun \<Rightarrow> bool" where
  "ntop_spec ntop \<longleftrightarrow> (\<forall>af a. (af = AF_INET \<and> length a = 4 \<or> af = AF_INET6 \<and> length a = 16) \<longrightarrow>
     (\<exists>t. ntop af a = Some t \<and> length t \<le> 45 \<and> 0 \<notin> set t))"

lemma ntop_into_ok:
  assumes "ntop af a = Some t" "length t \<le> 45" "length str = STRLEN" "off \<le> 1"
  shows "ntop_into ntop af a str off = Inr (Some (take off str @ t @ 0 # drop (off + length t + 1) str))"
  using assms by (simp add: ntop_into_def mem_write_def STRLEN_def)

lemma add_port_ok:
  assumes "length junk = 8" "length text \<le> 7" "0 \<notin> set text" "0 \<notin> set pre" "length text \<le> length rest" "off \<le> length pre"
  shows "add_port junk (pre @ 0 # rest) text off = Inr (drop off pre @ text)"
proof -
  obtain r where r: "c_snprintf junk 0 8 text = Inr (text @ 0 # r)"
    using c_snprintf_ok [of "[]" 0 8 junk "text"] assms(1,2) by auto
  have n: "c_strlen (text @ 0 # r) = Inr (length text)" using assms(3) by (simp add: c_strlen_mid)
  obtain q where q: "c_strcat (pre @ 0 # rest) text = Inr (pre @ text @ 0 # q)" using c_strcat_ok [OF assms(4,5)] by blast
  have "text_at (take off pre @ (drop off pre @ text) @ 0 # q) off = Inr (drop off pre @ text)"
    by (rule text_at_mid) (use assms(3,4,6) in \<open>auto dest: in_set_dropD\<close>)
  then have "text_at (pre @ text @ 0 # q) off = Inr (drop off pre @ text)" by (metis append.assoc append_take_drop_id)
  then show ?thesis using r n q by (simp add: add_port_def)
qed

fun path_text :: "bytes \<Rightarrow> bytes" where
  "path_text path = (if path ! 0 = 0 then no_pathname else takeWhile (\<lambda>c. c \<noteq> 0) path)"

definition unknown_text :: "string \<Rightarrow> int \<Rightarrow> int \<Rightarrow> bytes" where
  "unknown_text who f salen = take 127 (bytes_of who @ dec_int f @ bytes_of '', len '' @ dec_int salen)"

text \<open>The text \<open>sock_ntop\<close> is meant to make: the address with its port, the port left out when it is zero.\<close>

fun sa_text :: "endian \<Rightarrow> ntop_fun \<Rightarrow> bool \<Rightarrow> int \<Rightarrow> sockaddr \<Rightarrow> bytes" where
  "sa_text e ntop with_port salen (Sin p a) =
     the (ntop AF_INET a) @ (if with_port \<and> ntohs e p \<noteq> 0 then 58 # dec_digits (unat (ntohs e p)) else [])"
| "sa_text e ntop with_port salen (Sin6 p a) =
     (if with_port \<and> ntohs e p \<noteq> 0
      then [91] @ the (ntop AF_INET6 a) @ [93, 58] @ dec_digits (unat (ntohs e p)) else the (ntop AF_INET6 a))"
| "sa_text e ntop with_port salen (Sun path) = path_text path"
| "sa_text e ntop with_port salen (SaOther f d) =
     unknown_text (if with_port then ''sock_ntop: unknown AF_xxx: '' else ''sock_ntop_host: unknown AF_xxx: '') f salen"

lemma unix_text_ok:
  assumes "length path = 108" "0 \<in> set path" "length str = STRLEN"
  shows "unix_text str path = Inr (path_text path)"
proof (cases "path ! 0 = 0")
  case True
  have l: "length no_pathname = 19" "0 \<notin> set no_pathname" by (simp_all add: no_pathname_def bytes_of_def)
  then have "mem_write str 0 (no_pathname @ [0]) = Inr (no_pathname @ 0 # drop 20 str)"
    using assms(3) by (simp add: mem_write_def STRLEN_def)
  then show ?thesis
    using True assms(1) l text_at_mid [of "[]" 0 no_pathname "drop 20 str"] by (simp add: unix_text_def mem_get_def)
next
  case False
  let ?t = "takeWhile (\<lambda>c. c \<noteq> 0) path"
  have n: "c_strlen path = Inr (length ?t)" using assms(2) by (simp add: c_strlen_if)
  have t: "take (length ?t) path = ?t" by (simp add: takeWhile_eq_take [symmetric])
  have lt: "length ?t \<le> 108" using length_takeWhile_le [of "\<lambda>c. c \<noteq> 0" path] assms(1) by simp
  have z: "0 \<notin> set ?t" by (auto dest: set_takeWhileD)
  obtain r where r: "c_snprintf str 0 STRLEN ?t = Inr (?t @ 0 # r)"
    using c_snprintf_ok [of "[]" 0 STRLEN str ?t] assms(3) lt by (auto simp: STRLEN_def)
  show ?thesis using False assms(1) n t r z text_at_mid [of "[]" 0 ?t r] by (simp add: unix_text_def mem_get_def)
qed

lemma unknown_ok:
  assumes "0 \<notin> set (bytes_of who)" "length str = STRLEN"
  shows "bind_err (c_snprintf str 0 STRLEN (bytes_of who @ dec_int f @ bytes_of '', len '' @ dec_int salen)) (\<lambda>str1. text_at str1 0) =
    Inr (unknown_text who f salen)"
proof -
  let ?t = "bytes_of who @ dec_int f @ bytes_of '', len '' @ dec_int salen"
  obtain r where r: "c_snprintf str 0 STRLEN ?t = Inr (take (STRLEN - 1) ?t @ 0 # r)"
    using c_snprintf_ok [of "[]" 0 STRLEN str ?t] assms(2) by (auto simp: STRLEN_def)
  have z: "0 \<notin> set ?t" using assms(1) dec_int_nonzero by (simp add: bytes_of_def)
  then have "0 \<notin> set (take (STRLEN - 1) ?t)" by (meson in_set_takeD)
  from text_at_mid [of "[]" 0, OF _ this, of r] r show ?thesis by (simp only: append_Nil) (simp add: unknown_text_def STRLEN_def)
qed

lemma bind_err_Some: "bind_err m (\<lambda>x. bind_err (f x) (\<lambda>t. Inr (Some t))) = bind_err (bind_err m f) (\<lambda>t. Inr (Some t))"
  by (cases m) simp_all

text \<open>
  C30. For every well-formed address, whatever the static buffer held before, \<open>sock_ntop\<close> and
  \<open>sock_ntop_host\<close> stay inside their 128-byte and 8-byte arrays and return the printed address,
  \<open>sock_ntop\<close> with the port (for IPv6 in brackets) unless it is zero, the path of a
  Unix address or a note that there is none, and a message for any other family. \<open>inet_ntop\<close>
  is assumed to return at most 45 characters.
\<close>

theorem sock_ntop_correct:
  assumes "ntop_spec ntop" "wf_sa sa" "length str = 128" "length junk = 8" "\<And>path. sa = Sun path \<Longrightarrow> 0 \<in> set path"
  shows "sock_ntop e ntop str junk sa salen = Inr (Some (sa_text e ntop True salen sa)) \<and>
    sock_ntop_host ntop str sa salen = Inr (Some (sa_text e ntop False salen sa))"
proof (cases sa)
  case (Sin p a)
  obtain t where t: "ntop AF_INET a = Some t" "length t \<le> 45" "0 \<notin> set t" using assms(1,2) Sin by (auto simp: ntop_spec_def)
  have i: "ntop_into ntop AF_INET a str 0 = Inr (Some (t @ 0 # drop (length t + 1) str))"
    using ntop_into_ok [of ntop _ a t str 0] t(1,2) assms(3) by (simp add: STRLEN_def)
  have "add_port junk (t @ 0 # drop (length t + 1) str) (58 # dec_digits (unat (ntohs e p))) 0 = Inr (drop 0 t @ 58 # dec_digits (unat (ntohs e p)))"
    by (rule add_port_ok) (use assms(3,4) t port_digits [of "ntohs e p"] in simp_all)
  then show ?thesis
    using i t text_at_mid [of "[]" 0 t "drop (length t + 1) str"] by (simp add: sock_ntop_def sock_ntop_host_def Sin)
next
  case (Sin6 p a)
  obtain t where t: "ntop AF_INET6 a = Some t" "length t \<le> 45" "0 \<notin> set t" using assms(1,2) Sin6 by (auto simp: ntop_spec_def)
  have w: "mem_write str 0 [91] = Inr (91 # drop 1 str)" using assms(3) by (simp add: mem_write_def)
  have i: "ntop_into ntop AF_INET6 a (91 # drop 1 str) 1 = Inr (Some ((91 # t) @ 0 # drop (length t + 2) str))"
    using ntop_into_ok [of ntop _ a t "91 # drop 1 str" 1] t(1,2) assms(3) by (simp add: STRLEN_def)
  have j: "ntop_into ntop AF_INET6 a str 0 = Inr (Some (t @ 0 # drop (length t + 1) str))"
    using ntop_into_ok [of ntop _ a t str 0] t(1,2) assms(3) by (simp add: STRLEN_def)
  have "add_port junk ((91 # t) @ 0 # drop (length t + 2) str) (93 # 58 # dec_digits (unat (ntohs e p))) 0 =
      Inr (drop 0 (91 # t) @ 93 # 58 # dec_digits (unat (ntohs e p)))"
    by (rule add_port_ok) (use assms(3,4) t port_digits [of "ntohs e p"] in simp_all)
  moreover have "text_at ((91 # t) @ 0 # drop (length t + 2) str) 1 = Inr t"
    using text_at_mid [of "[91]" 1 t "drop (length t + 2) str"] t(3) by simp
  ultimately show ?thesis
    using i j w t text_at_mid [of "[]" 0 t "drop (length t + 1) str"] by (simp add: sock_ntop_def sock_ntop_host_def Sin6)
next
  case (Sun path)
  then show ?thesis using unix_text_ok [of path str] assms(2,3,5) by (simp add: sock_ntop_def sock_ntop_host_def STRLEN_def)
next
  case (SaOther f d)
  have z: "0 \<notin> set (bytes_of ''sock_ntop: unknown AF_xxx: '')" "0 \<notin> set (bytes_of ''sock_ntop_host: unknown AF_xxx: '')"
    by (simp_all add: bytes_of_def)
  have l: "length str = STRLEN" using assms(3) by (simp add: STRLEN_def)
  show ?thesis
    unfolding sock_ntop_def sock_ntop_host_def SaOther sockaddr.case bind_err_Some unknown_ok [OF z(1) l] unknown_ok [OF z(2) l] by simp
qed

definition ntop_demo :: ntop_fun where
  "ntop_demo af a = (if af = AF_INET then Some (ntop4 a) else Some [58, 58])"

lemma ntop_demo_spec: "ntop_spec ntop_demo"
proof -
  have d: "0 \<notin> set (dec_digits (unat (b :: byte)))" "length (dec_digits (unat b)) \<le> 3" for b
  proof -
    have "unat b < 2 ^ 8" using unsigned_less [of b, where 'a = nat] by simp
    then have "unat b < 10 ^ 3" by simp
    then show "0 \<notin> set (dec_digits (unat b))" "length (dec_digits (unat b)) \<le> 3" using dec_digits_props [of "unat b" 3] by simp_all
  qed
  have "length (ntop4 a) \<le> 45 \<and> 0 \<notin> set (ntop4 a)" for a
    using d [of "a ! 0"] d [of "a ! 1"] d [of "a ! 2"] d [of "a ! 3"] by (simp add: ntop4_def dot_def)
  then show ?thesis by (simp add: ntop_spec_def ntop_demo_def)
qed

theorem sock_ntop_correct_witness:
  "sock_ntop BigEndian ntop_demo (replicate 128 7) (replicate 8 9) (Sin 80 [127, 0, 0, 1]) 16 =
     Inr (Some (ntop4 [127, 0, 0, 1] @ [58, 56, 48]))"
proof -
  have "sock_ntop BigEndian ntop_demo (replicate 128 7) (replicate 8 9) (Sin 80 [127, 0, 0, 1]) 16 =
      Inr (Some (sa_text BigEndian ntop_demo True 16 (Sin 80 [127, 0, 0, 1])))"
    using sock_ntop_correct [OF ntop_demo_spec, of "Sin 80 [127, 0, 0, 1]" "replicate 128 7" "replicate 8 9" BigEndian 16] by simp
  moreover have "dec_digits 80 = [56, 48]" by (simp add: dec_digits.simps)
  ultimately show ?thesis by (simp add: ntop_demo_def ntohs_def htons_def)
qed

section \<open>Laws of the accessors\<close>

fun sa_addr :: "sockaddr \<Rightarrow> bytes" where
  "sa_addr (Sin p a) = a"
| "sa_addr (Sin6 p a) = a"
| "sa_addr (Sun path) = takeWhile (\<lambda>c. c \<noteq> 0) path"
| "sa_addr (SaOther f d) = d"

fun is_ip :: "sockaddr \<Rightarrow> bool" where
  "is_ip (Sin p a) = True" | "is_ip (Sin6 p a) = True" | "is_ip (Sun p) = False" | "is_ip (SaOther f d) = False"

lemma c_memcmp_eq_0: "length a = length b \<Longrightarrow> c_memcmp a b = 0 \<longleftrightarrow> a = b"
proof (induction a b rule: list_induct2)
  case (Cons x xs y ys) then show ?case by (simp add: word_uint_eq_iff)
qed simp

lemma c_memcmp_str: "0 \<notin> set a \<Longrightarrow> 0 \<notin> set b \<Longrightarrow> c_memcmp (a @ [0]) (b @ [0]) = 0 \<longleftrightarrow> a = b"
proof (induction a arbitrary: b)
  case Nil then show ?case by (cases b) (auto simp: word_uint_eq_iff)
next
  case (Cons x a) then show ?case by (cases b) (auto simp: word_uint_eq_iff)
qed

lemma c_strcmp_eq_0:
  assumes "0 \<in> set p" "0 \<in> set q"
  shows "\<exists>r. c_strcmp p q = Inr r \<and> (r = 0 \<longleftrightarrow> takeWhile (\<lambda>c. c \<noteq> 0) p = takeWhile (\<lambda>c. c \<noteq> 0) q)"
proof -
  let ?p = "takeWhile (\<lambda>c. c \<noteq> 0) p" and ?q = "takeWhile (\<lambda>c. c \<noteq> 0) q"
  have "c_strcmp p q = Inr (c_memcmp (?p @ [0]) (?q @ [0]))"
    using assms by (simp add: c_strcmp_def c_strlen_if takeWhile_eq_take [symmetric])
  moreover have "0 \<notin> set ?p" "0 \<notin> set ?q" by (auto dest: set_takeWhileD)
  ultimately show ?thesis by (simp add: c_memcmp_str)
qed

text \<open>
  C31. Well-formedness and the laws of the accessors: \<open>sock_set_port\<close>, \<open>sock_set_addr\<close> and
  \<open>sock_set_wild\<close> keep an address well-formed and of its family and change only the field they
  name; the port read after setting one is that number modulo 2 to the 16; addresses of other
  families are left alone.
\<close>

theorem sock_set_laws:
  assumes "wf_sa sa" "16 \<le> length addr"
  shows "wf_sa (sock_set_port sa n) \<and> sa_family (sock_set_port sa n) = sa_family sa \<and> sa_addr (sock_set_port sa n) = sa_addr sa \<and>
    sock_get_port (sock_set_port sa n) = (if is_ip sa then n mod 65536 else -1) \<and>
    (\<exists>sb. sock_set_addr sa addr = Inr sb \<and> wf_sa sb \<and> sa_family sb = sa_family sa \<and> sock_get_port sb = sock_get_port sa \<and>
       sa_addr sb = (if is_ip sa then take (length (sa_addr sa)) addr else sa_addr sa)) \<and>
    (\<exists>sb. sock_set_wild sa = Inr sb \<and> wf_sa sb \<and> sa_family sb = sa_family sa \<and> sock_get_port sb = sock_get_port sa \<and>
       sa_addr sb = (if is_ip sa then replicate (length (sa_addr sa)) 0 else sa_addr sa))"
  using assms
  by (cases sa) (auto simp: sock_set_port_def sock_get_port_def sock_set_addr_def sock_set_wild_def mem_read_def
      uint_word_of_int take_bit_eq_mod)

theorem sock_set_laws_witness:
  "sock_get_port (sock_set_port (Sin 0 [1, 2, 3, 4]) 70000) = 4464 \<and>
   (\<exists>sb. sock_set_wild (Sin 7 [1, 2, 3, 4]) = Inr sb \<and> sa_addr sb = [0, 0, 0, 0])"
  using sock_set_laws [of "Sin 0 [1, 2, 3, 4]" "replicate 16 1" 70000] sock_set_laws [of "Sin 7 [1, 2, 3, 4]" "replicate 16 1" 0]
  by (auto simp: eval_nat_numeral)

text \<open>
  Comparison: \<open>sock_cmp_addr\<close> returns 0 exactly for two addresses of the same known family with
  equal addresses (equal paths for Unix). \<open>sock_cmp_port\<close> is the other way round: it
  returns 1 for equal ports, 0 for different ones and -1 when they cannot be compared.
\<close>

theorem sock_cmp_correct:
  assumes "wf_sa a" "wf_sa b" "\<And>path. a = Sun path \<or> b = Sun path \<Longrightarrow> 0 \<in> set path"
  shows "(\<exists>r. sock_cmp_addr a b = Inr r \<and>
      (r = 0 \<longleftrightarrow> sa_family a = sa_family b \<and> sa_family a \<in> {AF_UNIX, AF_INET, AF_INET6} \<and> sa_addr a = sa_addr b)) \<and>
    sock_cmp_port a b =
      (if is_ip a \<and> is_ip b \<and> sa_family a = sa_family b then if sock_get_port a = sock_get_port b then 1 else 0 else -1)"
proof -
  have p: "sock_cmp_port a b =
      (if is_ip a \<and> is_ip b \<and> sa_family a = sa_family b then if sock_get_port a = sock_get_port b then 1 else 0 else -1)"
    by (cases a; cases b) (simp_all add: sock_cmp_port_def sock_get_port_def af_defs word_uint_eq_iff)
  have "\<exists>r. sock_cmp_addr a b = Inr r \<and>
      (r = 0 \<longleftrightarrow> sa_family a = sa_family b \<and> sa_family a \<in> {AF_UNIX, AF_INET, AF_INET6} \<and> sa_addr a = sa_addr b)"
  proof (cases "\<exists>p q. a = Sun p \<and> b = Sun q")
    case True
    then obtain p q where pq: "a = Sun p" "b = Sun q" by blast
    then show ?thesis using c_strcmp_eq_0 [of p q] assms(3) by (simp add: sock_cmp_addr_def)
  next
    case False
    then show ?thesis using assms(1,2)
      by (cases a; cases b) (auto simp: sock_cmp_addr_def af_defs c_memcmp_eq_0)
  qed
  then show ?thesis using p by blast
qed

theorem sock_cmp_correct_witness:
  "sock_cmp_port (Sin 80 [1, 2, 3, 4]) (Sin 80 [5, 6, 7, 8]) = 1 \<and>
   (\<exists>r. sock_cmp_addr (Sin 80 [1, 2, 3, 4]) (Sin 80 [5, 6, 7, 8]) = Inr r \<and> r \<noteq> 0)"
  using sock_cmp_correct [of "Sin 80 [1, 2, 3, 4]" "Sin 80 [5, 6, 7, 8]"] by (auto simp: af_defs sock_get_port_def)

end
