(* ===== verification/Mcast.thy ===== *)
theory Mcast
  imports SockAddr
begin

text \<open>
  Multicast: \<open>mcast_join.c\<close>, \<open>mcast_leave.c\<close>, \<open>mcast_set_if.c\<close>, \<open>mcast_get_if.c\<close>,
  \<open>mcast_set_loop.c\<close>, \<open>mcast_get_loop.c\<close>, \<open>mcast_set_ttl.c\<close> and \<open>mcast_get_ttl.c\<close> of
  \<open>src/basic_lib/\<close>. The source has two variants of joining and leaving, chosen when it is
  compiled: the protocol-independent requests (\<open>MCAST_JOIN_GROUP\<close> and its kin) and the requests
  of each family; the flag \<open>mcast_api\<close> chooses here. The socket addresses of groups and sources are the bytes
  the pointers point to, since the code copies as many of them as the caller says. The result of an operation is the option it
  passes to \<open>setsockopt\<close>, or the error number it sets.
\<close>

section \<open>Options and interfaces\<close>

datatype mcast_opt =
    McastJoinGroup nat bytes                 \<comment> \<open>interface index and the \<open>sockaddr_storage\<close> of the group\<close>
  | McastLeaveGroup nat bytes
  | McastJoinSourceGroup nat bytes bytes  \<comment> \<open>interface index, group and source\<close>
  | McastLeaveSourceGroup nat bytes bytes
  | McastBlockSource nat bytes bytes
  | McastUnblockSource nat bytes bytes
  | IpAddMembership bytes bytes                 \<comment> \<open>group and interface address\<close>
  | IpDropMembership bytes bytes
  | IpAddSourceMembership bytes bytes bytes     \<comment> \<open>group, source and interface address\<close>
  | IpDropSourceMembership bytes bytes bytes
  | IpBlockSource bytes bytes bytes
  | IpUnblockSource bytes bytes bytes
  | Ipv6JoinGroup bytes nat                     \<comment> \<open>group and interface index\<close>
  | Ipv6LeaveGroup bytes nat
  | IpMulticastIf bytes
  | Ipv6MulticastIf nat
  | IpMulticastLoop byte
  | Ipv6MulticastLoop u32
  | IpMulticastTtl byte
  | Ipv6MulticastHops int

definition ENXIO :: int where "ENXIO = 6"
definition EINVAL :: int where "EINVAL = 22"
definition EAFNOSUPPORT :: int where "EAFNOSUPPORT = 97"

text \<open>\<open>Inl\<close>: -1 is returned with this error number (none is set for \<open>None\<close>); \<open>Inr\<close>: level and option for \<open>setsockopt\<close>.\<close>

type_synonym mcast_res = "int option + int \<times> mcast_opt"

record if_env =
  if_nametoindex :: "bytes \<Rightarrow> nat"
  if_indextoname :: "nat \<Rightarrow> bytes option"
  if_addr :: "bytes \<Rightarrow> bytes option"      \<comment> \<open>\<open>ioctl(SIOCGIFADDR)\<close>\<close>

definition INADDR_ANY :: bytes where "INADDR_ANY = [0, 0, 0, 0]"
definition IFNAMSIZ :: nat where "IFNAMSIZ = 16"
definition SS_SIZE :: nat where "SS_SIZE = 128"   \<comment> \<open>\<open>sizeof(struct sockaddr_storage)\<close>\<close>

text \<open>The interface index of a request, from an index or a name.\<close>

definition req_interface :: "if_env \<Rightarrow> bytes option \<Rightarrow> nat \<Rightarrow> int option + nat" where
  "req_interface env ifname ifindex =
     (if ifindex > 0 then Inr ifindex
      else case ifname of
        Some n \<Rightarrow> if if_nametoindex env n = 0 then Inl (Some ENXIO) else Inr (if_nametoindex env n)
      | None \<Rightarrow> Inr 0)"

text \<open>The interface address of a request: the code from \<open>if (ifindex > 0)\<close> over the label \<open>doioctl\<close>.\<close>

definition req_address :: "if_env \<Rightarrow> bytes option \<Rightarrow> nat \<Rightarrow> int option + bytes" where
  "req_address env ifname ifindex =
     (let doioctl = (\<lambda>n. case if_addr env n of None \<Rightarrow> Inl None | Some a \<Rightarrow> Inr a) in
      if ifindex > 0 then
        case if_indextoname env ifindex of None \<Rightarrow> Inl (Some ENXIO) | Some n \<Rightarrow> doioctl n
      else case ifname of
        Some n \<Rightarrow> doioctl (take IFNAMSIZ n)
      | None \<Rightarrow> Inr INADDR_ANY)"

section \<open>Joining and leaving\<close>

text \<open>
  Fields of a socket address in memory: the family in the byte order of the host, \<open>sin_addr\<close> and
  \<open>sin6_addr\<close> at the offsets the structures have, whatever the family is.
\<close>

definition sa_family_of :: "endian \<Rightarrow> bytes \<Rightarrow> int c_res" where
  "sa_family_of e sa = bind_err (mem_get sa 0) (\<lambda>a. bind_err (mem_get sa 1) (\<lambda>b. Inr (uint (load16 e a b))))"

definition sin_addr_of :: "bytes \<Rightarrow> bytes c_res" where
  "sin_addr_of sa = mem_read sa 4 4"

definition sin6_addr_of :: "bytes \<Rightarrow> bytes c_res" where
  "sin6_addr_of sa = mem_read sa 8 16"

text \<open>\<open>memcpy\<close> of \<open>n\<close> bytes of an address into a \<open>sockaddr_storage\<close> of a request, which is not initialised: \<open>req\<close> is what it held.\<close>

definition storage_copy :: "bytes \<Rightarrow> bytes \<Rightarrow> nat \<Rightarrow> bytes c_res" where
  "storage_copy req sa n = bind_err (mem_read sa 0 n) (mem_write req 0)"

definition mcast_join ::
    "bool \<Rightarrow> endian \<Rightarrow> if_env \<Rightarrow> bytes \<Rightarrow> bytes \<Rightarrow> nat \<Rightarrow> bytes option \<Rightarrow> nat \<Rightarrow> mcast_res c_res" where
  "mcast_join mcast_api e env req grp grplen ifname ifindex =
     (if mcast_api then
        case req_interface env ifname ifindex of
          Inl en \<Rightarrow> Inr (Inl en)
        | Inr i \<Rightarrow>
            if grplen > SS_SIZE then Inr (Inl (Some EINVAL))
            else
              bind_err (storage_copy req grp grplen) (\<lambda>g.
              bind_err (sa_family_of e grp) (\<lambda>f. Inr (Inr (family_to_level f, McastJoinGroup i g))))
      else
        bind_err (sa_family_of e grp) (\<lambda>f.
          if f = AF_INET then
            bind_err (sin_addr_of grp) (\<lambda>a.
              Inr (case req_address env ifname ifindex of
                     Inl en \<Rightarrow> Inl en
                   | Inr ia \<Rightarrow> Inr (IPPROTO_IP, IpAddMembership a ia)))
          else if f = AF_INET6 then
            bind_err (sin6_addr_of grp) (\<lambda>a.
              Inr (case req_interface env ifname ifindex of
                     Inl en \<Rightarrow> Inl en
                   | Inr i \<Rightarrow> Inr (IPPROTO_IPV6, Ipv6JoinGroup a i)))
          else Inr (Inl (Some EAFNOSUPPORT))))"

text \<open>\<open>req\<close> and \<open>req'\<close>: what the storage of the group and that of the source held.\<close>

definition mcast_join_source_group ::
    "bool \<Rightarrow> endian \<Rightarrow> if_env \<Rightarrow> bytes \<Rightarrow> bytes \<Rightarrow> bytes \<Rightarrow> nat \<Rightarrow> bytes \<Rightarrow> nat \<Rightarrow> bytes option \<Rightarrow> nat \<Rightarrow> mcast_res c_res" where
  "mcast_join_source_group mcast_api e env req req' src srclen grp grplen ifname ifindex =
     (if mcast_api then
        case req_interface env ifname ifindex of
          Inl en \<Rightarrow> Inr (Inl en)
        | Inr i \<Rightarrow>
            if grplen > SS_SIZE \<or> srclen > SS_SIZE then Inr (Inl (Some EINVAL))
            else
              bind_err (storage_copy req grp grplen) (\<lambda>g.
              bind_err (storage_copy req' src srclen) (\<lambda>s.
              bind_err (sa_family_of e grp) (\<lambda>f. Inr (Inr (family_to_level f, McastJoinSourceGroup i g s)))))
      else
        bind_err (sa_family_of e grp) (\<lambda>f.
          if f = AF_INET then
            bind_err (sin_addr_of grp) (\<lambda>a.
            bind_err (sin_addr_of src) (\<lambda>sa.
              Inr (case req_address env ifname ifindex of
                     Inl en \<Rightarrow> Inl en
                   | Inr ia \<Rightarrow> Inr (IPPROTO_IP, IpAddSourceMembership a sa ia))))
          else Inr (Inl (Some EAFNOSUPPORT))))"

definition mcast_leave :: "bool \<Rightarrow> endian \<Rightarrow> bytes \<Rightarrow> bytes \<Rightarrow> nat \<Rightarrow> mcast_res c_res" where
  "mcast_leave mcast_api e req grp grplen =
     (if mcast_api then
        if grplen > SS_SIZE then Inr (Inl (Some EINVAL))
        else
          bind_err (storage_copy req grp grplen) (\<lambda>g.
          bind_err (sa_family_of e grp) (\<lambda>f. Inr (Inr (family_to_level f, McastLeaveGroup 0 g))))
      else
        bind_err (sa_family_of e grp) (\<lambda>f.
          if f = AF_INET then bind_err (sin_addr_of grp) (\<lambda>a. Inr (Inr (IPPROTO_IP, IpDropMembership a INADDR_ANY)))
          else if f = AF_INET6 then bind_err (sin6_addr_of grp) (\<lambda>a. Inr (Inr (IPPROTO_IPV6, Ipv6LeaveGroup a 0)))
          else Inr (Inl (Some EAFNOSUPPORT))))"

text \<open>Leaving, blocking and unblocking a source have the same body up to the option.\<close>

definition source_request ::
    "(nat \<Rightarrow> bytes \<Rightarrow> bytes \<Rightarrow> mcast_opt) \<Rightarrow> (bytes \<Rightarrow> bytes \<Rightarrow> bytes \<Rightarrow> mcast_opt) \<Rightarrow>
     bool \<Rightarrow> endian \<Rightarrow> bytes \<Rightarrow> bytes \<Rightarrow> bytes \<Rightarrow> nat \<Rightarrow> bytes \<Rightarrow> nat \<Rightarrow> mcast_res c_res" where
  "source_request new old mcast_api e req req' src srclen grp grplen =
     (if mcast_api then
        if grplen > SS_SIZE \<or> srclen > SS_SIZE then Inr (Inl (Some EINVAL))
        else
          bind_err (storage_copy req grp grplen) (\<lambda>g.
          bind_err (storage_copy req' src srclen) (\<lambda>s.
          bind_err (sa_family_of e grp) (\<lambda>f. Inr (Inr (family_to_level f, new 0 g s)))))
      else
        bind_err (sa_family_of e grp) (\<lambda>f.
          if f = AF_INET then
            bind_err (sin_addr_of grp) (\<lambda>a.
            bind_err (sin_addr_of src) (\<lambda>sa. Inr (Inr (IPPROTO_IP, old a sa INADDR_ANY))))
          else Inr (Inl (Some EAFNOSUPPORT))))"

definition mcast_leave_source_group :: "bool \<Rightarrow> endian \<Rightarrow> bytes \<Rightarrow> bytes \<Rightarrow> bytes \<Rightarrow> nat \<Rightarrow> bytes \<Rightarrow> nat \<Rightarrow> mcast_res c_res" where
  "mcast_leave_source_group = source_request McastLeaveSourceGroup IpDropSourceMembership"

definition mcast_block_source :: "bool \<Rightarrow> endian \<Rightarrow> bytes \<Rightarrow> bytes \<Rightarrow> bytes \<Rightarrow> nat \<Rightarrow> bytes \<Rightarrow> nat \<Rightarrow> mcast_res c_res" where
  "mcast_block_source = source_request McastBlockSource IpBlockSource"

definition mcast_unblock_source :: "bool \<Rightarrow> endian \<Rightarrow> bytes \<Rightarrow> bytes \<Rightarrow> bytes \<Rightarrow> nat \<Rightarrow> bytes \<Rightarrow> nat \<Rightarrow> mcast_res c_res" where
  "mcast_unblock_source = source_request McastUnblockSource IpUnblockSource"

section \<open>Interface, loop-back and time to live\<close>

text \<open>The first argument is what \<open>getsockname\<close> reports of the socket.\<close>

definition mcast_set_if :: "int option \<Rightarrow> if_env \<Rightarrow> bytes option \<Rightarrow> nat \<Rightarrow> mcast_res" where
  "mcast_set_if name env ifname ifindex =
     (if sockfd_to_family name = AF_INET then
        case req_address env ifname ifindex of
          Inl e \<Rightarrow> Inl e
        | Inr a \<Rightarrow> Inr (IPPROTO_IP, IpMulticastIf a)
      else if sockfd_to_family name = AF_INET6 then
        (if ifindex = 0 then
           case ifname of
             None \<Rightarrow> Inl (Some EINVAL)
           | Some n \<Rightarrow>
               if if_nametoindex env n = 0 then Inl (Some ENXIO)
               else Inr (IPPROTO_IPV6, Ipv6MulticastIf (if_nametoindex env n))
         else Inr (IPPROTO_IPV6, Ipv6MulticastIf ifindex))
      else Inl (Some EAFNOSUPPORT))"

definition mcast_set_loop :: "int option \<Rightarrow> int \<Rightarrow> mcast_res" where
  "mcast_set_loop name onoff =
     (if sockfd_to_family name = AF_INET then Inr (IPPROTO_IP, IpMulticastLoop (word_of_int onoff))
      else if sockfd_to_family name = AF_INET6 then Inr (IPPROTO_IPV6, Ipv6MulticastLoop (word_of_int onoff))
      else Inl (Some EAFNOSUPPORT))"

definition mcast_set_ttl :: "int option \<Rightarrow> int \<Rightarrow> mcast_res" where
  "mcast_set_ttl name val =
     (if sockfd_to_family name = AF_INET then Inr (IPPROTO_IP, IpMulticastTtl (word_of_int val))
      else if sockfd_to_family name = AF_INET6 then Inr (IPPROTO_IPV6, Ipv6MulticastHops val)
      else Inl (Some EAFNOSUPPORT))"

text \<open>
  The functions that read an option: \<open>getopt\<close> is the option the socket has, \<open>None\<close> an error of
  \<open>getsockopt\<close>. An unsigned value is returned as a signed 32-bit integer.
\<close>

definition int_of_u32 :: "u32 \<Rightarrow> int" where "int_of_u32 = sint"

definition mcast_get_if :: "int option \<Rightarrow> u32 option \<Rightarrow> int" where
  "mcast_get_if name getopt =
     (if sockfd_to_family name = AF_INET then -1
      else if sockfd_to_family name = AF_INET6 then (case getopt of None \<Rightarrow> -1 | Some idx \<Rightarrow> int_of_u32 idx)
      else -1)"

definition mcast_get_loop :: "int option \<Rightarrow> byte option \<Rightarrow> u32 option \<Rightarrow> int" where
  "mcast_get_loop name opt4 opt6 =
     (if sockfd_to_family name = AF_INET then (case opt4 of None \<Rightarrow> -1 | Some f \<Rightarrow> uint f)
      else if sockfd_to_family name = AF_INET6 then (case opt6 of None \<Rightarrow> -1 | Some f \<Rightarrow> int_of_u32 f)
      else -1)"

definition mcast_get_ttl :: "int option \<Rightarrow> byte option \<Rightarrow> int option \<Rightarrow> int" where
  "mcast_get_ttl name opt4 opt6 =
     (if sockfd_to_family name = AF_INET then (case opt4 of None \<Rightarrow> -1 | Some f \<Rightarrow> uint f)
      else if sockfd_to_family name = AF_INET6 then (case opt6 of None \<Rightarrow> -1 | Some h \<Rightarrow> h)
      else -1)"

text \<open>The wrappers end the process when the operation or \<open>setsockopt\<close> fails.\<close>

definition mcast_ret :: "(int \<times> mcast_opt \<Rightarrow> int) \<Rightarrow> mcast_res \<Rightarrow> int" where
  "mcast_ret setsockopt r = (case r of Inl e \<Rightarrow> -1 | Inr c \<Rightarrow> setsockopt c)"

definition Mcast_wrapper :: "(int \<times> mcast_opt \<Rightarrow> int) \<Rightarrow> mcast_res \<Rightarrow> unit exitable" where
  "Mcast_wrapper setsockopt r = (if mcast_ret setsockopt r < 0 then Exited 1 else Returned ())"

definition Mcast_get :: "int \<Rightarrow> int exitable" where
  "Mcast_get rc = (if rc < 0 then Exited 1 else Returned rc)"

definition Mcast_join ::
    "(int \<times> mcast_opt \<Rightarrow> int) \<Rightarrow> bool \<Rightarrow> endian \<Rightarrow> if_env \<Rightarrow> bytes \<Rightarrow> bytes \<Rightarrow> nat \<Rightarrow> bytes option \<Rightarrow> nat \<Rightarrow> unit exitable c_res" where
  "Mcast_join setsockopt mcast_api e env req grp grplen ifname ifindex =
     bind_err (mcast_join mcast_api e env req grp grplen ifname ifindex) (\<lambda>r. Inr (Mcast_wrapper setsockopt r))"

definition Mcast_join_source_group ::
    "(int \<times> mcast_opt \<Rightarrow> int) \<Rightarrow> bool \<Rightarrow> endian \<Rightarrow> if_env \<Rightarrow> bytes \<Rightarrow> bytes \<Rightarrow> bytes \<Rightarrow> nat \<Rightarrow> bytes \<Rightarrow> nat \<Rightarrow> bytes option \<Rightarrow> nat \<Rightarrow> unit exitable c_res" where
  "Mcast_join_source_group setsockopt mcast_api e env req req' src srclen grp grplen ifname ifindex =
     bind_err (mcast_join_source_group mcast_api e env req req' src srclen grp grplen ifname ifindex) (\<lambda>r. Inr (Mcast_wrapper setsockopt r))"

definition Mcast_block_source ::
    "(int \<times> mcast_opt \<Rightarrow> int) \<Rightarrow> bool \<Rightarrow> endian \<Rightarrow> bytes \<Rightarrow> bytes \<Rightarrow> bytes \<Rightarrow> nat \<Rightarrow> bytes \<Rightarrow> nat \<Rightarrow> unit exitable c_res" where
  "Mcast_block_source setsockopt mcast_api e req req' src srclen grp grplen =
     bind_err (mcast_block_source mcast_api e req req' src srclen grp grplen) (\<lambda>r. Inr (Mcast_wrapper setsockopt r))"

definition Mcast_unblock_source ::
    "(int \<times> mcast_opt \<Rightarrow> int) \<Rightarrow> bool \<Rightarrow> endian \<Rightarrow> bytes \<Rightarrow> bytes \<Rightarrow> bytes \<Rightarrow> nat \<Rightarrow> bytes \<Rightarrow> nat \<Rightarrow> unit exitable c_res" where
  "Mcast_unblock_source setsockopt mcast_api e req req' src srclen grp grplen =
     bind_err (mcast_unblock_source mcast_api e req req' src srclen grp grplen) (\<lambda>r. Inr (Mcast_wrapper setsockopt r))"

definition Mcast_leave ::
    "(int \<times> mcast_opt \<Rightarrow> int) \<Rightarrow> bool \<Rightarrow> endian \<Rightarrow> bytes \<Rightarrow> bytes \<Rightarrow> nat \<Rightarrow> unit exitable c_res" where
  "Mcast_leave setsockopt mcast_api e req grp grplen =
     bind_err (mcast_leave mcast_api e req grp grplen) (\<lambda>r. Inr (Mcast_wrapper setsockopt r))"

definition Mcast_leave_source_group ::
    "(int \<times> mcast_opt \<Rightarrow> int) \<Rightarrow> bool \<Rightarrow> endian \<Rightarrow> bytes \<Rightarrow> bytes \<Rightarrow> bytes \<Rightarrow> nat \<Rightarrow> bytes \<Rightarrow> nat \<Rightarrow> unit exitable c_res" where
  "Mcast_leave_source_group setsockopt mcast_api e req req' src srclen grp grplen =
     bind_err (mcast_leave_source_group mcast_api e req req' src srclen grp grplen) (\<lambda>r. Inr (Mcast_wrapper setsockopt r))"

definition Mcast_set_if ::
    "(int \<times> mcast_opt \<Rightarrow> int) \<Rightarrow> int option \<Rightarrow> if_env \<Rightarrow> bytes option \<Rightarrow> nat \<Rightarrow> unit exitable" where
  "Mcast_set_if setsockopt name env ifname ifindex =
     Mcast_wrapper setsockopt (mcast_set_if name env ifname ifindex)"

definition Mcast_set_loop ::
    "(int \<times> mcast_opt \<Rightarrow> int) \<Rightarrow> int option \<Rightarrow> int \<Rightarrow> unit exitable" where
  "Mcast_set_loop setsockopt name onoff =
     Mcast_wrapper setsockopt (mcast_set_loop name onoff)"

definition Mcast_set_ttl ::
    "(int \<times> mcast_opt \<Rightarrow> int) \<Rightarrow> int option \<Rightarrow> int \<Rightarrow> unit exitable" where
  "Mcast_set_ttl setsockopt name val =
     Mcast_wrapper setsockopt (mcast_set_ttl name val)"

definition Mcast_get_if :: "int option \<Rightarrow> u32 option \<Rightarrow> int exitable" where
  "Mcast_get_if name getopt = Mcast_get (mcast_get_if name getopt)"

definition Mcast_get_loop :: "int option \<Rightarrow> byte option \<Rightarrow> u32 option \<Rightarrow> int exitable" where
  "Mcast_get_loop name opt4 opt6 = Mcast_get (mcast_get_loop name opt4 opt6)"

definition Mcast_get_ttl :: "int option \<Rightarrow> byte option \<Rightarrow> int option \<Rightarrow> int exitable" where
  "Mcast_get_ttl name opt4 opt6 = Mcast_get (mcast_get_ttl name opt4 opt6)"

section \<open>Properties\<close>

text \<open>
  What a request for membership means: the group address, the source and the interface, by its index; 0 is any. From
  a \<open>sockaddr_storage\<close> the system takes the address of its family.
\<close>

definition storage_addr :: "endian \<Rightarrow> bytes \<Rightarrow> bytes option" where
  "storage_addr e b =
     (case sa_family_of e b of
        Inl _ \<Rightarrow> None
      | Inr f \<Rightarrow> if f = AF_INET then Some (take 4 (drop 4 b)) else if f = AF_INET6 then Some (take 16 (drop 8 b)) else None)"

fun membership :: "endian \<Rightarrow> (bytes \<Rightarrow> nat) \<Rightarrow> mcast_opt \<Rightarrow> (bytes \<times> bytes option \<times> nat) option" where
  "membership e ai (McastJoinGroup i g) = map_option (\<lambda>a. (a, None, i)) (storage_addr e g)"
| "membership e ai (McastJoinSourceGroup i g s) =
     (case (storage_addr e g, storage_addr e s) of (Some a, Some b) \<Rightarrow> Some (a, Some b, i) | _ \<Rightarrow> None)"
| "membership e ai (IpAddMembership g a) = Some (g, None, ai a)"
| "membership e ai (IpAddSourceMembership g s a) = Some (g, Some s, ai a)"
| "membership e ai (Ipv6JoinGroup g i) = Some (g, None, i)"
| "membership e ai _ = None"

text \<open>Names, indices and addresses of the interfaces fit together.\<close>

definition if_consistent :: "if_env \<Rightarrow> (bytes \<Rightarrow> nat) \<Rightarrow> bool" where
  "if_consistent env ai \<longleftrightarrow> ai INADDR_ANY = 0 \<and> (\<forall>n a. if_addr env n = Some a \<longrightarrow> ai a = if_nametoindex env n \<and> if_nametoindex env n \<noteq> 0) \<and>
     (\<forall>i n. if_indextoname env i = Some n \<longrightarrow> if_nametoindex env n = i)"

lemma req_address_index:
  assumes "if_consistent env ai" "req_address env ifname ifindex = Inr a" "\<And>n. ifname = Some n \<Longrightarrow> length n \<le> IFNAMSIZ"
  shows "req_interface env ifname ifindex = Inr (ai a)"
  using assms by (auto simp: req_address_def req_interface_def if_consistent_def Let_def split: if_splits option.splits) fastforce

lemma storage_copy_ok:
  assumes "length req = SS_SIZE" "n \<le> SS_SIZE" "n \<le> length sa"
  shows "storage_copy req sa n = Inr (take n sa @ drop n req)"
  using assms by (simp add: storage_copy_def mem_read_def mem_write_def)

text \<open>As long as the address lies in the bytes that are copied, the copy means the same.\<close>

definition addr_end :: "int \<Rightarrow> nat" where
  "addr_end f = (if f = AF_INET then 8 else if f = AF_INET6 then 24 else 2)"

lemma storage_addr_copy:
  assumes "sa_family_of e sa = Inr f" "addr_end f \<le> n" "n \<le> length sa"
  shows "storage_addr e (take n sa @ drop n req) = storage_addr e sa"
proof -
  have n2: "2 \<le> n" using assms(2) by (auto simp: addr_end_def split: if_splits)
  then have "mem_get (take n sa @ drop n req) 0 = mem_get sa 0" "mem_get (take n sa @ drop n req) 1 = mem_get sa 1"
    using assms(3) by (auto simp: mem_get_def nth_append)
  then have "sa_family_of e (take n sa @ drop n req) = Inr f" using assms(1) by (simp add: sa_family_of_def)
  moreover have "take 4 (drop 4 (take n sa @ drop n req)) = take 4 (drop 4 sa)" if "8 \<le> n"
    using that assms(3) by (auto simp: drop_take min_def)
  moreover have "take 16 (drop 8 (take n sa @ drop n req)) = take 16 (drop 8 sa)" if "24 \<le> n"
    using that assms(3) by (auto simp: drop_take min_def)
  ultimately show ?thesis using assms(1,2) by (auto simp: storage_addr_def addr_end_def split: if_splits)
qed

lemma addr_of_storage:
  assumes "sa_family_of e sa = Inr f" "addr_end f \<le> length sa"
  shows "f = AF_INET \<Longrightarrow> \<exists>a. sin_addr_of sa = Inr a \<and> storage_addr e sa = Some a"
    "f = AF_INET6 \<Longrightarrow> \<exists>a. sin6_addr_of sa = Inr a \<and> storage_addr e sa = Some a"
  using assms by (auto simp: sin_addr_of_def sin6_addr_of_def storage_addr_def mem_read_def addr_end_def af_defs)

text \<open>
  C32. The two variants of joining are equivalent when the lengths the caller gives cover the addresses: neither
  leaves the socket addresses, and whenever the code written for each family makes a
  request, the protocol-independent code makes one at the same level for the same group, the
  same source and the same interface, provided the source is an IPv4 address and names, indices and addresses of the
  interfaces are consistent. For a group that is neither IPv4 nor IPv6 the
  family code reports that the family is not supported, and the protocol-independent code asks at level -1. With a length that
  is too short the variants differ: the protocol-independent code passes on what the request held before, here shown for the source.
\<close>

theorem mcast_variants_equivalent:
  assumes "if_consistent env ai" "\<And>n. ifname = Some n \<Longrightarrow> length n \<le> 16" "length req = 128" "length req' = 128"
    and g: "sa_family_of e grp = Inr f" "addr_end f \<le> grplen" "grplen \<le> length grp" "grplen \<le> 128"
    and s: "sa_family_of e src = Inr AF_INET" "8 \<le> srclen" "srclen \<le> length src" "srclen \<le> 128"
  shows "(\<exists>r1 r2 r3 r4. mcast_join False e env req grp grplen ifname ifindex = Inr r1 \<and>
      mcast_join True e env req grp grplen ifname ifindex = Inr r2 \<and>
      mcast_join_source_group False e env req req' src srclen grp grplen ifname ifindex = Inr r3 \<and>
      mcast_join_source_group True e env req req' src srclen grp grplen ifname ifindex = Inr r4 \<and>
      (\<forall>l old. r1 = Inr (l, old) \<longrightarrow> (\<exists>new m. r2 = Inr (l, new) \<and> membership e ai new = Some m \<and> membership e ai old = Some m)) \<and>
      (\<forall>l old. r3 = Inr (l, old) \<longrightarrow> (\<exists>new m. r4 = Inr (l, new) \<and> membership e ai new = Some m \<and> membership e ai old = Some m)) \<and>
      (f \<notin> {AF_INET, AF_INET6} \<longrightarrow> r1 = Inl (Some EAFNOSUPPORT) \<and> (\<forall>l new. r2 = Inr (l, new) \<longrightarrow> l = -1))) \<and>
    (\<forall>n l i g s. n \<le> length src \<longrightarrow>
      mcast_join_source_group True e env req req' src n grp grplen ifname ifindex = Inr (Inr (l, McastJoinSourceGroup i g s)) \<longrightarrow>
      s = take n src @ drop n req')"
proof -
  have r: "req_interface env ifname ifindex = Inr (ai a)" if "req_address env ifname ifindex = Inr a" for a
    using req_address_index [OF assms(1) that] assms(2) by (simp add: IFNAMSIZ_def)
  have z: "\<not> SS_SIZE < grplen" "\<not> SS_SIZE < srclen" using g(4) s(4) by (simp_all add: SS_SIZE_def)
  have cg: "storage_copy req grp grplen = Inr (take grplen grp @ drop grplen req)"
    using storage_copy_ok [of req grplen grp] assms(3) g by (simp add: SS_SIZE_def)
  have cs: "storage_copy req' src n = Inr (take n src @ drop n req')" if "n \<le> SS_SIZE" "n \<le> length src" for n
    using storage_copy_ok [of req' n src] assms(4) that by (simp add: SS_SIZE_def)
  have ag: "storage_addr e (take grplen grp @ drop grplen req) = storage_addr e grp" by (rule storage_addr_copy [OF g(1-3)])
  have as: "storage_addr e (take srclen src @ drop srclen req') = storage_addr e src"
    by (rule storage_addr_copy [OF s(1)]) (use s in \<open>simp_all add: addr_end_def\<close>)
  have e: "addr_end f \<le> length grp" using g by simp
  obtain sa where sa: "sin_addr_of src = Inr sa" "storage_addr e src = Some sa"
    using addr_of_storage(1) [OF s(1)] s(2,3) by (auto simp: addr_end_def)
  have last: "s = take n src @ drop n req'"
    if "n \<le> length src" "mcast_join_source_group True e env req req' src n grp grplen ifname ifindex = Inr (Inr (l, McastJoinSourceGroup i g s))" for n l i g s
    using that cs [of n] z cg by (auto simp: mcast_join_source_group_def bind_err_eq_Inr split: sum.splits if_splits)
  have cs': "storage_copy req' src srclen = Inr (take srclen src @ drop srclen req')" using cs [of srclen] s(3) z(2) by simp
  note d = mcast_join_def mcast_join_source_group_def z cg cs' g(1) sa(1)
  consider (ip4) "f = AF_INET" | (ip6) "f = AF_INET6" | (other) "f \<notin> {AF_INET, AF_INET6}" by blast
  then show ?thesis
  proof cases
    case ip4
    obtain a where a: "sin_addr_of grp = Inr a" "storage_addr e grp = Some a" using addr_of_storage(1) [OF g(1) e] ip4 by blast
    show ?thesis using last r by (auto simp: d ip4 a ag as sa(2) family_to_level_def split: sum.splits)
  next
    case ip6
    obtain a where a: "sin6_addr_of grp = Inr a" "storage_addr e grp = Some a" using addr_of_storage(2) [OF g(1) e] ip6 by blast
    show ?thesis using last by (auto simp: d ip6 a ag family_to_level_def af_defs split: sum.splits)
  next
    case other
    then show ?thesis using last by (auto simp: d family_to_level_def split: sum.splits)
  qed
qed

definition if_demo :: if_env where
  "if_demo = \<lparr>if_nametoindex = (\<lambda>n. if n = [108, 111] then 1 else 0), if_indextoname = (\<lambda>i. if i = 1 then Some [108, 111] else None),
     if_addr = (\<lambda>n. if n = [108, 111] then Some [127, 0, 0, 1] else None)\<rparr>"

definition sin_image :: "bytes \<Rightarrow> bytes" where
  "sin_image a = [2, 0, 0, 0] @ a @ replicate 8 0"

theorem mcast_variants_equivalent_witness:
  "\<exists>new. mcast_join_source_group True LittleEndian if_demo (replicate 128 7) (replicate 128 7) (sin_image [10, 0, 0, 9]) 16
        (sin_image [232, 0, 0, 1]) 16 (Some [108, 111]) 0 = Inr (Inr (0, new)) \<and>
     membership LittleEndian (\<lambda>a. if a = INADDR_ANY then 0 else 1) new = Some ([232, 0, 0, 1], Some [10, 0, 0, 9], 1)"
proof -
  let ?ai = "\<lambda>a. if a = INADDR_ANY then 0 else 1 :: nat" and ?g = "sin_image [232, 0, 0, 1]" and ?s = "sin_image [10, 0, 0, 9]"
    and ?r = "replicate 128 7 :: bytes"
  have c: "if_consistent if_demo ?ai" by (auto simp: if_consistent_def if_demo_def INADDR_ANY_def split: if_splits)
  have f: "sa_family_of LittleEndian (sin_image a) = Inr AF_INET" for a
    by (simp add: sa_family_of_def sin_image_def mem_get_def load16_def u16_of_def af_defs)
  have a: "sin_addr_of (sin_image [a, b, c, d]) = Inr [a, b, c, d]" for a b c d
    by (simp add: sin_addr_of_def sin_image_def mem_read_def)
  have i: "req_address if_demo (Some [108, 111]) 0 = Inr [127, 0, 0, 1]" by (simp add: req_address_def if_demo_def IFNAMSIZ_def)
  have "mcast_join_source_group False LittleEndian if_demo ?r ?r ?s 16 ?g 16 (Some [108, 111]) 0 =
      Inr (Inr (0, IpAddSourceMembership [232, 0, 0, 1] [10, 0, 0, 9] [127, 0, 0, 1]))"
    by (simp add: mcast_join_source_group_def f a i IPPROTO_IP_def)
  then show ?thesis
    using mcast_variants_equivalent [where ifname = "Some [108, 111]" and ifindex = 0 and req = ?r and req' = ?r and grp = ?g
        and grplen = 16 and src = ?s and srclen = 16, OF c _ _ _ f _ _ _ f]
    by (auto simp: addr_end_def sin_image_def INADDR_ANY_def)
qed

text \<open>
  Setting and reading back: if the socket stores the option it is given, \<open>mcast_get_ttl\<close> and
  \<open>mcast_get_loop\<close> return the value set, reduced modulo 256 on an IPv4 socket, and
  \<open>mcast_get_loop\<close> as a signed 32-bit number on an IPv6 socket.
\<close>

theorem mcast_set_get:
  shows "(\<exists>f. mcast_set_ttl (Some AF_INET) v = Inr (0, IpMulticastTtl f) \<and> mcast_get_ttl (Some AF_INET) (Some f) h = v mod 256) \<and>
    (\<exists>f. mcast_set_ttl (Some AF_INET6) v = Inr (41, Ipv6MulticastHops f) \<and> mcast_get_ttl (Some AF_INET6) b (Some f) = v) \<and>
    (\<exists>f. mcast_set_loop (Some AF_INET) v = Inr (0, IpMulticastLoop f) \<and> mcast_get_loop (Some AF_INET) (Some f) w = v mod 256) \<and>
    (\<exists>f. mcast_set_loop (Some AF_INET6) v = Inr (41, Ipv6MulticastLoop f) \<and>
       mcast_get_loop (Some AF_INET6) b (Some f) = (v + 2 ^ 31) mod 2 ^ 32 - 2 ^ 31)"
  by (simp add: mcast_set_ttl_def mcast_get_ttl_def mcast_set_loop_def mcast_get_loop_def sockfd_to_family_def af_defs int_of_u32_def
      uint_word_of_int signed_of_int take_bit_eq_mod signed_take_bit_eq_take_bit_shift)

end
