(* ===== verification/IfiInfo.thy ===== *)
theory IfiInfo
  imports SockAddr
begin

text \<open>
  \<open>get_ifi_info.c\<close> of \<open>src/basic_lib/\<close>: the list of the interfaces of the host, from the records
  that \<open>ioctl(SIOCGIFCONF)\<close> writes into a buffer. As configured (\<open>config.h\<close>) the addresses have no
  length field, there are no link-layer addresses, and the MTU is available. The size \<open>sz\<close> of
  \<open>struct ifreq\<close> is a parameter: it is 32 bytes on 32-bit hosts and 40 on 64-bit ones.
\<close>

section \<open>The buffer\<close>

definition IFF_UP :: u16 where "IFF_UP = 1"
definition IFF_BROADCAST :: u16 where "IFF_BROADCAST = 2"
definition IFF_POINTOPOINT :: u16 where "IFF_POINTOPOINT = 16"
definition EINVAL_IFI :: int where "EINVAL_IFI = 22"
definition IFI_NAME :: nat where "IFI_NAME = 16"
definition IFI_ALIAS :: u16 where "IFI_ALIAS = 1"

text \<open>
  The loop that guesses the size: \<open>conf len\<close> is what \<open>SIOCGIFCONF\<close> puts into a buffer of \<open>len\<close>
  bytes, or its error number. The result is the contents and the size of the buffer.
\<close>

fun conf_loop :: "nat \<Rightarrow> nat \<Rightarrow> (nat \<Rightarrow> int + bytes) \<Rightarrow> nat \<Rightarrow> nat \<Rightarrow> (bytes \<times> nat) exitable option" where
  "conf_loop 0 sz conf len lastlen = None"
| "conf_loop (Suc fuel) sz conf len lastlen =
     (case conf len of
        Inl e \<Rightarrow>
          if e \<noteq> EINVAL_IFI \<or> lastlen \<noteq> 0 then Some (Exited 1)
          else conf_loop fuel sz conf (len + 10 * sz) lastlen
      | Inr bs \<Rightarrow>
          if length bs = lastlen then Some (Returned (bs, len))
          else conf_loop fuel sz conf (len + 10 * sz) (length bs))"

section \<open>One record\<close>

text \<open>The numbers of the structure have the type \<open>short\<close> (\<open>ifi_hlen\<close>: \<open>u_short\<close>), 16 bits.\<close>

record ifi_info =
  ifi_name :: bytes
  ifi_index :: u16
  ifi_mtu :: u16
  ifi_hlen :: u16
  ifi_flags :: u16
  ifi_myflags :: u16
  ifi_addr :: "bytes option"
  ifi_brdaddr :: "bytes option"
  ifi_dstaddr :: "bytes option"

text \<open>The answers of the other requests, by the name of the interface; \<open>None\<close> ends the process.\<close>

record ifi_env =
  ie_flags :: "bytes \<Rightarrow> u16 option"
  ie_mtu :: "bytes \<Rightarrow> int option"
  ie_brdaddr :: "bytes \<Rightarrow> bytes option"
  ie_dstaddr :: "bytes \<Rightarrow> bytes option"

definition c_string :: "bytes \<Rightarrow> bytes" where
  "c_string bs = takeWhile (\<lambda>b. b \<noteq> 0) bs"

definition sa_size :: "int \<Rightarrow> nat" where
  "sa_size fam = (if fam = AF_INET6 then 28 else 16)"

text \<open>\<open>strchr(ifr->ifr_name, ':')\<close> and the zero byte stored over the colon.\<close>

definition cut_colon :: "bytes \<Rightarrow> nat \<Rightarrow> bytes c_res" where
  "cut_colon buf ptr =
     bind_err (c_strlen (drop ptr buf)) (\<lambda>n.
       let s = take n (drop ptr buf); i = length (takeWhile (\<lambda>b. b \<noteq> 58) s) in
       Inr (if i < n then buf[ptr + i := 0] else buf))"

text \<open>A request whose failure ends the process.\<close>

definition ask :: "'a option \<Rightarrow> ('a \<Rightarrow> 'b exitable) \<Rightarrow> 'b exitable" where
  "ask r k = (case r of None \<Rightarrow> Exited 1 | Some x \<Rightarrow> k x)"

text \<open>The element for an interface that is up; \<open>fam\<close> is the requested family. The MTU is an \<open>int\<close> that is stored as a \<open>short\<close>.\<close>

definition ifi_make :: "ifi_env \<Rightarrow> int \<Rightarrow> bytes \<Rightarrow> bytes \<Rightarrow> u16 \<Rightarrow> u16 \<Rightarrow> ifi_info exitable" where
  "ifi_make env fam name addr flags myflags =
     ask (ie_mtu env name) (\<lambda>mtu.
       let ifi = \<lparr>ifi_name = take (IFI_NAME - 1) name, ifi_index = 0, ifi_mtu = word_of_int mtu, ifi_hlen = 0, ifi_flags = flags,
                  ifi_myflags = myflags, ifi_addr = (if fam = AF_INET \<or> fam = AF_INET6 then Some addr else None),
                  ifi_brdaddr = None, ifi_dstaddr = None\<rparr> in
       if fam = AF_INET then
         ask (if flags AND IFF_BROADCAST \<noteq> 0 then map_option Some (ie_brdaddr env name) else Some None) (\<lambda>brd.
         ask (if flags AND IFF_POINTOPOINT \<noteq> 0 then map_option Some (ie_dstaddr env name) else Some None) (\<lambda>dst.
           Returned (ifi\<lparr>ifi_brdaddr := brd, ifi_dstaddr := dst\<rparr>)))
       else if fam = AF_INET6 then
         ask (if flags AND IFF_POINTOPOINT \<noteq> 0 then map_option Some (ie_dstaddr env name) else Some None) (\<lambda>dst.
           Returned (ifi\<lparr>ifi_dstaddr := dst\<rparr>))
       else Returned ifi)"

text \<open>One round of the loop over the buffer: the buffer, \<open>lastname\<close> and the new element, if there is one.\<close>

definition ifi_step :: "ifi_env \<Rightarrow> endian \<Rightarrow> nat \<Rightarrow> int \<Rightarrow> bool \<Rightarrow> bytes \<Rightarrow> nat \<Rightarrow> bytes \<Rightarrow>
    (nat \<times> (bytes \<times> bytes \<times> ifi_info option) exitable) c_res" where
  "ifi_step env e sz family doaliases buf ptr lastname =
     bind_err (mem_read buf ptr IFI_NAME) (\<lambda>_.
     bind_err (mem_read buf (ptr + IFI_NAME) 2) (\<lambda>f.
       let fam = uint (load16 e (f ! 0) (f ! 1)); ptr' = ptr + IFI_NAME + sa_size fam in
       if fam \<noteq> family then Inr (ptr', Returned (buf, lastname, None))
       else
         bind_err (cut_colon buf ptr) (\<lambda>buf'.
         bind_err (mem_read buf' ptr IFI_NAME) (\<lambda>name16.
           let name = c_string name16; same = (c_string lastname = name) in
           if same \<and> \<not> doaliases then Inr (ptr', Returned (buf', lastname, None))
           else
             bind_err (mem_read buf' ptr sz) (\<lambda>ifrcopy.
             bind_err (mem_read buf' (ptr + IFI_NAME) (sa_size fam)) (\<lambda>addr.
               Inr (ptr', ask (ie_flags env name) (\<lambda>flags.
                 if flags AND IFF_UP = 0 then Returned (buf', name16, None)
                 else case ifi_make env fam name addr flags (if same then IFI_ALIAS else 0) of
                        Exited c \<Rightarrow> Exited c
                      | Returned ifi \<Rightarrow> Returned (buf', name16, Some ifi)))))))))"

lemma ifi_step_progress: "ifi_step env e sz family doaliases buf ptr lastname = Inr (ptr', r) \<Longrightarrow> ptr < ptr'"
  by (auto simp: ifi_step_def bind_err_eq_Inr sa_size_def IFI_NAME_def Let_def split: if_splits)

function ifi_walk :: "ifi_env \<Rightarrow> endian \<Rightarrow> nat \<Rightarrow> int \<Rightarrow> bool \<Rightarrow> nat \<Rightarrow> bytes \<Rightarrow> nat \<Rightarrow> bytes \<Rightarrow> ifi_info list \<Rightarrow>
    ifi_info list exitable c_res" where
  "ifi_walk env e sz family doaliases ifc_len buf ptr lastname acc =
     (if ptr < ifc_len then
        bind_err (ifi_step env e sz family doaliases buf ptr lastname) (\<lambda>(ptr', r).
          case r of
            Exited c \<Rightarrow> Inr (Exited c)
          | Returned (buf', lastname', ifi) \<Rightarrow>
              ifi_walk env e sz family doaliases ifc_len buf' ptr' lastname' (acc @ (case ifi of None \<Rightarrow> [] | Some i \<Rightarrow> [i])))
      else Inr (Returned acc))"
  by pat_completeness auto
termination
  by (relation "measure (\<lambda>(env, e, sz, family, doaliases, ifc_len, buf, ptr, lastname, acc). ifc_len - ptr)")
    (auto dest: ifi_step_progress)

declare ifi_walk.simps [simp del]

text \<open>The whole function: \<open>junk\<close> is what the allocated buffer held behind the records.\<close>

definition get_ifi_info :: "nat \<Rightarrow> (nat \<Rightarrow> int + bytes) \<Rightarrow> ifi_env \<Rightarrow> endian \<Rightarrow> nat \<Rightarrow> int \<Rightarrow> bool \<Rightarrow> (nat \<Rightarrow> byte) \<Rightarrow>
    ifi_info list exitable c_res option" where
  "get_ifi_info fuel conf env e sz family doaliases junk =
     (case conf_loop fuel sz conf (100 * sz) 0 of
        None \<Rightarrow> None
      | Some (Exited c) \<Rightarrow> Some (Inr (Exited c))
      | Some (Returned (bs, len)) \<Rightarrow>
          Some (ifi_walk env e sz family doaliases (length bs) (bs @ map junk [length bs ..< len]) 0 [0] []))"

definition Get_ifi_info :: "ifi_info list exitable \<Rightarrow> ifi_info list exitable" where
  "Get_ifi_info r = (case r of Exited c \<Rightarrow> Exited c | Returned l \<Rightarrow> if l = [] then Exited 1 else Returned l)"

text \<open>\<open>free_ifi_info\<close>: the blocks it frees, by the position of the element, in this order.\<close>

datatype ifi_block = AddrOf nat | BrdaddrOf nat | DstaddrOf nat | InfoOf nat

fun free_ifi_info :: "nat \<Rightarrow> ifi_info list \<Rightarrow> ifi_block list" where
  "free_ifi_info i [] = []"
| "free_ifi_info i (ifi # rest) =
     (if ifi_addr ifi \<noteq> None then [AddrOf i] else []) @ (if ifi_brdaddr ifi \<noteq> None then [BrdaddrOf i] else []) @
     (if ifi_dstaddr ifi \<noteq> None then [DstaddrOf i] else []) @ [InfoOf i] @ free_ifi_info (i + 1) rest"

section \<open>Correctness for records of 32 bytes\<close>

record ifr =
  rr_name :: bytes
  rr_fam :: u16
  rr_data :: bytes

definition wf_ifr :: "ifr \<Rightarrow> bool" where
  "wf_ifr r \<longleftrightarrow> length (rr_name r) < 16 \<and> 0 \<notin> set (rr_name r) \<and> length (rr_data r) = 14 \<and> uint (rr_fam r) \<noteq> AF_INET6"

definition enc_ifr :: "endian \<Rightarrow> nat \<Rightarrow> ifr \<Rightarrow> bytes" where
  "enc_ifr e sz r = rr_name r @ replicate (16 - length (rr_name r)) 0 @ store16 e (rr_fam r) @ rr_data r @ replicate (sz - 32) 0"

lemma length_enc_ifr: "wf_ifr r \<Longrightarrow> length (enc_ifr e 32 r) = 32"
  by (simp add: enc_ifr_def wf_ifr_def)

text \<open>The loop over the records instead of the buffer.\<close>

definition ifi_spec_step :: "ifi_env \<Rightarrow> endian \<Rightarrow> int \<Rightarrow> bool \<Rightarrow> bytes \<Rightarrow> ifr \<Rightarrow> (bytes \<times> ifi_info option) exitable" where
  "ifi_spec_step env e family doaliases ln r =
     (let name = takeWhile (\<lambda>b. b \<noteq> 58) (rr_name r) in
      if uint (rr_fam r) \<noteq> family \<or> ln = name \<and> \<not> doaliases then Returned (ln, None)
      else ask (ie_flags env name) (\<lambda>flags.
        if flags AND IFF_UP = 0 then Returned (name, None)
        else case ifi_make env family name (store16 e (rr_fam r) @ rr_data r) flags (if ln = name then IFI_ALIAS else 0) of
               Exited c \<Rightarrow> Exited c
             | Returned ifi \<Rightarrow> Returned (name, Some ifi)))"

fun ifi_spec :: "ifi_env \<Rightarrow> endian \<Rightarrow> int \<Rightarrow> bool \<Rightarrow> bytes \<Rightarrow> ifr list \<Rightarrow> ifi_info list exitable" where
  "ifi_spec env e family doaliases ln [] = Returned []"
| "ifi_spec env e family doaliases ln (r # rs) =
     (case ifi_spec_step env e family doaliases ln r of
        Exited c \<Rightarrow> Exited c
      | Returned (ln', i) \<Rightarrow>
          (case ifi_spec env e family doaliases ln' rs of
             Exited c \<Rightarrow> Exited c
           | Returned l \<Rightarrow> Returned ((case i of None \<Rightarrow> [] | Some x \<Rightarrow> [x]) @ l)))"

lemma load16_store16: "load16 e (store16 e w ! 0) (store16 e w ! 1) = w"
  by (cases e) (simp_all add: load16_def store16_def)

text \<open>The name of a record once the colon is cut off, as 16 bytes.\<close>

definition cut_name :: "bytes \<Rightarrow> bytes" where
  "cut_name name = (let i = length (takeWhile (\<lambda>b. b \<noteq> 58) name) in
     (if i < length name then name[i := 0] else name) @ replicate (16 - length name) 0)"

lemma cut_name_length: "length name < 16 \<Longrightarrow> length (cut_name name) = 16"
  by (simp add: cut_name_def Let_def)

lemma cut_name_string:
  assumes "0 \<notin> set name" "length name < 16"
  shows "c_string (cut_name name) = takeWhile (\<lambda>b. b \<noteq> 58) name"
proof -
  let ?t = "takeWhile (\<lambda>b. b \<noteq> 58) name"
  have z: "\<forall>b\<in>set ?t. b \<noteq> 0" using assms(1) set_takeWhileD [of _ "\<lambda>b. b \<noteq> 58" name] by metis
  show ?thesis
  proof (cases "length ?t < length name")
    case True
    have "name[length ?t := 0] = ?t @ 0 # drop (Suc (length ?t)) name"
      using True by (simp add: upd_conv_take_nth_drop takeWhile_eq_take [symmetric])
    then show ?thesis using True z by (simp add: cut_name_def c_string_def Let_def takeWhile_append2)
  next
    case False
    then have t: "?t = name" by (metis length_takeWhile_le nat_less_le takeWhile_eq_take take_all_iff not_le)
    have "takeWhile (\<lambda>b. b \<noteq> 0) (name @ replicate (16 - length name) 0) = name"
      using z t assms(2) by (subst takeWhile_append2) (auto simp: takeWhile_replicate)
    then show ?thesis unfolding cut_name_def Let_def t c_string_def by simp
  qed
qed

lemma cut_colon_enc:
  assumes "wf_ifr r"
  shows "cut_colon (pre @ enc_ifr e 32 r @ post) (length pre) = Inr (pre @ (cut_name (rr_name r) @ store16 e (rr_fam r) @ rr_data r) @ post)"
proof -
  let ?n = "rr_name r" and ?z = "replicate (16 - length (rr_name r)) (0 :: byte)"
  have p: "16 - length ?n = Suc (15 - length ?n)" using assms by (auto simp: wf_ifr_def)
  have l: "c_strlen (enc_ifr e 32 r @ post) = Inr (length ?n)"
    using assms c_strlen_mid [of ?n "replicate (15 - length ?n) 0 @ store16 e (rr_fam r) @ rr_data r @ post"]
    by (simp add: enc_ifr_def p wf_ifr_def)
  have "length (takeWhile (\<lambda>b. b \<noteq> 58) ?n) < length ?n \<Longrightarrow> 
     (pre @ ?n @ ?z @ store16 e (rr_fam r) @ rr_data r @ post)[length pre + length (takeWhile (\<lambda>b. b \<noteq> 58) ?n) := 0] =
     pre @ ?n[length (takeWhile (\<lambda>b. b \<noteq> 58) ?n) := 0] @ ?z @ store16 e (rr_fam r) @ rr_data r @ post"
    by (simp add: list_update_append)
  then show ?thesis using l by (simp add: cut_colon_def enc_ifr_def cut_name_def Let_def)
qed

lemma mem_read_at: "n = length ys \<Longrightarrow> i = length xs \<Longrightarrow> mem_read (xs @ ys @ zs) i n = Inr ys"
  by (simp add: mem_read_mid)

lemma ifi_step_enc:
  assumes wf: "wf_ifr r" and fam: "family \<noteq> AF_INET6"
  shows "\<exists>x. ifi_step env e 32 family doaliases (pre @ enc_ifr e 32 r @ post) (length pre) ln = Inr (length pre + 32, x) \<and>
    (case ifi_spec_step env e family doaliases (c_string ln) r of
       Exited c \<Rightarrow> x = Exited c
     | Returned (l', i) \<Rightarrow> \<exists>b l. x = Returned (pre @ b @ post, l, i) \<and> length b = 32 \<and> c_string l = l')"
proof -
  let ?n = "rr_name r" and ?z = "replicate (16 - length (rr_name r)) (0 :: byte)" and ?f = "store16 e (rr_fam r)"
  let ?c = "cut_name ?n" and ?a = "?f @ rr_data r"
  have n: "length ?n < 16" "0 \<notin> set ?n" "length (rr_data r) = 14" "uint (rr_fam r) \<noteq> AF_INET6" using wf by (simp_all add: wf_ifr_def)
  have enc: "enc_ifr e 32 r = ?n @ ?z @ ?a" by (simp add: enc_ifr_def)
  have r1: "mem_read (pre @ enc_ifr e 32 r @ post) (length pre) IFI_NAME = Inr (?n @ ?z)"
    using mem_read_at [of 16 "?n @ ?z" "length pre" pre "?a @ post"] n(1) by (simp add: enc IFI_NAME_def)
  have r2: "mem_read (pre @ enc_ifr e 32 r @ post) (length pre + IFI_NAME) 2 = Inr ?f"
    using mem_read_at [of 2 ?f "length pre + 16" "pre @ ?n @ ?z" "rr_data r @ post"] n(1) by (simp add: enc IFI_NAME_def)
  have r3: "mem_read (pre @ (?c @ ?a) @ post) (length pre) IFI_NAME = Inr ?c"
    using mem_read_at [of 16 ?c "length pre" pre "?a @ post"] cut_name_length [OF n(1)] by (simp add: IFI_NAME_def)
  have r4: "mem_read (pre @ (?c @ ?a) @ post) (length pre) 32 = Inr (?c @ ?a)"
    using mem_read_at [of 32 "?c @ ?a" "length pre" pre post] cut_name_length [OF n(1)] n(3) by simp
  have r5: "mem_read (pre @ (?c @ ?a) @ post) (length pre + IFI_NAME) 16 = Inr ?a"
    using mem_read_at [of 16 ?a "length pre + 16" "pre @ ?c" post] cut_name_length [OF n(1)] n(3) by (simp add: IFI_NAME_def)
  have sz: "sa_size (uint (rr_fam r)) = 16" "sa_size family = 16" using n(4) fam by (simp_all add: sa_size_def)
  have el: "length (enc_ifr e 32 r) = 32" by (rule length_enc_ifr [OF wf])
  have cl: "length (?c @ ?a) = 32" using cut_name_length [OF n(1)] n(3) by simp
  have nm: "length pre + IFI_NAME + 16 = length pre + 32" by (simp add: IFI_NAME_def)
  note step = ifi_step_def r1 r2 load16_store16 [simplified] nm cut_colon_enc [OF wf] cut_name_string [OF n(2,1)] sz
  show ?thesis
  proof (cases "uint (rr_fam r) = family")
    case False
    then have "ifi_step env e 32 family doaliases (pre @ enc_ifr e 32 r @ post) (length pre) ln =
        Inr (length pre + 32, Returned (pre @ enc_ifr e 32 r @ post, ln, None))"
      by (simp add: step)
    then show ?thesis using False el by (auto simp: ifi_spec_step_def)
  next
    case True
    let ?t = "takeWhile (\<lambda>b. b \<noteq> 58) ?n" and ?same = "c_string ln = takeWhile (\<lambda>b. b \<noteq> 58) ?n"
    show ?thesis
    proof (cases "?same \<and> \<not> doaliases")
      case al: True
      then have "ifi_step env e 32 family doaliases (pre @ enc_ifr e 32 r @ post) (length pre) ln =
          Inr (length pre + 32, Returned (pre @ (?c @ ?a) @ post, ln, None))"
        using True r3 by (simp add: step)
      then show ?thesis using True al cl by (auto simp: ifi_spec_step_def Let_def)
    next
      case al: False
      have "ifi_step env e 32 family doaliases (pre @ enc_ifr e 32 r @ post) (length pre) ln =
          Inr (length pre + 32, ask (ie_flags env ?t) (\<lambda>flags.
             if flags AND IFF_UP = 0 then Returned (pre @ ?c @ ?f @ rr_data r @ post, ?c, None)
             else case ifi_make env family ?t ?a flags (if ?same then IFI_ALIAS else 0) of
                    Exited c \<Rightarrow> Exited c
                  | Returned ifi \<Rightarrow> Returned (pre @ ?c @ ?f @ rr_data r @ post, ?c, Some ifi)))"
        using True al r3 r4 r5 by (auto simp: step Let_def cong: if_cong)
      then show ?thesis
        using True al cl cut_name_string [OF n(2,1)]
        by (auto simp: ifi_spec_step_def Let_def ask_def split: option.splits exitable.splits)
    qed
  qed
qed

lemma ifi_walk_enc:
  assumes fam: "family \<noteq> AF_INET6"
  shows "list_all wf_ifr rs \<Longrightarrow> length pre + length (concat (map (enc_ifr e 32) rs)) = ifc_len \<Longrightarrow>
    ifi_walk env e 32 family doaliases ifc_len (pre @ concat (map (enc_ifr e 32) rs) @ post) (length pre) ln acc =
      Inr (case ifi_spec env e family doaliases (c_string ln) rs of Exited c \<Rightarrow> Exited c | Returned l \<Rightarrow> Returned (acc @ l))"
proof (induction rs arbitrary: pre ln acc)
  case Nil then show ?case by (subst ifi_walk.simps) simp
next
  case (Cons r rs)
  let ?rest = "concat (map (enc_ifr e 32) rs)"
  have wf: "wf_ifr r" "list_all wf_ifr rs" using Cons(2) by simp_all
  have len: "length pre + 32 + length ?rest = ifc_len" using Cons(3) length_enc_ifr [OF wf(1), of e] by simp
  then have lt: "length pre < ifc_len" by simp
  obtain x where x: "ifi_step env e 32 family doaliases (pre @ enc_ifr e 32 r @ ?rest @ post) (length pre) ln = Inr (length pre + 32, x)"
    and sp: "case ifi_spec_step env e family doaliases (c_string ln) r of
       Exited c \<Rightarrow> x = Exited c
     | Returned (l', i) \<Rightarrow> \<exists>b l. x = Returned (pre @ b @ ?rest @ post, l, i) \<and> length b = 32 \<and> c_string l = l'"
    using ifi_step_enc [OF wf(1) fam, of env e doaliases pre "?rest @ post" ln] by auto
  show ?case
  proof (cases "ifi_spec_step env e family doaliases (c_string ln) r")
    case (Exited c)
    then show ?thesis using sp x lt by (subst ifi_walk.simps) simp
  next
    case (Returned li)
    obtain l' i where li: "li = (l', i)" by fastforce
    obtain b l where b: "x = Returned (pre @ b @ ?rest @ post, l, i)" "length b = 32" "c_string l = l'"
      using sp Returned li by auto
    have "ifi_walk env e 32 family doaliases ifc_len (pre @ concat (map (enc_ifr e 32) (r # rs)) @ post) (length pre) ln acc =
      ifi_walk env e 32 family doaliases ifc_len ((pre @ b) @ ?rest @ post) (length (pre @ b)) l (acc @ (case i of None \<Rightarrow> [] | Some j \<Rightarrow> [j]))"
      using x b(1,2) lt by (subst ifi_walk.simps) (simp add: add.commute)
    also have "\<dots> = Inr (case ifi_spec env e family doaliases l' rs of Exited c \<Rightarrow> Exited c
        | Returned k \<Rightarrow> Returned ((acc @ (case i of None \<Rightarrow> [] | Some j \<Rightarrow> [j])) @ k))"
      using Cons(1) [OF wf(2), of "pre @ b" l] b(2,3) len by simp
    finally show ?thesis using Returned li by (simp split: exitable.split)
  qed
qed

text \<open>The guessing loop ends with all records once the buffer is large enough; \<open>conf\<close> fills in as many whole records as fit.\<close>

definition conf_of :: "nat \<Rightarrow> bytes \<Rightarrow> nat \<Rightarrow> int + bytes" where
  "conf_of sz data len = Inr (take (len div sz * sz) data)"

lemma conf_loop_ok:
  assumes sz: "0 < sz"
  shows "10 \<le> m \<Longrightarrow> lastlen = min ((m - 10) * sz) (length data) \<Longrightarrow> length data \<le> (m - 10) * sz + fuel * sz \<Longrightarrow>
    \<exists>len. conf_loop (Suc fuel) sz (conf_of sz data) (m * sz) lastlen = Some (Returned (data, len)) \<and> length data \<le> len"
proof (induction fuel arbitrary: m lastlen)
  case 0
  then have l: "length data \<le> m * sz" "lastlen = length data" by (auto simp: diff_mult_distrib min_def)
  then show ?case using sz by (simp add: conf_of_def)
next
  case (Suc fuel)
  have len: "length (take (m * sz div sz * sz) data) = min (m * sz) (length data)" using sz by (simp add: min.commute)
  have m: "(m - 10) * sz < m * sz" using Suc(2) sz by simp
  show ?case
  proof (cases "min (m * sz) (length data) = lastlen")
    case True
    then have "length data \<le> (m - 10) * sz" using Suc(3) m by (auto simp: min_def split: if_splits)
    then have "length data \<le> m * sz" by (rule order_trans) (rule less_imp_le [OF m])
    then show ?thesis using True sz len by (simp add: conf_of_def)
  next
    case False
    have "conf_loop (Suc (Suc fuel)) sz (conf_of sz data) (m * sz) lastlen =
        conf_loop (Suc fuel) sz (conf_of sz data) ((m + 10) * sz) (min (m * sz) (length data))"
      using False len sz by (simp add: conf_of_def add_mult_distrib)
    moreover have "length data \<le> (m + 10 - 10) * sz + fuel * sz" using Suc(2,4) by (simp add: diff_mult_distrib)
    ultimately show ?thesis using Suc(1) [of "m + 10" "min (m * sz) (length data)"] by simp
  qed
qed

lemma conf_loop_start:
  assumes "0 < sz" "length data \<le> fuel * sz"
  shows "\<exists>len. conf_loop (Suc (Suc fuel)) sz (conf_of sz data) (100 * sz) 0 = Some (Returned (data, len)) \<and> length data \<le> len"
proof (cases "data = []")
  case True then show ?thesis by (simp add: conf_of_def)
next
  case False
  have "length (take (100 * sz div sz * sz) data) = min (100 * sz) (length data)" using assms(1) by (simp add: min.commute)
  then have "conf_loop (Suc (Suc fuel)) sz (conf_of sz data) (100 * sz) 0 =
      conf_loop (Suc fuel) sz (conf_of sz data) (110 * sz) (min (100 * sz) (length data))"
    using False assms(1) by (simp add: conf_of_def add_mult_distrib)
  then show ?thesis using conf_loop_ok [OF assms(1), of 110 "min (100 * sz) (length data)" data fuel] assms(2) by simp
qed

section \<open>The contract\<close>

text \<open>
  What the function promises, without its loop: the candidates are the records of the family, each with the name of
  the one before it, without those that repeat this name unless aliases are asked for. The
  elements are those of the candidates that are up. Every request about them must be answered, or the process ends.
\<close>

definition if_name :: "ifr \<Rightarrow> bytes" where
  "if_name r = takeWhile (\<lambda>b. b \<noteq> 58) (rr_name r)"

definition candidates :: "int \<Rightarrow> bool \<Rightarrow> bytes \<Rightarrow> ifr list \<Rightarrow> (bytes \<times> ifr) list" where
  "candidates family doaliases ln rs =
     (let fs = filter (\<lambda>r. uint (rr_fam r) = family) rs in
      filter (\<lambda>(prev, r). doaliases \<or> prev \<noteq> if_name r) (zip (ln # map if_name fs) fs))"

definition if_has :: "ifi_env \<Rightarrow> nat \<Rightarrow> ifr \<Rightarrow> bool" where
  "if_has env n r = (case ie_flags env (if_name r) of None \<Rightarrow> False | Some flags \<Rightarrow> bit flags n)"

definition answered :: "ifi_env \<Rightarrow> int \<Rightarrow> bytes \<times> ifr \<Rightarrow> bool" where
  "answered env family = (\<lambda>(prev, r).
     ie_flags env (if_name r) \<noteq> None \<and>
     (if_has env 0 r \<longrightarrow> ie_mtu env (if_name r) \<noteq> None \<and>
        (family = AF_INET \<and> if_has env 1 r \<longrightarrow> ie_brdaddr env (if_name r) \<noteq> None) \<and>
        (family = AF_INET \<and> if_has env 4 r \<longrightarrow> ie_dstaddr env (if_name r) \<noteq> None)))"

definition element :: "ifi_env \<Rightarrow> endian \<Rightarrow> int \<Rightarrow> bytes \<times> ifr \<Rightarrow> ifi_info" where
  "element env e family = (\<lambda>(prev, r).
     \<lparr>ifi_name = if_name r, ifi_index = 0,
      ifi_mtu = (case ie_mtu env (if_name r) of None \<Rightarrow> 0 | Some m \<Rightarrow> word_of_int m), ifi_hlen = 0,
      ifi_flags = (case ie_flags env (if_name r) of None \<Rightarrow> 0 | Some f \<Rightarrow> f),
      ifi_myflags = (if prev = if_name r then 1 else 0),
      ifi_addr = (if family = AF_INET then Some (store16 e (rr_fam r) @ rr_data r) else None),
      ifi_brdaddr = (if family = AF_INET \<and> if_has env 1 r then ie_brdaddr env (if_name r) else None),
      ifi_dstaddr = (if family = AF_INET \<and> if_has env 4 r then ie_dstaddr env (if_name r) else None)\<rparr>)"

definition ifi_contract :: "ifi_env \<Rightarrow> endian \<Rightarrow> int \<Rightarrow> (bytes \<times> ifr) list \<Rightarrow> ifi_info list exitable" where
  "ifi_contract env e family cs =
     (if list_all (answered env family) cs
      then Returned (map (element env e family) (filter (\<lambda>(prev, r). if_has env 0 r) cs)) else Exited 1)"

lemma flag_bits: "flags AND IFF_UP = 0 \<longleftrightarrow> \<not> bit flags 0" "flags AND IFF_BROADCAST = 0 \<longleftrightarrow> \<not> bit flags 1"
  "flags AND IFF_POINTOPOINT = 0 \<longleftrightarrow> \<not> bit flags 4"
  using and_exp_eq_0_iff_not_bit [of flags 0] and_exp_eq_0_iff_not_bit [of flags 1] and_exp_eq_0_iff_not_bit [of flags 4]
  by (simp_all add: IFF_UP_def IFF_BROADCAST_def IFF_POINTOPOINT_def)

text \<open>One record of the family that is not skipped.\<close>

lemma ifi_spec_step_contract:
  assumes "wf_ifr r" "family \<noteq> AF_INET6" "uint (rr_fam r) = family" "doaliases \<or> ln \<noteq> if_name r"
  shows "ifi_spec_step env e family doaliases ln r =
    (if answered env family (ln, r)
     then Returned (if_name r, if if_has env 0 r then Some (element env e family (ln, r)) else None) else Exited 1)"
proof -
  have "length (if_name r) \<le> 15"
    using assms(1) length_takeWhile_le [of "\<lambda>b. b \<noteq> 58" "rr_name r"] by (simp add: wf_ifr_def if_name_def)
  then have t: "take (IFI_NAME - 1) (if_name r) = if_name r" by (simp add: IFI_NAME_def)
  have s: "ifi_spec_step env e family doaliases ln r = ask (ie_flags env (if_name r)) (\<lambda>flags.
        if flags AND IFF_UP = 0 then Returned (if_name r, None)
        else case ifi_make env family (if_name r) (store16 e (rr_fam r) @ rr_data r) flags (if ln = if_name r then IFI_ALIAS else 0) of
               Exited c \<Rightarrow> Exited c
             | Returned ifi \<Rightarrow> Returned (if_name r, Some ifi))"
    unfolding ifi_spec_step_def Let_def if_name_def [of r, symmetric] using assms(3,4) by auto
  show ?thesis
    unfolding s using assms(2) t
    by (auto simp: ask_def ifi_make_def flag_bits answered_def element_def if_has_def IFI_ALIAS_def Let_def split: option.splits)
qed

lemma ifi_spec_contract_from:
  "list_all wf_ifr rs \<Longrightarrow> family \<noteq> AF_INET6 \<Longrightarrow>
   ifi_spec env e family doaliases ln rs = ifi_contract env e family (candidates family doaliases ln rs)"
proof (induction rs arbitrary: ln)
  case Nil then show ?case by (simp add: candidates_def ifi_contract_def)
next
  case (Cons r rs)
  show ?case
  proof (cases "uint (rr_fam r) = family")
    case False
    then show ?thesis using Cons by (simp add: candidates_def ifi_spec_step_def Let_def split: exitable.split)
  next
    case True
    then have c: "candidates family doaliases ln (r # rs) =
        (if doaliases \<or> ln \<noteq> if_name r then [(ln, r)] else []) @ candidates family doaliases (if_name r) rs"
      by (simp add: candidates_def Let_def)
    show ?thesis
    proof (cases "doaliases \<or> ln \<noteq> if_name r")
      case True
      then show ?thesis
        using Cons ifi_spec_step_contract [of r family doaliases ln env e] \<open>uint (rr_fam r) = family\<close>
        by (simp add: c ifi_contract_def)
    next
      case False
      then have "ifi_spec_step env e family doaliases ln r = Returned (ln, None)" "ln = if_name r"
        by (auto simp: ifi_spec_step_def if_name_def Let_def)
      moreover have "candidates family doaliases ln (r # rs) = candidates family doaliases (if_name r) rs" using c False by simp
      ultimately show ?thesis using Cons by (simp split: exitable.split)
    qed
  qed
qed

lemmas ifi_spec_contract = ifi_spec_contract_from [where ln = "[]"]

text \<open>
  C38. On a host whose records have 32 bytes, \<open>get_ifi_info\<close> ends and returns exactly the elements
  its contract names, however many interfaces there are and whatever the unused part of the buffer holds: for
  each record of the family, with its name up to a colon, whose interface is up, one element with the name, the
  flags, the address of the record, and the broadcast and destination addresses its flags promise; of several records in a row of one
  name only the first, unless aliases are asked for, which are marked. The MTU is stored in 16 bits: one of
  up to 32767 is kept, and in general it is reduced to a signed 16-bit number. If a request about an
  interface fails, the process ends.
\<close>

theorem get_ifi_info_correct:
  assumes "list_all wf_ifr rs" "family \<noteq> AF_INET6" "length rs \<le> fuel"
  shows "get_ifi_info (fuel + 2) (conf_of 32 (concat (map (enc_ifr e 32) rs))) env e 32 family doaliases junk =
    Some (Inr (ifi_contract env e family (candidates family doaliases [] rs))) \<and>
    (ie_mtu env (if_name r) = Some mtu \<longrightarrow> sint (ifi_mtu (element env e family (prev, r))) = (mtu + 2 ^ 15) mod 2 ^ 16 - 2 ^ 15)"
proof
  show "ie_mtu env (if_name r) = Some mtu \<longrightarrow> sint (ifi_mtu (element env e family (prev, r))) = (mtu + 2 ^ 15) mod 2 ^ 16 - 2 ^ 15"
    by (simp add: element_def signed_of_int signed_take_bit_eq_take_bit_shift take_bit_eq_mod)
  show "get_ifi_info (fuel + 2) (conf_of 32 (concat (map (enc_ifr e 32) rs))) env e 32 family doaliases junk =
    Some (Inr (ifi_contract env e family (candidates family doaliases [] rs)))"
  proof -
    let ?data = "concat (map (enc_ifr e 32) rs)"
    have "length ?data = 32 * length rs" using assms(1) by (induction rs) (auto simp: length_enc_ifr)
    then obtain len where len: "conf_loop (Suc (Suc fuel)) 32 (conf_of 32 ?data) (100 * 32) 0 = Some (Returned (?data, len))"
      using conf_loop_start [of 32 ?data fuel] assms(3) by auto
    have "ifi_walk env e 32 family doaliases (length ?data) ([] @ ?data @ map junk [length ?data ..< len]) (length ([] :: bytes)) [0] [] =
        Inr (case ifi_spec env e family doaliases (c_string [0]) rs of Exited c \<Rightarrow> Exited c | Returned l \<Rightarrow> Returned ([] @ l))"
      by (rule ifi_walk_enc [OF assms(2,1)]) simp
    moreover have "(case x of Exited c \<Rightarrow> Exited c | Returned l \<Rightarrow> Returned ([] @ l)) = x" for x :: "ifi_info list exitable" by (cases x) simp_all
    ultimately show ?thesis using len ifi_spec_contract [OF assms(1,2)] by (simp add: get_ifi_info_def c_string_def)
  qed
qed

definition ifi_demo_env :: ifi_env where
  "ifi_demo_env = \<lparr>ie_flags = (\<lambda>_. Some 1), ie_mtu = (\<lambda>n. Some (if n = [108, 111] then 65536 else 1500)), ie_brdaddr = (\<lambda>_. None), ie_dstaddr = (\<lambda>_. None)\<rparr>"

definition ifi_demo :: "bytes \<Rightarrow> ifr" where
  "ifi_demo name = \<lparr>rr_name = name, rr_fam = 2, rr_data = replicate 14 7\<rparr>"

theorem get_ifi_info_correct_witness:
  "\<exists>l. get_ifi_info 5 (conf_of 32 (concat (map (enc_ifr LittleEndian 32)
        [ifi_demo [108, 111], ifi_demo [101, 116, 104], ifi_demo [101, 116, 104, 58, 49]])))
      ifi_demo_env LittleEndian 32 AF_INET True (\<lambda>_. 0) = Some (Inr (Returned l)) \<and>
      map ifi_name l = [[108, 111], [101, 116, 104], [101, 116, 104]] \<and> map ifi_mtu l = [0, 1500, 1500] \<and> map ifi_myflags l = [0, 0, 1] \<and>
      sint (ifi_mtu (element ifi_demo_env LittleEndian AF_INET ([], ifi_demo [108, 111]))) = 0"
proof -
  let ?rs = "[ifi_demo [108, 111], ifi_demo [101, 116, 104], ifi_demo [101, 116, 104, 58, 49]]"
  have "list_all wf_ifr ?rs" by (simp add: wf_ifr_def ifi_demo_def AF_INET6_def)
  note t = get_ifi_info_correct [OF this, of AF_INET 3 LittleEndian ifi_demo_env True "\<lambda>_. 0" "ifi_demo [108, 111]" 65536 "[]"]
  have "ifi_contract ifi_demo_env LittleEndian AF_INET (candidates AF_INET True [] ?rs) =
      Returned (map (element ifi_demo_env LittleEndian AF_INET)
        [([], ifi_demo [108, 111]), ([108, 111], ifi_demo [101, 116, 104]), ([101, 116, 104], ifi_demo [101, 116, 104, 58, 49])])"
    by (simp add: ifi_contract_def candidates_def answered_def if_has_def if_name_def ifi_demo_def ifi_demo_env_def AF_INET_def)
  then show ?thesis using t
    by (simp add: element_def if_name_def ifi_demo_def ifi_demo_env_def af_defs)
qed

text \<open>
  On a 64-bit host the records have 40 bytes, but the loop steps over 32: with two interfaces of
  short name, both up, only the first is found, and between them a record that does not exist is read.
\<close>

theorem get_ifi_info_64bit:
  "ifi_walk ifi_demo_env LittleEndian 40 AF_INET False 80
      (enc_ifr LittleEndian 40 (ifi_demo [108, 111]) @ enc_ifr LittleEndian 40 (ifi_demo [101, 116, 104]) @ replicate 40 0) 0 [0] [] =
   Inr (Returned [\<lparr>ifi_name = [108, 111], ifi_index = 0, ifi_mtu = 0, ifi_hlen = 0, ifi_flags = 1, ifi_myflags = 0,
     ifi_addr = Some ([2, 0] @ replicate 14 7), ifi_brdaddr = None, ifi_dstaddr = None\<rparr>])"
  by code_simp

end
