(* ===== verification/Ownership.thy ===== *)
theory Ownership
  imports Prelude
begin

text \<open>
  Ownership of heap memory in \<open>src/rvalue_reference/\<close>: the class \<open>A\<close> of \<open>demo1_shallow_copy.cpp\<close>,
  \<open>demo1_deep_copy.cpp\<close> and \<open>demo1_move_constructor.cpp\<close>, and \<open>MyString\<close> of
  \<open>demo2_move_semantics.cpp\<close>. An object is the value of its members; the heap is explicit, so that
  a use after \<open>delete\<close>, a second \<open>delete\<close> and a leak are statements about it.
\<close>

section \<open>The heap\<close>

record 'v store =
  st_next :: nat
  st_cell :: "nat \<rightharpoonup> 'v"

definition st_ok :: "'v store \<Rightarrow> bool" where
  "st_ok st \<longleftrightarrow> (\<forall>p. st_cell st p \<noteq> None \<longrightarrow> p < st_next st)"

definition st_new :: "'v \<Rightarrow> 'v store \<Rightarrow> nat \<times> 'v store" where
  "st_new v st = (st_next st, st\<lparr>st_next := st_next st + 1, st_cell := (st_cell st)(st_next st \<mapsto> v)\<rparr>)"

definition st_read :: "nat option \<Rightarrow> 'v store \<Rightarrow> 'v c_res" where
  "st_read p st =
     (case p of
        None \<Rightarrow> Inl NullDeref
      | Some a \<Rightarrow> (case st_cell st a of None \<Rightarrow> Inl (OutOfBounds a) | Some v \<Rightarrow> Inr v))"

text \<open>\<open>delete\<close> and \<open>free\<close>: nothing happens to a null pointer.\<close>

definition st_delete :: "nat option \<Rightarrow> 'v store \<Rightarrow> 'v store c_res" where
  "st_delete p st =
     (case p of
        None \<Rightarrow> Inr st
      | Some a \<Rightarrow> if st_cell st a = None then Inl (BadFree a) else Inr (st\<lparr>st_cell := (st_cell st)(a := None)\<rparr>))"

lemma st_ok_fresh: "st_ok st \<Longrightarrow> st_next st \<le> p \<Longrightarrow> st_cell st p = None"
  by (meson leD st_ok_def)

section \<open>The class A\<close>

datatype a_print = PCtor int | PCopy int | PMove int | PDtor int | PReady | PHere | PValue int | PFinish

record a_world =
  aw_store :: "int store"
  aw_out :: "a_print list"

type_synonym a_obj = "nat option"     \<comment> \<open>\<open>m_ptr\<close>\<close>

definition A_ctor :: "nat option \<Rightarrow> a_world \<Rightarrow> (a_obj \<times> a_world) c_res" where
  "A_ctor v w = bind_err (st_read v (aw_store w)) (\<lambda>x. Inr (v, w\<lparr>aw_out := aw_out w @ [PCtor x]\<rparr>))"

text \<open>
  The three ways to make the returned object from a local one, with the local one after it: the
  copy constructor the compiler generates, the one that copies the value, and the move constructor.
\<close>

definition A_shallow :: "a_obj \<Rightarrow> a_world \<Rightarrow> (a_obj \<times> a_obj \<times> a_world) c_res" where
  "A_shallow a w = Inr (a, a, w)"

definition A_copy :: "a_obj \<Rightarrow> a_world \<Rightarrow> (a_obj \<times> a_obj \<times> a_world) c_res" where
  "A_copy a w =
     bind_err (st_read a (aw_store w)) (\<lambda>v.
       let (p, st) = st_new v (aw_store w) in Inr (Some p, a, w\<lparr>aw_store := st, aw_out := aw_out w @ [PCopy v]\<rparr>))"

definition A_move :: "a_obj \<Rightarrow> a_world \<Rightarrow> (a_obj \<times> a_obj \<times> a_world) c_res" where
  "A_move a w = bind_err (st_read a (aw_store w)) (\<lambda>v. Inr (a, None, w\<lparr>aw_out := aw_out w @ [PMove v]\<rparr>))"

definition A_dtor :: "a_obj \<Rightarrow> a_world \<Rightarrow> a_world c_res" where
  "A_dtor a w =
     bind_err (st_read a (aw_store w)) (\<lambda>v.
     bind_err (st_delete a (aw_store w)) (\<lambda>st. Inr (w\<lparr>aw_store := st, aw_out := aw_out w @ [PDtor v]\<rparr>)))"

definition A_dtor_move :: "a_obj \<Rightarrow> a_world \<Rightarrow> a_world c_res" where
  "A_dtor_move a w = (case a of None \<Rightarrow> Inr w | Some _ \<Rightarrow> A_dtor a w)"

definition A_new :: "int \<Rightarrow> a_world \<Rightarrow> (a_obj \<times> a_world) c_res" where
  "A_new x w = (let (p, st) = st_new x (aw_store w) in A_ctor (Some p) (w\<lparr>aw_store := st\<rparr>))"

definition a_say :: "a_print \<Rightarrow> a_world \<Rightarrow> a_world" where
  "a_say x w = w\<lparr>aw_out := aw_out w @ [x]\<rparr>"

text \<open>\<open>Get\<close>: the returned object is made first, then the locals are destroyed, the last one first.\<close>

definition A_Get :: "(a_obj \<Rightarrow> a_world \<Rightarrow> (a_obj \<times> a_obj \<times> a_world) c_res) \<Rightarrow> (a_obj \<Rightarrow> a_world \<Rightarrow> a_world c_res) \<Rightarrow>
    bool \<Rightarrow> a_world \<Rightarrow> (a_obj \<times> a_world) c_res" where
  "A_Get dup dtor flag w =
     bind_err (A_new 1 w) (\<lambda>(a, w1).
     bind_err (A_new 2 w1) (\<lambda>(b, w2).
       let w3 = a_say PReady w2 in
       if flag then
         bind_err (dup a w3) (\<lambda>(r, a', w4).
         bind_err (dtor b w4) (\<lambda>w5.
         bind_err (dtor a' w5) (\<lambda>w6. Inr (r, w6))))
       else
         bind_err (dup b (a_say PHere w3)) (\<lambda>(r, b', w4).
         bind_err (dtor b' w4) (\<lambda>w5.
         bind_err (dtor a w5) (\<lambda>w6. Inr (r, w6))))))"

definition A_main :: "(a_obj \<Rightarrow> a_world \<Rightarrow> (a_obj \<times> a_obj \<times> a_world) c_res) \<Rightarrow> (a_obj \<Rightarrow> a_world \<Rightarrow> a_world c_res) \<Rightarrow>
    a_world \<Rightarrow> a_world c_res" where
  "A_main dup dtor w =
     bind_err (A_Get dup dtor False w) (\<lambda>(c, w1).
     bind_err (st_read c (aw_store w1)) (\<lambda>v.
     bind_err (dtor c (a_say (PValue v) w1)) (\<lambda>w2. Inr (a_say PFinish w2))))"

text \<open>The three programs, textually alike but for the class: \<open>demo1_shallow_copy.cpp\<close>, \<open>demo1_deep_copy.cpp\<close> and \<open>demo1_move_constructor.cpp\<close>.\<close>

definition shallow_copy_main :: "a_world \<Rightarrow> a_world c_res" where
  "shallow_copy_main = A_main A_shallow A_dtor"

definition deep_copy_main :: "a_world \<Rightarrow> a_world c_res" where
  "deep_copy_main = A_main A_copy A_dtor"

definition move_constructor_main :: "a_world \<Rightarrow> a_world c_res" where
  "move_constructor_main = A_main A_move A_dtor_move"

text \<open>The cells that a list of objects owns: all live cells but those of \<open>base\<close>, each by one object.\<close>

fun ptrs :: "a_obj list \<Rightarrow> nat list" where
  "ptrs [] = []"
| "ptrs (None # xs) = ptrs xs"
| "ptrs (Some p # xs) = p # ptrs xs"

definition owns :: "(nat \<rightharpoonup> int) \<Rightarrow> a_world \<Rightarrow> a_obj list \<Rightarrow> bool" where
  "owns base w xs \<longleftrightarrow> st_ok (aw_store w) \<and> distinct (ptrs xs) \<and> dom base \<inter> set (ptrs xs) = {} \<and>
     dom (st_cell (aw_store w)) = dom base \<union> set (ptrs xs) \<and> (\<forall>p\<in>dom base. st_cell (aw_store w) p = base p)"

definition a_val :: "a_world \<Rightarrow> a_obj \<Rightarrow> int option" where
  "a_val w a = (case a of None \<Rightarrow> None | Some p \<Rightarrow> st_cell (aw_store w) p)"

lemma owns_swap: "owns base w (a # b # xs) \<Longrightarrow> owns base w (b # a # xs)"
  by (cases a; cases b) (auto simp: owns_def)

lemma owns_say [simp]: "owns base (a_say x w) xs = owns base w xs"
  by (simp add: owns_def a_say_def)

lemma a_val_say [simp]: "a_val (a_say x w) a = a_val w a"
  by (cases a) (simp_all add: a_val_def a_say_def)

lemma a_val_read: "a_val w a = Some v \<Longrightarrow> st_read a (aw_store w) = Inr v"
  by (auto simp: a_val_def st_read_def split: option.splits)

lemma A_new_owns:
  assumes "owns base w xs"
  shows "\<exists>a w'. A_new x w = Inr (a, w') \<and> owns base w' (a # xs) \<and> a_val w' a = Some x \<and> a \<noteq> None \<and>
    (\<forall>b\<in>set xs. a_val w' b = a_val w b)"
proof -
  let ?n = "st_next (aw_store w)"
  have f: "st_cell (aw_store w) ?n = None" using assms st_ok_fresh by (auto simp: owns_def)
  then have n: "?n \<notin> dom base" "?n \<notin> set (ptrs xs)" using assms by (auto simp: owns_def)
  have "Some ?n \<notin> set xs" using n(2) by (induction xs rule: ptrs.induct) auto
  then show ?thesis
    using assms f n by (auto simp: A_new_def st_new_def A_ctor_def st_read_def owns_def st_ok_def a_val_def less_Suc_eq
        split: option.splits)
qed

text \<open>
  What a class promises whose objects own their memory: making an object from another
  (\<open>dup\<close>, which leaves the other one behind) and destroying one.
\<close>

locale owning_class =
  fixes dup :: "a_obj \<Rightarrow> a_world \<Rightarrow> (a_obj \<times> a_obj \<times> a_world) c_res" and dtor :: "a_obj \<Rightarrow> a_world \<Rightarrow> a_world c_res"
    and good :: "a_obj \<Rightarrow> bool"
  assumes good_Some: "good (Some p)"
    and dup_owns: "owns base w (a # xs) \<Longrightarrow> a_val w a = Some v \<Longrightarrow>
      \<exists>r a' w'. dup a w = Inr (r, a', w') \<and> owns base w' (r # a' # xs) \<and> a_val w' r = Some v \<and> good a'"
    and dtor_owns: "owns base w (a # xs) \<Longrightarrow> good a \<Longrightarrow>
      \<exists>w'. dtor a w = Inr w' \<and> owns base w' xs \<and> (\<forall>b\<in>set xs. a_val w' b = a_val w b) \<and> (\<exists>l. aw_out w' = aw_out w @ l)"
begin

lemma dup_destroy:
  assumes "owns base w (a # b # xs)" "a_val w a = Some v" "b \<noteq> None"
  shows "\<exists>r a' w1 w2 w3. dup a w = Inr (r, a', w1) \<and> dtor a' w1 = Inr w2 \<and> dtor b w2 = Inr w3 \<and> owns base w3 (r # xs) \<and> a_val w3 r = Some v"
    and "\<exists>r a' w1 w2 w3. dup a w = Inr (r, a', w1) \<and> dtor b w1 = Inr w2 \<and> dtor a' w2 = Inr w3 \<and> owns base w3 (r # xs) \<and> a_val w3 r = Some v"
proof -
  obtain q where b: "b = Some q" using assms(3) by blast
  obtain r a' w1 where d: "dup a w = Inr (r, a', w1)" "owns base w1 (r # a' # b # xs)" "a_val w1 r = Some v" "good a'"
    using dup_owns [OF assms(1,2)] by blast
  obtain w2 where w2: "dtor a' w1 = Inr w2" "owns base w2 (r # b # xs)" "a_val w2 r = Some v"
    using dtor_owns [OF owns_swap [OF d(2)] d(4)] d(3) by auto
  obtain w3 where "dtor b w2 = Inr w3" "owns base w3 (r # xs)" "a_val w3 r = Some v"
    using dtor_owns [OF owns_swap [OF w2(2)]] good_Some w2(3) b by auto
  then show "\<exists>r a' w1 w2 w3. dup a w = Inr (r, a', w1) \<and> dtor a' w1 = Inr w2 \<and> dtor b w2 = Inr w3 \<and> owns base w3 (r # xs) \<and> a_val w3 r = Some v"
    using d(1) w2(1) by blast
  have o: "owns base w1 (b # a' # r # xs)"
    using d(2) by (cases r; cases a'; cases b) (auto simp: owns_def)
  obtain w4 where w4: "dtor b w1 = Inr w4" "owns base w4 (a' # r # xs)" "a_val w4 r = Some v"
    using dtor_owns [OF o] good_Some b d(3) by auto
  obtain w5 where "dtor a' w4 = Inr w5" "owns base w5 (r # xs)" "a_val w5 r = Some v"
    using dtor_owns [OF w4(2) d(4)] w4(3) by auto
  then show "\<exists>r a' w1 w2 w3. dup a w = Inr (r, a', w1) \<and> dtor b w1 = Inr w2 \<and> dtor a' w2 = Inr w3 \<and> owns base w3 (r # xs) \<and> a_val w3 r = Some v"
    using d(1) w4(1) by blast
qed

lemma Get_ok:
  assumes "owns base w xs"
  shows "\<exists>r w'. A_Get dup dtor flag w = Inr (r, w') \<and> owns base w' (r # xs) \<and> a_val w' r = Some (if flag then 1 else 2)"
proof -
  obtain a w1 where a: "A_new 1 w = Inr (a, w1)" "owns base w1 (a # xs)" "a_val w1 a = Some 1" "a \<noteq> None"
    using A_new_owns [OF assms] by blast
  obtain b w2 where b: "A_new 2 w1 = Inr (b, w2)" "owns base w2 (b # a # xs)" "a_val w2 b = Some 2" "b \<noteq> None" "a_val w2 a = Some 1"
    using A_new_owns [OF a(2), of 2] a(3) by auto
  show ?thesis
  proof (cases flag)
    case True
    have "owns base (a_say PReady w2) (a # b # xs)" using owns_swap [OF b(2)] by simp
    from dup_destroy(2) [OF this _ b(4), of 1] a(1) b(1,5) True show ?thesis by (auto simp: A_Get_def)
  next
    case False
    have "owns base (a_say PHere (a_say PReady w2)) (b # a # xs)" using b(2) by simp
    from dup_destroy(1) [OF this _ a(4), of 2] a(1) b(1,3) False show ?thesis by (auto simp: A_Get_def)
  qed
qed

lemma main_ok:
  assumes "owns base w []"
  shows "\<exists>w'. A_main dup dtor w = Inr w' \<and> owns base w' [] \<and> PValue 2 \<in> set (aw_out w')"
proof -
  obtain r w1 where r: "A_Get dup dtor False w = Inr (r, w1)" "owns base w1 [r]" "a_val w1 r = Some 2"
    using Get_ok [OF assms, of False] by auto
  then have "good r" using good_Some by (cases r) (auto simp: a_val_def)
  then obtain w2 l where "dtor r (a_say (PValue 2) w1) = Inr w2" "owns base w2 []" "aw_out w2 = aw_out (a_say (PValue 2) w1) @ l"
    using dtor_owns [of base "a_say (PValue 2) w1" r "[]"] r(2) by auto
  moreover have "PValue 2 \<in> set (aw_out (a_say (PValue 2) w1))" by (simp add: a_say_def)
  ultimately have "A_main dup dtor w = Inr (a_say PFinish w2)" "PValue 2 \<in> set (aw_out (a_say PFinish w2))" "owns base (a_say PFinish w2) []"
    using r(1) a_val_read [OF r(3)] by (simp_all add: A_main_def) (simp add: a_say_def)
  then show ?thesis by blast
qed

end

lemma ptrs_notin: "p \<notin> set (ptrs xs) \<Longrightarrow> Some p \<notin> set xs"
  by (induction xs rule: ptrs.induct) auto

lemma A_dtor_owns:
  assumes "owns base w (Some p # xs)"
  shows "\<exists>w'. A_dtor (Some p) w = Inr w' \<and> owns base w' xs \<and> (\<forall>b\<in>set xs. a_val w' b = a_val w b) \<and> (\<exists>l. aw_out w' = aw_out w @ l)"
proof -
  have "p \<in> dom (st_cell (aw_store w))" using assms by (auto simp: owns_def)
  then obtain v where v: "st_cell (aw_store w) p = Some v" by blast
  have "Some p \<notin> set xs" using assms ptrs_notin by (auto simp: owns_def)
  then show ?thesis using assms v
    by (auto simp: A_dtor_def st_read_def st_delete_def owns_def st_ok_def a_val_def split: option.splits)
qed

lemma A_copy_owns:
  assumes "owns base w (a # xs)" "a_val w a = Some v"
  shows "\<exists>r a' w'. A_copy a w = Inr (r, a', w') \<and> owns base w' (r # a' # xs) \<and> a_val w' r = Some v \<and> a' \<noteq> None"
proof -
  let ?n = "st_next (aw_store w)"
  have f: "st_cell (aw_store w) ?n = None" using assms(1) st_ok_fresh by (auto simp: owns_def)
  then have "?n \<notin> dom base" "?n \<notin> set (ptrs (a # xs))" using assms(1) by (auto simp: owns_def)
  then have "owns base (w\<lparr>aw_store := snd (st_new v (aw_store w)), aw_out := aw_out w @ [PCopy v]\<rparr>) (Some ?n # a # xs)"
    using assms(1) f by (auto simp: owns_def st_new_def st_ok_def less_Suc_eq)
  then show ?thesis
    using assms(2) a_val_read [OF assms(2)] by (auto simp: A_copy_def st_new_def a_val_def split: option.splits)
qed

interpretation deep: owning_class A_copy A_dtor "\<lambda>a. a \<noteq> None"
  by unfold_locales (simp, rule A_copy_owns, assumption+, auto dest: A_dtor_owns)

interpretation mv: owning_class A_move A_dtor_move "\<lambda>_. True"
proof unfold_locales
  fix base :: "nat \<rightharpoonup> int" and w a xs v
  assume o: "owns base w (a # xs)" and v: "a_val w a = Some v"
  have "owns base (w\<lparr>aw_out := aw_out w @ [PMove v]\<rparr>) (a # None # xs)" using o by (cases a) (simp_all add: owns_def)
  moreover have "a_val (w\<lparr>aw_out := aw_out w @ [PMove v]\<rparr>) a = Some v" using v by (cases a) (simp_all add: a_val_def)
  ultimately show "\<exists>r a' w'. A_move a w = Inr (r, a', w') \<and> owns base w' (r # a' # xs) \<and> a_val w' r = Some v \<and> True"
    using a_val_read [OF v] by (simp add: A_move_def)
next
  fix base :: "nat \<rightharpoonup> int" and w a xs
  assume "owns base w (a # xs)"
  then show "\<exists>w'. A_dtor_move a w = Inr w' \<and> owns base w' xs \<and> (\<forall>b\<in>set xs. a_val w' b = a_val w b) \<and> (\<exists>l. aw_out w' = aw_out w @ l)"
    using A_dtor_owns by (cases a) (auto simp: A_dtor_move_def owns_def)
qed simp

text \<open>
  C40. The three programs on any heap: with the copy constructor that copies the value, and with the
  move constructor, \<open>main\<close> prints 2, every cell is deleted once and none is left, and the rest of
  the heap is untouched. With the generated copy constructor the returned object points to the
  cell that the local one has deleted, and \<open>main\<close> reads it.
\<close>

theorem object_copies:
  assumes "st_ok (aw_store w)"
  shows "(\<exists>w'. deep_copy_main w = Inr w' \<and> st_cell (aw_store w') = st_cell (aw_store w) \<and> PValue 2 \<in> set (aw_out w')) \<and>
    (\<exists>w'. move_constructor_main w = Inr w' \<and> st_cell (aw_store w') = st_cell (aw_store w) \<and> PValue 2 \<in> set (aw_out w')) \<and>
    shallow_copy_main w = Inl (OutOfBounds (st_next (aw_store w) + 1))"
proof -
  let ?b = "st_cell (aw_store w)"
  have o: "owns ?b w []" using assms by (auto simp: owns_def)
  have eq: "st_cell (aw_store w') = ?b" if "owns ?b w' []" for w'
    using that by (intro ext) (metis (mono_tags, lifting) domIff owns_def ptrs.simps(1) set_empty2 sup_bot_right)
  have "A_main A_shallow A_dtor w = Inl (OutOfBounds (st_next (aw_store w) + 1))"
    by (simp add: A_main_def A_Get_def A_new_def A_ctor_def A_shallow_def A_dtor_def st_new_def st_read_def st_delete_def a_say_def)
  then show ?thesis using deep.main_ok [OF o] mv.main_ok [OF o] eq
    unfolding deep_copy_main_def move_constructor_main_def shallow_copy_main_def by blast
qed

theorem object_copies_witness:
  "\<exists>w'. move_constructor_main \<lparr>aw_store = \<lparr>st_next = 0, st_cell = Map.empty\<rparr>, aw_out = []\<rparr> = Inr w' \<and>
     st_cell (aw_store w') = Map.empty \<and> PValue 2 \<in> set (aw_out w')"
  using object_copies [of "\<lparr>aw_store = \<lparr>st_next = 0, st_cell = Map.empty\<rparr>, aw_out = []\<rparr>"] by (simp add: st_ok_def)

section \<open>MyString\<close>

text \<open>The literals passed to \<open>new\<close> and \<open><<\<close> are zero-terminated blocks of bytes.\<close>

record mystring =
  m_data :: "nat option"
  m_len :: nat

datatype ms_print = MsDefault | MsOrdinary bytes | MsCopy bytes | MsCopyAssign bytes | MsMove bytes | MsMoveAssign bytes

record ms_world =
  mw_store :: "bytes store"
  mw_out :: "ms_print list"

definition ms_cstr :: "nat option \<Rightarrow> ms_world \<Rightarrow> bytes c_res" where
  "ms_cstr p w = bind_err (st_read p (mw_store w)) (\<lambda>bs. bind_err (c_strlen bs) (\<lambda>n. Inr (take n bs)))"

definition ms_say :: "ms_print \<Rightarrow> ms_world \<Rightarrow> ms_world" where
  "ms_say x w = w\<lparr>mw_out := mw_out w @ [x]\<rparr>"

text \<open>\<open>copy_data\<close>: a block of \<open>m_len + 1\<close> bytes, the first \<open>m_len\<close> of \<open>s\<close> and a zero byte.\<close>

definition copy_data :: "bytes \<Rightarrow> nat \<Rightarrow> ms_world \<Rightarrow> (nat option \<times> ms_world) c_res" where
  "copy_data s len w =
     bind_err (mem_read s 0 len) (\<lambda>bs.
       let (p, st) = st_new (bs @ [0]) (mw_store w) in Inr (Some p, w\<lparr>mw_store := st\<rparr>))"

definition MyString_default :: "ms_world \<Rightarrow> mystring \<times> ms_world" where
  "MyString_default w = (\<lparr>m_data = None, m_len = 0\<rparr>, ms_say MsDefault w)"

definition MyString_cstr :: "bytes \<Rightarrow> ms_world \<Rightarrow> (mystring \<times> ms_world) c_res" where
  "MyString_cstr p w =
     bind_err (c_strlen p) (\<lambda>len.
     bind_err (copy_data p len w) (\<lambda>(d, w1).
     bind_err (ms_cstr d w1) (\<lambda>t. Inr (\<lparr>m_data = d, m_len = len\<rparr>, ms_say (MsOrdinary t) w1))))"

definition MyString_copy :: "mystring \<Rightarrow> ms_world \<Rightarrow> (mystring \<times> ms_world) c_res" where
  "MyString_copy str w =
     bind_err (st_read (m_data str) (mw_store w)) (\<lambda>bs.
     bind_err (copy_data bs (m_len str) w) (\<lambda>(d, w1).
     bind_err (ms_cstr (m_data str) w1) (\<lambda>t. Inr (\<lparr>m_data = d, m_len = m_len str\<rparr>, ms_say (MsCopy t) w1))))"

text \<open>The assignments; \<open>self\<close> says that both sides are the same object. The old block of the target is not freed.\<close>

definition MyString_copy_assign :: "bool \<Rightarrow> mystring \<Rightarrow> mystring \<Rightarrow> ms_world \<Rightarrow> (mystring \<times> ms_world) c_res" where
  "MyString_copy_assign self this str w =
     bind_err (if self then Inr (this, w)
               else bind_err (st_read (m_data str) (mw_store w)) (\<lambda>bs.
                    bind_err (copy_data bs (m_len str) w) (\<lambda>(d, w1). Inr (\<lparr>m_data = d, m_len = m_len str\<rparr>, w1)))) (\<lambda>(t, w1).
     bind_err (ms_cstr (m_data str) w1) (\<lambda>x. Inr (t, ms_say (MsCopyAssign x) w1)))"

definition MyString_move :: "mystring \<Rightarrow> ms_world \<Rightarrow> (mystring \<times> mystring \<times> ms_world) c_res" where
  "MyString_move str w =
     bind_err (ms_cstr (m_data str) w) (\<lambda>t. Inr (str, \<lparr>m_data = None, m_len = 0\<rparr>, ms_say (MsMove t) w))"

definition MyString_move_assign :: "bool \<Rightarrow> mystring \<Rightarrow> mystring \<Rightarrow> ms_world \<Rightarrow> (mystring \<times> mystring \<times> ms_world) c_res" where
  "MyString_move_assign self this str w =
     bind_err (ms_cstr (m_data str) w) (\<lambda>t.
       Inr (if self then (this, str, ms_say (MsMoveAssign t) w)
            else (str, \<lparr>m_data = None, m_len = 0\<rparr>, ms_say (MsMoveAssign t) w)))"

definition MyString_dtor :: "mystring \<Rightarrow> ms_world \<Rightarrow> ms_world c_res" where
  "MyString_dtor s w = bind_err (st_delete (m_data s) (mw_store w)) (\<lambda>st. Inr (w\<lparr>mw_store := st\<rparr>))"

text \<open>
  \<open>main\<close>: temporaries are destroyed at the end of their statement, then the element of the vector
  and the locals \<open>c\<close>, \<open>b\<close> and \<open>a\<close>. The vector moves the pushed string into its own storage.
\<close>

definition MyString_main :: "bytes \<Rightarrow> bytes \<Rightarrow> ms_world \<Rightarrow> ms_world c_res" where
  "MyString_main hello world w =
     (let (a0, w0) = MyString_default w in
      bind_err (MyString_cstr hello w0) (\<lambda>(t0, w1).
      bind_err (MyString_move_assign False a0 t0 w1) (\<lambda>(a1, t1, w2).
      bind_err (MyString_dtor t1 w2) (\<lambda>w3.
      bind_err (MyString_copy a1 w3) (\<lambda>(b, w4).
      bind_err (MyString_move a1 w4) (\<lambda>(c, a2, w5).
      bind_err (MyString_cstr world w5) (\<lambda>(t2, w6).
      bind_err (MyString_move t2 w6) (\<lambda>(e, t3, w7).
      bind_err (MyString_dtor t3 w7) (\<lambda>w8.
      bind_err (MyString_dtor e w8) (\<lambda>w9.
      bind_err (MyString_dtor c w9) (\<lambda>w10.
      bind_err (MyString_dtor b w10) (\<lambda>w11.
        MyString_dtor a2 w11))))))))))))"

text \<open>A string that holds the text \<open>t\<close> in its own block.\<close>

definition ms_holds :: "ms_world \<Rightarrow> mystring \<Rightarrow> bytes \<Rightarrow> bool" where
  "ms_holds w s t \<longleftrightarrow> 0 \<notin> set t \<and> m_len s = length t \<and> (\<exists>p. m_data s = Some p \<and> st_cell (mw_store w) p = Some (t @ [0]))"

lemma ms_cstr_holds: "ms_holds w s t \<Longrightarrow> ms_cstr (m_data s) w = Inr t"
  by (auto simp: ms_holds_def ms_cstr_def st_read_def c_strlen_mid [of t "[]", simplified])

definition ms_alloc :: "bytes \<Rightarrow> ms_world \<Rightarrow> ms_world" where
  "ms_alloc t w = w\<lparr>mw_store := snd (st_new (t @ [0]) (mw_store w))\<rparr>"

definition ms_at :: "nat \<Rightarrow> bytes \<Rightarrow> mystring" where
  "ms_at p t = \<lparr>m_data = Some p, m_len = length t\<rparr>"

lemma ms_alloc_holds: "0 \<notin> set t \<Longrightarrow> ms_holds (ms_say x (ms_alloc t w)) (ms_at (st_next (mw_store w)) t) t"
  by (simp add: ms_holds_def ms_alloc_def ms_at_def ms_say_def st_new_def)

lemma copy_data_ok: "copy_data (t @ [0]) (length t) w = Inr (Some (st_next (mw_store w)), ms_alloc t w)"
  using mem_read_mid [of "length t" t "[]" "[0]"] by (simp add: copy_data_def st_new_def ms_alloc_def)

lemma MyString_cstr_ok:
  assumes "0 \<notin> set t"
  shows "MyString_cstr (t @ [0]) w = Inr (ms_at (st_next (mw_store w)) t, ms_say (MsOrdinary t) (ms_alloc t w))"
  using assms c_strlen_mid [of t "[]"]
  by (simp add: MyString_cstr_def copy_data_ok ms_cstr_def ms_alloc_def st_new_def st_read_def ms_at_def)

lemma MyString_copy_ok:
  assumes "ms_holds w s t" "st_ok (mw_store w)"
  shows "MyString_copy s w = Inr (ms_at (st_next (mw_store w)) t, ms_say (MsCopy t) (ms_alloc t w))"
proof -
  obtain p where p: "m_data s = Some p" "st_cell (mw_store w) p = Some (t @ [0])" "m_len s = length t" "0 \<notin> set t"
    using assms(1) by (auto simp: ms_holds_def)
  have "p \<noteq> st_next (mw_store w)" using p(2) assms(2) st_ok_fresh by fastforce
  then have "ms_cstr (m_data s) (ms_alloc t w) = Inr t"
    using p c_strlen_mid [of t "[]"] by (simp add: ms_cstr_def ms_alloc_def st_new_def st_read_def)
  then show ?thesis using p by (simp add: MyString_copy_def st_read_def copy_data_ok ms_at_def)
qed

lemma MyString_dtor_null [simp]: "MyString_dtor \<lparr>m_data = None, m_len = n\<rparr> = Inr"
  by (rule ext) (simp add: MyString_dtor_def st_delete_def)

lemma ms_say_store [simp]: "mw_store (ms_say x w) = mw_store w"
  by (simp add: ms_say_def)

lemma ms_alloc_ok [simp]: "st_ok (mw_store w) \<Longrightarrow> st_ok (mw_store (ms_alloc t w))"
  by (auto simp: st_ok_def ms_alloc_def st_new_def less_Suc_eq)

text \<open>
  \<open>main\<close> of the string program calls the constructors and assignments in the order its comments
  name, reads no dead block, frees every block once and leaves the heap as it found it.
\<close>

theorem mystring_main_clean:
  assumes "st_ok (mw_store w)" "0 \<notin> set hello" "0 \<notin> set world"
  shows "\<exists>w'. MyString_main (hello @ [0]) (world @ [0]) w = Inr w' \<and> st_cell (mw_store w') = st_cell (mw_store w) \<and>
    mw_out w' = mw_out w @ [MsDefault, MsOrdinary hello, MsMoveAssign hello, MsCopy hello, MsMove hello, MsOrdinary world, MsMove world]"
proof -
  let ?n = "st_next (mw_store w)"
  let ?w0 = "ms_say MsDefault w"
  let ?w1 = "ms_say (MsMoveAssign hello) (ms_say (MsOrdinary hello) (ms_alloc hello ?w0))"
  let ?w2 = "ms_say (MsMove hello) (ms_say (MsCopy hello) (ms_alloc hello ?w1))"
  let ?w3 = "ms_say (MsMove world) (ms_say (MsOrdinary world) (ms_alloc world ?w2))"
  have ok: "st_ok (mw_store ?w1)" using assms(1) by simp
  have fresh: "st_cell (mw_store w) ?n = None" "st_cell (mw_store w) (Suc ?n) = None" "st_cell (mw_store w) (Suc (Suc ?n)) = None"
    using st_ok_fresh [OF assms(1)] by simp_all
  have h1: "ms_holds ?w1 (ms_at ?n hello) hello" and h2: "ms_holds (ms_say (MsCopy hello) (ms_alloc hello ?w1)) (ms_at ?n hello) hello"
    using assms(2) by (simp_all add: ms_holds_def ms_at_def ms_say_def ms_alloc_def st_new_def)
  have a: "ms_cstr (Some ?n) (ms_say (MsOrdinary hello) (ms_alloc hello ?w0)) = Inr hello"
    and c: "ms_cstr (Some (Suc (Suc ?n))) (ms_say (MsOrdinary world) (ms_alloc world ?w2)) = Inr world"
    using assms(2,3) c_strlen_mid [of hello "[]"] c_strlen_mid [of world "[]"]
    by (simp_all add: ms_cstr_def st_read_def ms_say_def ms_alloc_def st_new_def)
  have n1: "st_next (mw_store ?w1) = Suc ?n" and n2: "st_next (mw_store ?w2) = Suc (Suc ?n)" and n0: "st_next (mw_store ?w0) = ?n"
    by (simp_all add: ms_say_def ms_alloc_def st_new_def)
  have "MyString_main (hello @ [0]) (world @ [0]) w =
      bind_err (MyString_dtor (ms_at (Suc (Suc ?n)) world) ?w3) (\<lambda>w9.
      bind_err (MyString_dtor (ms_at ?n hello) w9) (\<lambda>w10.
      bind_err (MyString_dtor (ms_at (Suc ?n) hello) w10) Inr))"
    using a c MyString_copy_ok [OF h1 ok] ms_cstr_holds [OF h2] n0 n1 n2
    by (simp add: MyString_main_def MyString_cstr_ok [OF assms(2)] MyString_cstr_ok [OF assms(3)] MyString_default_def
        MyString_move_assign_def MyString_move_def ms_at_def)
  moreover have "\<dots> = Inr (?w3\<lparr>mw_store := (mw_store ?w3)\<lparr>st_cell := st_cell (mw_store w)\<rparr>\<rparr>)"
    using fresh by (simp add: MyString_dtor_def st_delete_def ms_at_def ms_say_def ms_alloc_def st_new_def fun_upd_idem fun_upd_twist)
  ultimately show ?thesis by (simp add: ms_say_def ms_alloc_def)
qed

theorem mystring_main_clean_witness:
  "\<exists>w'. MyString_main [72, 105, 0] [87, 0] \<lparr>mw_store = \<lparr>st_next = 0, st_cell = Map.empty\<rparr>, mw_out = []\<rparr> = Inr w' \<and>
     st_cell (mw_store w') = Map.empty"
  using mystring_main_clean [of "\<lparr>mw_store = \<lparr>st_next = 0, st_cell = Map.empty\<rparr>, mw_out = []\<rparr>" "[72, 105]" "[87]"]
  by (auto simp: st_ok_def)

text \<open>
  Both assignments leak: when the target holds a text of its own, it takes over the new one
  correctly, but after both objects are destroyed its old block is still allocated and nothing points to it.
\<close>

theorem mystring_assign_leaks:
  assumes "st_ok (mw_store w)" "ms_holds w this t" "ms_holds w str u" "m_data this = Some p" "m_data str = Some q" "p \<noteq> q"
  shows "(\<exists>this' w1 w2 w3. MyString_copy_assign False this str w = Inr (this', w1) \<and> ms_holds w1 this' u \<and>
      MyString_dtor this' w1 = Inr w2 \<and> MyString_dtor str w2 = Inr w3 \<and>
      st_cell (mw_store w3) = (st_cell (mw_store w))(q := None) \<and> st_cell (mw_store w3) p \<noteq> None) \<and>
    (\<exists>this' str' w1 w2 w3. MyString_move_assign False this str w = Inr (this', str', w1) \<and> ms_holds w1 this' u \<and>
      MyString_dtor this' w1 = Inr w2 \<and> MyString_dtor str' w2 = Inr w3 \<and>
      st_cell (mw_store w3) = (st_cell (mw_store w))(q := None) \<and> st_cell (mw_store w3) p \<noteq> None)"
proof -
  let ?n = "st_next (mw_store w)"
  have f: "st_cell (mw_store w) ?n = None" using st_ok_fresh [OF assms(1)] by simp
  have q: "st_cell (mw_store w) q = Some (u @ [0])" "m_len str = length u" "0 \<notin> set u" and p: "st_cell (mw_store w) p \<noteq> None"
    using assms(2,3,4,5) by (auto simp: ms_holds_def)
  have "q \<noteq> ?n" using q(1) f by auto
  then have c: "ms_cstr (Some q) (ms_alloc u w) = Inr u"
    using q(1,3) c_strlen_mid [of u "[]"] by (simp add: ms_cstr_def ms_alloc_def st_new_def st_read_def)
  have "MyString_copy_assign False this str w = Inr (ms_at ?n u, ms_say (MsCopyAssign u) (ms_alloc u w))"
    using q c assms(5) by (simp add: MyString_copy_assign_def st_read_def copy_data_ok ms_at_def)
  moreover have "MyString_dtor (ms_at ?n u) (ms_say (MsCopyAssign u) (ms_alloc u w)) =
      Inr (ms_say (MsCopyAssign u) (ms_alloc u w)\<lparr>mw_store := (mw_store (ms_alloc u w))\<lparr>st_cell := st_cell (mw_store w)\<rparr>\<rparr>)"
    using f by (simp add: MyString_dtor_def st_delete_def ms_at_def ms_say_def ms_alloc_def st_new_def fun_upd_idem)
  moreover have "ms_holds (ms_say (MsCopyAssign u) (ms_alloc u w)) (ms_at ?n u) u" by (rule ms_alloc_holds [OF q(3)])
  moreover have "MyString_move_assign False this str w = Inr (str, \<lparr>m_data = None, m_len = 0\<rparr>, ms_say (MsMoveAssign u) w)"
    using ms_cstr_holds [OF assms(3)] by (simp add: MyString_move_assign_def)
  moreover have "ms_holds (ms_say (MsMoveAssign u) w) str u" using assms(3) by (simp add: ms_holds_def ms_say_def)
  moreover have "\<exists>w3. MyString_dtor str (w'\<lparr>mw_store := st\<lparr>st_cell := st_cell (mw_store w)\<rparr>\<rparr>) = Inr w3 \<and>
      st_cell (mw_store w3) = (st_cell (mw_store w))(q := None) \<and> st_cell (mw_store w3) p \<noteq> None" for w' st
    using assms(5,6) p q(1) by (simp add: MyString_dtor_def st_delete_def)
  moreover have "\<exists>w2. MyString_dtor str (ms_say (MsMoveAssign u) w) = Inr w2 \<and> MyString_dtor \<lparr>m_data = None, m_len = 0\<rparr> w2 = Inr w2 \<and>
      st_cell (mw_store w2) = (st_cell (mw_store w))(q := None) \<and> st_cell (mw_store w2) p \<noteq> None"
    using assms(5,6) p q(1) by (simp add: MyString_dtor_def st_delete_def)
  ultimately show ?thesis by blast
qed

theorem mystring_assign_leaks_witness:
  "\<exists>w1 w2 w3 this'. MyString_copy_assign False (ms_at 0 [72]) (ms_at 1 [87])
      \<lparr>mw_store = \<lparr>st_next = 2, st_cell = [0 \<mapsto> [72, 0], 1 \<mapsto> [87, 0]]\<rparr>, mw_out = []\<rparr> = Inr (this', w1) \<and>
     MyString_dtor this' w1 = Inr w2 \<and> MyString_dtor (ms_at 1 [87]) w2 = Inr w3 \<and> st_cell (mw_store w3) 0 \<noteq> None"
proof -
  let ?w = "\<lparr>mw_store = \<lparr>st_next = 2, st_cell = [0 \<mapsto> [72, 0], 1 \<mapsto> [87, 0]]\<rparr>, mw_out = []\<rparr>"
  have "st_ok (mw_store ?w)" "ms_holds ?w (ms_at 0 [72]) [72]" "ms_holds ?w (ms_at 1 [87]) [87]"
    by (simp_all add: st_ok_def ms_holds_def ms_at_def)
  from mystring_assign_leaks [OF this, of 0 1] show ?thesis by (auto simp: ms_at_def)
qed

end
