(* ===== verification/SmartPtr.thy ===== *)
theory SmartPtr
  imports Prelude "HOL-Library.Multiset"
begin

text \<open>
  The programs of \<open>src/shared_ptr/\<close>: \<open>shared_ptr_example.cpp\<close>, \<open>weak_ptr_example.cpp\<close> and
  \<open>unique_ptr_example.cpp\<close>. The state has the managed objects and their reference counts; a smart
  pointer is the object it points to or null. Every \<open>assert\<close> of the programs is a check.
\<close>

section \<open>Counted pointers\<close>

datatype deleter = DefaultDelete | FunctionDeleter | LambdaDeleter | ClassDeleter | ArrayLambdaDeleter | DeleteA

datatype sp_print = Deleting deleter | SpDestroyed | SpNotDestroyed | SpStart | SpEnd

record sp_state =
  sp_next :: nat
  sp_live :: "nat \<rightharpoonup> int list"       \<comment> \<open>objects and arrays that have not been deleted\<close>
  sp_strong :: "nat \<Rightarrow> nat"          \<comment> \<open>\<open>use_count\<close> in the control block\<close>
  sp_deleter :: "nat \<Rightarrow> deleter"
  sp_deleted :: "nat list"
  sp_log :: "sp_print list"

type_synonym smart = "nat option"

definition sp_new :: "deleter \<Rightarrow> int list \<Rightarrow> sp_state \<Rightarrow> smart \<times> sp_state" where
  "sp_new d v s =
     (let a = sp_next s in
      (Some a, s\<lparr>sp_next := a + 1, sp_live := (sp_live s)(a \<mapsto> v), sp_strong := (sp_strong s)(a := 1),
                 sp_deleter := (sp_deleter s)(a := d)\<rparr>))"

definition sp_copy :: "smart \<Rightarrow> sp_state \<Rightarrow> smart \<times> sp_state" where
  "sp_copy p s = (p, case p of None \<Rightarrow> s | Some a \<Rightarrow> s\<lparr>sp_strong := (sp_strong s)(a := sp_strong s a + 1)\<rparr>)"

text \<open>The destructor and \<open>reset\<close>: the last pointer deletes the object with its deleter.\<close>

definition sp_delete :: "nat \<Rightarrow> sp_state \<Rightarrow> sp_state" where
  "sp_delete a s =
     s\<lparr>sp_live := (sp_live s)(a := None), sp_deleted := sp_deleted s @ [a],
       sp_log := sp_log s @ (if sp_deleter s a = DefaultDelete then [] else [Deleting (sp_deleter s a)])\<rparr>"

definition sp_drop :: "smart \<Rightarrow> sp_state \<Rightarrow> sp_state" where
  "sp_drop p s =
     (case p of
        None \<Rightarrow> s
      | Some a \<Rightarrow>
          let s1 = s\<lparr>sp_strong := (sp_strong s)(a := sp_strong s a - 1)\<rparr> in
          if sp_strong s1 a = 0 then sp_delete a s1 else s1)"

definition sp_reset :: "smart \<Rightarrow> sp_state \<Rightarrow> smart \<times> sp_state" where
  "sp_reset p s = (None, sp_drop p s)"

definition use_count :: "smart \<Rightarrow> sp_state \<Rightarrow> nat" where
  "use_count p s = (case p of None \<Rightarrow> 0 | Some a \<Rightarrow> sp_strong s a)"

definition sp_unique :: "smart \<Rightarrow> sp_state \<Rightarrow> bool" where
  "sp_unique p s \<longleftrightarrow> use_count p s = 1"

text \<open>A weak pointer remembers the object; it is expired when the count is 0, and \<open>lock\<close> copies.\<close>

definition expired :: "smart \<Rightarrow> sp_state \<Rightarrow> bool" where
  "expired w s \<longleftrightarrow> use_count w s = 0"

definition sp_lock :: "smart \<Rightarrow> sp_state \<Rightarrow> smart \<times> sp_state" where
  "sp_lock w s = (if expired w s then (None, s) else sp_copy w s)"

text \<open>The invariant of counting: \<open>ps\<close> are the shared pointers that exist.\<close>

definition sp_inv :: "smart multiset \<Rightarrow> sp_state \<Rightarrow> bool" where
  "sp_inv ps s \<longleftrightarrow> (\<forall>a. sp_strong s a = count ps (Some a)) \<and> (\<forall>a. sp_live s a \<noteq> None \<longleftrightarrow> 0 < sp_strong s a) \<and>
     (\<forall>a. sp_live s a \<noteq> None \<or> a \<in> set (sp_deleted s) \<longrightarrow> a < sp_next s) \<and>
     (\<forall>a\<in>set (sp_deleted s). sp_live s a = None) \<and> distinct (sp_deleted s)"

lemma sp_inv_new:
  assumes "sp_inv ps s" shows "sp_inv (add_mset (fst (sp_new d v s)) ps) (snd (sp_new d v s))"
proof -
  let ?a = "sp_next s"
  have "\<not> 0 < sp_strong s ?a" using assms by (auto simp: sp_inv_def)
  then have "count ps (Some ?a) = 0" "?a \<notin> set (sp_deleted s)" using assms by (auto simp: sp_inv_def)
  then show ?thesis using assms by (auto simp: sp_inv_def sp_new_def Let_def less_Suc_eq)
qed

lemma sp_inv_copy: "sp_inv ps s \<Longrightarrow> p \<in># ps \<Longrightarrow> sp_inv (add_mset (fst (sp_copy p s)) ps) (snd (sp_copy p s))"
  by (auto simp: sp_inv_def sp_copy_def split: option.splits)

lemma sp_inv_lock: "sp_inv ps s \<Longrightarrow> sp_inv (add_mset (fst (sp_lock w s)) ps) (snd (sp_lock w s))"
  by (auto simp: sp_inv_def sp_lock_def sp_copy_def expired_def use_count_def split: option.splits)

lemma sp_inv_drop:
  assumes "sp_inv (add_mset p ps) s" shows "sp_inv ps (sp_drop p s)"
proof (cases p)
  case (Some a)
  have c: "sp_strong s a = count ps (Some a) + 1" using assms Some by (simp add: sp_inv_def)
  then have "sp_live s a \<noteq> None" using assms unfolding sp_inv_def by (metis add_gr_0 zero_less_one)
  then have "a \<notin> set (sp_deleted s)" using assms unfolding sp_inv_def by metis
  then show ?thesis using assms Some c by (auto simp: sp_inv_def sp_drop_def sp_delete_def Let_def)
qed (use assms in \<open>simp add: sp_inv_def sp_drop_def\<close>)

text \<open>
  Counting is exact: creating, copying and locking pointers and dropping any existing one keep
  the invariant that the count of an object is the number of shared pointers to it, that an object is live
  exactly while there is one, and that no object is deleted twice; the last pointer to
  an object deletes it, and a weak pointer to it is then expired and locks to null.
\<close>

theorem shared_ptr_counts:
  assumes "sp_inv (add_mset (Some a) ps) s"
  shows "sp_inv (add_mset (fst (sp_new d v s)) (add_mset (Some a) ps)) (snd (sp_new d v s)) \<and>
    sp_inv (add_mset (Some a) (add_mset (Some a) ps)) (snd (sp_copy (Some a) s)) \<and>
    sp_inv ps (sp_drop (Some a) s) \<and>
    (sp_live (sp_drop (Some a) s) a = None \<longleftrightarrow> Some a \<notin># ps) \<and>
    (expired (Some a) (sp_drop (Some a) s) \<longleftrightarrow> Some a \<notin># ps) \<and>
    sp_deleted (sp_drop (Some a) s) = sp_deleted s @ (if Some a \<in># ps then [] else [a]) \<and>
    fst (sp_lock (Some a) (sp_drop (Some a) s)) = (if Some a \<in># ps then Some a else None)"
proof -
  have i: "sp_inv ps (sp_drop (Some a) s)" by (rule sp_inv_drop [OF assms])
  have c: "sp_strong s a = Suc (count ps (Some a))" using assms by (simp add: sp_inv_def)
  have l: "sp_live (sp_drop (Some a) s) a = None \<longleftrightarrow> Some a \<notin># ps"
  proof -
    have "sp_live (sp_drop (Some a) s) a \<noteq> None \<longleftrightarrow> 0 < count ps (Some a)" using i unfolding sp_inv_def by metis
    then show ?thesis by (auto simp: count_greater_zero_iff)
  qed
  have e: "use_count (Some a) (sp_drop (Some a) s) = count ps (Some a)" using i by (simp add: sp_inv_def use_count_def)
  have "sp_deleted (sp_drop (Some a) s) = sp_deleted s @ (if Some a \<in># ps then [] else [a])"
    using c by (auto simp: sp_drop_def sp_delete_def Let_def not_in_iff)
  then show ?thesis
    using sp_inv_new [OF assms] sp_inv_copy [OF assms, of "Some a"] i l e
    by (auto simp: sp_copy_def expired_def sp_lock_def not_in_iff)
qed

definition sp_start :: sp_state where
  "sp_start = \<lparr>sp_next = 0, sp_live = Map.empty, sp_strong = (\<lambda>_. 0), sp_deleter = (\<lambda>_. DefaultDelete), sp_deleted = [], sp_log = []\<rparr>"

theorem shared_ptr_counts_witness:
  "sp_live (sp_drop (Some 0) (snd (sp_new DefaultDelete [7] sp_start))) 0 = None \<and>
   sp_deleted (sp_drop (Some 0) (snd (sp_new DefaultDelete [7] sp_start))) = [0]"
proof -
  have "sp_inv {#} sp_start" by (simp add: sp_inv_def sp_start_def)
  from sp_inv_new [OF this, of DefaultDelete "[7]"]
  have "sp_inv (add_mset (Some 0) {#}) (snd (sp_new DefaultDelete [7] sp_start))" by (simp add: sp_new_def sp_start_def)
  from shared_ptr_counts [OF this] show ?thesis by (simp add: sp_new_def sp_start_def)
qed

section \<open>The programs\<close>

text \<open>\<open>None\<close> is a failed assertion. Locals are destroyed in the reverse order of their declaration.\<close>

definition sp_assert :: "bool \<Rightarrow> 'a option \<Rightarrow> 'a option" where
  "sp_assert b k = (if b then k else None)"

definition shared_demo_initial :: "sp_state \<Rightarrow> sp_state option" where
  "shared_demo_initial s =
     (let (p1, s) = sp_new DefaultDelete [1] s;
          (p2, s) = sp_copy p1 s;
          (p3, s) = (let (q, s) = sp_new DefaultDelete [1] s in (q, sp_drop None s));
          (p4, s) = sp_new DefaultDelete [100] s in
      sp_assert (p2 = p1) (
      sp_assert (use_count p2 s = use_count p1 s \<and> use_count p1 s = 2) (
      sp_assert (p3 \<noteq> None \<and> sp_unique p3 s) (
      sp_assert (p4 \<noteq> None \<and> sp_unique p4 s) (
        let (p1, s) = sp_reset p1 s in
        sp_assert (p1 = None \<and> p2 \<noteq> None \<and> use_count p2 s = 1) (
          let (p2, s) = sp_reset p2 s in
          sp_assert (p1 = None \<and> p2 = None) (
            Some (sp_drop p1 (sp_drop p2 (sp_drop p3 (sp_drop p4 s)))))))))))"

definition shared_demo_deleter :: "sp_state \<Rightarrow> sp_state option" where
  "shared_demo_deleter s =
     (let (p1, s) = sp_new FunctionDeleter [1] s;
          (p2, s) = sp_new LambdaDeleter [2] s;
          (p3, s) = sp_new ClassDeleter [3] s in
      Some (sp_drop p1 (sp_drop p2 (sp_drop p3 s))))"

text \<open>\<open>getSelf\<close>: \<open>shared_from_this\<close> locks the weak pointer that the object has to itself.\<close>

definition getSelf :: "smart \<Rightarrow> sp_state \<Rightarrow> smart \<times> sp_state" where
  "getSelf this s = sp_lock this s"

definition shared_demo_this :: "sp_state \<Rightarrow> sp_state option" where
  "shared_demo_this s =
     (let (p1, s) = sp_new DeleteA [] s;
          (p2, s) = getSelf p1 s in
      sp_assert (p1 = p2) (
      sp_assert (use_count p1 s = use_count p2 s \<and> use_count p1 s = 2) (
        let (p1, s) = sp_reset p1 s in
        sp_assert (p1 = None \<and> p2 \<noteq> None \<and> sp_unique p2 s) (
          let (p2, s) = sp_reset p2 s in
          sp_assert (p1 = None \<and> p2 = None) (Some (sp_drop p1 (sp_drop p2 s)))))))"

definition weak_demo_initial :: "sp_state \<Rightarrow> sp_state option" where
  "weak_demo_initial s =
     (let (p1, s) = sp_new DefaultDelete [1] s; p2 = p1; p3 = p2; p4 = p1 in
      sp_assert (\<not> expired p2 s \<and> \<not> expired p3 s \<and> use_count p2 s = use_count p1 s \<and> use_count p2 s = 1) (
        let (l, s) = sp_lock p2 s in
        sp_assert (l = p1) (
          let s = sp_drop l s; (p1, s) = sp_reset p1 s; (l4, s') = sp_lock p4 s in
          sp_assert (expired p2 s \<and> expired p3 s \<and> l4 = None) (
            Some (sp_drop p1 (sp_drop l4 s'))))))"

definition weak_demo_scope :: "sp_state \<Rightarrow> sp_state option" where
  "weak_demo_scope s =
     (let (sp, s) = sp_new DefaultDelete [1] s; wp = sp; (sp_ok, s) = sp_lock wp s in
      sp_assert (use_count sp_ok s = 2) (
        let s = sp_drop sp s;
            s = s\<lparr>sp_log := sp_log s @ [if expired wp s then SpDestroyed else SpNotDestroyed]\<rparr> in
        Some (sp_drop sp_ok s)))"

text \<open>A unique pointer: no count, the destructor deletes, \<open>release\<close> gives the object up without deleting it.\<close>

definition up_new :: "deleter \<Rightarrow> int list \<Rightarrow> sp_state \<Rightarrow> smart \<times> sp_state" where
  "up_new d v s =
     (let a = sp_next s in
      (Some a, s\<lparr>sp_next := a + 1, sp_live := (sp_live s)(a \<mapsto> v), sp_deleter := (sp_deleter s)(a := d)\<rparr>))"

definition up_drop :: "smart \<Rightarrow> sp_state \<Rightarrow> sp_state" where
  "up_drop p s = (case p of None \<Rightarrow> s | Some a \<Rightarrow> sp_delete a s)"

definition up_release :: "smart \<Rightarrow> smart \<times> smart" where
  "up_release p = (p, None)"

definition up_at :: "smart \<Rightarrow> nat \<Rightarrow> sp_state \<Rightarrow> int option" where
  "up_at p i s = (case p of None \<Rightarrow> None | Some a \<Rightarrow>
     (case sp_live s a of None \<Rightarrow> None | Some vs \<Rightarrow> if i < length vs then Some (vs ! i) else None))"

definition up_set :: "smart \<Rightarrow> nat \<Rightarrow> int \<Rightarrow> sp_state \<Rightarrow> sp_state option" where
  "up_set p i v s = (case p of None \<Rightarrow> None | Some a \<Rightarrow>
     (case sp_live s a of None \<Rightarrow> None
      | Some vs \<Rightarrow> if i < length vs then Some (s\<lparr>sp_live := (sp_live s)(a \<mapsto> vs[i := v])\<rparr>) else None))"

definition unique_demo_initial :: "sp_state \<Rightarrow> sp_state option" where
  "unique_demo_initial s =
     (let (p1, s) = up_new DefaultDelete [1] s;
          (raw, p1) = up_release p1 in
      sp_assert (p1 = None) (
        let (p3, s) = (let (q, s) = up_new DefaultDelete [1] s in (q, up_drop None s));
            (p4, s) = up_new DefaultDelete [100] s;
            (p3, p4) = (p4, p3) in
        sp_assert (up_at p3 0 s = Some 100 \<and> up_at p4 0 s = Some 1) (
          let (p5, p3) = (p3, None) in
          sp_assert (p3 = None \<and> p5 \<noteq> None \<and> up_at p5 0 s = Some 100) (
            Some (up_drop p1 (up_drop p3 (up_drop p4 (up_drop p5 s))))))))"

definition unique_demo_deleter :: "sp_state \<Rightarrow> sp_state option" where
  "unique_demo_deleter s =
     (let (p1, s) = up_new FunctionDeleter [1] s;
          (p2, s) = up_new LambdaDeleter [2] s;
          (p3, s) = up_new ClassDeleter [3] s in
      Some (up_drop p1 (up_drop p2 (up_drop p3 s))))"

text \<open>The arrays come with unspecified contents.\<close>

definition unique_demo_array :: "int list \<Rightarrow> int list \<Rightarrow> sp_state \<Rightarrow> sp_state option" where
  "unique_demo_array junk10 junk100 s =
     (let (p1, s) = up_new DefaultDelete junk10 s in
      case up_set p1 5 5 s of
        None \<Rightarrow> None
      | Some s \<Rightarrow>
          let (p2, s) = up_new ArrayLambdaDeleter junk100 s in
          (case up_set p2 10 10 s of
             None \<Rightarrow> None
           | Some s \<Rightarrow> Some (up_drop p1 (up_drop p2 s))))"

definition sp_fresh :: "sp_state \<Rightarrow> bool" where
  "sp_fresh s \<longleftrightarrow> (\<forall>a\<ge>sp_next s. sp_live s a = None)"

lemmas sp_defs = sp_assert_def sp_new_def sp_copy_def sp_drop_def sp_delete_def sp_reset_def use_count_def sp_unique_def
  expired_def sp_lock_def getSelf_def up_new_def up_drop_def up_release_def up_at_def up_set_def

text \<open>
  All programs with shared and weak pointers run to their end with every assertion true, and
  leave exactly the objects that were there before, each of theirs deleted once, the last created
  first where it is not reset earlier, with its own deleter. So do the programs with unique
  pointers, except that \<open>demo_initial\<close> never deletes the object it releases.
\<close>

theorem smart_ptr_programs:
  assumes "sp_fresh s" "length junk10 = 10" "length junk100 = 100"
  defines "n \<equiv> sp_next s"
  shows "(\<exists>t. shared_demo_initial s = Some t \<and> sp_live t = sp_live s \<and> sp_deleted t = sp_deleted s @ [n, n + 2, n + 1]) \<and>
    (\<exists>t. shared_demo_deleter s = Some t \<and> sp_live t = sp_live s \<and>
       sp_log t = sp_log s @ [Deleting ClassDeleter, Deleting LambdaDeleter, Deleting FunctionDeleter]) \<and>
    (\<exists>t. shared_demo_this s = Some t \<and> sp_live t = sp_live s \<and> sp_log t = sp_log s @ [Deleting DeleteA]) \<and>
    (\<exists>t. weak_demo_initial s = Some t \<and> sp_live t = sp_live s \<and> sp_deleted t = sp_deleted s @ [n]) \<and>
    (\<exists>t. weak_demo_scope s = Some t \<and> sp_live t = sp_live s \<and> sp_log t = sp_log s @ [SpNotDestroyed]) \<and>
    (\<exists>t. unique_demo_initial s = Some t \<and> sp_live t = (sp_live s)(n \<mapsto> [1]) \<and> sp_deleted t = sp_deleted s @ [n + 2, n + 1]) \<and>
    (\<exists>t. unique_demo_deleter s = Some t \<and> sp_live t = sp_live s) \<and>
    (\<exists>t. unique_demo_array junk10 junk100 s = Some t \<and> sp_live t = sp_live s)"
proof -
  have f: "sp_live s n = None" "sp_live s (Suc n) = None" "sp_live s (Suc (Suc n)) = None" using assms(1) by (simp_all add: sp_fresh_def n_def)
  then have u: "(sp_live s)(n := None) = sp_live s" "(sp_live s)(Suc n := None) = sp_live s" "(sp_live s)(Suc (Suc n) := None) = sp_live s"
    by (simp_all add: fun_upd_idem)
  show ?thesis
  proof (intro conjI)
    show "\<exists>t. shared_demo_initial s = Some t \<and> sp_live t = sp_live s \<and> sp_deleted t = sp_deleted s @ [n, n + 2, n + 1]"
      using f by (simp add: shared_demo_initial_def sp_defs flip: n_def) (simp add: fun_eq_iff)
    show "\<exists>t. shared_demo_deleter s = Some t \<and> sp_live t = sp_live s \<and>
       sp_log t = sp_log s @ [Deleting ClassDeleter, Deleting LambdaDeleter, Deleting FunctionDeleter]"
      using u by (simp add: shared_demo_deleter_def sp_defs Let_def fun_upd_twist flip: n_def)
    show "\<exists>t. shared_demo_this s = Some t \<and> sp_live t = sp_live s \<and> sp_log t = sp_log s @ [Deleting DeleteA]"
      using u by (simp add: shared_demo_this_def sp_defs Let_def flip: n_def)
    show "\<exists>t. weak_demo_initial s = Some t \<and> sp_live t = sp_live s \<and> sp_deleted t = sp_deleted s @ [n]"
      using u by (simp add: weak_demo_initial_def sp_defs Let_def flip: n_def)
    show "\<exists>t. weak_demo_scope s = Some t \<and> sp_live t = sp_live s \<and> sp_log t = sp_log s @ [SpNotDestroyed]"
      using u by (simp add: weak_demo_scope_def sp_defs Let_def flip: n_def)
    show "\<exists>t. unique_demo_initial s = Some t \<and> sp_live t = (sp_live s)(n \<mapsto> [1]) \<and> sp_deleted t = sp_deleted s @ [n + 2, n + 1]"
      using u by (simp add: unique_demo_initial_def sp_defs Let_def fun_upd_twist flip: n_def)
    show "\<exists>t. unique_demo_deleter s = Some t \<and> sp_live t = sp_live s"
      using u by (simp add: unique_demo_deleter_def sp_defs Let_def fun_upd_twist flip: n_def)
    show "\<exists>t. unique_demo_array junk10 junk100 s = Some t \<and> sp_live t = sp_live s"
      using u assms(2,3) by (simp add: unique_demo_array_def sp_defs Let_def fun_upd_twist flip: n_def)
  qed
qed

theorem smart_ptr_programs_witness:
  "\<exists>t. unique_demo_initial sp_start = Some t \<and> sp_live t = [0 \<mapsto> [1]]"
  using smart_ptr_programs [of sp_start "replicate 10 0" "replicate 100 0"] by (auto simp: sp_fresh_def sp_start_def)

section \<open>The main functions\<close>

definition sp_say :: "sp_print \<Rightarrow> sp_state \<Rightarrow> sp_state" where
  "sp_say l s = s\<lparr>sp_log := sp_log s @ [l]\<rparr>"

definition shared_main :: "sp_state \<Rightarrow> sp_state option" where
  "shared_main s =
     Option.bind (shared_demo_initial (sp_say SpStart s)) (\<lambda>s.
     Option.bind (shared_demo_deleter s) (\<lambda>s.
     Option.bind (shared_demo_this s) (\<lambda>s. Some (sp_say SpEnd s))))"

definition weak_main :: "sp_state \<Rightarrow> sp_state option" where
  "weak_main s =
     Option.bind (weak_demo_initial (sp_say SpStart s)) (\<lambda>s.
     Option.bind (weak_demo_scope s) (\<lambda>s. Some (sp_say SpEnd s)))"

definition unique_main :: "int list \<Rightarrow> int list \<Rightarrow> sp_state \<Rightarrow> sp_state option" where
  "unique_main junk10 junk100 s =
     Option.bind (unique_demo_initial (sp_say SpStart s)) (\<lambda>s.
     Option.bind (unique_demo_deleter s) (\<lambda>s.
     Option.bind (unique_demo_array junk10 junk100 s) (\<lambda>s. Some (sp_say SpEnd s))))"

text \<open>What the three programs print, and the one object they leave behind.\<close>

lemma smart_ptr_mains:
  assumes "length junk10 = 10" "length junk100 = 100"
  shows "\<exists>t. shared_main sp_start = Some t \<and> sp_live t = Map.empty \<and>
      sp_log t = [SpStart, Deleting ClassDeleter, Deleting LambdaDeleter, Deleting FunctionDeleter, Deleting DeleteA, SpEnd]"
    "\<exists>t. weak_main sp_start = Some t \<and> sp_live t = Map.empty \<and> sp_log t = [SpStart, SpNotDestroyed, SpEnd]"
    "\<exists>t. unique_main junk10 junk100 sp_start = Some t \<and> sp_live t = [0 \<mapsto> [1]] \<and> hd (sp_log t) = SpStart \<and> last (sp_log t) = SpEnd"
  using assms
  by (simp_all add: shared_main_def weak_main_def unique_main_def shared_demo_initial_def shared_demo_deleter_def
      shared_demo_this_def weak_demo_initial_def weak_demo_scope_def unique_demo_initial_def unique_demo_deleter_def
      unique_demo_array_def sp_say_def sp_start_def sp_defs Let_def fun_upd_twist)

end
