(* ===== verification/MutexDemo.thy ===== *)
theory MutexDemo
  imports Monitor "HOL-Library.Multiset" "HOL-Library.Signed_Division"
begin

text \<open>
  The programs of \<open>src/mutex/\<close>: the shared counter of \<open>demo1_mutex.cpp\<close>, the recursive mutex of
  \<open>demo2_recursive_mutex.cpp\<close>, the guard of \<open>demo4_lock_guard.cpp\<close> and the time-out of \<open>demo3_timed_mutex.cpp\<close>.
\<close>

section \<open>The counter\<close>

text \<open>
  A thread of \<open>increases_10k\<close>: before \<open>lock\<close>, between \<open>lock\<close> and the load of the counter, between the
  load and the store (with the value loaded), before \<open>unlock\<close>, and ended. The number is \<open>i\<close>.
\<close>

datatype cn_pc = CnLock nat | CnLoad nat | CnStore nat int | CnUnlock nat | CnDone

record cn_state =
  cn_mutex :: "nat option"
  cn_counter :: int
  cn_pc :: "nat \<Rightarrow> cn_pc"

definition cn_new :: cn_state where
  "cn_new = \<lparr>cn_mutex = None, cn_counter = 0, cn_pc = (\<lambda>_. CnLock 0)\<rparr>"

definition cn_goto :: "nat \<Rightarrow> cn_pc \<Rightarrow> cn_state \<Rightarrow> cn_state" where
  "cn_goto t x s = s\<lparr>cn_pc := (cn_pc s)(t := x)\<rparr>"

definition increases :: "nat \<Rightarrow> nat \<Rightarrow> cn_state \<Rightarrow> cn_state option" where
  "increases k t s =
     (case cn_pc s t of
        CnLock i \<Rightarrow>
          if i < k then if cn_mutex s = None then Some (cn_goto t (CnLoad i) (s\<lparr>cn_mutex := Some t\<rparr>)) else None
          else Some (cn_goto t CnDone s)
      | CnLoad i \<Rightarrow> Some (cn_goto t (CnStore i (cn_counter s)) s)
      | CnStore i v \<Rightarrow> Some (cn_goto t (CnUnlock i) (s\<lparr>cn_counter := v + 1\<rparr>))
      | CnUnlock i \<Rightarrow> Some (cn_goto t (CnLock (i + 1)) (s\<lparr>cn_mutex := None\<rparr>))
      | CnDone \<Rightarrow> None)"

text \<open>\<open>main\<close>: \<open>n\<close> threads with \<open>k\<close> rounds each; it prints when all have ended.\<close>

definition cn_step :: "nat \<Rightarrow> nat \<Rightarrow> cn_state \<Rightarrow> cn_state \<Rightarrow> bool" where
  "cn_step n k s s' \<longleftrightarrow> (\<exists>t<n. increases k t s = Some s')"

definition cn_init :: "cn_state \<Rightarrow> bool" where
  "cn_init s \<longleftrightarrow> s = cn_new"

definition cn_joined :: "nat \<Rightarrow> cn_state \<Rightarrow> bool" where
  "cn_joined n s \<longleftrightarrow> (\<forall>t<n. cn_pc s t = CnDone)"

fun cn_holds :: "cn_pc \<Rightarrow> bool" where
  "cn_holds (CnLoad _) = True" | "cn_holds (CnStore _ _) = True" | "cn_holds (CnUnlock _) = True" | "cn_holds _ = False"

fun cn_incs :: "nat \<Rightarrow> cn_pc \<Rightarrow> nat" where
  "cn_incs k (CnLock i) = i" | "cn_incs k (CnLoad i) = i" | "cn_incs k (CnStore i _) = i"
| "cn_incs k (CnUnlock i) = i + 1" | "cn_incs k CnDone = k"

fun cn_bound :: "nat \<Rightarrow> cn_pc \<Rightarrow> bool" where
  "cn_bound k (CnLock i) \<longleftrightarrow> i \<le> k" | "cn_bound k (CnLoad i) \<longleftrightarrow> i < k" | "cn_bound k (CnStore i _) \<longleftrightarrow> i < k"
| "cn_bound k (CnUnlock i) \<longleftrightarrow> i < k" | "cn_bound k CnDone \<longleftrightarrow> True"

lemma increases_runs:
  "cn_holds (cn_pc s t) \<or> cn_mutex s = None \<and> cn_pc s t \<noteq> CnDone \<Longrightarrow> \<exists>s'. increases k t s = Some s'"
  by (cases "cn_pc s t") (auto simp: increases_def)

interpretation cn: mutex_protocol cn_init "cn_step n k" cn_mutex "\<lambda>s t. cn_holds (cn_pc s t)" for n k
proof unfold_locales
  fix s s' :: cn_state
  assume "cn_step n k s s'"
  then obtain t where st: "increases k t s = Some s'" by (auto simp: cn_step_def)
  show "(\<exists>t. cn_mutex s = None \<and> cn_mutex s' = Some t \<and>
         (\<lambda>u. cn_holds (cn_pc s' u)) = (\<lambda>u. cn_holds (cn_pc s u))(t := True)) \<or>
      (\<exists>t. cn_holds (cn_pc s t) \<and> cn_mutex s' = None \<and>
         (\<lambda>u. cn_holds (cn_pc s' u)) = (\<lambda>u. cn_holds (cn_pc s u))(t := False)) \<or>
      (cn_mutex s' = cn_mutex s \<and> (\<lambda>u. cn_holds (cn_pc s' u)) = (\<lambda>u. cn_holds (cn_pc s u)))"
    using st by (intro mutex_move [of t], cases "cn_pc s t") (auto simp: increases_def cn_goto_def split: if_splits)
qed (simp add: cn_init_def cn_new_def)

definition cn_inv :: "nat \<Rightarrow> nat \<Rightarrow> cn_state \<Rightarrow> bool" where
  "cn_inv n k s \<longleftrightarrow> (\<forall>t. cn_bound k (cn_pc s t)) \<and> (\<forall>t i v. cn_pc s t = CnStore i v \<longrightarrow> v = cn_counter s) \<and>
     (\<forall>t. cn_mutex s = Some t \<longrightarrow> t < n) \<and> cn_counter s = int (\<Sum>t<n. cn_incs k (cn_pc s t))"

lemma sum_upd:
  fixes g :: "nat \<Rightarrow> 'p \<Rightarrow> 'a::cancel_comm_monoid_add"
  assumes "t < n"
  shows "(\<Sum>u<n. g u ((f(t := x)) u)) + g t (f t) = (\<Sum>u<n. g u (f u)) + g t x"
proof -
  have "(\<Sum>u<n. g u (f u)) = g t (f t) + (\<Sum>u\<in>{..<n} - {t}. g u (f u))"
    "(\<Sum>u<n. g u ((f(t := x)) u)) = g t x + (\<Sum>u\<in>{..<n} - {t}. g u (f u))"
    using assms by (simp_all add: sum.remove [of "{..<n}" t])
  then show ?thesis by (simp add: ac_simps)
qed

lemma cn_inv_step:
  assumes r: "reachable cn_init (cn_step n k) s" and inv: "cn_inv n k s" and t: "t < n" and st: "increases k t s = Some s'"
  shows "cn_inv n k s'"
proof -
  note sum = sum_upd [OF t, of "\<lambda>_. cn_incs k" "cn_pc s"]
  note m = cn.inside_iff_holder [OF r]
  have b: "\<And>u. cn_bound k (cn_pc s u)"
    and v: "\<And>u i v. cn_pc s u = CnStore i v \<Longrightarrow> v = cn_counter s" and c: "cn_counter s = int (\<Sum>u<n. cn_incs k (cn_pc s u))"
    and h: "\<And>u. cn_mutex s = Some u \<Longrightarrow> u < n"
    using inv by (auto simp: cn_inv_def)
  show ?thesis
  proof (cases "cn_pc s t")
    case (CnLock i)
    show ?thesis
    proof (cases "i < k")
      case True
      then have s': "s' = cn_goto t (CnLoad i) (s\<lparr>cn_mutex := Some t\<rparr>)" "cn_mutex s = None"
        using st CnLock by (auto simp: increases_def split: if_splits)
      then have "\<And>u. \<not> cn_holds (cn_pc s u)" using m by simp
      then show ?thesis using s' t b v c sum [of "CnLoad i"] CnLock True by (auto simp: cn_inv_def cn_goto_def)
    next
      case False
      then have s': "s' = cn_goto t CnDone s" "i = k" using st CnLock b [of t] by (auto simp: increases_def)
      then show ?thesis using m h b v c sum [of CnDone] CnLock m [of t] by (auto simp: cn_inv_def cn_goto_def)
    qed
  next
    case (CnLoad i)
    then have "s' = cn_goto t (CnStore i (cn_counter s)) s" using st by (simp add: increases_def)
    then show ?thesis using m h b v c sum [of "CnStore i (cn_counter s)"] CnLoad m [of t] b [of t] by (auto simp: cn_inv_def cn_goto_def)
  next
    case (CnStore i x)
    then have s': "s' = cn_goto t (CnUnlock i) (s\<lparr>cn_counter := cn_counter s + 1\<rparr>)" using st v by (auto simp: increases_def)
    have "\<And>u j w. u \<noteq> t \<Longrightarrow> cn_pc s u \<noteq> CnStore j w" using m [of t] m CnStore by (metis cn_holds.simps(2) option.inject)
    then show ?thesis using m h b c sum [of "CnUnlock i"] CnStore m [of t] b [of t] by (auto simp: s' cn_inv_def cn_goto_def)
  next
    case (CnUnlock i)
    then have s': "s' = cn_goto t (CnLock (i + 1)) (s\<lparr>cn_mutex := None\<rparr>)" using st by (simp add: increases_def)
    have "cn_mutex s = Some t" using m [of t] CnUnlock by simp
    then have "\<And>u. u \<noteq> t \<Longrightarrow> \<not> cn_holds (cn_pc s u)" using m by simp
    then show ?thesis using b v c sum [of "CnLock (i + 1)"] CnUnlock b [of t] by (auto simp: s' cn_inv_def cn_goto_def)
  next
    case CnDone then show ?thesis using st by (simp add: increases_def)
  qed
qed

lemma cn_reach_inv: "reachable cn_init (cn_step n k) s \<Longrightarrow> cn_inv n k s"
proof (erule reachable_invariant)
  show "cn_inv n k s" if "cn_init s" for s using that by (simp add: cn_init_def cn_new_def cn_inv_def)
  show "cn_inv n k s'" if "reachable cn_init (cn_step n k) s" "cn_inv n k s" "cn_step n k s s'" for s s' using that cn_inv_step by (auto simp: cn_step_def)
qed

text \<open>
  No increment of the counter is lost: for every interleaving, at most one thread is between \<open>lock\<close> and
  \<open>unlock\<close>, some thread can always go on until all have ended, and when \<open>main\<close> prints the counter it is
  the number of threads times the number of rounds.
\<close>

theorem counter_exact:
  assumes "reachable cn_init (cn_step n k) s"
  shows "(cn_joined n s \<longrightarrow> cn_counter s = int (n * k)) \<and> (\<not> cn_joined n s \<longrightarrow> (\<exists>s'. cn_step n k s s')) \<and>
    (cn_holds (cn_pc s t) \<and> cn_holds (cn_pc s u) \<longrightarrow> t = u) \<and> cn_counter s \<le> int (n * k)"
proof -
  have inv: "cn_inv n k s" by (rule cn_reach_inv [OF assms])
  have le: "cn_incs k (cn_pc s t) \<le> k" for t
    using inv by (cases "cn_pc s t") (auto simp: cn_inv_def dest: spec [of _ t])
  have "(\<Sum>t<n. cn_incs k (cn_pc s t)) \<le> n * k" using sum_bounded_above [of "{..<n}" "\<lambda>t. cn_incs k (cn_pc s t)" k] le by simp
  then have b: "cn_counter s \<le> int (n * k)" using inv by (simp add: cn_inv_def del: of_nat_sum of_nat_mult)
  have j: "cn_counter s = int (n * k)" if "cn_joined n s" using that inv by (simp add: cn_inv_def cn_joined_def)
  have p: "\<exists>s'. cn_step n k s s'" if nj: "\<not> cn_joined n s"
  proof (cases "cn_mutex s")
    case None
    obtain t where "t < n" "cn_pc s t \<noteq> CnDone" using nj by (auto simp: cn_joined_def)
    then show ?thesis using increases_runs [of s t k] None by (auto simp: cn_step_def)
  next
    case (Some t)
    then have "t < n" "cn_holds (cn_pc s t)" using inv cn.inside_iff_holder [OF assms] by (auto simp: cn_inv_def)
    then show ?thesis using increases_runs [of s t k] by (auto simp: cn_step_def)
  qed
  show ?thesis using b j p cn.exclusion [OF assms, of t u] by auto
qed

theorem counter_exact_witness:
  "cn_counter cn_new \<le> int (2 * 3) \<and> (\<exists>s'. cn_step 2 3 cn_new s')"
proof -
  have "\<not> cn_joined 2 cn_new" by (auto simp: cn_joined_def cn_new_def intro: exI [of _ 0])
  then show ?thesis using counter_exact [OF reach_init, of cn_new 2 3] by (simp add: cn_init_def)
qed

section \<open>The recursive mutex\<close>

text \<open>
  \<open>std::recursive_mutex\<close>: its owner with the number of its locks. A call that blocks for ever is the
  error \<open>Blocked\<close>; a signed overflow or a division by zero of \<open>int\<close> is \<open>Undefined\<close>.
\<close>

datatype complex_error = Blocked | Undefined

record Complex =
  cx_owner :: "(tid \<times> nat) option"
  cx_i :: int

definition Complex_new :: Complex where
  "Complex_new = \<lparr>cx_owner = None, cx_i = 0\<rparr>"

definition rm_lock :: "tid \<Rightarrow> Complex \<Rightarrow> complex_error + Complex" where
  "rm_lock t c =
     (case cx_owner c of
        None \<Rightarrow> Inr (c\<lparr>cx_owner := Some (t, 1)\<rparr>)
      | Some (u, n) \<Rightarrow> if u = t then Inr (c\<lparr>cx_owner := Some (t, n + 1)\<rparr>) else Inl Blocked)"

definition rm_unlock :: "Complex \<Rightarrow> Complex" where
  "rm_unlock c =
     (case cx_owner c of
        None \<Rightarrow> c
      | Some (u, n) \<Rightarrow> c\<lparr>cx_owner := (if n \<le> 1 then None else Some (u, n - 1))\<rparr>)"

text \<open>The lock that the comments of the class keep as an alternative: a plain \<open>std::mutex\<close>.\<close>

definition pm_lock :: "tid \<Rightarrow> Complex \<Rightarrow> complex_error + Complex" where
  "pm_lock t c = (if cx_owner c = None then Inr (c\<lparr>cx_owner := Some (t, 1)\<rparr>) else Inl Blocked)"

definition int32_ok :: "int \<Rightarrow> bool" where
  "int32_ok x \<longleftrightarrow> - (2 ^ 31) \<le> x \<and> x < 2 ^ 31"

definition cx_bind :: "complex_error + Complex \<Rightarrow> (Complex \<Rightarrow> complex_error + Complex) \<Rightarrow> complex_error + Complex" where
  "cx_bind m f = (case m of Inl e \<Rightarrow> Inl e | Inr c \<Rightarrow> f c)"

type_synonym complex_lock = "tid \<Rightarrow> Complex \<Rightarrow> complex_error + Complex"

definition cx_mul :: "complex_lock \<Rightarrow> tid \<Rightarrow> int \<Rightarrow> Complex \<Rightarrow> complex_error + Complex" where
  "cx_mul lock t x c =
     cx_bind (lock t c) (\<lambda>c.
       if int32_ok (cx_i c * x) then Inr (rm_unlock (c\<lparr>cx_i := cx_i c * x\<rparr>)) else Inl Undefined)"

definition cx_div :: "complex_lock \<Rightarrow> tid \<Rightarrow> int \<Rightarrow> Complex \<Rightarrow> complex_error + Complex" where
  "cx_div lock t x c =
     cx_bind (lock t c) (\<lambda>c.
       if x \<noteq> 0 \<and> int32_ok (cx_i c sdiv x) then Inr (rm_unlock (c\<lparr>cx_i := cx_i c sdiv x\<rparr>)) else Inl Undefined)"

definition cx_both :: "complex_lock \<Rightarrow> tid \<Rightarrow> int \<Rightarrow> int \<Rightarrow> Complex \<Rightarrow> complex_error + Complex" where
  "cx_both lock t x y c =
     cx_bind (lock t c) (\<lambda>c. cx_bind (cx_mul lock t x c) (\<lambda>c. cx_bind (cx_div lock t y c) (\<lambda>c. Inr (rm_unlock c))))"

definition complex_main :: "complex_error + Complex" where
  "complex_main = cx_both rm_lock 0 32 23 Complex_new"

text \<open>
  \<open>both\<close> with the recursive mutex: a thread that finds the mutex free, or that holds it already, ends
  with \<open>i\<close> multiplied and divided and the mutex as it found it, unless the arithmetic is undefined;
  another thread's lock blocks it. With a plain mutex \<open>both\<close> would never return, whatever the numbers.
\<close>

theorem recursive_mutex_both:
  "(cx_owner c = None \<or> (\<exists>n. 1 \<le> n \<and> cx_owner c = Some (t, n)) \<longrightarrow>
     cx_both rm_lock t x y c =
       (if int32_ok (cx_i c * x) \<and> y \<noteq> 0 \<and> int32_ok ((cx_i c * x) sdiv y) then Inr (c\<lparr>cx_i := (cx_i c * x) sdiv y\<rparr>)
        else Inl Undefined)) \<and>
   (u \<noteq> t \<and> cx_owner c = Some (u, n) \<longrightarrow> cx_both rm_lock t x y c = Inl Blocked) \<and>
   cx_both pm_lock t x y c = Inl Blocked"
  by (cases c) (auto simp: cx_both_def cx_mul_def cx_div_def cx_bind_def rm_lock_def pm_lock_def rm_unlock_def)

theorem recursive_mutex_both_witness:
  "complex_main = Inr Complex_new \<and> cx_both rm_lock 1 3 2 \<lparr>cx_owner = Some (1, 4), cx_i = 5\<rparr> = Inr \<lparr>cx_owner = Some (1, 4), cx_i = 7\<rparr>"
  using recursive_mutex_both [of Complex_new 0 32 23 0 0] recursive_mutex_both [of "\<lparr>cx_owner = Some (1, 4), cx_i = 5\<rparr>" 1 3 2 0 0]
  by (simp add: complex_main_def Complex_new_def int32_ok_def signed_divide_int_def)

section \<open>The guard and the exception\<close>

datatype pe_line = IsEven int | ExceptionCaught

text \<open>\<open>print_even\<close>: a line, or the \<open>std::logic_error\<close> with its text.\<close>

definition print_even :: "int \<Rightarrow> string + pe_line" where
  "print_even x = (if x mod 2 = 0 then Inr (IsEven x) else Inl ''not even'')"

text \<open>
  A thread of \<open>print_thread_id\<close>: before the guard's constructor, inside it, after \<open>print_even\<close> has returned
  or thrown (the guard's destructor comes next), in the handler, and ended.
\<close>

datatype pe_pc = PeStart | PeIn | PeRet | PeThrow | PeCatch | PeDone

record pe_state =
  pe_mutex :: "tid option"
  pe_out :: "pe_line list"
  pe_pc :: "tid \<Rightarrow> pe_pc"

definition pe_new :: pe_state where
  "pe_new = \<lparr>pe_mutex = None, pe_out = [], pe_pc = (\<lambda>_. PeStart)\<rparr>"

definition pe_goto :: "tid \<Rightarrow> pe_pc \<Rightarrow> pe_state \<Rightarrow> pe_state" where
  "pe_goto t x s = s\<lparr>pe_pc := (pe_pc s)(t := x)\<rparr>"

text \<open>The thread \<open>t\<close> of \<open>main\<close> has the number \<open>t + 1\<close>.\<close>

definition print_thread_id :: "tid \<Rightarrow> pe_state \<Rightarrow> pe_state option" where
  "print_thread_id t s =
     (case pe_pc s t of
        PeStart \<Rightarrow> if pe_mutex s = None then Some (pe_goto t PeIn (s\<lparr>pe_mutex := Some t\<rparr>)) else None
      | PeIn \<Rightarrow>
          (case print_even (int t + 1) of
             Inr l \<Rightarrow> Some (pe_goto t PeRet (s\<lparr>pe_out := pe_out s @ [l]\<rparr>))
           | Inl _ \<Rightarrow> Some (pe_goto t PeThrow s))
      | PeRet \<Rightarrow> Some (pe_goto t PeDone (s\<lparr>pe_mutex := None\<rparr>))
      | PeThrow \<Rightarrow> Some (pe_goto t PeCatch (s\<lparr>pe_mutex := None\<rparr>))
      | PeCatch \<Rightarrow> Some (pe_goto t PeDone (s\<lparr>pe_out := pe_out s @ [ExceptionCaught]\<rparr>))
      | PeDone \<Rightarrow> None)"

definition pe_step :: "nat \<Rightarrow> pe_state \<Rightarrow> pe_state \<Rightarrow> bool" where
  "pe_step n s s' \<longleftrightarrow> (\<exists>t<n. print_thread_id t s = Some s')"

definition pe_init :: "pe_state \<Rightarrow> bool" where
  "pe_init s \<longleftrightarrow> s = pe_new"

definition pe_joined :: "nat \<Rightarrow> pe_state \<Rightarrow> bool" where
  "pe_joined n s \<longleftrightarrow> (\<forall>t<n. pe_pc s t = PeDone)"

fun pe_holds :: "pe_pc \<Rightarrow> bool" where
  "pe_holds PeIn = True" | "pe_holds PeRet = True" | "pe_holds PeThrow = True" | "pe_holds _ = False"

definition pe_line_of :: "tid \<Rightarrow> pe_line" where
  "pe_line_of t = (if odd t then IsEven (int t + 1) else ExceptionCaught)"

fun pe_said :: "tid \<Rightarrow> pe_pc \<Rightarrow> pe_line multiset" where
  "pe_said t PeRet = {#pe_line_of t#}" | "pe_said t PeDone = {#pe_line_of t#}" | "pe_said t _ = {#}"

fun pe_pc_ok :: "tid \<Rightarrow> pe_pc \<Rightarrow> bool" where
  "pe_pc_ok t PeRet = odd t" | "pe_pc_ok t PeThrow = even t" | "pe_pc_ok t PeCatch = even t" | "pe_pc_ok t _ = True"

lemma print_even_line:
  "print_even (int t + 1) = (if odd t then Inr (pe_line_of t) else Inl ''not even'')"
  by (auto simp: print_even_def pe_line_of_def)

lemma print_thread_id_runs:
  "pe_holds (pe_pc s t) \<or> pe_mutex s = None \<and> pe_pc s t \<noteq> PeDone \<Longrightarrow> \<exists>s'. print_thread_id t s = Some s'"
  by (cases "pe_pc s t") (auto simp: print_thread_id_def print_even_line)

interpretation pe: mutex_protocol pe_init "pe_step n" pe_mutex "\<lambda>s t. pe_holds (pe_pc s t)" for n
proof unfold_locales
  fix s s' :: pe_state
  assume "pe_step n s s'"
  then obtain t where st: "print_thread_id t s = Some s'" by (auto simp: pe_step_def)
  show "(\<exists>t. pe_mutex s = None \<and> pe_mutex s' = Some t \<and>
         (\<lambda>u. pe_holds (pe_pc s' u)) = (\<lambda>u. pe_holds (pe_pc s u))(t := True)) \<or>
      (\<exists>t. pe_holds (pe_pc s t) \<and> pe_mutex s' = None \<and>
         (\<lambda>u. pe_holds (pe_pc s' u)) = (\<lambda>u. pe_holds (pe_pc s u))(t := False)) \<or>
      (pe_mutex s' = pe_mutex s \<and> (\<lambda>u. pe_holds (pe_pc s' u)) = (\<lambda>u. pe_holds (pe_pc s u)))"
    using st by (intro mutex_move [of t], cases "pe_pc s t") (auto simp: print_thread_id_def pe_goto_def print_even_line split: if_splits)
qed (simp add: pe_init_def pe_new_def)

definition pe_inv :: "nat \<Rightarrow> pe_state \<Rightarrow> bool" where
  "pe_inv n s \<longleftrightarrow> (\<forall>t. pe_pc_ok t (pe_pc s t)) \<and> (\<forall>t. pe_mutex s = Some t \<longrightarrow> t < n) \<and>
     mset (pe_out s) = (\<Sum>t<n. pe_said t (pe_pc s t))"

lemma pe_inv_goto:
  assumes inv: "pe_inv n s" and "t < n" "pe_pc_ok t x" "m = pe_mutex s \<or> m = None \<or> m = Some t"
    and out: "mset xs + pe_said t (pe_pc s t) = mset (pe_out s) + pe_said t x"
  shows "pe_inv n (pe_goto t x (s\<lparr>pe_mutex := m, pe_out := xs\<rparr>))"
proof -
  have "mset xs + pe_said t (pe_pc s t) = (\<Sum>u<n. pe_said u (((pe_pc s)(t := x)) u)) + pe_said t (pe_pc s t)"
    using inv out sum_upd [OF assms(2), of pe_said "pe_pc s" x] by (simp add: pe_inv_def del: fun_upd_apply)
  then show ?thesis using assms by (auto simp: pe_inv_def pe_goto_def)
qed

lemma pe_inv_step:
  assumes inv: "pe_inv n s" and t: "t < n" and st: "print_thread_id t s = Some s'"
  shows "pe_inv n s'"
proof -
  note go = pe_inv_goto [OF inv t]
  have ok: "pe_pc_ok t (pe_pc s t)" using inv by (simp add: pe_inv_def)
  show ?thesis
    using st ok go [of PeIn "Some t" "pe_out s"] go [of PeRet "pe_mutex s" "pe_out s @ [pe_line_of t]"]
      go [of PeThrow "pe_mutex s" "pe_out s"] go [of PeDone None "pe_out s"] go [of PeCatch None "pe_out s"]
      go [of PeDone "pe_mutex s" "pe_out s @ [ExceptionCaught]"]
    by (cases "pe_pc s t"; cases "odd t") (simp_all add: print_thread_id_def print_even_line pe_line_of_def split: if_splits)
qed

lemma pe_reach_inv: "reachable pe_init (pe_step n) s \<Longrightarrow> pe_inv n s"
proof (erule reachable_invariant)
  show "pe_inv n s" if "pe_init s" for s using that by (simp add: pe_init_def pe_new_def pe_inv_def)
  show "pe_inv n s'" if "reachable pe_init (pe_step n) s" "pe_inv n s" "pe_step n s s'" for s s'
    using that pe_inv_step by (auto simp: pe_step_def)
qed

text \<open>
  The guard releases the mutex on the exceptional path too: for every interleaving some thread can go on
  until all have ended, at most one is between the guard's constructor and destructor, and when all have
  ended the mutex is free and every thread with an even number has printed its line and every other one
  that it caught the exception.
\<close>

theorem lock_guard_releases:
  assumes "reachable pe_init (pe_step n) s"
  shows "(\<not> pe_joined n s \<longrightarrow> (\<exists>s'. pe_step n s s')) \<and> (pe_holds (pe_pc s t) \<and> pe_holds (pe_pc s u) \<longrightarrow> t = u) \<and>
    (pe_joined n s \<longrightarrow> pe_mutex s = None \<and> mset (pe_out s) = mset (map pe_line_of [0..<n]))"
proof -
  have inv: "pe_inv n s" by (rule pe_reach_inv [OF assms])
  note hold = pe.inside_iff_holder [OF assms]
  have p: "\<exists>s'. pe_step n s s'" if nj: "\<not> pe_joined n s"
  proof (cases "pe_mutex s")
    case None
    obtain t where "t < n" "pe_pc s t \<noteq> PeDone" using nj by (auto simp: pe_joined_def)
    then show ?thesis using print_thread_id_runs [of s t] None by (auto simp: pe_step_def)
  next
    case (Some t)
    then have "t < n" "pe_holds (pe_pc s t)" using inv hold by (auto simp: pe_inv_def)
    then show ?thesis using print_thread_id_runs [of s t] by (auto simp: pe_step_def)
  qed
  have f: "pe_mutex s = None" if "pe_joined n s"
    using that inv hold by (cases "pe_mutex s") (auto simp: pe_joined_def pe_inv_def, metis pe_holds.simps(6))
  have "(\<Sum>t<n. {#pe_line_of t#}) = mset (map pe_line_of [0..<n])" by (induction n) simp_all
  then have o: "mset (pe_out s) = mset (map pe_line_of [0..<n])" if "pe_joined n s"
    using that inv by (simp add: pe_joined_def pe_inv_def)
  show ?thesis using p f o pe.exclusion [OF assms, of t u] by auto
qed

theorem lock_guard_releases_witness: "\<exists>s'. pe_step 10 pe_new s'"
proof -
  have "\<not> pe_joined 10 pe_new" by (auto simp: pe_joined_def pe_new_def intro: exI [of _ 0])
  then show ?thesis using lock_guard_releases [OF reach_init, of pe_new 10] by (simp add: pe_init_def)
qed

section \<open>The mutex with a time-out\<close>

text \<open>
  A thread of \<open>work\<close> in \<open>demo3_timed_mutex.cpp\<close>: before \<open>try_lock_for\<close>, asleep with the mutex, asleep after \<open>unlock\<close>, asleep
  after a time-out. \<open>try_lock_for\<close> may fail whenever it is called; it succeeds only when the mutex is free.
\<close>

datatype tm_pc = TmTry | TmHold | TmRest | TmWithout

record tm_state =
  tm_mutex :: "tid option"
  tm_pc :: "tid \<Rightarrow> tm_pc"
  tm_out :: "(tid \<times> bool) list"     \<comment> \<open>the lines: with the mutex, or without it\<close>

definition tm_new :: tm_state where
  "tm_new = \<lparr>tm_mutex = None, tm_pc = (\<lambda>_. TmTry), tm_out = []\<rparr>"

definition tm_init :: "tm_state \<Rightarrow> bool" where
  "tm_init s \<longleftrightarrow> s = tm_new"

inductive tm_work :: "tid \<Rightarrow> tm_state \<Rightarrow> tm_state \<Rightarrow> bool" for t where
  tm_lock: "tm_pc s t = TmTry \<Longrightarrow> tm_mutex s = None \<Longrightarrow>
    tm_work t s (s\<lparr>tm_mutex := Some t, tm_out := tm_out s @ [(t, True)], tm_pc := (tm_pc s)(t := TmHold)\<rparr>)"
| tm_timeout: "tm_pc s t = TmTry \<Longrightarrow>
    tm_work t s (s\<lparr>tm_out := tm_out s @ [(t, False)], tm_pc := (tm_pc s)(t := TmWithout)\<rparr>)"
| tm_unlock: "tm_pc s t = TmHold \<Longrightarrow> tm_work t s (s\<lparr>tm_mutex := None, tm_pc := (tm_pc s)(t := TmRest)\<rparr>)"
| tm_again: "tm_pc s t = TmRest \<or> tm_pc s t = TmWithout \<Longrightarrow> tm_work t s (s\<lparr>tm_pc := (tm_pc s)(t := TmTry)\<rparr>)"

inductive_cases tm_workE: "tm_work t s s'"

definition tm_step :: "nat \<Rightarrow> tm_state \<Rightarrow> tm_state \<Rightarrow> bool" where
  "tm_step n s s' \<longleftrightarrow> (\<exists>t<n. tm_work t s s')"

interpretation tm: mutex_protocol tm_init "tm_step n" tm_mutex "\<lambda>s t. tm_pc s t = TmHold" for n
proof unfold_locales
  fix s s'
  assume "tm_step n s s'"
  then obtain t where st: "tm_work t s s'" by (auto simp: tm_step_def)
  then show "(\<exists>t. tm_mutex s = None \<and> tm_mutex s' = Some t \<and>
         (\<lambda>u. tm_pc s' u = TmHold) = (\<lambda>u. tm_pc s u = TmHold)(t := True)) \<or>
      (\<exists>t. tm_pc s t = TmHold \<and> tm_mutex s' = None \<and> (\<lambda>u. tm_pc s' u = TmHold) = (\<lambda>u. tm_pc s u = TmHold)(t := False)) \<or>
      (tm_mutex s' = tm_mutex s \<and> (\<lambda>u. tm_pc s' u = TmHold) = (\<lambda>u. tm_pc s u = TmHold))"
    by (intro mutex_move [of t], elim tm_workE) auto
qed (simp add: tm_init_def tm_new_def)

text \<open>
  At most one thread works with the mutex, and no thread ever waits for another: each can go on in every state, with
  the mutex when it is free and without it when it is not.
\<close>

theorem timed_mutex_correct:
  assumes "reachable tm_init (tm_step n) s"
  shows "(tm_pc s t = TmHold \<and> tm_pc s u = TmHold \<longrightarrow> t = u) \<and> (\<exists>s'. tm_work t s s') \<and>
    (tm_work t s s' \<and> last (tm_out s') = (t, True) \<and> tm_out s' \<noteq> tm_out s \<longrightarrow> tm_mutex s = None \<and> tm_mutex s' = Some t)"
proof -
  have "\<exists>s'. tm_work t s s'" by (cases "tm_pc s t") (blast intro: tm_work.intros)+
  moreover have "tm_mutex s = None \<and> tm_mutex s' = Some t" if "tm_work t s s'" "last (tm_out s') = (t, True)" "tm_out s' \<noteq> tm_out s"
    using that(1) by cases (use that in auto)
  ultimately show ?thesis using tm.exclusion [OF assms, of t u] by blast
qed

end
