(* ===== verification/Wrappers.thy ===== *)
theory Wrappers
  imports Errors
begin

text \<open>
  The wrappers of \<open>src/basic_lib/\<close> that make one call of the system or of the library and end the process
  with a message when it fails: \<open>wrapsock.c\<close>, \<open>wrapunix.c\<close>, \<open>wrappthread.c\<close>, \<open>wraplib.c\<close> and \<open>wrapstdio.c\<close>.
  (\<open>Accept\<close>, \<open>Fork\<close>, \<open>Recvfrom\<close>, \<open>Sendto\<close>, \<open>Fgets\<close> and \<open>Fputs\<close> are with the programs that use them.)

  A call is its name and its arguments. The system answers with a value (a null pointer is 0) and says what
  it stores in \<open>errno\<close>, if anything; the answer may depend on all calls made before, so that every behaviour
  of the system is covered. Arguments through which a call only stores results are left out. The state keeps the calls made, \<open>errno\<close> and what was printed.
\<close>

section \<open>Calls\<close>

datatype sysval = VInt int | VBytes bytes | VNull

datatype sysop = Sys string "sysval list"

record os_env =
  en_answer :: "sysop list \<Rightarrow> int \<times> int option"
  en_strerror :: "int \<Rightarrow> bytes"
  en_junk :: bytes
  en_daemon :: bool
  en_listenq :: "int option"      \<comment> \<open>\<open>atoi\<close> of the variable \<open>LISTENQ\<close> of the environment\<close>

record os =
  os_trace :: "sysop list"
  os_errno :: int
  os_err :: "err_out list"

type_synonym 'a wrapped = "os_env \<Rightarrow> os \<Rightarrow> ('a exitable \<times> os) c_res"

definition ctext :: "string \<Rightarrow> bytes" where
  "ctext m = map of_char m"

definition sys_call :: "os_env \<Rightarrow> sysop \<Rightarrow> os \<Rightarrow> int \<times> os" where
  "sys_call env op s =
     (let (n, e) = en_answer env (os_trace s @ [op])
      in (n, s\<lparr>os_trace := os_trace s @ [op], os_errno := (case e of None \<Rightarrow> os_errno s | Some x \<Rightarrow> x)\<rparr>))"

definition os_err_sys :: "bytes \<Rightarrow> unit wrapped" where
  "os_err_sys msg env s =
     bind_err (err_sys (en_junk env) (en_daemon env) msg (en_strerror env (os_errno s))) (\<lambda>(r, out).
       Inr (r, s\<lparr>os_err := os_err s @ out\<rparr>))"

definition os_err_quit :: "bytes \<Rightarrow> unit wrapped" where
  "os_err_quit msg env s =
     bind_err (err_quit (en_junk env) (en_daemon env) msg (en_strerror env (os_errno s))) (\<lambda>(r, out).
       Inr (r, s\<lparr>os_err := os_err s @ out\<rparr>))"

text \<open>
  The shapes of the wrappers: \<open>yields\<close> returns the value of the call, \<open>quiet\<close> nothing; \<open>die\<close> is what
  happens when the value is \<open>bad\<close>; a thread function returns its error number.
\<close>

definition yields :: "unit wrapped \<Rightarrow> (int \<Rightarrow> bool) \<Rightarrow> sysop \<Rightarrow> int wrapped" where
  "yields die bad op env s =
     (let (n, s1) = sys_call env op s in
      if bad n then bind_exit (die env s1) (\<lambda>_ s2. Inr (Returned n, s2)) else Inr (Returned n, s1))"

definition quiet :: "unit wrapped \<Rightarrow> (int \<Rightarrow> bool) \<Rightarrow> sysop \<Rightarrow> unit wrapped" where
  "quiet die bad op env s = (let (n, s1) = sys_call env op s in if bad n then die env s1 else Inr (Returned (), s1))"

definition thread_call :: "bytes \<Rightarrow> sysop \<Rightarrow> unit wrapped" where
  "thread_call msg op env s =
     (let (n, s1) = sys_call env op s in
      if n = 0 then Inr (Returned (), s1) else os_err_sys msg env (s1\<lparr>os_errno := n\<rparr>))"

definition SIZE_MAX_PLUS1 :: int where "SIZE_MAX_PLUS1 = 2 ^ 64"

section \<open>Sockets\<close>

definition Bind :: "int \<Rightarrow> bytes \<Rightarrow> int \<Rightarrow> unit wrapped" where
  "Bind fd sa salen = quiet (os_err_sys (ctext ''bind error'')) (\<lambda>n. n < 0) (Sys ''bind'' [VInt fd, VBytes sa, VInt salen])"

definition Connect :: "int \<Rightarrow> bytes \<Rightarrow> int \<Rightarrow> unit wrapped" where
  "Connect fd sa salen = quiet (os_err_sys (ctext ''connect error'')) (\<lambda>n. n < 0) (Sys ''connect'' [VInt fd, VBytes sa, VInt salen])"

definition Getpeername :: "int \<Rightarrow> unit wrapped" where
  "Getpeername fd = quiet (os_err_sys (ctext ''getpeername error'')) (\<lambda>n. n < 0) (Sys ''getpeername'' [VInt fd])"

definition Getsockname :: "int \<Rightarrow> unit wrapped" where
  "Getsockname fd = quiet (os_err_sys (ctext ''getsockname error'')) (\<lambda>n. n < 0) (Sys ''getsockname'' [VInt fd])"

definition Getsockopt :: "int \<Rightarrow> int \<Rightarrow> int \<Rightarrow> unit wrapped" where
  "Getsockopt fd level optname = quiet (os_err_sys (ctext ''getsockopt error'')) (\<lambda>n. n < 0) (Sys ''getsockopt'' [VInt fd, VInt level, VInt optname])"

definition Inet6_rth_space :: "int \<Rightarrow> int \<Rightarrow> int wrapped" where
  "Inet6_rth_space typ segments = yields (os_err_quit (ctext ''inet6_rth_space error'')) (\<lambda>n. n < 0) (Sys ''inet6_rth_space'' [VInt typ, VInt segments])"

definition Inet6_rth_init :: "int \<Rightarrow> int \<Rightarrow> int \<Rightarrow> int \<Rightarrow> int wrapped" where
  "Inet6_rth_init rthbuf rthlen typ segments = yields (os_err_quit (ctext ''inet6_rth_init error'')) (\<lambda>n. n = 0) (Sys ''inet6_rth_init'' [VInt rthbuf, VInt rthlen, VInt typ, VInt segments])"

definition Inet6_rth_add :: "int \<Rightarrow> bytes \<Rightarrow> unit wrapped" where
  "Inet6_rth_add rthbuf addr = quiet (os_err_quit (ctext ''inet6_rth_add error'')) (\<lambda>n. n < 0) (Sys ''inet6_rth_add'' [VInt rthbuf, VBytes addr])"

definition Inet6_rth_reverse :: "int \<Rightarrow> int \<Rightarrow> unit wrapped" where
  "Inet6_rth_reverse src dst = quiet (os_err_quit (ctext ''inet6_rth_reverse error'')) (\<lambda>n. n < 0) (Sys ''inet6_rth_reverse'' [VInt src, VInt dst])"

definition Inet6_rth_segments :: "int \<Rightarrow> int wrapped" where
  "Inet6_rth_segments rthbuf = yields (os_err_quit (ctext ''inet6_rth_segments error'')) (\<lambda>n. n < 0) (Sys ''inet6_rth_segments'' [VInt rthbuf])"

definition Inet6_rth_getaddr :: "int \<Rightarrow> int \<Rightarrow> int wrapped" where
  "Inet6_rth_getaddr rthbuf idx = yields (os_err_quit (ctext ''inet6_rth_getaddr error'')) (\<lambda>n. n = 0) (Sys ''inet6_rth_getaddr'' [VInt rthbuf, VInt idx])"

text \<open>\<open>Listen\<close> lets the variable \<open>LISTENQ\<close> replace its second argument.\<close>

definition Listen :: "int \<Rightarrow> int \<Rightarrow> unit wrapped" where
  "Listen fd backlog env =
     quiet (os_err_sys (ctext ''listen error'')) (\<lambda>n. n < 0)
       (Sys ''listen'' [VInt fd, VInt (case en_listenq env of None \<Rightarrow> backlog | Some q \<Rightarrow> q)]) env"

definition Poll :: "bytes \<Rightarrow> int \<Rightarrow> int \<Rightarrow> int wrapped" where
  "Poll fds nfds timeout = yields (os_err_sys (ctext ''poll error'')) (\<lambda>n. n < 0) (Sys ''poll'' [VBytes fds, VInt nfds, VInt timeout])"

definition Recv :: "int \<Rightarrow> int \<Rightarrow> int \<Rightarrow> int wrapped" where
  "Recv fd nbytes flags = yields (os_err_sys (ctext ''recv error'')) (\<lambda>n. n < 0) (Sys ''recv'' [VInt fd, VInt nbytes, VInt flags])"

definition Recvmsg :: "int \<Rightarrow> bytes \<Rightarrow> int \<Rightarrow> int wrapped" where
  "Recvmsg fd msg flags = yields (os_err_sys (ctext ''recvmsg error'')) (\<lambda>n. n < 0) (Sys ''recvmsg'' [VInt fd, VBytes msg, VInt flags])"

definition Select :: "int \<Rightarrow> bytes \<Rightarrow> bytes \<Rightarrow> bytes \<Rightarrow> int \<Rightarrow> int wrapped" where
  "Select nfds readfds writefds exceptfds timeout = yields (os_err_sys (ctext ''select error'')) (\<lambda>n. n < 0) (Sys ''select'' [VInt nfds, VBytes readfds, VBytes writefds, VBytes exceptfds, VInt timeout])"

text \<open>A short count is a failure for \<open>Send\<close>, \<open>Sendmsg\<close> and \<open>Write\<close>; \<open>Sendmsg\<close> adds up the lengths of its pieces.\<close>

definition Send :: "int \<Rightarrow> bytes \<Rightarrow> int \<Rightarrow> unit wrapped" where
  "Send fd data flags = quiet (os_err_sys (ctext ''send error'')) (\<lambda>n. n \<noteq> int (length data)) (Sys ''send'' [VInt fd, VBytes data, VInt flags])"

fun iov_total :: "bytes list \<Rightarrow> int" where
  "iov_total [] = 0"
| "iov_total (v # vs) = int (length v) + iov_total vs"

definition Sendmsg :: "int \<Rightarrow> bytes list \<Rightarrow> int \<Rightarrow> unit wrapped" where
  "Sendmsg fd iov flags =
     quiet (os_err_sys (ctext ''sendmsg error'')) (\<lambda>n. n \<noteq> iov_total iov) (Sys ''sendmsg'' (VInt fd # map VBytes iov @ [VInt flags]))"

definition Setsockopt :: "int \<Rightarrow> int \<Rightarrow> int \<Rightarrow> bytes \<Rightarrow> unit wrapped" where
  "Setsockopt fd level optname optval = quiet (os_err_sys (ctext ''setsockopt error'')) (\<lambda>n. n < 0) (Sys ''setsockopt'' [VInt fd, VInt level, VInt optname, VBytes optval])"

definition Shutdown :: "int \<Rightarrow> int \<Rightarrow> unit wrapped" where
  "Shutdown fd how = quiet (os_err_sys (ctext ''shutdown error'')) (\<lambda>n. n < 0) (Sys ''shutdown'' [VInt fd, VInt how])"

definition Sockatmark :: "int \<Rightarrow> int wrapped" where
  "Sockatmark fd = yields (os_err_sys (ctext ''sockatmark error'')) (\<lambda>n. n < 0) (Sys ''sockatmark'' [VInt fd])"

definition Socket :: "int \<Rightarrow> int \<Rightarrow> int \<Rightarrow> int wrapped" where
  "Socket family typ protocol = yields (os_err_sys (ctext ''socket error'')) (\<lambda>n. n < 0) (Sys ''socket'' [VInt family, VInt typ, VInt protocol])"

definition Socketpair :: "int \<Rightarrow> int \<Rightarrow> int \<Rightarrow> unit wrapped" where
  "Socketpair family typ protocol = quiet (os_err_sys (ctext ''socketpair error'')) (\<lambda>n. n < 0) (Sys ''socketpair'' [VInt family, VInt typ, VInt protocol])"

section \<open>Files, processes and memory\<close>

definition Calloc :: "int \<Rightarrow> int \<Rightarrow> int wrapped" where
  "Calloc n sz = yields (os_err_sys (ctext ''calloc error'')) (\<lambda>p. p = 0) (Sys ''calloc'' [VInt n, VInt sz])"

definition Close :: "int \<Rightarrow> unit wrapped" where
  "Close fd = quiet (os_err_sys (ctext ''close error'')) (\<lambda>n. n = -1) (Sys ''close'' [VInt fd])"

definition Dup2 :: "int \<Rightarrow> int \<Rightarrow> unit wrapped" where
  "Dup2 fd1 fd2 = quiet (os_err_sys (ctext ''dup2 error'')) (\<lambda>n. n = -1) (Sys ''dup2'' [VInt fd1, VInt fd2])"

definition Fcntl :: "int \<Rightarrow> int \<Rightarrow> int \<Rightarrow> int wrapped" where
  "Fcntl fd cmd arg = yields (os_err_sys (ctext ''fcntl error'')) (\<lambda>n. n = -1) (Sys ''fcntl'' [VInt fd, VInt cmd, VInt arg])"

definition Gettimeofday :: "unit wrapped" where
  "Gettimeofday = quiet (os_err_sys (ctext ''gettimeofday error'')) (\<lambda>n. n = -1) (Sys ''gettimeofday'' [])"

definition Ioctl :: "int \<Rightarrow> int \<Rightarrow> int \<Rightarrow> int wrapped" where
  "Ioctl fd request arg = yields (os_err_sys (ctext ''ioctl error'')) (\<lambda>n. n = -1) (Sys ''ioctl'' [VInt fd, VInt request, VInt arg])"

definition Malloc :: "int \<Rightarrow> int wrapped" where
  "Malloc sz = yields (os_err_sys (ctext ''malloc error'')) (\<lambda>n. n = 0) (Sys ''malloc'' [VInt sz])"

definition Mkstemp :: "bytes \<Rightarrow> int wrapped" where
  "Mkstemp template = yields (os_err_quit (ctext ''mkstemp error'')) (\<lambda>n. n < 0) (Sys ''mkstemp'' [VBytes template])"

definition Mmap :: "int \<Rightarrow> int \<Rightarrow> int \<Rightarrow> int \<Rightarrow> int \<Rightarrow> int \<Rightarrow> int wrapped" where
  "Mmap addr len prot flags fd offset = yields (os_err_sys (ctext ''mmap error'')) (\<lambda>n. n = -1) (Sys ''mmap'' [VInt addr, VInt len, VInt prot, VInt flags, VInt fd, VInt offset])"

definition Open :: "bytes \<Rightarrow> int \<Rightarrow> int \<Rightarrow> int wrapped" where
  "Open pathname oflag mode = yields (os_err_sys (ctext ''open error for '' @ pathname)) (\<lambda>n. n = -1) (Sys ''open'' [VBytes pathname, VInt oflag, VInt mode])"

definition Pipe :: "unit wrapped" where
  "Pipe = quiet (os_err_sys (ctext ''pipe error'')) (\<lambda>n. n < 0) (Sys ''pipe'' [])"

definition Read :: "int \<Rightarrow> int \<Rightarrow> int wrapped" where
  "Read fd nbytes = yields (os_err_sys (ctext ''read error'')) (\<lambda>n. n = -1) (Sys ''read'' [VInt fd, VInt nbytes])"

definition Sigaddset :: "int \<Rightarrow> int \<Rightarrow> unit wrapped" where
  "Sigaddset sigs signo = quiet (os_err_sys (ctext ''sigaddset error'')) (\<lambda>n. n = -1) (Sys ''sigaddset'' [VInt sigs, VInt signo])"

definition Sigdelset :: "int \<Rightarrow> int \<Rightarrow> unit wrapped" where
  "Sigdelset sigs signo = quiet (os_err_sys (ctext ''sigdelset error'')) (\<lambda>n. n = -1) (Sys ''sigdelset'' [VInt sigs, VInt signo])"

definition Sigemptyset :: "int \<Rightarrow> unit wrapped" where
  "Sigemptyset sigs = quiet (os_err_sys (ctext ''sigemptyset error'')) (\<lambda>n. n = -1) (Sys ''sigemptyset'' [VInt sigs])"

definition Sigfillset :: "int \<Rightarrow> unit wrapped" where
  "Sigfillset sigs = quiet (os_err_sys (ctext ''sigfillset error'')) (\<lambda>n. n = -1) (Sys ''sigfillset'' [VInt sigs])"

definition Sigismember :: "int \<Rightarrow> int \<Rightarrow> int wrapped" where
  "Sigismember sigs signo = yields (os_err_sys (ctext ''sigismember error'')) (\<lambda>n. n = -1) (Sys ''sigismember'' [VInt sigs, VInt signo])"

definition Sigpending :: "int \<Rightarrow> unit wrapped" where
  "Sigpending sigs = quiet (os_err_sys (ctext ''sigpending error'')) (\<lambda>n. n = -1) (Sys ''sigpending'' [VInt sigs])"

definition Sigprocmask :: "int \<Rightarrow> int \<Rightarrow> unit wrapped" where
  "Sigprocmask how sigs = quiet (os_err_sys (ctext ''sigprocmask error'')) (\<lambda>n. n = -1) (Sys ''sigprocmask'' [VInt how, VInt sigs])"

definition Strdup :: "bytes \<Rightarrow> int wrapped" where
  "Strdup str = yields (os_err_sys (ctext ''strdup error'')) (\<lambda>n. n = 0) (Sys ''strdup'' [VBytes str])"

text \<open>\<open>Sysconf\<close> clears \<open>errno\<close> before the call.\<close>

definition Sysconf :: "int \<Rightarrow> int wrapped" where
  "Sysconf name env s =
     yields (os_err_sys (ctext ''sysconf error'')) (\<lambda>n. n = -1) (Sys ''sysconf'' [VInt name]) env (s\<lparr>os_errno := 0\<rparr>)"

definition Unlink :: "bytes \<Rightarrow> unit wrapped" where
  "Unlink pathname = quiet (os_err_sys (ctext ''unlink error for '' @ pathname)) (\<lambda>n. n = -1) (Sys ''unlink'' [VBytes pathname])"

definition Wait :: "int wrapped" where
  "Wait = yields (os_err_sys (ctext ''wait error'')) (\<lambda>n. n = -1) (Sys ''wait'' [])"

definition Waitpid :: "int \<Rightarrow> int \<Rightarrow> int wrapped" where
  "Waitpid pid options = yields (os_err_sys (ctext ''waitpid error'')) (\<lambda>n. n = -1) (Sys ''waitpid'' [VInt pid, VInt options])"

text \<open>\<open>write\<close> returns a signed number that is compared with the unsigned length.\<close>

definition Write :: "int \<Rightarrow> bytes \<Rightarrow> unit wrapped" where
  "Write fd data =
     quiet (os_err_sys (ctext ''write error'')) (\<lambda>n. n mod SIZE_MAX_PLUS1 \<noteq> int (length data) mod SIZE_MAX_PLUS1)
       (Sys ''write'' [VInt fd, VBytes data])"

section \<open>Threads\<close>

definition Pthread_create :: "int \<Rightarrow> int \<Rightarrow> int \<Rightarrow> unit wrapped" where
  "Pthread_create attr func arg = thread_call (ctext ''pthread_create error'') (Sys ''pthread_create'' [VInt attr, VInt func, VInt arg])"

definition Pthread_join :: "int \<Rightarrow> unit wrapped" where
  "Pthread_join tid = thread_call (ctext ''pthread_join error'') (Sys ''pthread_join'' [VInt tid])"

definition Pthread_detach :: "int \<Rightarrow> unit wrapped" where
  "Pthread_detach tid = thread_call (ctext ''pthread_detach error'') (Sys ''pthread_detach'' [VInt tid])"

definition Pthread_kill :: "int \<Rightarrow> int \<Rightarrow> unit wrapped" where
  "Pthread_kill tid signo = thread_call (ctext ''pthread_kill error'') (Sys ''pthread_kill'' [VInt tid, VInt signo])"

definition Pthread_mutexattr_init :: "int \<Rightarrow> unit wrapped" where
  "Pthread_mutexattr_init attr = thread_call (ctext ''pthread_mutexattr_init error'') (Sys ''pthread_mutexattr_init'' [VInt attr])"

definition Pthread_mutexattr_setpshared :: "int \<Rightarrow> int \<Rightarrow> unit wrapped" where
  "Pthread_mutexattr_setpshared attr flag = thread_call (ctext ''pthread_mutexattr_setpshared error'') (Sys ''pthread_mutexattr_setpshared'' [VInt attr, VInt flag])"

definition Pthread_mutex_init :: "int \<Rightarrow> int \<Rightarrow> unit wrapped" where
  "Pthread_mutex_init mptr attr = thread_call (ctext ''pthread_mutex_init error'') (Sys ''pthread_mutex_init'' [VInt mptr, VInt attr])"

definition Pthread_mutex_lock :: "int \<Rightarrow> unit wrapped" where
  "Pthread_mutex_lock mptr = thread_call (ctext ''pthread_mutex_lock error'') (Sys ''pthread_mutex_lock'' [VInt mptr])"

definition Pthread_mutex_unlock :: "int \<Rightarrow> unit wrapped" where
  "Pthread_mutex_unlock mptr = thread_call (ctext ''pthread_mutex_unlock error'') (Sys ''pthread_mutex_unlock'' [VInt mptr])"

definition Pthread_cond_broadcast :: "int \<Rightarrow> unit wrapped" where
  "Pthread_cond_broadcast cptr = thread_call (ctext ''pthread_cond_broadcast error'') (Sys ''pthread_cond_broadcast'' [VInt cptr])"

definition Pthread_cond_signal :: "int \<Rightarrow> unit wrapped" where
  "Pthread_cond_signal cptr = thread_call (ctext ''pthread_cond_signal error'') (Sys ''pthread_cond_signal'' [VInt cptr])"

definition Pthread_cond_wait :: "int \<Rightarrow> int \<Rightarrow> unit wrapped" where
  "Pthread_cond_wait cptr mptr = thread_call (ctext ''pthread_cond_wait error'') (Sys ''pthread_cond_wait'' [VInt cptr, VInt mptr])"

definition Pthread_cond_timedwait :: "int \<Rightarrow> int \<Rightarrow> int \<Rightarrow> unit wrapped" where
  "Pthread_cond_timedwait cptr mptr ts = thread_call (ctext ''pthread_cond_timedwait error'') (Sys ''pthread_cond_timedwait'' [VInt cptr, VInt mptr, VInt ts])"

definition Pthread_once :: "int \<Rightarrow> int \<Rightarrow> unit wrapped" where
  "Pthread_once once func = thread_call (ctext ''pthread_once error'') (Sys ''pthread_once'' [VInt once, VInt func])"

definition Pthread_key_create :: "int \<Rightarrow> unit wrapped" where
  "Pthread_key_create func = thread_call (ctext ''pthread_key_create error'') (Sys ''pthread_key_create'' [VInt func])"

definition Pthread_setspecific :: "int \<Rightarrow> int \<Rightarrow> unit wrapped" where
  "Pthread_setspecific key val = thread_call (ctext ''pthread_setspecific error'') (Sys ''pthread_setspecific'' [VInt key, VInt val])"

section \<open>Library functions\<close>

text \<open>A null pointer as the third argument of \<open>Inet_ntop\<close> ends the process before the call.\<close>

definition Inet_ntop :: "int \<Rightarrow> bytes \<Rightarrow> int \<Rightarrow> int \<Rightarrow> int wrapped" where
  "Inet_ntop family addr strptr len env s =
     (let call = yields (os_err_sys (ctext ''inet_ntop error'')) (\<lambda>n. n = 0)
                   (Sys ''inet_ntop'' [VInt family, VBytes addr, VInt strptr, VInt len]) env
      in if strptr = 0 then bind_exit (os_err_quit (ctext ''NULL 3rd argument to inet_ntop'') env s) (\<lambda>_. call) else call s)"

definition Inet_pton :: "int \<Rightarrow> bytes \<Rightarrow> unit wrapped" where
  "Inet_pton family str env s =
     (let (n, s1) = sys_call env (Sys ''inet_pton'' [VInt family, VBytes str]) s; msg = ctext ''inet_pton error for '' @ str in
      if n < 0 then os_err_sys msg env s1 else if n = 0 then os_err_quit msg env s1 else Inr (Returned (), s1))"

definition Fclose :: "int \<Rightarrow> unit wrapped" where
  "Fclose fp = quiet (os_err_sys (ctext ''fclose error'')) (\<lambda>n. n \<noteq> 0) (Sys ''fclose'' [VInt fp])"

definition Fdopen :: "int \<Rightarrow> bytes \<Rightarrow> int wrapped" where
  "Fdopen fd mode = yields (os_err_sys (ctext ''fdopen error'')) (\<lambda>n. n = 0) (Sys ''fdopen'' [VInt fd, VBytes mode])"

definition Fopen :: "bytes \<Rightarrow> bytes \<Rightarrow> int wrapped" where
  "Fopen filename mode = yields (os_err_sys (ctext ''fopen error'')) (\<lambda>n. n = 0) (Sys ''fopen'' [VBytes filename, VBytes mode])"

section \<open>What a wrapper promises\<close>

text \<open>
  A wrapper makes its one call; a good value is passed on and nothing is printed; a bad one ends the process
  with code 1 after one line with the message, and for the functions of the system the text of the error.
\<close>

definition en_ok :: "os_env \<Rightarrow> bool" where
  "en_ok env \<longleftrightarrow> (\<forall>e. 0 \<notin> set (en_strerror env e)) \<and> length (en_junk env) = MAXLINE + 1"

definition report :: "os_env \<Rightarrow> bool \<Rightarrow> bytes \<Rightarrow> int \<Rightarrow> err_out list" where
  "report env sys msg e =
     (let l = err_line sys msg (en_strerror env e)
      in if en_daemon env then [ErrSyslog LOG_ERR l] else [ErrFlushStdout, ErrStderr l])"

definition wraps :: "'a wrapped \<Rightarrow> sysop \<Rightarrow> (int \<Rightarrow> bool) \<Rightarrow> (int \<Rightarrow> 'a) \<Rightarrow> bytes \<Rightarrow> bool \<Rightarrow> bool" where
  "wraps W op bad ret msg sys \<longleftrightarrow>
     (\<forall>env s. en_ok env \<longrightarrow>
        (let (n, s1) = sys_call env op s in
         W env s = Inr (if bad n then (Exited 1, s1\<lparr>os_err := os_err s1 @ report env sys msg (os_errno s1)\<rparr>)
                        else (Returned (ret n), s1))))"

definition wraps_thread :: "unit wrapped \<Rightarrow> sysop \<Rightarrow> bytes \<Rightarrow> bool" where
  "wraps_thread W op msg \<longleftrightarrow>
     (\<forall>env s. en_ok env \<longrightarrow>
        (let (n, s1) = sys_call env op s in
         W env s = Inr (if n = 0 then (Returned (), s1)
                        else (Exited 1, s1\<lparr>os_errno := n, os_err := os_err s1 @ report env True msg n\<rparr>))))"

lemma ctext_zero [simp]: "0 \<notin> set (ctext m) \<longleftrightarrow> CHR 0x00 \<notin> set m"
  by (auto simp: ctext_def image_iff of_char_byte_zero eq_commute [of "0 :: byte"])

lemma os_err_sys_report:
  "en_ok env \<Longrightarrow> 0 \<notin> set msg \<Longrightarrow> os_err_sys msg env s = Inr (Exited 1, s\<lparr>os_err := os_err s @ report env True msg (os_errno s)\<rparr>)"
  by (simp add: os_err_sys_def err_sys_def err_doit_line en_ok_def report_def Let_def)

lemma os_err_quit_report:
  "en_ok env \<Longrightarrow> 0 \<notin> set msg \<Longrightarrow> os_err_quit msg env s = Inr (Exited 1, s\<lparr>os_err := os_err s @ report env False msg (os_errno s)\<rparr>)"
  by (simp add: os_err_quit_def err_quit_def err_doit_line en_ok_def report_def Let_def)

lemma wraps_shapes:
  assumes "0 \<notin> set msg"
  shows "wraps (yields (os_err_sys msg) bad op) op bad (\<lambda>n. n) msg True"
    and "wraps (yields (os_err_quit msg) bad op) op bad (\<lambda>n. n) msg False"
    and "wraps (quiet (os_err_sys msg) bad op) op bad (\<lambda>_. ()) msg True"
    and "wraps (quiet (os_err_quit msg) bad op) op bad (\<lambda>_. ()) msg False"
    and "wraps_thread (thread_call msg op) op msg"
  using assms
  by (simp_all add: wraps_def wraps_thread_def yields_def quiet_def thread_call_def os_err_sys_report os_err_quit_report
      Let_def case_prod_beta)

lemma iov_total_length: "iov_total iov = int (length (concat iov))"
  by (induction iov) simp_all

text \<open>
  Every wrapper of the socket functions makes exactly its call, passes on a good value and reports a bad one; 
  \<open>Send\<close> and \<open>Sendmsg\<close> take a count other than the length of the data for a failure.
\<close>

theorem socket_wrappers_report:
  "wraps (Bind fd sa salen) (Sys ''bind'' [VInt fd, VBytes sa, VInt salen]) (\<lambda>n. n < 0) (\<lambda>_. ()) (ctext ''bind error'') True \<and>
   wraps (Connect fd sa salen) (Sys ''connect'' [VInt fd, VBytes sa, VInt salen]) (\<lambda>n. n < 0) (\<lambda>_. ()) (ctext ''connect error'') True \<and>
   wraps (Getpeername fd) (Sys ''getpeername'' [VInt fd]) (\<lambda>n. n < 0) (\<lambda>_. ()) (ctext ''getpeername error'') True \<and>
   wraps (Getsockname fd) (Sys ''getsockname'' [VInt fd]) (\<lambda>n. n < 0) (\<lambda>_. ()) (ctext ''getsockname error'') True \<and>
   wraps (Getsockopt fd level optname) (Sys ''getsockopt'' [VInt fd, VInt level, VInt optname]) (\<lambda>n. n < 0) (\<lambda>_. ()) (ctext ''getsockopt error'') True \<and>
   wraps (Inet6_rth_space typ segments) (Sys ''inet6_rth_space'' [VInt typ, VInt segments]) (\<lambda>n. n < 0) (\<lambda>n. n) (ctext ''inet6_rth_space error'') False \<and>
   wraps (Inet6_rth_init rthbuf rthlen typ segments) (Sys ''inet6_rth_init'' [VInt rthbuf, VInt rthlen, VInt typ, VInt segments]) (\<lambda>n. n = 0) (\<lambda>n. n) (ctext ''inet6_rth_init error'') False \<and>
   wraps (Inet6_rth_add rthbuf addr) (Sys ''inet6_rth_add'' [VInt rthbuf, VBytes addr]) (\<lambda>n. n < 0) (\<lambda>_. ()) (ctext ''inet6_rth_add error'') False \<and>
   wraps (Inet6_rth_reverse src dst) (Sys ''inet6_rth_reverse'' [VInt src, VInt dst]) (\<lambda>n. n < 0) (\<lambda>_. ()) (ctext ''inet6_rth_reverse error'') False \<and>
   wraps (Inet6_rth_segments rthbuf) (Sys ''inet6_rth_segments'' [VInt rthbuf]) (\<lambda>n. n < 0) (\<lambda>n. n) (ctext ''inet6_rth_segments error'') False \<and>
   wraps (Inet6_rth_getaddr rthbuf idx) (Sys ''inet6_rth_getaddr'' [VInt rthbuf, VInt idx]) (\<lambda>n. n = 0) (\<lambda>n. n) (ctext ''inet6_rth_getaddr error'') False \<and>
   wraps (Poll fds nfds timeout) (Sys ''poll'' [VBytes fds, VInt nfds, VInt timeout]) (\<lambda>n. n < 0) (\<lambda>n. n) (ctext ''poll error'') True \<and>
   wraps (Recv fd nbytes flags) (Sys ''recv'' [VInt fd, VInt nbytes, VInt flags]) (\<lambda>n. n < 0) (\<lambda>n. n) (ctext ''recv error'') True \<and>
   wraps (Recvmsg fd msg flags) (Sys ''recvmsg'' [VInt fd, VBytes msg, VInt flags]) (\<lambda>n. n < 0) (\<lambda>n. n) (ctext ''recvmsg error'') True \<and>
   wraps (Select nfds readfds writefds exceptfds timeout) (Sys ''select'' [VInt nfds, VBytes readfds, VBytes writefds, VBytes exceptfds, VInt timeout]) (\<lambda>n. n < 0) (\<lambda>n. n) (ctext ''select error'') True \<and>
   wraps (Send fd data flags) (Sys ''send'' [VInt fd, VBytes data, VInt flags]) (\<lambda>n. n \<noteq> int (length data)) (\<lambda>_. ()) (ctext ''send error'') True \<and>
   wraps (Setsockopt fd level optname optval) (Sys ''setsockopt'' [VInt fd, VInt level, VInt optname, VBytes optval]) (\<lambda>n. n < 0) (\<lambda>_. ()) (ctext ''setsockopt error'') True \<and>
   wraps (Shutdown fd how) (Sys ''shutdown'' [VInt fd, VInt how]) (\<lambda>n. n < 0) (\<lambda>_. ()) (ctext ''shutdown error'') True \<and>
   wraps (Sockatmark fd) (Sys ''sockatmark'' [VInt fd]) (\<lambda>n. n < 0) (\<lambda>n. n) (ctext ''sockatmark error'') True \<and>
   wraps (Socket family typ protocol) (Sys ''socket'' [VInt family, VInt typ, VInt protocol]) (\<lambda>n. n < 0) (\<lambda>n. n) (ctext ''socket error'') True \<and>
   wraps (Socketpair family typ protocol) (Sys ''socketpair'' [VInt family, VInt typ, VInt protocol]) (\<lambda>n. n < 0) (\<lambda>_. ()) (ctext ''socketpair error'') True \<and>
   wraps (Sendmsg fd iov flags) (Sys ''sendmsg'' (VInt fd # map VBytes iov @ [VInt flags])) (\<lambda>n. n \<noteq> int (length (concat iov))) (\<lambda>_. ()) (ctext ''sendmsg error'') True"
  unfolding Bind_def Connect_def Getpeername_def Getsockname_def Getsockopt_def Inet6_rth_space_def Inet6_rth_init_def Inet6_rth_add_def Inet6_rth_reverse_def Inet6_rth_segments_def Inet6_rth_getaddr_def Poll_def Recv_def Recvmsg_def Select_def Send_def Setsockopt_def Shutdown_def Sockatmark_def Socket_def Socketpair_def Sendmsg_def iov_total_length
  by (intro conjI wraps_shapes) simp_all

text \<open>
  The same for the functions of files, processes, signals, memory and standard input and output.
\<close>

theorem unix_wrappers_report:
  "wraps (Calloc n sz) (Sys ''calloc'' [VInt n, VInt sz]) (\<lambda>p. p = 0) (\<lambda>n. n) (ctext ''calloc error'') True \<and>
   wraps (Close fd) (Sys ''close'' [VInt fd]) (\<lambda>n. n = -1) (\<lambda>_. ()) (ctext ''close error'') True \<and>
   wraps (Dup2 fd1 fd2) (Sys ''dup2'' [VInt fd1, VInt fd2]) (\<lambda>n. n = -1) (\<lambda>_. ()) (ctext ''dup2 error'') True \<and>
   wraps (Fcntl fd cmd arg) (Sys ''fcntl'' [VInt fd, VInt cmd, VInt arg]) (\<lambda>n. n = -1) (\<lambda>n. n) (ctext ''fcntl error'') True \<and>
   wraps (Gettimeofday) (Sys ''gettimeofday'' []) (\<lambda>n. n = -1) (\<lambda>_. ()) (ctext ''gettimeofday error'') True \<and>
   wraps (Ioctl fd request arg) (Sys ''ioctl'' [VInt fd, VInt request, VInt arg]) (\<lambda>n. n = -1) (\<lambda>n. n) (ctext ''ioctl error'') True \<and>
   wraps (Malloc sz) (Sys ''malloc'' [VInt sz]) (\<lambda>n. n = 0) (\<lambda>n. n) (ctext ''malloc error'') True \<and>
   wraps (Mkstemp template) (Sys ''mkstemp'' [VBytes template]) (\<lambda>n. n < 0) (\<lambda>n. n) (ctext ''mkstemp error'') False \<and>
   wraps (Mmap addr len prot flags fd offset) (Sys ''mmap'' [VInt addr, VInt len, VInt prot, VInt flags, VInt fd, VInt offset]) (\<lambda>n. n = -1) (\<lambda>n. n) (ctext ''mmap error'') True \<and>
   wraps (Pipe) (Sys ''pipe'' []) (\<lambda>n. n < 0) (\<lambda>_. ()) (ctext ''pipe error'') True \<and>
   wraps (Read fd nbytes) (Sys ''read'' [VInt fd, VInt nbytes]) (\<lambda>n. n = -1) (\<lambda>n. n) (ctext ''read error'') True \<and>
   wraps (Sigaddset sigs signo) (Sys ''sigaddset'' [VInt sigs, VInt signo]) (\<lambda>n. n = -1) (\<lambda>_. ()) (ctext ''sigaddset error'') True \<and>
   wraps (Sigdelset sigs signo) (Sys ''sigdelset'' [VInt sigs, VInt signo]) (\<lambda>n. n = -1) (\<lambda>_. ()) (ctext ''sigdelset error'') True \<and>
   wraps (Sigemptyset sigs) (Sys ''sigemptyset'' [VInt sigs]) (\<lambda>n. n = -1) (\<lambda>_. ()) (ctext ''sigemptyset error'') True \<and>
   wraps (Sigfillset sigs) (Sys ''sigfillset'' [VInt sigs]) (\<lambda>n. n = -1) (\<lambda>_. ()) (ctext ''sigfillset error'') True \<and>
   wraps (Sigismember sigs signo) (Sys ''sigismember'' [VInt sigs, VInt signo]) (\<lambda>n. n = -1) (\<lambda>n. n) (ctext ''sigismember error'') True \<and>
   wraps (Sigpending sigs) (Sys ''sigpending'' [VInt sigs]) (\<lambda>n. n = -1) (\<lambda>_. ()) (ctext ''sigpending error'') True \<and>
   wraps (Sigprocmask how sigs) (Sys ''sigprocmask'' [VInt how, VInt sigs]) (\<lambda>n. n = -1) (\<lambda>_. ()) (ctext ''sigprocmask error'') True \<and>
   wraps (Strdup str) (Sys ''strdup'' [VBytes str]) (\<lambda>n. n = 0) (\<lambda>n. n) (ctext ''strdup error'') True \<and>
   wraps (Wait) (Sys ''wait'' []) (\<lambda>n. n = -1) (\<lambda>n. n) (ctext ''wait error'') True \<and>
   wraps (Waitpid pid options) (Sys ''waitpid'' [VInt pid, VInt options]) (\<lambda>n. n = -1) (\<lambda>n. n) (ctext ''waitpid error'') True \<and>
   wraps (Fclose fp) (Sys ''fclose'' [VInt fp]) (\<lambda>n. n \<noteq> 0) (\<lambda>_. ()) (ctext ''fclose error'') True \<and>
   wraps (Fdopen fd mode) (Sys ''fdopen'' [VInt fd, VBytes mode]) (\<lambda>n. n = 0) (\<lambda>n. n) (ctext ''fdopen error'') True \<and>
   wraps (Fopen filename mode) (Sys ''fopen'' [VBytes filename, VBytes mode]) (\<lambda>n. n = 0) (\<lambda>n. n) (ctext ''fopen error'') True"
  unfolding Calloc_def Close_def Dup2_def Fcntl_def Gettimeofday_def Ioctl_def Malloc_def Mkstemp_def Mmap_def Pipe_def Read_def Sigaddset_def Sigdelset_def Sigemptyset_def Sigfillset_def Sigismember_def Sigpending_def Sigprocmask_def Strdup_def Wait_def Waitpid_def Fclose_def Fdopen_def Fopen_def
  by (intro conjI wraps_shapes) simp_all

text \<open>
  A wrapper of a thread function stores the number the function returned in \<open>errno\<close> before it reports it.
\<close>

theorem thread_wrappers_report:
  "wraps_thread (Pthread_create attr func arg) (Sys ''pthread_create'' [VInt attr, VInt func, VInt arg]) (ctext ''pthread_create error'') \<and>
   wraps_thread (Pthread_join tid) (Sys ''pthread_join'' [VInt tid]) (ctext ''pthread_join error'') \<and>
   wraps_thread (Pthread_detach tid) (Sys ''pthread_detach'' [VInt tid]) (ctext ''pthread_detach error'') \<and>
   wraps_thread (Pthread_kill tid signo) (Sys ''pthread_kill'' [VInt tid, VInt signo]) (ctext ''pthread_kill error'') \<and>
   wraps_thread (Pthread_mutexattr_init attr) (Sys ''pthread_mutexattr_init'' [VInt attr]) (ctext ''pthread_mutexattr_init error'') \<and>
   wraps_thread (Pthread_mutexattr_setpshared attr flag) (Sys ''pthread_mutexattr_setpshared'' [VInt attr, VInt flag]) (ctext ''pthread_mutexattr_setpshared error'') \<and>
   wraps_thread (Pthread_mutex_init mptr attr) (Sys ''pthread_mutex_init'' [VInt mptr, VInt attr]) (ctext ''pthread_mutex_init error'') \<and>
   wraps_thread (Pthread_mutex_lock mptr) (Sys ''pthread_mutex_lock'' [VInt mptr]) (ctext ''pthread_mutex_lock error'') \<and>
   wraps_thread (Pthread_mutex_unlock mptr) (Sys ''pthread_mutex_unlock'' [VInt mptr]) (ctext ''pthread_mutex_unlock error'') \<and>
   wraps_thread (Pthread_cond_broadcast cptr) (Sys ''pthread_cond_broadcast'' [VInt cptr]) (ctext ''pthread_cond_broadcast error'') \<and>
   wraps_thread (Pthread_cond_signal cptr) (Sys ''pthread_cond_signal'' [VInt cptr]) (ctext ''pthread_cond_signal error'') \<and>
   wraps_thread (Pthread_cond_wait cptr mptr) (Sys ''pthread_cond_wait'' [VInt cptr, VInt mptr]) (ctext ''pthread_cond_wait error'') \<and>
   wraps_thread (Pthread_cond_timedwait cptr mptr ts) (Sys ''pthread_cond_timedwait'' [VInt cptr, VInt mptr, VInt ts]) (ctext ''pthread_cond_timedwait error'') \<and>
   wraps_thread (Pthread_once once func) (Sys ''pthread_once'' [VInt once, VInt func]) (ctext ''pthread_once error'') \<and>
   wraps_thread (Pthread_key_create func) (Sys ''pthread_key_create'' [VInt func]) (ctext ''pthread_key_create error'') \<and>
   wraps_thread (Pthread_setspecific key val) (Sys ''pthread_setspecific'' [VInt key, VInt val]) (ctext ''pthread_setspecific error'')"
  unfolding Pthread_create_def Pthread_join_def Pthread_detach_def Pthread_kill_def Pthread_mutexattr_init_def Pthread_mutexattr_setpshared_def Pthread_mutex_init_def Pthread_mutex_lock_def Pthread_mutex_unlock_def Pthread_cond_broadcast_def Pthread_cond_signal_def Pthread_cond_wait_def Pthread_cond_timedwait_def Pthread_once_def Pthread_key_create_def Pthread_setspecific_def
  by (intro conjI wraps_shapes) simp_all

lemma path_wrappers_report:
  assumes "0 \<notin> set pathname"
  shows "wraps (Open pathname oflag mode) (Sys ''open'' [VBytes pathname, VInt oflag, VInt mode]) (\<lambda>n. n = -1) (\<lambda>n. n) (ctext ''open error for '' @ pathname) True \<and>
   wraps (Unlink pathname) (Sys ''unlink'' [VBytes pathname]) (\<lambda>n. n = -1) (\<lambda>_. ()) (ctext ''unlink error for '' @ pathname) True"
  unfolding Open_def Unlink_def using assms by (intro conjI wraps_shapes) simp_all

section \<open>Values that are not errors\<close>

text \<open>
  Two answers that are no failures end the process all the same: a timed wait whose time is over
  (\<open>ETIMEDOUT\<close>, 110), and \<open>sysconf\<close> for a limit that the system does not have, which returns -1 and
  leaves \<open>errno\<close> alone, so that the text printed is the one for 0.
\<close>

theorem wrappers_reject_good_answers:
  assumes "en_ok env"
  shows "(en_answer env (os_trace s @ [Sys ''pthread_cond_timedwait'' [VInt cptr, VInt mptr, VInt ts]]) = (110, e) \<longrightarrow>
      (\<exists>s'. Pthread_cond_timedwait cptr mptr ts env s = Inr (Exited 1, s'))) \<and>
    (en_answer env (os_trace s @ [Sys ''sysconf'' [VInt name]]) = (-1, None) \<longrightarrow>
      Sysconf name env s = Inr (Exited 1, s\<lparr>os_trace := os_trace s @ [Sys ''sysconf'' [VInt name]], os_errno := 0,
        os_err := os_err s @ report env True (ctext ''sysconf error'') 0\<rparr>))"
  using assms
  by (simp add: Pthread_cond_timedwait_def Sysconf_def thread_call_def yields_def sys_call_def os_err_sys_report Let_def split: prod.splits)

definition quiet_env :: "int \<Rightarrow> os_env" where
  "quiet_env n = \<lparr>en_answer = (\<lambda>_. (n, None)), en_strerror = (\<lambda>_. [69]), en_junk = replicate 4097 0, en_daemon = False, en_listenq = None\<rparr>"

lemma quiet_env_answer [simp]: "en_answer (quiet_env n) tr = (n, None)"
  by (simp add: quiet_env_def)

lemma quiet_env_ok: "en_ok (quiet_env n)"
  by (simp add: en_ok_def quiet_env_def MAXLINE_def)

theorem wrappers_reject_good_answers_witness:
  "(\<exists>s'. Pthread_cond_timedwait 1 2 3 (quiet_env 110) \<lparr>os_trace = [], os_errno = 5, os_err = []\<rparr> = Inr (Exited 1, s')) \<and>
   (\<exists>s'. Sysconf 4 (quiet_env (-1)) \<lparr>os_trace = [], os_errno = 5, os_err = []\<rparr> = Inr (Exited 1, s'))"
  using wrappers_reject_good_answers [OF quiet_env_ok [of 110], of "\<lparr>os_trace = [], os_errno = 5, os_err = []\<rparr>" 1 2 3 None 4]
    wrappers_reject_good_answers [OF quiet_env_ok [of "-1"], of "\<lparr>os_trace = [], os_errno = 5, os_err = []\<rparr>" 1 2 3 None 4]
  by (simp add: quiet_env_def)

section \<open>Programs that open a datagram socket\<close>

definition AF_INET_value :: int where "AF_INET_value = 2"
definition SOCK_DGRAM :: int where "SOCK_DGRAM = 2"
definition SERV_PORT :: int where "SERV_PORT = 9877"

text \<open>
  A \<open>struct sockaddr_in\<close> in memory: the family in the byte order of the host (little-endian), the port in
  that of the network, the address and eight zero bytes.
\<close>

definition sockaddr_in :: "int \<Rightarrow> bytes \<Rightarrow> bytes" where
  "sockaddr_in port addr = [2, 0, of_int (port div 256), of_int port] @ addr @ replicate 8 0"

definition d6_server_setup :: "int wrapped" where
  "d6_server_setup env s =
     bind_exit (Socket AF_INET_value SOCK_DGRAM 0 env s) (\<lambda>sockfd s1.
     bind_exit (Bind sockfd (sockaddr_in SERV_PORT [0, 0, 0, 0]) 16 env s1) (\<lambda>_ s2.
       Inr (Returned sockfd, s2)))"

text \<open>The address that \<open>inet_pton\<close> stores is \<open>addr\<close>; the result is the socket and the address of the server.\<close>

definition d6_client_setup :: "bytes list \<Rightarrow> bytes \<Rightarrow> (int \<times> bytes) wrapped" where
  "d6_client_setup argv addr env s =
     bind_exit (if length argv \<noteq> 2 then os_err_quit (ctext ''usage: <IP address>'') env s else Inr (Returned (), s)) (\<lambda>_ s0.
     bind_exit (Inet_pton AF_INET_value (argv ! 1) env s0) (\<lambda>_ s1.
     bind_exit (Socket AF_INET_value SOCK_DGRAM 0 env s1) (\<lambda>sockfd s2.
       Inr (Returned (sockfd, sockaddr_in SERV_PORT addr), s2))))"

lemma wraps_run:
  assumes "wraps W op bad ret msg sys" "en_ok env"
  shows "W env s = (let (n, s1) = sys_call env op s in
    Inr (if bad n then (Exited 1, s1\<lparr>os_err := os_err s1 @ report env sys msg (os_errno s1)\<rparr>) else (Returned (ret n), s1)))"
  using assms by (auto simp: wraps_def Let_def split: prod.splits)

lemma Socket_run:
  "en_ok env \<Longrightarrow> Socket family typ protocol env s =
    (let (n, s1) = sys_call env (Sys ''socket'' [VInt family, VInt typ, VInt protocol]) s in
     Inr (if n < 0 then (Exited 1, s1\<lparr>os_err := os_err s1 @ report env True (ctext ''socket error'') (os_errno s1)\<rparr>) else (Returned n, s1)))"
  unfolding Socket_def by (rule wraps_run [OF wraps_shapes(1)]) simp_all

lemma Bind_run:
  "en_ok env \<Longrightarrow> Bind fd sa salen env s =
    (let (n, s1) = sys_call env (Sys ''bind'' [VInt fd, VBytes sa, VInt salen]) s in
     Inr (if n < 0 then (Exited 1, s1\<lparr>os_err := os_err s1 @ report env True (ctext ''bind error'') (os_errno s1)\<rparr>) else (Returned (), s1)))"
  unfolding Bind_def by (rule wraps_run [OF wraps_shapes(3)]) simp_all

lemma sys_call_eq:
  assumes "sys_call env op s = (n, s1)"
  shows "os_trace s1 = os_trace s @ [op]" "os_err s1 = os_err s"
  using assms by (auto simp: sys_call_def Let_def split: prod.splits)

text \<open>
  The set-up of the datagram server: the socket is made and bound to port 9877 of every address, in this
  order, and returned; when one of the two calls fails the process ends with code 1, the other call not
  made or not undone, and exactly the report of the failing call printed.
\<close>

theorem d6_server_setup_correct:
  assumes "en_ok env"
  shows "\<exists>r s'. d6_server_setup env s = Inr (r, s') \<and>
    (case r of
       Returned fd \<Rightarrow> 0 \<le> fd \<and> os_err s' = os_err s \<and>
         os_trace s' = os_trace s @ [Sys ''socket'' [VInt 2, VInt 2, VInt 0], Sys ''bind'' [VInt fd, VBytes ([2, 0, 0x26, 0x95] @ replicate 12 0), VInt 16]]
     | Exited c \<Rightarrow> c = 1 \<and>
         (\<exists>e fd. os_err s' = os_err s @ report env True (ctext ''socket error'') e \<and>
              os_trace s' = os_trace s @ [Sys ''socket'' [VInt 2, VInt 2, VInt 0]] \<or>
            os_err s' = os_err s @ report env True (ctext ''bind error'') e \<and>
              os_trace s' = os_trace s @ [Sys ''socket'' [VInt 2, VInt 2, VInt 0], Sys ''bind'' [VInt fd, VBytes ([2, 0, 0x26, 0x95] @ replicate 12 0), VInt 16]]))"
proof -
  have a: "sockaddr_in SERV_PORT [0, 0, 0, 0] = [2, 0, 0x26, 0x95] @ replicate 12 0"
    by code_simp
  obtain fd s1 where so: "sys_call env (Sys ''socket'' [VInt 2, VInt 2, VInt 0]) s = (fd, s1)" by fastforce
  obtain m s2 where bi: "sys_call env (Sys ''bind'' [VInt fd, VBytes ([2, 0, 0x26, 0x95] @ replicate 12 0), VInt 16]) s1 = (m, s2)" by fastforce
  show ?thesis
    using assms so bi sys_call_eq [OF so] sys_call_eq [OF bi]
    by (auto simp: d6_server_setup_def Socket_run Bind_run AF_INET_value_def SOCK_DGRAM_def a Let_def)
qed

theorem d6_server_setup_correct_witness:
  "\<exists>s'. d6_server_setup (quiet_env 3) \<lparr>os_trace = [], os_errno = 0, os_err = []\<rparr> = Inr (Returned 3, s') \<and> os_err s' = [] \<and> length (os_trace s') = 2"
  using d6_server_setup_correct [OF quiet_env_ok [of 3], of "\<lparr>os_trace = [], os_errno = 0, os_err = []\<rparr>"]
  by (simp add: d6_server_setup_def Socket_run Bind_run quiet_env_ok sys_call_def Let_def)

end
