(* ===== verification/SyncDemos.thy ===== *)
theory SyncDemos
  imports Monitor
begin

text \<open>
  Three programs of threads: \<open>src/concurrent_tools/demo1_call_once.cpp\<close> (a function that is called once
  although it may throw), \<open>src/mutex/demo5_unique_lock.cpp\<close> (a deque between two endless threads) and
  \<open>src/atomic/demo1_atomic_quickstart.cpp\<close> (a thread that spins until another has stored a number).
\<close>

section \<open>Calling once\<close>

datatype once_flag = OnceIdle | OnceActive tid | OnceDone

datatype co_line = CoThrew | CoDidntThrow

text \<open>Before \<open>call_once\<close> has decided, inside the function it calls, and after \<open>do_once\<close>.\<close>

datatype co_pc = CoCall | CoRun | CoEnd

record co_state =
  co_flag :: once_flag
  co_out :: "co_line list"
  co_pc :: "tid \<Rightarrow> co_pc"

definition co_new :: co_state where
  "co_new = \<lparr>co_flag = OnceIdle, co_out = [], co_pc = (\<lambda>_. CoCall)\<rparr>"

text \<open>\<open>may_throw_function\<close>: the line it prints and whether it throws.\<close>

definition may_throw_function :: "bool \<Rightarrow> co_line \<times> bool" where
  "may_throw_function do_throw = (if do_throw then (CoThrew, True) else (CoDidntThrow, False))"

text \<open>
  \<open>do_once\<close>: \<open>call_once\<close> waits while another thread is in the function, returns when the flag is set, and
  otherwise calls the function; an exception leaves the flag clear and is caught.
\<close>

definition do_once :: "bool \<Rightarrow> tid \<Rightarrow> co_state \<Rightarrow> co_state option" where
  "do_once do_throw t s =
     (case co_pc s t of
        CoCall \<Rightarrow>
          (case co_flag s of
             OnceIdle \<Rightarrow> Some (s\<lparr>co_flag := OnceActive t, co_pc := (co_pc s)(t := CoRun)\<rparr>)
           | OnceActive _ \<Rightarrow> None
           | OnceDone \<Rightarrow> Some (s\<lparr>co_pc := (co_pc s)(t := CoEnd)\<rparr>))
      | CoRun \<Rightarrow>
          (let (line, threw) = may_throw_function do_throw
           in Some (s\<lparr>co_flag := (if threw then OnceIdle else OnceDone), co_out := co_out s @ [line],
                      co_pc := (co_pc s)(t := CoEnd)\<rparr>))
      | CoEnd \<Rightarrow> None)"

text \<open>\<open>main\<close> with any number of threads; \<open>throws t\<close> is the argument of the thread \<open>t\<close>.\<close>

definition co_step :: "nat \<Rightarrow> (tid \<Rightarrow> bool) \<Rightarrow> co_state \<Rightarrow> co_state \<Rightarrow> bool" where
  "co_step n throws s s' \<longleftrightarrow> (\<exists>t<n. do_once (throws t) t s = Some s')"

definition co_init :: "co_state \<Rightarrow> bool" where
  "co_init s \<longleftrightarrow> s = co_new"

definition co_joined :: "nat \<Rightarrow> co_state \<Rightarrow> bool" where
  "co_joined n s \<longleftrightarrow> (\<forall>t<n. co_pc s t = CoEnd)"

definition co_inv :: "nat \<Rightarrow> (tid \<Rightarrow> bool) \<Rightarrow> co_state \<Rightarrow> bool" where
  "co_inv n throws s \<longleftrightarrow>
     (\<forall>t. co_pc s t = CoRun \<longleftrightarrow> co_flag s = OnceActive t) \<and> (\<forall>t. co_flag s = OnceActive t \<longrightarrow> t < n) \<and>
     (\<forall>t. co_pc s t = CoEnd \<and> \<not> throws t \<longrightarrow> co_flag s = OnceDone) \<and>
     (\<exists>k \<le> card {t. t < n \<and> throws t \<and> co_pc s t = CoEnd}.
        co_out s = replicate k CoThrew @ (if co_flag s = OnceDone then [CoDidntThrow] else []))"

lemma co_card_end:
  fixes n :: nat
  assumes "t < n"
  shows "card {u. u < n \<and> P u \<and> (f(t := x)) u = e} =
    (if P t \<and> x = e \<and> f t \<noteq> e then Suc (card {u. u < n \<and> P u \<and> f u = e})
     else if P t \<and> x \<noteq> e \<and> f t = e then card {u. u < n \<and> P u \<and> f u = e} - 1
     else card {u. u < n \<and> P u \<and> f u = e})"
proof -
  let ?A = "{u. u < n \<and> P u \<and> f u = e}"
  have fin: "finite ?A" by simp
  have "{u. u < n \<and> P u \<and> (f(t := x)) u = e} = (if P t \<and> x = e then insert t ?A else ?A - {t})"
    using assms by auto
  then show ?thesis using fin assms by (auto simp: card_insert_if card_Diff_singleton_if)
qed

lemma replicate_snoc: "replicate k x @ [x] = replicate (Suc k) x"
  by (simp add: replicate_append_same)

lemma co_inv_step:
  assumes inv: "co_inv n throws s" and t: "t < n" and st: "do_once (throws t) t s = Some s'"
  shows "co_inv n throws s'"
proof -
  obtain k where k: "k \<le> card {u. u < n \<and> throws u \<and> co_pc s u = CoEnd}"
    "co_out s = replicate k CoThrew @ (if co_flag s = OnceDone then [CoDidntThrow] else [])"
    using inv by (auto simp: co_inv_def)
  note card = co_card_end [OF t, of throws "co_pc s" _ CoEnd]
  have run: "\<And>u. co_pc s u = CoRun \<longleftrightarrow> co_flag s = OnceActive u" and lt: "\<And>u. co_flag s = OnceActive u \<Longrightarrow> u < n"
    and fin: "\<And>u. co_pc s u = CoEnd \<Longrightarrow> \<not> throws u \<Longrightarrow> co_flag s = OnceDone"
    using inv by (auto simp: co_inv_def)
  show ?thesis
  proof (cases "co_pc s t")
    case CoCall
    then have "co_flag s = OnceIdle \<and> s' = s\<lparr>co_flag := OnceActive t, co_pc := (co_pc s)(t := CoRun)\<rparr> \<or>
        co_flag s = OnceDone \<and> s' = s\<lparr>co_pc := (co_pc s)(t := CoEnd)\<rparr>"
      using st by (auto simp: do_once_def split: once_flag.splits)
    then show ?thesis
      unfolding co_inv_def using run lt fin k t CoCall card [of CoRun] card [of CoEnd] by (auto intro!: exI [of _ k] split: if_splits)
  next
    case CoRun
    then have f: "co_flag s = OnceActive t" using run by simp
    then have out: "co_out s = replicate k CoThrew" using k by simp
    have o: "u \<noteq> t \<Longrightarrow> co_pc s u \<noteq> CoRun" for u using run f by simp
    show ?thesis
    proof (cases "throws t")
      case True
      then have s': "s' = s\<lparr>co_flag := OnceIdle, co_out := replicate (Suc k) CoThrew, co_pc := (co_pc s)(t := CoEnd)\<rparr>"
        using st CoRun out by (simp add: do_once_def may_throw_function_def replicate_snoc)
      show ?thesis
        unfolding co_inv_def s' using o fin f k(1) True CoRun card [of CoEnd] by (auto intro!: exI [of _ "Suc k"])
    next
      case False
      then have s': "s' = s\<lparr>co_flag := OnceDone, co_out := replicate k CoThrew @ [CoDidntThrow], co_pc := (co_pc s)(t := CoEnd)\<rparr>"
        using st CoRun out by (simp add: do_once_def may_throw_function_def)
      show ?thesis
        unfolding co_inv_def s' using o k(1) False CoRun card [of CoEnd] by (auto intro!: exI [of _ k])
    qed
  next
    case CoEnd then show ?thesis using st by (simp add: do_once_def)
  qed
qed

lemma co_reach_inv: "reachable co_init (co_step n throws) s \<Longrightarrow> co_inv n throws s"
proof (erule reachable_invariant)
  show "co_inv n throws s" if "co_init s" for s using that by (simp add: co_init_def co_new_def co_inv_def)
  show "co_inv n throws s'" if "reachable co_init (co_step n throws) s" "co_inv n throws s" "co_step n throws s s'" for s s'
    using that co_inv_step by (auto simp: co_step_def)
qed

text \<open>
  \<open>call_once\<close> with a function that may throw, for every interleaving: no two threads are in the function
  at once and none waits for ever; the function is called again after each exception and never after a
  normal return, which happens exactly once by the time all threads have ended if one of them does not
  throw; it throws at most once per thread that asks for it.
\<close>

theorem call_once_correct:
  assumes "reachable co_init (co_step n throws) s"
  shows "(\<not> co_joined n s \<longrightarrow> (\<exists>s'. co_step n throws s s')) \<and> (co_pc s t = CoRun \<and> co_pc s u = CoRun \<longrightarrow> t = u) \<and>
    (\<exists>k \<le> card {t. t < n \<and> throws t}.
       co_out s = replicate k CoThrew \<or> co_out s = replicate k CoThrew @ [CoDidntThrow]) \<and>
    (co_joined n s \<and> (\<exists>t<n. \<not> throws t) \<longrightarrow> CoDidntThrow \<in> set (co_out s))"
proof -
  have inv: "co_inv n throws s" by (rule co_reach_inv [OF assms])
  obtain k where k: "k \<le> card {t. t < n \<and> throws t \<and> co_pc s t = CoEnd}"
    "co_out s = replicate k CoThrew @ (if co_flag s = OnceDone then [CoDidntThrow] else [])"
    using inv by (auto simp: co_inv_def)
  have "card {t. t < n \<and> throws t \<and> co_pc s t = CoEnd} \<le> card {t. t < n \<and> throws t}" by (rule card_mono) auto
  then have out: "\<exists>k \<le> card {t. t < n \<and> throws t}. co_out s = replicate k CoThrew \<or> co_out s = replicate k CoThrew @ [CoDidntThrow]"
    using k by (intro exI [of _ k]) auto
  have p: "\<exists>s'. co_step n throws s s'" if nj: "\<not> co_joined n s"
  proof -
    obtain t where t: "t < n" "co_pc s t \<noteq> CoEnd" using nj by (auto simp: co_joined_def)
    obtain u where "u < n" "co_pc s u = CoRun \<or> co_pc s u = CoCall \<and> (co_flag s = OnceIdle \<or> co_flag s = OnceDone)"
    proof (cases "co_flag s")
      case (OnceActive u) then show ?thesis using that [of u] inv by (auto simp: co_inv_def)
    qed (use that [of t] t in \<open>cases "co_pc s t"; simp\<close>)+
    then have "\<exists>s'. do_once (throws u) u s = Some s'" by (auto simp: do_once_def split: prod.splits)
    with \<open>u < n\<close> show ?thesis by (auto simp: co_step_def)
  qed
  have d: "CoDidntThrow \<in> set (co_out s)" if "co_joined n s" "t < n" "\<not> throws t" for t
    using that inv k(2) by (auto simp: co_inv_def co_joined_def)
  show ?thesis using out p d inv by (auto simp: co_inv_def)
qed

theorem call_once_correct_witness: "\<exists>s'. co_step 4 (\<lambda>t. t = 3) co_new s'"
proof -
  have "\<not> co_joined 4 co_new" by (auto simp: co_joined_def co_new_def intro: exI [of _ 0])
  then show ?thesis using call_once_correct [OF reach_init, of co_new 4 "\<lambda>t. t = 3"] by (simp add: co_init_def)
qed

section \<open>A deque between two threads\<close>

text \<open>
  \<open>fun1\<close> is thread 0: before the lock, before \<open>push_front\<close>, before \<open>notify_one\<close>, before the end of the
  block, asleep. \<open>fun2\<close> is thread 1: before the lock, before the test of the predicate, waiting, woken and
  without the lock, before \<open>back\<close> and \<open>pop_back\<close>, before the end of the iteration. \<open>count\<close> is not bounded;
  the source overflows after 2147483648 elements, one a second.
\<close>

datatype f1_pc = FLock | FPush | FNotify | FUnlock | FSleep
datatype f2_pc = GLock | GTest | GWait | GWoken | GTake | GUnlock

record ul_state =
  ul_q :: "int list"             \<comment> \<open>front first\<close>
  ul_mu :: "tid option"
  ul_count :: int
  ul_pc1 :: f1_pc
  ul_pc2 :: f2_pc
  ul_out :: "int list"

definition ul_new :: ul_state where
  "ul_new = \<lparr>ul_q = [], ul_mu = None, ul_count = 0, ul_pc1 = FLock, ul_pc2 = GLock, ul_out = []\<rparr>"

definition ul_init :: "ul_state \<Rightarrow> bool" where
  "ul_init s \<longleftrightarrow> s = ul_new"

inductive fun1 :: "ul_state \<Rightarrow> ul_state \<Rightarrow> bool" where
  f_lock: "ul_pc1 s = FLock \<Longrightarrow> ul_mu s = None \<Longrightarrow> fun1 s (s\<lparr>ul_mu := Some 0, ul_pc1 := FPush\<rparr>)"
| f_push: "ul_pc1 s = FPush \<Longrightarrow> fun1 s (s\<lparr>ul_q := ul_count s # ul_q s, ul_count := ul_count s + 1, ul_pc1 := FNotify\<rparr>)"
| f_notify: "ul_pc1 s = FNotify \<Longrightarrow>
    fun1 s (s\<lparr>ul_pc2 := (if ul_pc2 s = GWait then GWoken else ul_pc2 s), ul_pc1 := FUnlock\<rparr>)"
| f_unlock: "ul_pc1 s = FUnlock \<Longrightarrow> fun1 s (s\<lparr>ul_mu := None, ul_pc1 := FSleep\<rparr>)"
| f_sleep: "ul_pc1 s = FSleep \<Longrightarrow> fun1 s (s\<lparr>ul_pc1 := FLock\<rparr>)"

text \<open>\<open>g_spurious\<close> is a wake-up without a notification.\<close>

inductive fun2 :: "ul_state \<Rightarrow> ul_state \<Rightarrow> bool" where
  g_lock: "ul_pc2 s = GLock \<Longrightarrow> ul_mu s = None \<Longrightarrow> fun2 s (s\<lparr>ul_mu := Some 1, ul_pc2 := GTest\<rparr>)"
| g_empty: "ul_pc2 s = GTest \<Longrightarrow> ul_q s = [] \<Longrightarrow> fun2 s (s\<lparr>ul_mu := None, ul_pc2 := GWait\<rparr>)"
| g_ready: "ul_pc2 s = GTest \<Longrightarrow> ul_q s \<noteq> [] \<Longrightarrow> fun2 s (s\<lparr>ul_pc2 := GTake\<rparr>)"
| g_spurious: "ul_pc2 s = GWait \<Longrightarrow> fun2 s (s\<lparr>ul_pc2 := GWoken\<rparr>)"
| g_relock: "ul_pc2 s = GWoken \<Longrightarrow> ul_mu s = None \<Longrightarrow> fun2 s (s\<lparr>ul_mu := Some 1, ul_pc2 := GTest\<rparr>)"
| g_take: "ul_pc2 s = GTake \<Longrightarrow> fun2 s (s\<lparr>ul_q := butlast (ul_q s), ul_out := ul_out s @ [last (ul_q s)], ul_pc2 := GUnlock\<rparr>)"
| g_unlock: "ul_pc2 s = GUnlock \<Longrightarrow> fun2 s (s\<lparr>ul_mu := None, ul_pc2 := GLock\<rparr>)"

inductive_cases fun1E: "fun1 s s'"
inductive_cases fun2E: "fun2 s s'"

definition ul_step :: "ul_state \<Rightarrow> ul_state \<Rightarrow> bool" where
  "ul_step s s' \<longleftrightarrow> fun1 s s' \<or> fun2 s s'"

definition ul_inside :: "ul_state \<Rightarrow> tid \<Rightarrow> bool" where
  "ul_inside s t \<longleftrightarrow> t = 0 \<and> ul_pc1 s \<in> {FPush, FNotify, FUnlock} \<or> t = 1 \<and> ul_pc2 s \<in> {GTest, GTake, GUnlock}"

definition ul_puts :: "ul_state \<Rightarrow> int list" where
  "ul_puts s = [0 .. ul_count s - 1]"

interpretation ul: mutex_protocol ul_init ul_step ul_mu ul_inside
proof unfold_locales
  fix s s'
  assume "ul_step s s'"
  then consider "fun1 s s'" | "fun2 s s'" by (auto simp: ul_step_def)
  then show "(\<exists>t. ul_mu s = None \<and> ul_mu s' = Some t \<and> ul_inside s' = (ul_inside s)(t := True)) \<or>
      (\<exists>t. ul_inside s t \<and> ul_mu s' = None \<and> ul_inside s' = (ul_inside s)(t := False)) \<or>
      (ul_mu s' = ul_mu s \<and> ul_inside s' = ul_inside s)"
  proof cases
    case 1 then show ?thesis by (intro mutex_move [of 0], elim fun1E) (simp_all add: ul_inside_def)
  next
    case 2 then show ?thesis by (intro mutex_move [of 1], elim fun2E) (simp_all add: ul_inside_def)
  qed
qed (auto simp: ul_init_def ul_new_def ul_inside_def)

text \<open>
  The invariant of the program: a thread that is about to take finds an element, and a waiting consumer has
  an empty deque or a producer that is about to notify it.
\<close>

definition ul_inv :: "ul_state \<Rightarrow> bool" where
  "ul_inv s \<longleftrightarrow> 0 \<le> ul_count s \<and> (ul_pc2 s = GTake \<longrightarrow> ul_q s \<noteq> []) \<and>
     (ul_pc2 s = GWait \<longrightarrow> ul_q s = [] \<or> ul_pc1 s = FNotify)"

lemma ul_reach_inv: "reachable ul_init ul_step s \<Longrightarrow> ul_inv s"
proof (erule reachable_invariant)
  show "ul_inv s" if "ul_init s" for s using that by (simp add: ul_init_def ul_new_def ul_inv_def)
  show "ul_inv s'" if r: "reachable ul_init ul_step s" and "ul_inv s" "ul_step s s'" for s s'
  proof -
    have "\<not> (ul_inside s 0 \<and> ul_inside s 1)" using ul.exclusion [OF r, of 0 1] by auto
    then show ?thesis
      using that(2,3) unfolding ul_step_def
      by (elim disjE fun1E fun2E) (auto simp: ul_inv_def ul_inside_def split: if_splits)
  qed
qed

lemma upto_snoc_int: "0 \<le> c \<Longrightarrow> [0 .. c] = [0 .. c - 1] @ [c :: int]"
  using upto_rec2 [of 0 c] by simp

lemma ul_fifo: "reachable ul_init ul_step s \<Longrightarrow> ul_puts s = ul_out s @ rev (ul_q s)"
proof (induction rule: reachable.induct)
  case (reach_init s) then show ?case by (simp add: ul_init_def ul_new_def ul_puts_def)
next
  case (reach_step s s')
  have inv: "ul_inv s" by (rule ul_reach_inv [OF reach_step(1)])
  have b: "ul_q s \<noteq> [] \<Longrightarrow> last (ul_q s) # rev (butlast (ul_q s)) = rev (ul_q s)"
    by (metis append_butlast_last_id rev_eq_Cons_iff rev_rev_ident rev_append rev.simps append_Cons append_Nil)
  show ?case
    using reach_step(2,3) inv b upto_snoc_int [of "ul_count s"] unfolding ul_step_def
    by (elim disjE fun1E fun2E) (auto simp: ul_inv_def ul_puts_def)
qed

text \<open>
  The deque program, for every interleaving and with spurious wake-ups: the consumer prints 0, 1, 2 and so
  on in order, without loss or repetition, never takes from an empty deque, and neither thread is ever
  stuck: one of them can always go on, and a waiting consumer with an element in the deque is about to be
  notified.
\<close>

theorem deque_program_correct:
  assumes "reachable ul_init ul_step s"
  shows "ul_out s = [0 .. int (length (ul_out s)) - 1] \<and> (ul_pc2 s = GTake \<longrightarrow> ul_q s \<noteq> []) \<and> (\<exists>s'. ul_step s s') \<and>
    (ul_pc2 s = GWait \<and> ul_q s \<noteq> [] \<longrightarrow> ul_pc1 s = FNotify)"
proof -
  have inv: "ul_inv s" by (rule ul_reach_inv [OF assms])
  have f: "ul_out s @ rev (ul_q s) = [0 .. ul_count s - 1]" using ul_fifo [OF assms] by (simp add: ul_puts_def)
  have "take (length (ul_out s)) [0 .. ul_count s - 1] = [0 .. int (length (ul_out s)) - 1]"
  proof (rule nth_equalityI)
    have "length (ul_out s) \<le> nat (ul_count s)" using arg_cong [OF f, of length] by simp
    then show "length (take (length (ul_out s)) [0 .. ul_count s - 1]) = length [0 .. int (length (ul_out s)) - 1]" by simp
    then show "take (length (ul_out s)) [0 .. ul_count s - 1] ! i = [0 .. int (length (ul_out s)) - 1] ! i"
      if "i < length (take (length (ul_out s)) [0 .. ul_count s - 1])" for i
      using that by (simp add: nth_upto)
  qed
  then have out: "ul_out s = [0 .. int (length (ul_out s)) - 1]" using f by (metis append_eq_conv_conj)
  have "\<exists>s'. fun1 s s' \<or> fun2 s s'"
  proof (cases "ul_mu s")
    case None
    then show ?thesis by (cases "ul_pc1 s") (blast intro: fun1.intros)+
  next
    case (Some t)
    then have "ul_inside s t" using ul.inside_iff_holder [OF assms] by simp
    then show ?thesis
      by (cases "ul_q s = []") (auto simp: ul_inside_def intro: fun1.intros fun2.intros)
  qed
  then show ?thesis using out inv by (auto simp: ul_inv_def ul_step_def)
qed

theorem deque_program_correct_witness: "ul_out ul_new = [] \<and> (\<exists>s'. ul_step ul_new s')"
  using deque_program_correct [OF reach_init, of ul_new] by (simp add: ul_init_def ul_new_def)

section \<open>An atomic number\<close>

text \<open>
  \<open>set_count\<close> prints and stores; \<open>print_count\<close> loads until the value is not 0 and prints it. The boxes are
  what each thread has printed.
\<close>

record at_state =
  at_count :: int
  at_set :: nat                  \<comment> \<open>statements \<open>set_count\<close> has executed, of two\<close>
  at_loaded :: "int option"      \<comment> \<open>\<open>x\<close> when the loop has ended\<close>
  at_said :: "int list"          \<comment> \<open>printed by \<open>set_count\<close>\<close>
  at_printed :: "int list"       \<comment> \<open>printed by \<open>print_count\<close>\<close>

definition at_new :: at_state where
  "at_new = \<lparr>at_count = 0, at_set = 0, at_loaded = None, at_said = [], at_printed = []\<rparr>"

inductive set_count :: "int \<Rightarrow> at_state \<Rightarrow> at_state \<Rightarrow> bool" for x where
  set_say: "at_set s = 0 \<Longrightarrow> set_count x s (s\<lparr>at_set := 1, at_said := at_said s @ [x]\<rparr>)"
| set_store: "at_set s = 1 \<Longrightarrow> set_count x s (s\<lparr>at_set := 2, at_count := x\<rparr>)"

inductive print_count :: "at_state \<Rightarrow> at_state \<Rightarrow> bool" where
  print_again: "at_loaded s = None \<Longrightarrow> at_count s = 0 \<Longrightarrow> print_count s s"
| print_load: "at_loaded s = None \<Longrightarrow> at_count s \<noteq> 0 \<Longrightarrow> print_count s (s\<lparr>at_loaded := Some (at_count s)\<rparr>)"
| print_line: "at_loaded s = Some x \<Longrightarrow> at_printed s = [] \<Longrightarrow> print_count s (s\<lparr>at_printed := [x]\<rparr>)"

inductive_cases set_countE: "set_count x s s'"
inductive_cases print_countE: "print_count s s'"

definition at_step :: "int \<Rightarrow> at_state \<Rightarrow> at_state \<Rightarrow> bool" where
  "at_step x s s' \<longleftrightarrow> set_count x s s' \<or> print_count s s'"

definition at_init :: "at_state \<Rightarrow> bool" where
  "at_init s \<longleftrightarrow> s = at_new"

definition at_inv :: "int \<Rightarrow> at_state \<Rightarrow> bool" where
  "at_inv x s \<longleftrightarrow> at_count s = (if at_set s = 2 then x else 0) \<and> at_set s \<le> 2 \<and>
     (\<forall>y. at_loaded s = Some y \<longrightarrow> y = x \<and> x \<noteq> 0 \<and> at_set s = 2) \<and>
     (at_printed s = [] \<or> at_printed s = [x] \<and> at_loaded s = Some x) \<and> at_said s = (if at_set s = 0 then [] else [x])"

lemma at_reach_inv: "reachable at_init (at_step x) s \<Longrightarrow> at_inv x s"
proof (erule reachable_invariant)
  show "at_inv x s" if "at_init s" for s using that by (simp add: at_init_def at_new_def at_inv_def)
  show "at_inv x s'" if "reachable at_init (at_step x) s" "at_inv x s" "at_step x s s'" for s s'
    using that(2,3) unfolding at_step_def
    by (elim disjE set_countE print_countE) (auto simp: at_inv_def split: if_splits)
qed

text \<open>
  Only the stored number is printed, after it was stored; once it is stored and is not 0, two steps of
  \<open>print_count\<close> of which none is an idle turn of the loop end it; with 0 it spins for ever.
\<close>

theorem atomic_program_correct:
  assumes "reachable at_init (at_step x) s"
  shows "(at_printed s \<noteq> [] \<longrightarrow> at_printed s = [x] \<and> at_said s = [x] \<and> x \<noteq> 0) \<and>
    (at_set s = 2 \<and> x \<noteq> 0 \<and> at_loaded s = None \<longrightarrow> (\<forall>s'. print_count s s' \<longrightarrow> at_loaded s' = Some x)) \<and>
    (at_loaded s \<noteq> None \<and> at_printed s = [] \<longrightarrow> (\<forall>s'. print_count s s' \<longrightarrow> at_printed s' = [x])) \<and>
    (x = 0 \<longrightarrow> at_printed s = [])"
proof -
  have inv: "at_inv x s" by (rule at_reach_inv [OF assms])
  have "at_loaded s' = Some x" if "at_set s = 2" "x \<noteq> 0" "at_loaded s = None" "print_count s s'" for s'
    using that(4) by cases (use that inv in \<open>auto simp: at_inv_def\<close>)
  moreover have "at_printed s' = [x]" if "at_loaded s \<noteq> None" "at_printed s = []" "print_count s s'" for s'
    using that(3) by cases (use that inv in \<open>auto simp: at_inv_def\<close>)
  moreover have "at_printed s = [x] \<and> at_said s = [x] \<and> x \<noteq> 0" if "at_printed s \<noteq> []"
  proof -
    have p: "at_printed s = [x]" "at_loaded s = Some x" using inv that unfolding at_inv_def by blast+
    then have "x \<noteq> 0" "at_set s = 2" using inv unfolding at_inv_def by blast+
    moreover have "at_said s = (if at_set s = 0 then [] else [x])" using inv unfolding at_inv_def by blast
    ultimately show ?thesis using p by simp
  qed
  ultimately show ?thesis by blast
qed

theorem atomic_program_correct_witness: "at_printed at_new = []"
  using atomic_program_correct [OF reach_init, of at_new 10] by (simp add: at_init_def at_new_def)

end
