(* ===== verification/Jumps.thy ===== *)
theory Jumps
  imports Prelude "HOL-Library.Signed_Division"
begin

text \<open>
  Programs that leave a function in other ways than by returning: the exceptions of \<open>src/exception/\<close> and
  the jumps of \<open>src/longjmp/\<close>. A computation takes the lines printed so far and gives an outcome and the lines.
\<close>

section \<open>Exceptions\<close>

datatype exc_class = InvalidArgument | LogicError | MyException

text \<open>An exception: its class, its text and the exception nested in it.\<close>

datatype exc = Exc (exc_class: exc_class) (exc_what: string) (exc_nested: "exc option")

datatype line = Cout string | Cerr string | CoutInt int

type_synonym 'a thrower = "line list \<Rightarrow> (exc + 'a) \<times> line list"

definition say :: "line \<Rightarrow> unit thrower" where
  "say l out = (Inr (), out @ [l])"

definition throw :: "exc \<Rightarrow> 'a thrower" where
  "throw e out = (Inl e, out)"

definition seq :: "'a thrower \<Rightarrow> ('a \<Rightarrow> 'b thrower) \<Rightarrow> 'b thrower" where
  "seq m f out = (case m out of (Inl e, o1) \<Rightarrow> (Inl e, o1) | (Inr a, o1) \<Rightarrow> f a o1)"

text \<open>\<open>try { m } catch (C &e) { h }\<close>, where \<open>caught\<close> says which classes \<open>C\<close> covers.\<close>

definition try_catch :: "'a thrower \<Rightarrow> (exc_class \<Rightarrow> bool) \<Rightarrow> (exc \<Rightarrow> 'a thrower) \<Rightarrow> 'a thrower" where
  "try_catch m caught h out =
     (case m out of
        (Inr a, o1) \<Rightarrow> (Inr a, o1)
      | (Inl e, o1) \<Rightarrow> if caught (exc_class e) then h e o1 else (Inl e, o1))"

abbreviation std_exception :: "exc_class \<Rightarrow> bool" where "std_exception \<equiv> \<lambda>_. True"

subsection \<open>demo1: a standard exception\<close>

definition CHAR_MAX :: int where "CHAR_MAX = 127"

definition MyFunc :: "int \<Rightarrow> unit thrower" where
  "MyFunc c =
     (if c > CHAR_MAX then throw (Exc InvalidArgument ''throw MyFunc argument too large.'' None) else (\<lambda>out. (Inr (), out)))"

text \<open>\<open>main\<close> of \<open>demo1_exception_basic.cpp\<close> with the argument 256 replaced by \<open>c\<close>; the value is its exit code.\<close>

definition exc_basic_main :: "int \<Rightarrow> int thrower" where
  "exc_basic_main c =
     seq (try_catch (seq (MyFunc c) (\<lambda>_ out. (Inr None, out))) (\<lambda>k. k = InvalidArgument)
            (\<lambda>e. seq (say (Cerr (''catch '' @ exc_what e))) (\<lambda>_ out. (Inr (Some (-1)), out))))
       (\<lambda>returned. case returned of
          Some code \<Rightarrow> (\<lambda>out. (Inr code, out))
        | None \<Rightarrow> seq (say (Cout ''end'')) (\<lambda>_ out. (Inr 0, out)))"

subsection \<open>demo2: a class of one's own\<close>

definition check_y :: "int \<Rightarrow> unit thrower" where
  "check_y y =
     (if y = 0 then throw (Exc MyException ''ERROR! Don't divide a number by integer zero.'' None) else (\<lambda>out. (Inr (), out)))"

text \<open>The division of two numbers of 32 bits; \<open>None\<close> when it has no value.\<close>

definition div32 :: "int \<Rightarrow> int \<Rightarrow> int option" where
  "div32 x y = (if y = 0 \<or> x = - (2 ^ 31) \<and> y = -1 then None else Some (x sdiv y))"

definition exc_custom_main :: "int \<Rightarrow> int \<Rightarrow> line list \<Rightarrow> ((exc + int) \<times> line list) option" where
  "exc_custom_main x y out =
     (case check_y y out of
        (Inl e, o1) \<Rightarrow>
          Some (if exc_class e = MyException
                then (Inr (-1), o1 @ [Cout (exc_what e), Cout ''finish exception'']) else (Inl e, o1))
      | (Inr _, o1) \<Rightarrow>
          (case div32 x y of None \<Rightarrow> None | Some q \<Rightarrow> Some (Inr 0, o1 @ [CoutInt q, Cout ''finish ok''])))"

subsection \<open>demo3: a pointer to an exception\<close>

text \<open>\<open>rethrow_exception\<close> of a null pointer is not defined.\<close>

definition rethrow_exception :: "exc option \<Rightarrow> 'a thrower option" where
  "rethrow_exception p = map_option throw p"

text \<open>
  \<open>main\<close> of \<open>demo3_exception_ptr.cpp\<close>, with the two texts as arguments; \<open>None\<close> when it rethrows a null pointer. A
  \<open>catch\<close> of \<open>std::exception\<close> covers \<open>std::logic_error\<close>.
\<close>

definition exc_ptr_catch :: "exc option \<Rightarrow> line list \<Rightarrow> line list option" where
  "exc_ptr_catch p out =
     (case rethrow_exception p of
        None \<Rightarrow> None
      | Some m \<Rightarrow> Some (snd (try_catch m std_exception (\<lambda>e. say (Cout (''exception caught: '' @ exc_what e))) out)))"

definition exc_ptr_main :: "string \<Rightarrow> string \<Rightarrow> line list \<Rightarrow> line list option" where
  "exc_ptr_main first second out =
     (let (p, o1) = (case throw (Exc LogicError first None) out of
                       (Inl e, o1) \<Rightarrow> (Some e, o1 @ [Cout ''exception caught, but continuing...''])
                     | (Inr (), o1) \<Rightarrow> (None, o1))
      in case exc_ptr_catch p (o1 @ [Cout ''(after exception)'']) of
           None \<Rightarrow> None
         | Some o2 \<Rightarrow> exc_ptr_catch (Some (Exc LogicError second None)) o2)"

subsection \<open>demo4: nested exceptions\<close>

definition throw_with_nested :: "exc \<Rightarrow> exc \<Rightarrow> 'a thrower" where
  "throw_with_nested current e = throw (Exc (exc_class e) (exc_what e) (Some current))"

definition throw_nested :: "unit thrower" where
  "throw_nested =
     try_catch (throw (Exc LogicError ''first'' None)) std_exception
       (\<lambda>e. throw_with_nested e (Exc LogicError ''second'' None))"

fun print_what :: "exc \<Rightarrow> line list" where
  "print_what (Exc k w None) = [Cout (''print_what, L10, what:'' @ w)]"
| "print_what (Exc k w (Some e)) = [Cout (''print_what, L10, what:'' @ w), Cerr ''nested: ''] @ print_what e"

definition exc_nested_main :: "unit thrower" where
  "exc_nested_main =
     try_catch (seq (say (Cout ''main, L30'')) (\<lambda>_. throw_nested)) std_exception
       (\<lambda>e out. (Inr (), out @ [Cout ''main, L33''] @ print_what e))"

text \<open>The texts of an exception and of those nested in it, and the levels.\<close>

fun exc_chain :: "exc \<Rightarrow> string list" where
  "exc_chain (Exc k w None) = [w]"
| "exc_chain (Exc k w (Some e)) = w # exc_chain e"

lemma print_what_chain:
  "filter (\<lambda>l. \<exists>s. l = Cout s) (print_what e) = map (\<lambda>w. Cout (''print_what, L10, what:'' @ w)) (exc_chain e) \<and>
   length (filter (\<lambda>l. l = Cerr ''nested: '') (print_what e)) + 1 = length (exc_chain e)"
  by (induction e rule: print_what.induct) simp_all

text \<open>
  The programs with exceptions. The first returns -1 with the text of the exception exactly when its argument is
  greater than the largest \<open>char\<close>; the second never divides by zero, whatever its two numbers are, and its only
  division without a value is that of the least number by -1; a pointer to an exception keeps it after
  its handler; \<open>print_what\<close> prints every text of a chain of nested exceptions, from the outside in, each once.
\<close>

theorem exception_programs:
  "exc_basic_main c out =
     (if 127 < c then (Inr (-1), out @ [Cerr ''catch throw MyFunc argument too large.'']) else (Inr 0, out @ [Cout ''end''])) \<and>
   (exc_custom_main x y out = None \<longleftrightarrow> x = - (2 ^ 31) \<and> y = -1) \<and>
   exc_custom_main x 0 out =
     Some (Inr (-1), out @ [Cout ''ERROR! Don't divide a number by integer zero.'', Cout ''finish exception'']) \<and>
   exc_ptr_main a b out =
     Some (out @ [Cout ''exception caught, but continuing...'', Cout ''(after exception)'',
       Cout (''exception caught: '' @ a), Cout (''exception caught: '' @ b)]) \<and>
   filter (\<lambda>l. \<exists>s. l = Cout s) (print_what e) = map (\<lambda>w. Cout (''print_what, L10, what:'' @ w)) (exc_chain e) \<and>
   exc_nested_main out =
     (Inr (), out @ [Cout ''main, L30'', Cout ''main, L33'', Cout ''print_what, L10, what:second'', Cerr ''nested: '',
       Cout ''print_what, L10, what:first''])"
  using print_what_chain [of e]
  by (simp add: exc_basic_main_def MyFunc_def CHAR_MAX_def try_catch_def seq_def say_def throw_def exc_custom_main_def
      check_y_def div32_def exc_ptr_main_def exc_ptr_catch_def rethrow_exception_def exc_nested_main_def throw_nested_def
      throw_with_nested_def)

section \<open>Jumps\<close>

text \<open>
  What code does: it goes on, it jumps to the last \<open>setjmp\<close> with a value, or it jumps where there is nothing to
  jump to, which is not defined. The state has the lines printed and the thread whose active function called
  \<open>setjmp\<close>, if there is one.
\<close>

datatype 'a jump = Ends 'a | Jumps int | Undef

record jstate =
  j_out :: "string list"
  j_env :: "nat option"

type_synonym 'a jumper = "jstate \<Rightarrow> 'a jump \<times> jstate"

definition j_say :: "string \<Rightarrow> unit jumper" where
  "j_say l s = (Ends (), s\<lparr>j_out := j_out s @ [l]\<rparr>)"

definition j_seq :: "'a jumper \<Rightarrow> 'b jumper \<Rightarrow> 'b jumper" where
  "j_seq m f s = (case m s of (Ends _, s1) \<Rightarrow> f s1 | (Jumps v, s1) \<Rightarrow> (Jumps v, s1) | (Undef, s1) \<Rightarrow> (Undef, s1))"

text \<open>\<open>longjmp\<close> by the thread \<open>t\<close>; the value 0 arrives as 1.\<close>

definition longjmp :: "nat \<Rightarrow> int \<Rightarrow> 'a jumper" where
  "longjmp t v s = (if j_env s = Some t then (Jumps (if v = 0 then 1 else v), s) else (Undef, s))"

text \<open>
  A function of the thread \<open>t\<close> with a \<open>setjmp\<close>: the rest of the function is run with 0, and again with the value of
  each jump; when it returns the environment is no longer valid. \<open>fuel\<close> bounds the jumps, \<open>None\<close> is more of them.
\<close>

fun setjmp_rest :: "nat \<Rightarrow> nat \<Rightarrow> (int \<Rightarrow> 'a jumper) \<Rightarrow> int \<Rightarrow> jstate \<Rightarrow> ('a jump \<times> jstate) option" where
  "setjmp_rest 0 t rest v s = None"
| "setjmp_rest (Suc fuel) t rest v s =
     (case rest v (s\<lparr>j_env := Some t\<rparr>) of
        (Jumps v', s1) \<Rightarrow> setjmp_rest fuel t rest v' s1
      | (r, s1) \<Rightarrow> Some (r, s1\<lparr>j_env := None\<rparr>))"

definition j_call :: "('a jump \<times> jstate) option \<Rightarrow> ('b jumper) \<Rightarrow> ('b jump \<times> jstate) option" where
  "j_call r rest =
     (case r of
        None \<Rightarrow> None
      | Some (Ends _, s) \<Rightarrow> Some (rest s)
      | Some (Jumps v, s) \<Rightarrow> Some (Jumps v, s)
      | Some (Undef, s) \<Rightarrow> Some (Undef, s))"

definition j_start :: jstate where
  "j_start = \<lparr>j_out = [], j_env = None\<rparr>"

text \<open>demo1: \<open>bar\<close> jumps back into \<open>foo\<close>.\<close>

definition lj1_bar :: "unit jumper" where
  "lj1_bar = j_seq (j_say ''bar: Before longjmp'') (j_seq (longjmp 0 1 :: unit jumper) (j_say ''bar: After longjmp''))"

definition lj1_foo :: "nat \<Rightarrow> jstate \<Rightarrow> (unit jump \<times> jstate) option" where
  "lj1_foo fuel s =
     setjmp_rest fuel 0
       (\<lambda>v. j_seq (if v = 0 then lj1_bar else (\<lambda>s. (Ends (), s))) (j_say ''foo: After bar'')) 0
       (snd (j_say ''foo: Before setjmp'' s))"

definition lj1_main :: "nat \<Rightarrow> (unit jump \<times> jstate) option" where
  "lj1_main fuel = j_call (lj1_foo fuel (snd (j_say ''main: Before foo'' j_start))) (j_say ''main: After foo'')"

text \<open>demo2: \<open>foo\<close> jumps before it has called \<open>setjmp\<close>.\<close>

definition lj2_foo :: "nat \<Rightarrow> jstate \<Rightarrow> (unit jump \<times> jstate) option" where
  "lj2_foo fuel s =
     (case j_seq (j_say ''bar: Before longjmp'')
             (j_seq (longjmp 0 1 :: unit jumper) (j_seq (j_say ''bar: After longjmp'') (j_say ''foo: Before setjmp''))) s of
        (Ends _, s1) \<Rightarrow> setjmp_rest fuel 0 (\<lambda>v. j_say ''foo: After setjmp'') 0 s1
      | r \<Rightarrow> Some r)"

definition lj2_main :: "nat \<Rightarrow> (unit jump \<times> jstate) option" where
  "lj2_main fuel = j_call (lj2_foo fuel (snd (j_say ''main: Before foo'' j_start))) (j_say ''main: After foo'')"

text \<open>demo3: a thread jumps to the \<open>setjmp\<close> of another one, while that one waits for it in \<open>pthread_join\<close>.\<close>

definition lj3_thread :: "unit jumper" where
  "lj3_thread = j_seq (j_say ''Thread: Before longjmp'') (j_seq (longjmp 1 1 :: unit jumper) (j_say ''Thread: After longjmp''))"

definition lj3_main :: "nat \<Rightarrow> (unit jump \<times> jstate) option" where
  "lj3_main fuel =
     setjmp_rest fuel 0
       (\<lambda>v. if v = 0 then j_seq (j_say ''Main: Before thread creation'') (j_seq lj3_thread (j_say ''Main: After thread join''))
            else j_say ''Main: After longjmp'') 0 j_start"

text \<open>demo5: the handler of a signal that the program raises jumps.\<close>

definition lj5_handler :: "int \<Rightarrow> unit jumper" where
  "lj5_handler signo = j_seq (j_say (if signo = 2 then ''Caught signal 2'' else ''Caught signal'')) (longjmp 0 1)"

definition lj5_main :: "nat \<Rightarrow> (unit jump \<times> jstate) option" where
  "lj5_main fuel =
     setjmp_rest fuel 0
       (\<lambda>v. if v = 0 then j_seq (j_say ''Before longjmp'') (lj5_handler 2) else j_say ''After longjmp'') 0 j_start"

text \<open>
  The programs with jumps end after one jump: what stands behind the jump is never printed and the function that called
  \<open>setjmp\<close> goes on; a jump before \<open>setjmp\<close>, and one to the \<open>setjmp\<close> of another thread, is not defined.
\<close>

theorem longjmp_programs:
  "lj1_main (fuel + 2) =
     Some (Ends (), \<lparr>j_out = [''main: Before foo'', ''foo: Before setjmp'', ''bar: Before longjmp'', ''foo: After bar'', ''main: After foo''],
       j_env = None\<rparr>) \<and>
   (\<exists>s. lj2_main fuel = Some (Undef, s) \<and> j_out s = [''main: Before foo'', ''bar: Before longjmp'']) \<and>
   (\<exists>s. lj3_main (fuel + 1) = Some (Undef, s) \<and> j_out s = [''Main: Before thread creation'', ''Thread: Before longjmp'']) \<and>
   lj5_main (fuel + 2) = Some (Ends (), \<lparr>j_out = [''Before longjmp'', ''Caught signal 2'', ''After longjmp''], j_env = None\<rparr>)"
  by (simp add: lj1_main_def lj1_foo_def lj1_bar_def lj2_main_def lj2_foo_def lj3_main_def lj3_thread_def lj5_main_def
      lj5_handler_def j_call_def j_seq_def j_say_def longjmp_def j_start_def numeral_2_eq_2)

subsection \<open>demo4: variables after a jump\<close>

record lj4_vars =
  globval :: int
  autoval :: int
  regival :: int
  volaval :: int
  statval :: int

datatype lj4_line = InF1 int int int int int | AfterLongjmp int int int int int

text \<open>
  \<open>main\<close> of \<open>demo4_longjmp_stack_recovery.c\<close>: the variables before and after the change, the line that \<open>f1\<close> prints
  and the one printed after the jump of \<open>f2\<close>. What the jump leaves of an automatic variable that is not
  volatile and was changed is indeterminate: \<open>ind\<close> is any two values.
\<close>

definition lj4_init :: lj4_vars where
  "lj4_init = \<lparr>globval = 1, autoval = 2, regival = 3, volaval = 4, statval = 5\<rparr>"

definition lj4_change :: "lj4_vars \<Rightarrow> lj4_vars" where
  "lj4_change v = v\<lparr>globval := 95, autoval := 96, regival := 97, volaval := 98, statval := 99\<rparr>"

definition lj4_f1 :: "lj4_vars \<Rightarrow> int \<Rightarrow> int \<Rightarrow> int \<Rightarrow> int \<Rightarrow> lj4_line" where
  "lj4_f1 v i j k l = InF1 (globval v) i j k l"

definition lj4_longjmp :: "int \<times> int \<Rightarrow> lj4_vars \<Rightarrow> lj4_vars" where
  "lj4_longjmp ind v = v\<lparr>autoval := fst ind, regival := snd ind\<rparr>"

definition lj4_main :: "int \<times> int \<Rightarrow> lj4_line list" where
  "lj4_main ind =
     (let v = lj4_change lj4_init; w = lj4_longjmp ind v
      in [lj4_f1 v (autoval v) (regival v) (volaval v) (statval v),
          AfterLongjmp (globval w) (autoval w) (regival w) (volaval w) (statval w)])"

text \<open>
  After the jump the global, the static and the volatile variable have the values stored before it, whatever
  happens to the others.
\<close>

theorem longjmp_variables:
  "\<exists>a r. lj4_main ind = [InF1 95 96 97 98 99, AfterLongjmp 95 a r 98 99]"
  by (simp add: lj4_main_def lj4_init_def lj4_change_def lj4_f1_def lj4_longjmp_def Let_def)

end
