(* ===== verification/Explore.thy ===== *)
theory Explore
  imports Monitor
begin

text \<open>
  Exploration of a program with finitely many states. \<open>explore\<close> follows the successors of a state
  until nothing new is found; what holds of every state it returns is an invariant of the program.
  The fuel only bounds the search: with too little of it states are left to visit, and nothing
  follows.
\<close>

type_synonym 's search = "'s list \<times> 's list"    \<comment> \<open>states to visit, states seen\<close>

definition explore_step :: "('s \<Rightarrow> 's list) \<Rightarrow> 's search \<Rightarrow> 's search" where
  "explore_step succ x =
     (case x of
        ([], seen) \<Rightarrow> x
      | (s # todo, seen) \<Rightarrow> if s \<in> set seen then (todo, seen) else (succ s @ todo, s # seen))"

text \<open>At most \<open>2 ^ n\<close> steps.\<close>

fun explore :: "nat \<Rightarrow> ('s \<Rightarrow> 's list) \<Rightarrow> 's search \<Rightarrow> 's search" where
  "explore 0 succ x = explore_step succ x"
| "explore (Suc n) succ x = (if fst x = [] then x else explore n succ (explore n succ x))"

definition holds_always :: "nat \<Rightarrow> ('s \<Rightarrow> 's list) \<Rightarrow> 's \<Rightarrow> ('s \<Rightarrow> bool) \<Rightarrow> bool" where
  "holds_always n succ s0 P = (case explore n succ ([s0], []) of (todo, seen) \<Rightarrow> todo = [] \<and> list_all P seen)"

text \<open>Successors of what was seen are seen or still to be visited; nothing is forgotten.\<close>

definition searching :: "('s \<Rightarrow> 's list) \<Rightarrow> 's \<Rightarrow> 's search \<Rightarrow> bool" where
  "searching succ s0 x \<longleftrightarrow> s0 \<in> set (fst x) \<union> set (snd x) \<and>
     (\<forall>s s'. s \<in> set (snd x) \<longrightarrow> s' \<in> set (succ s) \<longrightarrow> s' \<in> set (fst x) \<union> set (snd x))"

lemma explore_step_searching: "searching succ s0 x \<Longrightarrow> searching succ s0 (explore_step succ x)"
  by (cases x; cases "fst x") (auto simp: searching_def explore_step_def)

lemma explore_searching: "searching succ s0 x \<Longrightarrow> searching succ s0 (explore n succ x)"
  by (induction n arbitrary: x) (auto intro: explore_step_searching)

text \<open>The states a component reaches are among those explored from its initial state.\<close>

locale explored =
  fixes init :: "'s \<Rightarrow> bool" and step :: "'s \<Rightarrow> 's \<Rightarrow> bool" and s0 :: 's and succ :: "'s \<Rightarrow> 's list"
  assumes one_start: "init s \<Longrightarrow> s = s0" and successors: "step s s' \<Longrightarrow> s' \<in> set (succ s)"
begin

lemma always:
  assumes "holds_always n succ s0 P" "reachable init step s"
  shows "P s"
proof -
  obtain S where S: "explore n succ ([s0], []) = ([], S)" "list_all P S"
    using assms(1) by (auto simp: holds_always_def split: prod.splits)
  have "searching succ s0 ([], S)" using explore_searching [of succ s0 "([s0], [])" n] S(1) by (simp add: searching_def)
  then have c: "s0 \<in> set S" "\<And>s s'. s \<in> set S \<Longrightarrow> s' \<in> set (succ s) \<Longrightarrow> s' \<in> set S" by (auto simp: searching_def)
  have "s \<in> set S" using assms(2)
    by (rule reachable_invariant) (use one_start successors c in blast)+
  then show ?thesis using S(2) by (simp add: list_all_iff)
qed

end

end
