(* ===== verification/ThreadDemo.thy ===== *)
theory ThreadDemo
  imports Explore
begin

text \<open>
  The programs \<open>demo1_thread_quickstart.cpp\<close> and \<open>demo2_thread_basic.cpp\<close> under \<open>src/thread\<close>: objects
  of \<open>std::thread\<close>, from construction over moves to \<open>join\<close>, \<open>detach\<close> and destruction. A thread object
  is the number of the thread it owns, or \<open>None\<close> when it is not joinable; a thread is the list of
  the actions of its function that are left. \<open>sleep_for\<close> gives no order between threads and is a step
  without effect. The lines of the detached thread are kept apart from the others, since nothing
  orders them. The process ends when \<open>main\<close> returns, whatever other threads are left.
\<close>

datatype th_line =
    Sum10 int                 \<comment> \<open>\<open>this is thread_fun1, a + 10 =\<close>\<close>
  | MainA int                 \<comment> \<open>\<open>main thread, a =\<close>\<close>
  | Head nat                  \<comment> \<open>the heading of a part of \<open>main\<close>\<close>
  | Func1Into | Func2Sum int | Func3Addr nat | Main3 nat int
  | Func4 string int
  | Func5Into | Func5Leave | Main5End
  | Func6

datatype th_act =
    ThPrint th_line
  | ThPrintFree th_line       \<comment> \<open>a line of the detached thread\<close>
  | ThAdd nat int             \<comment> \<open>add to a variable passed by reference\<close>
  | ThPrintAdd nat int        \<comment> \<open>the same, and print the result\<close>
  | ThPrintName int           \<comment> \<open>print the name of the object the thread was given\<close>
  | ThSleep

datatype th_op =
    Spawn nat "th_act list"
  | JoinT nat
  | DetachT nat
  | MoveConstruct nat nat     \<comment> \<open>the new object and the one moved from\<close>
  | MoveAssign nat nat
  | Destroy "nat list"        \<comment> \<open>the end of the scope of these objects\<close>
  | MainPrint th_line
  | PrintA nat | Print3 nat   \<comment> \<open>lines with the value of a variable\<close>
  | SetVar nat int
  | NewA | SetName string | DeleteA
  | MainSleep

datatype th_err = NotJoinable | Terminated | UseAfterFree

record th_state =
  th_pc :: nat                       \<comment> \<open>calls of \<open>main\<close> made\<close>
  th_objs :: "nat option list"
  th_threads :: "th_act list list"
  th_vars :: "int list"
  th_A :: "string option"
  th_out :: "th_line list"
  th_free :: "th_line list"
  th_err :: "th_err option"

definition th_fail :: "th_err \<Rightarrow> th_state \<Rightarrow> th_state" where
  "th_fail er s = s\<lparr>th_err := Some er\<rparr>"

definition th_print :: "th_line \<Rightarrow> th_state \<Rightarrow> th_state" where
  "th_print l s = s\<lparr>th_out := th_out s @ [l]\<rparr>"

fun th_op_step :: "th_op \<Rightarrow> th_state \<Rightarrow> th_state option" where
  "th_op_step (Spawn v body) s =
     Some (s\<lparr>th_objs := (th_objs s)[v := Some (length (th_threads s))], th_threads := th_threads s @ [body]\<rparr>)"
| "th_op_step (JoinT v) s =
     (case th_objs s ! v of
        None \<Rightarrow> Some (th_fail NotJoinable s)
      | Some t \<Rightarrow> if th_threads s ! t = [] then Some (s\<lparr>th_objs := (th_objs s)[v := None]\<rparr>) else None)"
| "th_op_step (DetachT v) s =
     (case th_objs s ! v of
        None \<Rightarrow> Some (th_fail NotJoinable s)
      | Some t \<Rightarrow> Some (s\<lparr>th_objs := (th_objs s)[v := None]\<rparr>))"
| "th_op_step (MoveConstruct v w) s =
     Some (s\<lparr>th_objs := (th_objs s)[v := th_objs s ! w, w := None]\<rparr>)"
| "th_op_step (MoveAssign v w) s =
     Some (if th_objs s ! v \<noteq> None then th_fail Terminated s
           else s\<lparr>th_objs := (th_objs s)[v := th_objs s ! w, w := None]\<rparr>)"
| "th_op_step (Destroy vs) s = Some (if list_all (\<lambda>v. th_objs s ! v = None) vs then s else th_fail Terminated s)"
| "th_op_step (MainPrint l) s = Some (th_print l s)"
| "th_op_step (PrintA x) s = Some (th_print (MainA (th_vars s ! x)) s)"
| "th_op_step (Print3 x) s = Some (th_print (Main3 x (th_vars s ! x)) s)"
| "th_op_step (SetVar x n) s = Some (s\<lparr>th_vars := (th_vars s)[x := n]\<rparr>)"
| "th_op_step NewA s = Some (s\<lparr>th_A := Some []\<rparr>)"
| "th_op_step (SetName name) s =
     Some (case th_A s of None \<Rightarrow> th_fail UseAfterFree s | Some _ \<Rightarrow> s\<lparr>th_A := Some name\<rparr>)"
| "th_op_step DeleteA s =
     Some (case th_A s of None \<Rightarrow> th_fail UseAfterFree s | Some _ \<Rightarrow> s\<lparr>th_A := None\<rparr>)"
| "th_op_step MainSleep s = Some s"

fun th_act_step :: "th_act \<Rightarrow> th_state \<Rightarrow> th_state" where
  "th_act_step (ThPrint l) s = th_print l s"
| "th_act_step (ThPrintFree l) s = s\<lparr>th_free := th_free s @ [l]\<rparr>"
| "th_act_step (ThAdd x n) s = s\<lparr>th_vars := (th_vars s)[x := th_vars s ! x + n]\<rparr>"
| "th_act_step (ThPrintAdd x n) s =
     (let y = th_vars s ! x + n in th_print (Sum10 y) (s\<lparr>th_vars := (th_vars s)[x := y]\<rparr>))"
| "th_act_step (ThPrintName i) s =
     (case th_A s of None \<Rightarrow> th_fail UseAfterFree s | Some name \<Rightarrow> th_print (Func4 name i) s)"
| "th_act_step ThSleep s = s"

definition main_succ :: "th_op list \<Rightarrow> th_state \<Rightarrow> th_state list" where
  "main_succ prog s = (case th_op_step (prog ! th_pc s) (s\<lparr>th_pc := th_pc s + 1\<rparr>) of None \<Rightarrow> [] | Some s' \<Rightarrow> [s'])"

definition thread_succ :: "th_state \<Rightarrow> nat \<Rightarrow> th_state list" where
  "thread_succ s t =
     (case th_threads s ! t of
        [] \<Rightarrow> []
      | a # as \<Rightarrow> [th_act_step a (s\<lparr>th_threads := (th_threads s)[t := as]\<rparr>)])"

definition th_succ :: "th_op list \<Rightarrow> th_state \<Rightarrow> th_state list" where
  "th_succ prog s =
     (if th_pc s = length prog \<or> th_err s \<noteq> None then []
      else main_succ prog s @ concat (map (thread_succ s) [0..<length (th_threads s)]))"

definition th_step :: "th_op list \<Rightarrow> th_state \<Rightarrow> th_state \<Rightarrow> bool" where
  "th_step prog s s' \<longleftrightarrow> s' \<in> set (th_succ prog s)"

definition th_new :: "nat \<Rightarrow> nat \<Rightarrow> th_state" where
  "th_new nobjs nvars = \<lparr>th_pc = 0, th_objs = replicate nobjs None, th_threads = [], th_vars = replicate nvars 0,
     th_A = None, th_out = [], th_free = [], th_err = None\<rparr>"

section \<open>The programs\<close>

definition thread_fun1 :: "nat \<Rightarrow> th_act list" where
  "thread_fun1 a = [ThPrintAdd a 10]"

text \<open>\<open>t1\<close>, \<open>t2\<close>, \<open>t3\<close> are the objects 0, 1, 2 and \<open>a\<close> is variable 0.\<close>

definition quick_test1 :: "th_op list" where
  "quick_test1 =
     [SetVar 0 10, Spawn 0 (thread_fun1 0), MoveConstruct 1 0, MoveAssign 2 1, JoinT 2, PrintA 0,
      Destroy [2, 1, 0]]"

definition bfunc1 :: "th_act list" where "bfunc1 = [ThPrint Func1Into]"

definition bfunc2 :: "int \<Rightarrow> int \<Rightarrow> th_act list" where "bfunc2 a b = [ThPrint (Func2Sum (a + b))]"

definition bfunc3 :: "nat \<Rightarrow> th_act list" where "bfunc3 c = [ThPrint (Func3Addr c), ThAdd c 10]"

definition bfunc4 :: "int \<Rightarrow> th_act list" where "bfunc4 a = [ThSleep, ThPrintName a]"

definition bfunc5 :: "th_act list" where "bfunc5 = [ThPrintFree Func5Into, ThSleep, ThPrintFree Func5Leave]"

definition bfunc6 :: "th_act list" where "bfunc6 = [ThPrint Func6]"

text \<open>\<open>t1\<close> to \<open>t5\<close>, \<open>t6_1\<close>, \<open>t6_2\<close> are the objects 0 to 6 and \<open>c\<close> is variable 0.\<close>

definition basic_main :: "th_op list" where
  "basic_main =
     [MainPrint (Head 1), Spawn 0 bfunc1, JoinT 0,
      MainPrint (Head 2), Spawn 1 (bfunc2 10 20), JoinT 1,
      MainPrint (Head 3), SetVar 0 10, Spawn 2 (bfunc3 0), JoinT 2, Print3 0,
      MainPrint (Head 4), NewA, SetName ''darren'', Spawn 3 (bfunc4 10), JoinT 3, DeleteA,
      MainPrint (Head 5), Spawn 4 bfunc5, DetachT 4, MainSleep, MainPrint Main5End,
      MainPrint (Head 6), Spawn 5 bfunc6, MoveConstruct 6 5, JoinT 6,
      Destroy [6, 5, 4, 3, 2, 1, 0]]"

definition quick_init :: "th_state \<Rightarrow> bool" where
  "quick_init s \<longleftrightarrow> s = th_new 3 1"

definition basic_init :: "th_state \<Rightarrow> bool" where
  "basic_init s \<longleftrightarrow> s = th_new 7 1"

interpretation qe: explored quick_init "th_step quick_test1" "th_new 3 1" "th_succ quick_test1"
  by unfold_locales (simp_all add: quick_init_def th_step_def)

interpretation be: explored basic_init "th_step basic_main" "th_new 7 1" "th_succ basic_main"
  by unfold_locales (simp_all add: basic_init_def th_step_def)

definition quick_ok :: "th_state \<Rightarrow> bool" where
  "quick_ok s \<longleftrightarrow> th_err s = None \<and>
     (if th_pc s = length quick_test1 then th_out s = [Sum10 20, MainA 20] \<and> th_threads s = [[]]
      else th_succ quick_test1 s \<noteq> [])"

definition basic_ok :: "th_state \<Rightarrow> bool" where
  "basic_ok s \<longleftrightarrow> th_err s = None \<and> th_free s \<in> {[], [Func5Into], [Func5Into, Func5Leave]} \<and>
     (if th_pc s = length basic_main then
        th_out s = [Head 1, Func1Into, Head 2, Func2Sum 30, Head 3, Func3Addr 0, Main3 0 20, Head 4, Func4 ''darren'' 10,
          Head 5, Main5End, Head 6, Func6] \<and> th_A s = None
      else th_succ basic_main s \<noteq> [])"

lemma quick_explored: "holds_always 6 (th_succ quick_test1) (th_new 3 1) quick_ok"
  by code_simp

lemma basic_explored: "holds_always 8 (th_succ basic_main) (th_new 7 1) basic_ok"
  by code_simp

section \<open>Properties of the programs\<close>

text \<open>The \<open>join\<close> that \<open>demo2_thread_basic.cpp\<close> has in a comment: after the move the old object throws.\<close>

lemma join_after_move:
  assumes "v < length (th_objs s)" "w < length (th_objs s)" "v \<noteq> w"
  shows "\<exists>s'. th_op_step (MoveConstruct v w) s = Some s' \<and> th_op_step (JoinT w) s' = Some (th_fail NotJoinable s')"
  using assms by simp

text \<open>
  Both programs, for every interleaving of their threads: no \<open>join\<close> or \<open>detach\<close> of an object that
  does not own a thread, no destruction or assignment of one that does, no use of the deleted object, and no
  state in which \<open>main\<close> waits for ever. The additions made through references are seen after the
  join and the lines of the joined threads come in the order of the program; of the detached thread
  some initial part of its lines may be printed before \<open>main\<close> ends.
\<close>

theorem thread_programs_correct:
  "(reachable quick_init (th_step quick_test1) s \<longrightarrow> quick_ok s) \<and>
   (reachable basic_init (th_step basic_main) s' \<longrightarrow> basic_ok s')"
  using qe.always [OF quick_explored] be.always [OF basic_explored] by blast

theorem thread_programs_correct_witness: "quick_ok (th_new 3 1) \<and> basic_ok (th_new 7 1)"
  using thread_programs_correct [of "th_new 3 1" "th_new 7 1"]
  by (simp add: reach_init quick_init_def basic_init_def)

end
