(* ===== verification/Closures.thy ===== *)
theory Closures
  imports Complex_Main Prelude
begin

text \<open>
  Function objects: the lambda expressions of \<open>src/lambda/demo1_lambda.cpp\<close>, \<open>std::bind\<close> in
  \<open>src/concurrent_tools/demo3_bind.cpp\<close>, the packs of \<open>src/variable_parameter/\<close>, and the references of \<open>src/rvalue_reference/rvalue_reference.cpp\<close> and
  \<open>demo3_forward.cpp\<close>. Variables are places of a store.
\<close>

type_synonym place = nat
type_synonym vars = "place \<Rightarrow> int"

section \<open>Captures\<close>

text \<open>
  What a lambda expression captures: a copy of the value, made where the expression stands, or the place of the
  variable. The closure has the captures in order; a \<open>mutable\<close> closure changes its own copies.
\<close>

datatype capture = ByValue int | ByReference place

definition cap_value :: "place \<Rightarrow> vars \<Rightarrow> capture" where
  "cap_value x s = ByValue (s x)"

definition cap_read :: "capture \<Rightarrow> vars \<Rightarrow> int" where
  "cap_read c s = (case c of ByValue v \<Rightarrow> v | ByReference x \<Rightarrow> s x)"

definition cap_write :: "capture \<Rightarrow> int \<Rightarrow> vars \<Rightarrow> capture \<times> vars" where
  "cap_write c v s = (case c of ByValue _ \<Rightarrow> (ByValue v, s) | ByReference x \<Rightarrow> (c, s(x := v)))"

text \<open>The bodies of the closures: \<open>c + d\<close> of two captures, with the line they print, and \<open>++v\<close> of one.\<close>

definition call_sum :: "capture \<Rightarrow> capture \<Rightarrow> vars \<Rightarrow> int list \<times> int" where
  "call_sum c d s = ([cap_read c s, cap_read d s], cap_read c s + cap_read d s)"

definition call_incr :: "capture \<Rightarrow> vars \<Rightarrow> int \<times> capture \<times> vars" where
  "call_incr c s = (let v = cap_read c s + 1; (c', s') = cap_write c v s in (v, c', s'))"

text \<open>The functions of the program: the numbers they print. The variables \<open>c\<close>, \<open>d\<close> and \<open>v\<close> are the places 0, 1 and 0.\<close>

definition lam_test1 :: "int list" where
  "lam_test1 = (let Add = (\<lambda>a b. a + b) in [Add 1 2])"

definition lam_test2 :: "int list" where
  "lam_test2 = (let Add = (\<lambda>a b. a + b) in [Add 1 2])"

definition lam_test3 :: "int list" where
  "lam_test3 =
     (let s = (\<lambda>_. 0)(0 := 12, 1 := 30); c = cap_value 0 s; d = cap_value 1 s; s = s(0 := 5, 1 := 20);
          (printed, r) = call_sum c d s
      in printed @ [r])"

definition lam_test4 :: "int list" where
  "lam_test4 =
     (let s = (\<lambda>_. 0)(0 := 12, 1 := 30); c = ByReference 0; d = ByReference 1; s = s(0 := 5, 1 := 20);
          (printed, r) = call_sum c d s
      in printed @ [r])"

text \<open>An implicit capture \<open>[&]\<close> captures by reference the variables that the body names.\<close>

definition lam_test5 :: "int list" where
  "lam_test5 = lam_test4"

definition lam_test6 :: "int list" where
  "lam_test6 = (let c = 12; d = 30; Add = (\<lambda>a b. ([a, b], a + b)); (printed, r) = Add c d in printed @ [r])"

text \<open>\<open>important\<close> is moved into the closure: the pointer left behind is null, so that the program prints \<open>moved\<close>.\<close>

definition lam_test7 :: "bool \<times> int" where
  "lam_test7 =
     (let important = Some (4 :: int); v1 = 3; v2 = important; important = (None :: int option);
          Add = (\<lambda>a b. a + b + v1 + the v2)
      in (important = None, Add 1 2))"

text \<open>The generic lambda is one body at two types; \<open>rnd\<close> is the rounding of \<open>double\<close>.\<close>

definition generic_add :: "'a \<Rightarrow> 'a \<Rightarrow> ('a :: plus)" where
  "generic_add a b = a + b"

definition lam_test8 :: "(rat \<Rightarrow> rat) \<Rightarrow> int \<times> rat" where
  "lam_test8 rnd = (generic_add 1 2, rnd (generic_add (rnd (12 / 10)) (rnd (23 / 10))))"

text \<open>A rounding that is off by at most \<open>e\<close> at each of the three places gives 3.5 up to \<open>3 * e\<close>.\<close>

lemma lam_test8_close:
  assumes "\<And>x. \<bar>rnd x - x\<bar> \<le> e"
  shows "fst (lam_test8 rnd) = 3 \<and> \<bar>snd (lam_test8 rnd) - 35 / 10\<bar> \<le> 3 * e"
  using assms [of "12 / 10"] assms [of "23 / 10"] assms [of "rnd (12 / 10) + rnd (23 / 10)"]
  by (simp add: lam_test8_def generic_add_def)

definition lam_test9 :: "int list" where
  "lam_test9 =
     (let s = (\<lambda>_. 0)(0 := 5); l1 = cap_value 0 s; s = s(0 := 0); (r1, l1, s) = call_incr l1 s;
          l2 = ByReference 0; s = s(0 := 0); (r2, l2, s) = call_incr l2 s
      in [r1, r2])"

text \<open>\<open>main\<close> calls the last one; the other calls are in comments.\<close>

definition lambda_main :: "int list" where
  "lambda_main = lam_test9"

fun calls :: "nat \<Rightarrow> capture \<Rightarrow> vars \<Rightarrow> int list \<times> capture \<times> vars" where
  "calls 0 c s = ([], c, s)"
| "calls (Suc n) c s = (let (v, c1, s1) = call_incr c s; (vs, c2, s2) = calls n c1 s1 in (v # vs, c2, s2))"

lemma calls_value: "calls n (ByValue v) s = (map (\<lambda>i. v + 1 + int i) [0..<n], ByValue (v + int n), s)"
proof (induction n arbitrary: v)
  case (Suc n)
  have "map (\<lambda>i. v + 1 + int i) [0..<Suc n] = (v + 1) # map (\<lambda>i. v + 1 + 1 + int i) [0..<n]"
    by (simp add: map_upt_Suc ac_simps del: upt_Suc)
  then show ?case by (simp add: call_incr_def cap_read_def cap_write_def Suc.IH Let_def algebra_simps del: upt_Suc)
qed simp

lemma calls_reference: "calls n (ByReference x) s = (map (\<lambda>i. s x + 1 + int i) [0..<n], ByReference x, s(x := s x + int n))"
proof (induction n arbitrary: s)
  case (Suc n)
  have "map (\<lambda>i. s x + 1 + int i) [0..<Suc n] = (s x + 1) # map (\<lambda>i. s x + 1 + 1 + int i) [0..<n]"
    by (simp add: map_upt_Suc ac_simps del: upt_Suc)
  then show ?case by (simp add: call_incr_def cap_read_def cap_write_def Suc.IH Let_def fun_eq_iff algebra_simps del: upt_Suc)
qed simp

text \<open>
  Captures. A captured value is the one the variable had where the lambda expression stands, whatever is stored in
  the variable later; a captured reference reads what was stored last. A mutable closure counts in its own copy
  and leaves the variable alone; one with a reference counts in the variable. The functions of the program
  print the numbers that their comments say.
\<close>

theorem lambda_captures:
  "cap_read (cap_value x s) (s(y := v)) = s x \<and> cap_read (ByReference x) (s(x := v)) = v \<and>
   calls n (cap_value x s) s' = (map (\<lambda>i. s x + 1 + int i) [0..<n], ByValue (s x + int n), s') \<and>
   calls n (ByReference x) s = (map (\<lambda>i. s x + 1 + int i) [0..<n], ByReference x, s(x := s x + int n)) \<and>
   lam_test1 = [3] \<and> lam_test3 = [12, 30, 42] \<and> lam_test4 = [5, 20, 25] \<and> lam_test5 = [5, 20, 25] \<and>
   lam_test6 = [12, 30, 42] \<and> lam_test7 = (True, 10) \<and> lam_test9 = [6, 1]"
  by (simp add: calls_value calls_reference cap_value_def cap_read_def cap_write_def call_sum_def call_incr_def lam_test1_def
      lam_test3_def lam_test4_def lam_test5_def lam_test6_def lam_test7_def lam_test9_def Let_def)

section \<open>Bound arguments\<close>

text \<open>
  An argument of \<open>std::bind\<close>: a value, of which the object keeps a copy, or a placeholder \<open>_1\<close>, \<open>_2\<close>, ... The copies
  are places of their own, so that a function with reference parameters changes them.
\<close>

datatype bind_arg = Bound int | Placeholder nat

datatype loc = Var place | Copy nat

record bstore =
  bs_vars :: vars
  bs_copies :: "nat \<Rightarrow> int"

definition b_get :: "loc \<Rightarrow> bstore \<Rightarrow> int" where
  "b_get l s = (case l of Var x \<Rightarrow> bs_vars s x | Copy i \<Rightarrow> bs_copies s i)"

definition b_set :: "loc \<Rightarrow> int \<Rightarrow> bstore \<Rightarrow> bstore" where
  "b_set l v s =
     (case l of
        Var x \<Rightarrow> s\<lparr>bs_vars := (bs_vars s)(x := v)\<rparr>
      | Copy i \<Rightarrow> s\<lparr>bs_copies := (bs_copies s)(i := v)\<rparr>)"

definition bind_new :: "bind_arg list \<Rightarrow> vars \<Rightarrow> bstore" where
  "bind_new args s =
     \<lparr>bs_vars = s, bs_copies = (\<lambda>i. if i < length args then (case args ! i of Bound v \<Rightarrow> v | Placeholder _ \<Rightarrow> 0) else 0)\<rparr>"

text \<open>
  A call with the actual arguments \<open>act\<close>: the parameter \<open>i\<close> is bound to the copy or to the place of the actual argument
  (the placeholder \<open>_k\<close> is the argument \<open>k - 1\<close>); there must be one for every placeholder, further ones are ignored.
\<close>

fun bind_resolve :: "nat \<Rightarrow> bind_arg list \<Rightarrow> place list \<Rightarrow> loc list option" where
  "bind_resolve i [] act = Some []"
| "bind_resolve i (Bound _ # as) act = map_option (Cons (Copy i)) (bind_resolve (i + 1) as act)"
| "bind_resolve i (Placeholder k # as) act =
     (if 1 \<le> k \<and> k \<le> length act then map_option (Cons (Var (act ! (k - 1)))) (bind_resolve (i + 1) as act) else None)"

text \<open>\<open>fun_1\<close> prints its three numbers; \<open>fun_2\<close> increments two references and prints them; \<open>fun_3\<close> prints a field and two numbers.\<close>

definition fun_1 :: "loc list \<Rightarrow> bstore \<Rightarrow> int list \<times> bstore" where
  "fun_1 ls s = (map (\<lambda>l. b_get l s) ls, s)"

definition fun_2 :: "loc list \<Rightarrow> bstore \<Rightarrow> int list \<times> bstore" where
  "fun_2 ls s =
     (case ls of
        [a, b] \<Rightarrow>
          let s1 = b_set a (b_get a s + 1) s; s2 = b_set b (b_get b s1 + 1) s1 in ([b_get a s2, b_get b s2], s2)
      | _ \<Rightarrow> ([], s))"

definition fun_3 :: "int \<Rightarrow> loc list \<Rightarrow> bstore \<Rightarrow> int list \<times> bstore" where
  "fun_3 field ls s = (field # map (\<lambda>l. b_get l s) ls, s)"

definition bind_call :: "(loc list \<Rightarrow> bstore \<Rightarrow> int list \<times> bstore) \<Rightarrow> bind_arg list \<Rightarrow> place list \<Rightarrow> bstore \<Rightarrow> (int list \<times> bstore) option" where
  "bind_call f args act s = map_option (\<lambda>ls. f ls s) (bind_resolve 0 args act)"

text \<open>
  The program: a temporary argument \<open>x\<close> of a call is a place that holds it. \<open>m\<close> and \<open>n\<close> are the places 0 and 1,
  the result is what the calls print and at the end \<open>m\<close> and \<open>n\<close>.
\<close>

definition tmp :: "int list \<Rightarrow> vars" where
  "tmp vs = (\<lambda>x. if x < length vs then vs ! x else 0)"

definition say_bind :: "(loc list \<Rightarrow> bstore \<Rightarrow> int list \<times> bstore) \<Rightarrow> bind_arg list \<Rightarrow> int list \<Rightarrow> int list option" where
  "say_bind f args actuals = map_option fst (bind_call f args [0..<length actuals] (bind_new args (tmp actuals)))"

definition bind_f4 :: "vars \<Rightarrow> (int list \<times> vars) option" where
  "bind_f4 s =
     (let args = [Placeholder 1, Bound (s 1)]
      in map_option (\<lambda>(out, b). (out @ [bs_vars b 0, bs_vars b 1], bs_vars b)) (bind_call fun_2 args [0] (bind_new args s)))"

definition bind_main :: "int list option list" where
  "bind_main =
     [say_bind fun_1 [Bound 1, Bound 2, Bound 3] [],
      say_bind fun_1 [Bound 10, Bound 20, Bound 30] [],
      say_bind fun_1 [Placeholder 1, Placeholder 2, Bound 3] [1, 2],
      say_bind fun_1 [Placeholder 1, Placeholder 2, Bound 3] [10, 21, 30],
      say_bind fun_1 [Placeholder 2, Placeholder 1, Bound 3] [1, 2],
      map_option fst (bind_f4 (tmp [2, 3])),
      say_bind (fun_3 10) [Placeholder 1, Placeholder 2] [10, 20],
      say_bind (fun_3 20) [Placeholder 1, Placeholder 2] [10, 20],
      say_bind (fun_3 10) [Placeholder 1, Placeholder 2] [10, 20]]"

text \<open>Calls of \<open>bind(fun_2, _1, n)\<close> one after another with the same object.\<close>

fun f4_calls :: "nat \<Rightarrow> place \<Rightarrow> bstore \<Rightarrow> bstore option" where
  "f4_calls 0 x b = Some b"
| "f4_calls (Suc k) x b = (case bind_call fun_2 [Placeholder 1, Bound 0] [x] b of None \<Rightarrow> None | Some (_, b1) \<Rightarrow> f4_calls k x b1)"

lemma bind_call_f4:
  "bind_call fun_2 [Placeholder 1, Bound v] [x] b =
    Some ([bs_vars b x + 1, bs_copies b 1 + 1],
      b\<lparr>bs_vars := (bs_vars b)(x := bs_vars b x + 1), bs_copies := (bs_copies b)(1 := bs_copies b 1 + 1)\<rparr>)"
  by (simp add: bind_call_def fun_2_def b_get_def b_set_def Let_def)

lemma f4_calls_effect:
  "f4_calls k x b =
    Some (b\<lparr>bs_vars := (bs_vars b)(x := bs_vars b x + int k), bs_copies := (bs_copies b)(1 := bs_copies b 1 + int k)\<rparr>)"
  by (induction k arbitrary: b) (simp_all add: bind_call_f4 [simplified] ac_simps)

text \<open>
  \<open>std::bind\<close>: calls of \<open>bind(fun_2, _1, n)\<close> change the variable that is passed and the copy of \<open>n\<close> in the object, and
  never \<open>n\<close>; arguments beyond the placeholders have no effect, a missing one is an error; the program prints what
  its comments say.
\<close>

theorem bind_program:
  "f4_calls k 0 (bind_new [Placeholder 1, Bound (s 1)] s) =
     Some \<lparr>bs_vars = s(0 := s 0 + int k), bs_copies = (bs_copies (bind_new [Placeholder 1, Bound (s 1)] s))(1 := s 1 + int k)\<rparr> \<and>
   say_bind fun_1 [Placeholder 1, Placeholder 2, Bound z] (x # y # extra) = Some [x, y, z] \<and>
   say_bind fun_1 [Placeholder 2, Placeholder 1, Bound z] (x # y # extra) = Some [y, x, z] \<and>
   say_bind fun_1 [Placeholder 1, Placeholder 2, Bound z] [x] = None \<and>
   bind_main = [Some [1, 2, 3], Some [10, 20, 30], Some [1, 2, 3], Some [10, 21, 3], Some [2, 1, 3], Some [3, 4, 3, 3],
     Some [10, 10, 20], Some [20, 10, 20], Some [10, 10, 20]]"
proof -
  have r: "bind_resolve 0 [Placeholder 1, Placeholder 2, Bound z] [0..<length (x # y # extra)] = Some [Var 0, Var 1, Copy 2]"
    "bind_resolve 0 [Placeholder 2, Placeholder 1, Bound z] [0..<length (x # y # extra)] = Some [Var 1, Var 0, Copy 2]"
    for x y z :: int and extra :: "int list"
    by (simp_all add: nth_upt del: upt_Suc)
  have "say_bind fun_1 [Placeholder 1, Placeholder 2, Bound z] [x] = None"
    by (simp add: say_bind_def bind_call_def)
  moreover have "bind_main = [Some [1, 2, 3], Some [10, 20, 30], Some [1, 2, 3], Some [10, 21, 3], Some [2, 1, 3], Some [3, 4, 3, 3],
     Some [10, 10, 20], Some [20, 10, 20], Some [10, 10, 20]]" by code_simp
  ultimately show ?thesis
    using r by (auto simp: f4_calls_effect say_bind_def bind_call_def fun_1_def b_get_def bind_new_def tmp_def simp del: upt_Suc)
qed

section \<open>References\<close>

text \<open>
  \<open>rvalue_reference.cpp\<close>: a reference of either kind is the place it is bound to; \<open>change\<close> stores 8 there, and for a
  temporary in a place of its own (1). The result of \<open>demo_right_ref\<close> is the three places it prints and the value of \<open>a\<close>.
\<close>

definition change :: "place \<Rightarrow> vars \<Rightarrow> vars" where
  "change right_value s = s(right_value := 8)"

definition demo_right_ref :: "place list \<times> int" where
  "demo_right_ref =
     (let a = 0; s = (\<lambda>_. 0)(a := 5); ref_a_left = a; ref_a_right = a;
          s = change a s; s = change ref_a_right s; s = change ref_a_left s; s = change 1 (s(1 := 5))
      in ([a, ref_a_left, ref_a_right], s a))"

definition rvalue_main :: int where
  "rvalue_main = (let temp = (0 :: place); s = (\<lambda>_. 0)(temp := 5); ref_a = temp; s = s(ref_a := 6) in s temp)"

text \<open>\<open>demo3_forward.cpp\<close>: whether an argument is an lvalue, and what overload resolution and \<open>forward\<close> make of it.\<close>

datatype category = LValue | RValue

definition fw_Print :: "category \<Rightarrow> int \<Rightarrow> category \<times> int" where
  "fw_Print c t = (c, t)"

definition std_move :: "category \<Rightarrow> category" where "std_move c = RValue"

text \<open>\<open>std::forward<T>\<close> inside \<open>func\<close> gives the category of the argument of \<open>func\<close>; \<open>std::forward<int>\<close> an rvalue.\<close>

definition fw_func :: "category \<Rightarrow> int \<Rightarrow> (category \<times> int) list" where
  "fw_func arg t = [fw_Print LValue t, fw_Print (std_move LValue) t, fw_Print arg t]"

definition forward_main :: "(category \<times> int) list list" where
  "forward_main = [fw_func RValue 1, fw_func LValue 10, fw_func RValue 20]"

theorem reference_programs:
  "demo_right_ref = ([0, 0, 0], 8) \<and> rvalue_main = 6 \<and>
   forward_main = [[(LValue, 1), (RValue, 1), (RValue, 1)], [(LValue, 10), (RValue, 10), (LValue, 10)],
     [(LValue, 20), (RValue, 20), (RValue, 20)]]"
  by (simp add: demo_right_ref_def change_def rvalue_main_def forward_main_def fw_func_def fw_Print_def std_move_def Let_def)

section \<open>Parameter packs\<close>

text \<open>
  The templates of \<open>src/variable_parameter/\<close>: a pack is the list of the texts that its elements print as.
  \<open>vp_f\<close> prints the number of its arguments (\<open>demo1\<close>); \<open>vp_print\<close> is the pair of functions of \<open>demo2\<close>, of which
  the one for a single argument ends the recursion; \<open>vp_expand\<close> is the expansion with the comma operator
  (\<open>demo3\<close>), from left to right, and \<open>vp_forward\<close> the one that calls a function (\<open>demo4\<close>).
\<close>

definition vp_f :: "string list \<Rightarrow> nat" where
  "vp_f args = length args"

fun vp_print :: "string list \<Rightarrow> string list" where
  "vp_print [] = []"
| "vp_print [t] = [t]"
| "vp_print (head # rest) = (''parameter '' @ head) # vp_print rest"

fun vp_expand :: "string list \<Rightarrow> string list" where
  "vp_expand [] = []"
| "vp_expand (a # args) = [a] @ vp_expand args"

fun vp_forward :: "('a \<Rightarrow> 's \<Rightarrow> 's) \<Rightarrow> 'a list \<Rightarrow> 's \<Rightarrow> 's" where
  "vp_forward f [] s = s"
| "vp_forward f (a # args) s = vp_forward f args (f a s)"

lemma vp_print_lines: "args \<noteq> [] \<Longrightarrow> vp_print args = map (\<lambda>a. ''parameter '' @ a) (butlast args) @ [last args]"
  by (induction args rule: vp_print.induct) simp_all

text \<open>Every element of a pack is printed exactly once, in order; all but the last one with the prefix in \<open>demo2\<close>.\<close>

theorem parameter_packs:
  "vp_f [] = 0 \<and> vp_f [''1'', ''2.5'', []] = 3 \<and> vp_expand args = args \<and> vp_forward (\<lambda>a out. out @ [a]) xs out = out @ xs \<and>
   vp_print (args @ [t]) = map (\<lambda>a. ''parameter '' @ a) args @ [t]"
proof -
  have "vp_expand args = args" by (induction args) simp_all
  moreover have "vp_forward (\<lambda>a out. out @ [a]) xs out = out @ xs" by (induction xs arbitrary: out) simp_all
  ultimately show ?thesis using vp_print_lines [of "args @ [t]"] by (simp add: vp_f_def)
qed

section \<open>Elements of a vector\<close>

text \<open>
  \<open>src/rvalue_reference/demo5_emplace_back.cpp\<close>: which constructors of \<open>Foo\<close> run for an element that is appended to a
  vector with room for it. An element keeps its name; a moved-from object has an empty one.
\<close>

datatype foo_event = FooConstructor | FooCopy | FooMove

record foo_world =
  fw_v :: "string list"
  fw_events :: "foo_event list"

definition foo_new :: "string \<Rightarrow> foo_world \<Rightarrow> string \<times> foo_world" where
  "foo_new n w = (n, w\<lparr>fw_events := fw_events w @ [FooConstructor]\<rparr>)"

definition foo_push_copy :: "string \<Rightarrow> foo_world \<Rightarrow> string \<times> foo_world" where
  "foo_push_copy f w = (f, w\<lparr>fw_v := fw_v w @ [f], fw_events := fw_events w @ [FooCopy]\<rparr>)"

definition foo_push_move :: "string \<Rightarrow> foo_world \<Rightarrow> string \<times> foo_world" where
  "foo_push_move f w = ([], w\<lparr>fw_v := fw_v w @ [f], fw_events := fw_events w @ [FooMove]\<rparr>)"

definition foo_emplace :: "string \<Rightarrow> foo_world \<Rightarrow> foo_world" where
  "foo_emplace n w = (let (f, w1) = foo_new n w in w1\<lparr>fw_v := fw_v w1 @ [f]\<rparr>)"

text \<open>The five blocks of \<open>main\<close>, each on the vector cleared before; \<open>push_back\<close> of a string makes a \<open>Foo\<close> first.\<close>

definition foo_blocks :: "(foo_world \<Rightarrow> foo_world) list" where
  "foo_blocks =
     [\<lambda>w. (let (temp, w1) = foo_new ''test'' w in snd (foo_push_copy temp w1)),
      \<lambda>w. (let (temp, w1) = foo_new ''test'' w in snd (foo_push_move temp w1)),
      \<lambda>w. (let (temp, w1) = foo_new ''test'' w in snd (foo_push_move temp w1)),
      \<lambda>w. (let (temp, w1) = foo_new ''test'' w in snd (foo_push_move temp w1)),
      foo_emplace ''test'']"

theorem emplace_constructs_once:
  "map (\<lambda>b. (fw_v (b \<lparr>fw_v = [], fw_events = []\<rparr>), fw_events (b \<lparr>fw_v = [], fw_events = []\<rparr>))) foo_blocks =
     [([''test''], [FooConstructor, FooCopy]), ([''test''], [FooConstructor, FooMove]), ([''test''], [FooConstructor, FooMove]),
      ([''test''], [FooConstructor, FooMove]), ([''test''], [FooConstructor])]"
  by (simp add: foo_blocks_def foo_new_def foo_push_copy_def foo_push_move_def foo_emplace_def)

end
