(* ===== verification/SmallDemos.thy ===== *)
theory SmallDemos
  imports Closures
begin

text \<open>
  The remaining small programs: \<open>src/concurrent_tools/demo2_function.cpp\<close>, the scope timer
  \<open>src/include/time_interval.h\<close> with \<open>src/rvalue_reference/demo4_emplace_back.cpp\<close> that uses it, the program
  with a memory error \<open>src/valgrind/demo1_mem_leak.cpp\<close>, and the texts of \<open>src/basic_lib/hstrerror.c\<close>.
\<close>

section \<open>Function wrappers\<close>

text \<open>A \<open>std::function\<close> holds a callable or nothing; calling an empty one throws.\<close>

datatype fn_line = IntLine int | HelloLambda | NamedLine string int

datatype fn_error = BadFunctionCall

type_synonym 'a std_function = "('a \<Rightarrow> fn_line list) option"

definition fn_call :: "'a std_function \<Rightarrow> 'a \<Rightarrow> fn_error + fn_line list" where
  "fn_call f x = (case f of None \<Rightarrow> Inl BadFunctionCall | Some g \<Rightarrow> Inr (g x))"

definition fn_func1 :: "int \<Rightarrow> fn_line list" where
  "fn_func1 a = [IntLine a]"

record fn_A = fn_name :: string

definition fn_func3 :: "fn_A \<times> int \<Rightarrow> fn_line list" where
  "fn_func3 x = [NamedLine (fn_name (fst x)) (snd x)]"

definition function_main :: "fn_error + fn_line list" where
  "function_main =
     (let func1_assigned = Some fn_func1;
          func2_assigned = Some (\<lambda>_ :: unit. [HelloLambda]);
          func3_assigned = Some fn_func3 in
      case (fn_call func1_assigned 2, fn_call func2_assigned (), fn_call func3_assigned (\<lparr>fn_name = ''darren''\<rparr>, 1)) of
        (Inr a, Inr b, Inr c) \<Rightarrow> Inr (a @ b @ c)
      | _ \<Rightarrow> Inl BadFunctionCall)"

lemma function_main_output: "function_main = Inr [IntLine 2, HelloLambda, NamedLine ''darren'' 1]"
  by (simp add: function_main_def fn_call_def fn_func1_def fn_func3_def)

section \<open>Scope timer\<close>

text \<open>
  The object remembers the clock at its construction and its destructor prints the difference. Compiled
  without \<open>GCC\<close> defined, it counts ticks of \<open>clock()\<close>; with it, \<open>gettimeofday\<close>, in whole milliseconds
  by C division.
\<close>

record TimeInterval =
  ti_detail :: string
  ti_start :: int

definition TimeInterval_ctor :: "string \<Rightarrow> int \<Rightarrow> TimeInterval" where
  "TimeInterval_ctor d clk = \<lparr>ti_detail = d, ti_start = clk\<rparr>"

definition TimeInterval_dtor :: "int \<Rightarrow> TimeInterval \<Rightarrow> string \<times> int" where
  "TimeInterval_dtor clk t = (ti_detail t, clk - ti_start t)"

definition c_div :: "int \<Rightarrow> int \<Rightarrow> int" where
  "c_div a b = sgn a * sgn b * (\<bar>a\<bar> div \<bar>b\<bar>)"

definition gcc_interval :: "int \<times> int \<Rightarrow> int \<times> int \<Rightarrow> int" where
  "gcc_interval start stop = 1000 * (fst stop - fst start) + c_div (snd stop - snd start) 1000"

text \<open>
  The variant with \<open>gettimeofday\<close> shows milliseconds: for normalised times in order it is not negative
  and differs by less than one from the exact quotient of the microseconds.
\<close>

lemma gcc_interval_ms:
  assumes "0 \<le> u" "u < 1000000" "0 \<le> v" "v < 1000000" "a * 1000000 + u \<le> b * 1000000 + v"
  shows "\<bar>1000 * gcc_interval (a, u) (b, v) - ((b - a) * 1000000 + (v - u))\<bar> < 1000 \<and> 0 \<le> gcc_interval (a, u) (b, v)"
proof -
  have ab: "a \<le> b" using assms by simp
  consider "u \<le> v" | "v < u" by linarith
  then show ?thesis
  proof cases
    case 1
    then have "c_div (v - u) 1000 = (v - u) div 1000" by (simp add: c_div_def sgn_if)
    then show ?thesis using 1 ab by (simp add: gcc_interval_def)
  next
    case 2
    then have "a < b" using assms by simp
    moreover have "c_div (v - u) 1000 = - ((u - v) div 1000)" using 2 by (simp add: c_div_def sgn_if)
    ultimately show ?thesis using 2 assms by (simp add: gcc_interval_def) linarith
  qed
qed

section \<open>Appending to a vector, timed\<close>

text \<open>
  Five blocks that each append \<open>count\<close> strings to the cleared vector; the block is the loop body. The
  elements are the strings of \<open>Closures\<close> with the events of their construction.
\<close>

definition ceshi_blocks :: "(string \<times> (foo_world \<Rightarrow> foo_world)) list" where
  "ceshi_blocks =
     [(''push_back string:'', \<lambda>w. (let (temp, w1) = foo_new ''ceshi'' w in snd (foo_push_copy temp w1))),
      (''push_back move(string):'', \<lambda>w. (let (temp, w1) = foo_new ''ceshi'' w in snd (foo_push_move temp w1))),
      (''push_back(string):'', \<lambda>w. (let (temp, w1) = foo_new ''ceshi'' w in snd (foo_push_move temp w1))),
      (''push_back(c string):'', \<lambda>w. (let (temp, w1) = foo_new ''ceshi'' w in snd (foo_push_move temp w1))),
      (''emplace_back(c string):'', foo_emplace ''ceshi'')]"

fun repeat_body :: "nat \<Rightarrow> (foo_world \<Rightarrow> foo_world) \<Rightarrow> foo_world \<Rightarrow> foo_world" where
  "repeat_body 0 b w = w"
| "repeat_body (Suc n) b w = repeat_body n b (b w)"

definition ceshi_main :: "nat \<Rightarrow> (string \<times> foo_world) list" where
  "ceshi_main count = map (\<lambda>(d, b). (d, repeat_body count b \<lparr>fw_v = [], fw_events = []\<rparr>)) ceshi_blocks"

lemma repeat_body_grows:
  assumes "\<And>w. b w = w\<lparr>fw_v := fw_v w @ [x], fw_events := fw_events w @ es\<rparr>"
  shows "repeat_body n b w = w\<lparr>fw_v := fw_v w @ replicate n x, fw_events := fw_events w @ concat (replicate n es)\<rparr>"
  by (induction n arbitrary: w) (simp_all add: assms)

text \<open>
  Every block leaves the same vector, \<open>count\<close> strings; per element the first runs a copy constructor, the next
  three a move constructor, the last neither.
\<close>

theorem ceshi_main_result:
  "map (\<lambda>(d, w). (fw_v w, length (fw_events w))) (ceshi_main count) =
     [(replicate count ''ceshi'', 2 * count), (replicate count ''ceshi'', 2 * count), (replicate count ''ceshi'', 2 * count),
      (replicate count ''ceshi'', 2 * count), (replicate count ''ceshi'', count)]"
proof -
  note d = foo_new_def foo_push_copy_def foo_push_move_def foo_emplace_def
  have "repeat_body count (\<lambda>w. let (temp, w1) = foo_new ''ceshi'' w in snd (foo_push_copy temp w1)) w =
      w\<lparr>fw_v := fw_v w @ replicate count ''ceshi'', fw_events := fw_events w @ concat (replicate count [FooConstructor, FooCopy])\<rparr>" for w
    by (rule repeat_body_grows) (simp add: d)
  moreover have "repeat_body count (\<lambda>w. let (temp, w1) = foo_new ''ceshi'' w in snd (foo_push_move temp w1)) w =
      w\<lparr>fw_v := fw_v w @ replicate count ''ceshi'', fw_events := fw_events w @ concat (replicate count [FooConstructor, FooMove])\<rparr>" for w
    by (rule repeat_body_grows) (simp add: d)
  moreover have "repeat_body count (foo_emplace ''ceshi'') w =
      w\<lparr>fw_v := fw_v w @ replicate count ''ceshi'', fw_events := fw_events w @ concat (replicate count [FooConstructor])\<rparr>" for w
    by (rule repeat_body_grows) (simp add: d)
  ultimately show ?thesis
    by (simp add: ceshi_main_def ceshi_blocks_def length_concat sum_list_replicate)
qed

section \<open>A write past a block\<close>

text \<open>\<open>p[10] = 0\<close> after \<open>malloc(10 * sizeof(int))\<close>; the block, if there is one, is never freed.\<close>

definition leak_fun :: "bytes option \<Rightarrow> bytes c_res" where
  "leak_fun p = (case p of None \<Rightarrow> Inl NullDeref | Some blk \<Rightarrow> mem_write blk (10 * 4) [0, 0, 0, 0])"

lemma leak_fun_fails:
  assumes "\<And>blk. p = Some blk \<Longrightarrow> length blk = 10 * 4"
  shows "\<exists>er. leak_fun p = Inl er"
  using assms by (cases p) (auto simp: leak_fun_def mem_write_def)

section \<open>Texts of resolver errors\<close>

definition hstrerror :: "int \<Rightarrow> string" where
  "hstrerror err =
     (if err = 0 then ''no error''
      else if err = 1 then ''Unknown host''
      else if err = 2 then ''Hostname lookup failure''
      else if err = 3 then ''Unknown server error''
      else if err = 4 then ''No address associated with name''
      else ''unknown error'')"

lemma hstrerror_distinct: "inj_on hstrerror {0..5}"
proof -
  have e: "{0..5} = {0, 1, 2, 3, 4, 5 :: int}" by auto
  show ?thesis unfolding e by (simp add: hstrerror_def)
qed

end
