(* ===== verification/Futures.thy ===== *)
theory Futures
  imports Monitor
begin

text \<open>
  Values that one thread makes and another one waits for: \<open>std::promise\<close> (\<open>src/future/demo3_promise.cpp\<close>),
  \<open>std::async\<close> (\<open>demo1_future.cpp\<close>) and \<open>std::packaged_task\<close> (\<open>demo2_package_task.cpp\<close>). The programs have one thread
  that prints lines and stores a value, and a main thread that starts it, prints, gets the value from the
  future and waits for the thread.
\<close>

section \<open>A thread that makes a value\<close>

datatype 'l stmt = Say 'l | Spawn | Get | Join

text \<open>
  The statement the main thread is at, the one the other thread is at once it is started, the shared state of promise
  and future, and the lines, each with the mark of the main thread or not.
\<close>

record ('v, 'l) fu_state =
  fu_pc :: nat
  fu_wpc :: "nat option"
  fu_val :: "'v option"
  fu_out :: "(bool \<times> 'l) list"

definition fu_new :: "('v, 'l) fu_state" where
  "fu_new = \<lparr>fu_pc = 0, fu_wpc = None, fu_val = None, fu_out = []\<rparr>"

text \<open>\<open>get\<close> waits until the value is there; \<open>res v\<close> is the line printed with it.\<close>

definition main_step :: "'l stmt list \<Rightarrow> ('v \<Rightarrow> 'l) \<Rightarrow> nat \<Rightarrow> ('v, 'l) fu_state \<Rightarrow> ('v, 'l) fu_state option" where
  "main_step prog res wlen s =
     (if fu_pc s < length prog then
        (case prog ! fu_pc s of
           Say l \<Rightarrow> Some (s\<lparr>fu_pc := fu_pc s + 1, fu_out := fu_out s @ [(True, l)]\<rparr>)
         | Spawn \<Rightarrow> Some (s\<lparr>fu_pc := fu_pc s + 1, fu_wpc := Some 0\<rparr>)
         | Get \<Rightarrow> map_option (\<lambda>v. s\<lparr>fu_pc := fu_pc s + 1, fu_out := fu_out s @ [(True, res v)]\<rparr>) (fu_val s)
         | Join \<Rightarrow> if fu_wpc s = Some (wlen + 1) then Some (s\<lparr>fu_pc := fu_pc s + 1\<rparr>) else None)
      else None)"

definition worker_step :: "'l list \<Rightarrow> 'v \<Rightarrow> ('v, 'l) fu_state \<Rightarrow> ('v, 'l) fu_state option" where
  "worker_step ls v s =
     (case fu_wpc s of
        None \<Rightarrow> None
      | Some k \<Rightarrow>
          if k < length ls then Some (s\<lparr>fu_wpc := Some (k + 1), fu_out := fu_out s @ [(False, ls ! k)]\<rparr>)
          else if k = length ls then Some (s\<lparr>fu_wpc := Some (k + 1), fu_val := Some v\<rparr>)
          else None)"

definition fu_step :: "'l stmt list \<Rightarrow> ('v \<Rightarrow> 'l) \<Rightarrow> 'l list \<Rightarrow> 'v \<Rightarrow> ('v, 'l) fu_state \<Rightarrow> ('v, 'l) fu_state \<Rightarrow> bool" where
  "fu_step prog res ls v s s' \<longleftrightarrow> main_step prog res (length ls) s = Some s' \<or> worker_step ls v s = Some s'"

definition fu_init :: "('v, 'l) fu_state \<Rightarrow> bool" where
  "fu_init s \<longleftrightarrow> s = fu_new"

text \<open>The thread is started once, before its value is wanted and before it is waited for.\<close>

definition fu_prog :: "'l stmt list \<Rightarrow> bool" where
  "fu_prog prog \<longleftrightarrow>
     list_all (\<lambda>i. case prog ! i of
                     Say _ \<Rightarrow> True
                   | Spawn \<Rightarrow> Spawn \<notin> set (take i prog)
                   | Get \<Rightarrow> Spawn \<in> set (take i prog)
                   | Join \<Rightarrow> Spawn \<in> set (take i prog)) [0..<length prog]"

lemma fu_progD:
  assumes "fu_prog prog" "i < length prog"
  shows "prog ! i = Spawn \<Longrightarrow> Spawn \<notin> set (take i prog)" "prog ! i = Get \<or> prog ! i = Join \<Longrightarrow> Spawn \<in> set (take i prog)"
  using assms by (auto simp: fu_prog_def list_all_iff dest!: bspec [of _ _ i])

fun stmt_line :: "'l \<Rightarrow> 'l stmt \<Rightarrow> 'l list" where
  "stmt_line r (Say l) = [l]" | "stmt_line r Get = [r]" | "stmt_line r _ = []"

definition fu_inv :: "'l stmt list \<Rightarrow> ('v \<Rightarrow> 'l) \<Rightarrow> 'l list \<Rightarrow> 'v \<Rightarrow> ('v, 'l) fu_state \<Rightarrow> bool" where
  "fu_inv prog res ls v s \<longleftrightarrow>
     fu_pc s \<le> length prog \<and> (fu_wpc s \<noteq> None \<longleftrightarrow> Spawn \<in> set (take (fu_pc s) prog)) \<and>
     (\<forall>k. fu_wpc s = Some k \<longrightarrow> k \<le> length ls + 1) \<and>
     fu_val s = (if fu_wpc s = Some (length ls + 1) then Some v else None) \<and>
     map snd (filter fst (fu_out s)) = concat (map (stmt_line (res v)) (take (fu_pc s) prog)) \<and>
     map snd (filter (\<lambda>l. \<not> fst l) (fu_out s)) = (case fu_wpc s of None \<Rightarrow> [] | Some k \<Rightarrow> take k ls) \<and>
     (Join \<in> set (take (fu_pc s) prog) \<longrightarrow> fu_wpc s = Some (length ls + 1))"

lemma main_step_inv:
  assumes wf: "fu_prog prog" and inv: "fu_inv prog res ls v s" and st: "main_step prog res (length ls) s = Some s'"
  shows "fu_inv prog res ls v s'"
proof -
  have lt: "fu_pc s < length prog" using st by (simp add: main_step_def split: if_splits)
  note tk = take_Suc_conv_app_nth [OF lt]
  have val: "fu_val s = Some x \<Longrightarrow> x = v" for x using inv by (auto simp: fu_inv_def split: if_splits)
  show ?thesis
  proof (cases "prog ! fu_pc s")
    case Spawn
    then have "Spawn \<notin> set (take (fu_pc s) prog)" using fu_progD(1) [OF wf lt] by simp
    then show ?thesis using st lt inv tk Spawn by (auto simp: main_step_def fu_inv_def)
  next
    case Get
    then show ?thesis using st lt inv tk val by (auto simp: main_step_def fu_inv_def)
  qed (use st lt inv tk in \<open>auto simp: main_step_def fu_inv_def split: if_splits\<close>)
qed

lemma worker_step_inv:
  assumes inv: "fu_inv prog res ls v s" and st: "worker_step ls v s = Some s'"
  shows "fu_inv prog res ls v s'"
  using st inv
  by (auto simp: worker_step_def fu_inv_def take_Suc_conv_app_nth split: option.splits if_splits)

lemma fu_reach_inv:
  assumes "fu_prog prog"
  shows "reachable fu_init (fu_step prog res ls v) s \<Longrightarrow> fu_inv prog res ls v s"
proof (erule reachable_invariant)
  show "fu_inv prog res ls v s" if "fu_init s" for s using that by (simp add: fu_init_def fu_new_def fu_inv_def)
  show "fu_inv prog res ls v s'"
    if "reachable fu_init (fu_step prog res ls v) s" "fu_inv prog res ls v s" "fu_step prog res ls v s s'" for s s'
    using that(2,3) main_step_inv [OF assms] worker_step_inv by (auto simp: fu_step_def)
qed

text \<open>
  A value handed over by a promise or by an asynchronous call, for every program of this shape and every interleaving:
  until the main thread has ended, one of the two can go on; \<open>get\<close> returns the value stored and not
  before it is stored; at the end the main thread has printed exactly its lines, with the value in the line of \<open>get\<close>, and if
  it waited for the thread that one has printed all of its lines.
\<close>

theorem future_delivers:
  assumes "fu_prog prog" "reachable fu_init (fu_step prog res ls v) s"
  shows "(fu_pc s < length prog \<longrightarrow> (\<exists>s'. fu_step prog res ls v s s')) \<and> (\<forall>x. fu_val s = Some x \<longrightarrow> x = v) \<and>
    (fu_pc s = length prog \<longrightarrow> map snd (filter fst (fu_out s)) = concat (map (stmt_line (res v)) prog)) \<and>
    (fu_pc s = length prog \<and> Join \<in> set prog \<longrightarrow> map snd (filter (\<lambda>l. \<not> fst l) (fu_out s)) = ls)"
proof -
  have inv: "fu_inv prog res ls v s" by (rule fu_reach_inv [OF assms])
  have p: "\<exists>s'. fu_step prog res ls v s s'" if lt: "fu_pc s < length prog"
  proof (cases "main_step prog res (length ls) s")
    case None
    then have "prog ! fu_pc s = Get \<or> prog ! fu_pc s = Join" using lt by (cases "prog ! fu_pc s") (auto simp: main_step_def)
    then have "Spawn \<in> set (take (fu_pc s) prog)" using fu_progD(2) [OF assms(1) lt] by simp
    then obtain k where k: "fu_wpc s = Some k" "k \<le> length ls + 1" using inv by (auto simp: fu_inv_def)
    moreover have "k \<noteq> length ls + 1"
    proof
      assume "k = length ls + 1"
      then show False using None lt inv k(1) by (cases "prog ! fu_pc s") (auto simp: main_step_def fu_inv_def)
    qed
    ultimately have "\<exists>s'. worker_step ls v s = Some s'" by (auto simp: worker_step_def)
    then show ?thesis by (auto simp: fu_step_def)
  qed (auto simp: fu_step_def)
  show ?thesis using p inv by (auto simp: fu_inv_def split: if_splits)
qed

section \<open>The programs\<close>

text \<open>\<open>demo3_promise.cpp\<close>: two promises one after the other, with the lines of \<open>print1\<close> and \<open>print2\<close>.\<close>

definition promise_main1 :: "string stmt list" where
  "promise_main1 = [Say ''main1 -------------'', Spawn, Say ''do_some_other_things'', Say ''wait get result'', Get, Join]"

definition print1 :: "string list \<times> string" where
  "print1 = ([''print1 sleep''], ''set string'')"

definition promise_main2 :: "string stmt list" where
  "promise_main2 = [Say ''main2 -------------'', Spawn, Say ''do_some_other_things'', Get, Join]"

definition print2 :: "string list \<times> int" where
  "print2 = ([''print2 sleep''], 1)"

text \<open>\<open>demo1_future.cpp\<close> when \<open>std::async\<close> starts a thread; the future's destructor waits for it.\<close>

definition find_result_to_add :: "string list \<times> int" where
  "find_result_to_add = ([''find_result_to_add''], 1 + 1)"

definition find_result_to_add2 :: "int \<Rightarrow> int \<Rightarrow> string list \<times> int" where
  "find_result_to_add2 a b = ([], a + b)"

definition async_main1 :: "string stmt list" where
  "async_main1 = [Spawn, Say ''do_other_things'', Get, Join]"

definition async_main2 :: "string stmt list" where
  "async_main2 = [Spawn, Get, Join]"

text \<open>The same when \<open>std::async\<close> defers the call: \<open>get\<close> makes it, in the main thread.\<close>

fun deferred_run :: "string stmt list \<Rightarrow> (int \<Rightarrow> string) \<Rightarrow> string list \<times> int \<Rightarrow> string list" where
  "deferred_run [] res w = []"
| "deferred_run (Say l # p) res w = l # deferred_run p res w"
| "deferred_run (Get # p) res w = fst w @ [res (snd w)] @ deferred_run p res w"
| "deferred_run (Spawn # p) res w = deferred_run p res w"
| "deferred_run (Join # p) res w = deferred_run p res w"

text \<open>
  \<open>demo2_package_task.cpp\<close>: everything is done by one thread. \<open>called\<close> says whether the task is called before
  \<open>get\<close>; \<open>None\<close> means that \<open>get\<close> waits for ever.
\<close>

definition add_task :: "int \<Rightarrow> int \<Rightarrow> int \<Rightarrow> string list \<times> int" where
  "add_task a b c = ([''call add''], a + b + c)"

definition package_main :: "bool \<Rightarrow> (string list \<times> int) option" where
  "package_main called =
     (let result = (if called then Some (add_task 1 1 2) else None)
      in case result of
           None \<Rightarrow> None
         | Some (ls, v) \<Rightarrow> Some (''do_other_things'' # ls, v))"

lemma future_programs_shape: "fu_prog promise_main1" "fu_prog promise_main2" "fu_prog async_main1" "fu_prog async_main2"
  by code_simp+

theorem future_delivers_witness:
  "\<exists>s'. fu_step promise_main1 id (fst print1) (snd print1) fu_new s'"
  using future_delivers [OF future_programs_shape(1) reach_init, of fu_new id "fst print1" "snd print1"]
  by (simp add: fu_init_def fu_new_def promise_main1_def)

text \<open>
  What the programs print. The result of the promise is the string that the thread stored; the calls of \<open>std::async\<close> give 2
  and 30, whether they are deferred or not; the packaged task gives 4 when it is called and \<open>get\<close> never returns
  when it is not.
\<close>

theorem future_programs:
  assumes "reachable fu_init (fu_step promise_main1 id (fst print1) (snd print1)) s1" "fu_pc s1 = 6"
    and "reachable fu_init (fu_step async_main2 res (fst (find_result_to_add2 10 20)) (snd (find_result_to_add2 10 20))) s2" "fu_pc s2 = 3"
  shows "map snd (filter fst (fu_out s1)) = [''main1 -------------'', ''do_some_other_things'', ''wait get result'', ''set string''] \<and>
    map snd (filter (\<lambda>l. \<not> fst l) (fu_out s1)) = [''print1 sleep''] \<and>
    map snd (filter fst (fu_out s2)) = [res 30] \<and> deferred_run async_main2 res (find_result_to_add2 10 20) = [res 30] \<and>
    deferred_run async_main1 res find_result_to_add = [''do_other_things'', ''find_result_to_add'', res 2] \<and>
    package_main True = Some ([''do_other_things'', ''call add''], 4) \<and> package_main False = None"
  using future_delivers [OF future_programs_shape(1) assms(1)] future_delivers [OF future_programs_shape(4) assms(3)] assms(2,4)
  by (simp add: promise_main1_def print1_def async_main2_def async_main1_def find_result_to_add_def find_result_to_add2_def
      package_main_def add_task_def)

end
