(* ===== verification/Spec2Isabelle.thy ===== *)
theory Spec2Isabelle
  imports Dns C1000k C1000kClient SyncQueueDemo SimpleQueueDemo QueueSpec PoolTest DnsMains LibevEcho EchoClients ProcUtil Replacements DemoServers SockSetup Rtt Mcast IfiInfo Ownership SmartPtr MutexDemo Wrappers SyncDemos Jumps ThreadDemo SmallDemos Futures
begin

text \<open>
  Verification of the C and C++ programs of this repository: network servers and clients, the socket library
  of \<open>src/basic_lib/\<close> they are written with, a thread pool and blocking queues, and the programs that
  demonstrate threads, mutexes, ownership and smart pointers.

  \<^bold>\<open>How the programs are modelled.\<close> Each theory translates the functions of one component. A C struct is a
  record, a fixed-size array a list of bytes of that length, memory an explicit heap or store where pointers
  are shared. What has no defined behaviour (a null pointer followed, an array left, a block freed twice, an
  indeterminate value used) is a value of \<open>c_err\<close> in the left summand of \<open>c_res\<close>; a process that ends with a
  code is \<open>Exited\<close>, and a function that goes on is \<open>Returned\<close> (\<open>Prelude\<close>). The answers of the operating
  system and of the peers (what \<open>recv\<close> delivers, which descriptors are ready, what \<open>accept\<close> returns) are
  arguments: every theorem holds for all of them, or names those that are possible as a hypothesis. An event
  loop is one definition per handler and one for a round; a run is a sequence of rounds. A program with
  threads is a step relation in which each access to shared data, each lock and each wake-up is one step, and
  the theorems hold in every reachable state, for every interleaving (\<open>Monitor\<close>).

  \<^bold>\<open>Interfaces.\<close> \<open>Monitor\<close> states as locales what a component does with its mutex (\<open>mutex_protocol\<close>) and
  with its queue (\<open>fifo_log\<close>, \<open>bounded_fifo\<close>) and proves exclusion and order once; \<open>SyncQueue\<close>,
  \<open>SimpleSyncQueue\<close>, \<open>ThreadPool\<close>, \<open>MutexDemo\<close> and \<open>SyncDemos\<close> interpret them on their own steps. Its locale
  \<open>simulation\<close> says when one step relation implements another under an abstraction, and carries
  invariants over: \<open>QueueSpec\<close> interprets it on the queues and the pool against their atomic
  specifications, \<open>SyncQueueDemo\<close>, \<open>SimpleQueueDemo\<close> and \<open>PoolTest\<close> on programs against the container they use.
  \<open>Reactor\<close> states the table of items that the server relies on and interprets it on the list of blocks;
  \<open>Ownership\<close> states what a class that owns memory promises and interprets it on the deep copy and on the
  move. \<open>Explore\<close> states when the states explored from the start of a program are all it reaches, and
  \<open>ThreadDemo\<close> interprets it on its two programs. The other locales stand with the components that provide them.

  \<^bold>\<open>The theories\<close>, with the sources they translate and what they show.

  \<^item> \<open>Dns\<close> (\<open>network/dns/sync_dns_client.cpp\<close>): queries and responses as bytes. The query built for a name
    is the encoding of RFC 1035 and is read back by the parser; parsing a response with compressed names (pointers
    below 256, names that fit the arrays of 128 bytes) gives exactly its addresses; building never leaves its buffers; longer names, and
    compression pointers that form a loop, break the parser. \<open>AsyncDns\<close> (\<open>async_dns_client.cpp\<close>) uses these
    definitions for the event thread: a query is answered once, its socket, registration, context and result are
    released once; the block of the query's name is not, and is accounted for. \<open>DnsMains\<close> composes both with their \<open>main\<close>: all names of the table are queried in order,
    and when all answers have come nothing is left open, and allocated is exactly one such block per query.
  \<^item> \<open>Reactor\<close>, \<open>C1000k\<close>, \<open>C1000kClient\<close> (\<open>network/demo4_c1000k_server.cpp\<close>, \<open>demo4_c1000k_client.cpp\<close>): the
    linked list of blocks refines a flat table; the event loop keeps the ownership of all buffers in every
    reachable state and never follows a bad pointer while memory lasts, and hangs in one case when it has run out; what it sends back; the bounds of the load generator.
  \<^item> \<open>SyncQueue\<close>, \<open>SimpleSyncQueue\<close>, \<open>SyncQueueDemo\<close>, \<open>SimpleQueueDemo\<close> (\<open>condition_variable/\<close>): order, capacity, exclusion,
    no lost wake-up, and the programs over them, which print what they should and come to an end. \<open>ThreadPool\<close> (\<open>thread_pool/\<close>): every task is handled once, in
    the order of submission; workers end after \<open>stop\<close>; the ways in which \<open>wait_for_all_done\<close> goes wrong.
    \<open>PoolTest\<close> (\<open>thread_pool/test_threadpool.cpp\<close>) composes it with the test programs, which always complete.
    \<open>QueueSpec\<close>: both queues refine an atomic queue, and the pool refines a pool without workers.
  \<^item> \<open>EchoServers\<close>, \<open>EchoClients\<close>, \<open>ConnServers\<close> (\<open>network/echo/\<close>), \<open>UdpEcho\<close> (\<open>network/udp/\<close>), \<open>LibevEcho\<close>
    (\<open>libev/\<close>), \<open>DemoServers\<close> (\<open>network/demo1\<close> to \<open>demo3\<close>): what is passed to \<open>write\<close> for a connection is what was read
    from it, in order. Most of these programs ignore the result of \<open>write\<close>: the model logs it, and the theorems say when the peer has got everything.
    Bounds of the descriptor arrays and sets; children and threads; what happens at the limits.
  \<^item> \<open>Errors\<close>, \<open>StreamIO\<close>, \<open>SockSetup\<close>, \<open>SockAddr\<close>, \<open>Mcast\<close>, \<open>Rtt\<close>, \<open>IfiInfo\<close>, \<open>ProcUtil\<close>, \<open>Wrappers\<close>, \<open>Replacements\<close>
    (\<open>basic_lib/\<close>): exact reads and writes over short and interrupted calls, lines, the echo session over a connection that stays open, the search for a usable
    address, addresses of every family, the two variants of the multicast options on the bytes they copy, the retransmission timer
    under every rounding, the list of interfaces, descriptor passing, daemons and signals, the wrappers
    that end the process when a call fails, and the functions for systems that lack them.
  \<^item> \<open>Ownership\<close> (\<open>rvalue_reference/\<close>), \<open>SmartPtr\<close> (\<open>shared_ptr/\<close>), \<open>MutexDemo\<close>, \<open>SyncDemos\<close> (\<open>mutex/\<close>,
    \<open>concurrent_tools/demo1_call_once.cpp\<close>, \<open>atomic/\<close>), \<open>Futures\<close> (\<open>future/\<close>): who frees what, use counts, guards and
    exceptions, calling once, values that one thread makes and another waits for. \<open>Jumps\<close> (\<open>exception/\<close>, \<open>longjmp/\<close>)
    and \<open>Closures\<close> (\<open>lambda/\<close>, \<open>concurrent_tools/demo3_bind.cpp\<close>, \<open>variable_parameter/\<close>): control flow and captured
    variables. \<open>ThreadDemo\<close> (\<open>thread/\<close>): ownership of threads by their objects. \<open>SmallDemos\<close>: function
    wrappers, the scope timer, and the programs that go with them.

  \<^bold>\<open>Loops and fuel.\<close> Loops over a list or an array are structural recursion or have a measure. A loop that
  may not end is a partial function into \<open>option\<close>, with \<open>None\<close> for a run that never ends (\<open>dns_parse_name\<close>
  over compression pointers, \<open>last_block\<close> and \<open>grow\<close> of the reactor): the theorems state when there is a
  result and, for a loop of pointers and for exhausted memory, that there is none. \<open>conf_loop\<close> of
  \<open>get_ifi_info\<close> has fuel; two rounds more than there are records are shown to be enough. \<open>explore\<close> has fuel for the proof only:
  its result is used where it has visited every state. Endless server
  loops are modelled by their rounds.

  \<^bold>\<open>Integers.\<close> Bytes, ports, lengths on the wire, flags and event masks are words of their width. Counters
  that cannot reach the bounds of \<open>int\<close> in the modelled runs are unbounded. The floating-point values of the
  retransmission timer are rationals with an arbitrary monotone rounding after each operation.

  \<^bold>\<open>Not modelled.\<close> Configuration headers and prototypes (\<open>unp.h\<close>, \<open>config.h\<close>, of which only the constants
  in use appear); functions compiled on BSD only (\<open>Kqueue\<close>, \<open>Kevent\<close>); the wall-clock (\<open>sleep\<close>, \<open>usleep\<close>, time-outs are
  steps that may happen); the text of diagnostic output where nothing depends on it; weak memory (accesses
  to shared data interleave). libev, the C library and the kernel are known only by their documented effects,
  which are arguments of the definitions.
\<close>

end
